(* ===== verification/Prelude.thy ===== *)
theory Prelude
  imports Main "HOL-Library.Monad_Syntax"
begin

text \<open>
  What the component theories share: the reading of C undefined behaviour and failed
  assertions as the value \<open>None\<close> of an option, the lemma collections the component proofs
  draw on, C's truncated remainder, and generic facts on lists and maps.
\<close>

section \<open>Results of C code\<close>

text \<open>
  A piece of C code that may dereference an invalid pointer, index an array out of its bounds
  or fail an \<open>assert\<close> returns an option: \<open>None\<close> is such a fault (and, for a
  \<^theory_text>\<open>partial_function\<close>, a loop that never ends), \<open>Some r\<close> a normal result.
\<close>

type_synonym addr = nat
type_synonym ptr = "addr option"

definition c_assert :: "bool \<Rightarrow> unit option" where
  "c_assert b = (if b then Some () else None)"

lemma c_assert_simps [simp]: "c_assert True = Some ()" "c_assert False = None"
  by (simp_all add: c_assert_def)

lemma bind_c_assert: "Option.bind (c_assert b) f = (if b then f () else None)"
  by (simp add: c_assert_def)

lemma bind_c_assert_Some [simp]: "Option.bind (c_assert b) f = Some r \<longleftrightarrow> b \<and> f () = Some r"
  by (simp add: c_assert_def)

lemma bind_if_distrib:
  "Option.bind (if b then x else y) f = (if b then Option.bind x f else Option.bind y f)"
  by simp

section \<open>C arithmetic\<close>

text \<open>C's \<open>%\<close> on signed operands truncates towards zero: the result has the dividend's sign.\<close>

definition c_mod :: "int \<Rightarrow> int \<Rightarrow> int" where
  "c_mod a b = sgn a * (\<bar>a\<bar> mod \<bar>b\<bar>)"

lemma c_mod_nonneg: "0 \<le> a \<Longrightarrow> 0 < b \<Longrightarrow> c_mod a b = a mod b"
  by (cases "a = 0") (simp_all add: c_mod_def)

lemma c_mod_neg: "a < 0 \<Longrightarrow> 0 < b \<Longrightarrow> c_mod a b = - ((- a) mod b)"
  by (simp add: c_mod_def)

section \<open>Lists and maps\<close>

lemma length_remove1_mem: "x \<in> set xs \<Longrightarrow> Suc (length (remove1 x xs)) = length xs"
  by (induction xs) auto

text \<open>Replacing an element by one of smaller weight.\<close>

lemma sum_list_update_less:
  fixes f :: "'a \<Rightarrow> nat"
  assumes "i < length xs" "f y < f (xs ! i)"
  shows "sum_list (map f (xs[i := y])) < sum_list (map f xs)"
  using assms
proof (induction xs arbitrary: i)
  case (Cons x xs)
  then show ?case by (cases i) auto
qed simp

end
