(* ===== verification/Thread_Defs.thy ===== *)
theory Thread_Defs
  imports Prelude
begin

text \<open>
  The constants and enumerations of the thread library's public header
  (\<open>src/threads/thread.h\<close>) and of \<open>src/threads/thread.c\<close>.
\<close>

type_synonym tid = int

definition THREAD_MAX_THREADS :: int where "THREAD_MAX_THREADS = 1024"
definition THREAD_MIN_STACK :: int where "THREAD_MIN_STACK = 32768"

definition THREAD_ANY :: tid where "THREAD_ANY = -1"
definition THREAD_SELF :: tid where "THREAD_SELF = -2"
definition THREAD_INVALID :: tid where "THREAD_INVALID = -3"
definition THREAD_NONE :: tid where "THREAD_NONE = -4"
definition THREAD_NOMORE :: tid where "THREAD_NOMORE = -5"
definition THREAD_NOMEMORY :: tid where "THREAD_NOMEMORY = -6"
definition THREAD_FAILED :: tid where "THREAD_FAILED = -7"

lemmas thread_consts =
  THREAD_MAX_THREADS_def THREAD_ANY_def THREAD_SELF_def THREAD_INVALID_def THREAD_NONE_def
  THREAD_NOMORE_def THREAD_NOMEMORY_def THREAD_FAILED_def

definition thread_ret_ok :: "tid \<Rightarrow> bool" where
  "thread_ret_ok ret \<longleftrightarrow> ret \<ge> 0"

text \<open>\<open>thread_states\<close>: the state of a thread control block, with C's numbering.\<close>

datatype thread_states = READY | RUNNING | EXITED | KILLED | UNINITIALIZED | SLEEP

fun state_code :: "thread_states \<Rightarrow> int" where
  "state_code READY = 0"
| "state_code RUNNING = 1"
| "state_code EXITED = -1"
| "state_code KILLED = -2"
| "state_code UNINITIALIZED = -3"
| "state_code SLEEP = 2"

lemma state_code_inj: "state_code a = state_code b \<Longrightarrow> a = b"
  by (cases a; cases b) simp_all

end
