(* ===== verification/Thread_Queue.thy ===== *)
theory Thread_Queue
  imports Thread_Defs
begin

text \<open>
  The FIFO queues of \<open>src/threads/thread.c\<close> at the level of pointers: \<open>struct thread_node\<close>
  cells linked through \<open>next\<close>, \<open>struct wait_queue\<close> with its \<open>head\<close> and
  \<open>tail\<close> pointers, and the three queue operations, each with the disabling and restoring of
  interrupts as the code has it. What \<open>malloc\<close> answers is an argument (\<open>None\<close> is the
  NULL result); the theorems assume no more of it than that the address is not in use.
  The operations are shown to refine lists of thread identifiers, through the interface
  \<open>wait_queue_store\<close> that the scheduler's model rests on.
\<close>

section \<open>Data\<close>

text \<open>\<open>struct thread_node\<close> and \<open>struct wait_queue\<close>; \<open>None\<close> is NULL.\<close>

record thread_node =
  tnumber :: tid
  nxt :: ptr

record wait_queue =
  head :: ptr
  tail :: ptr

text \<open>The memory the queue code touches: live nodes, live queue structs, the interrupt state.\<close>

record qmem =
  nodes :: "addr \<Rightarrow> thread_node option"
  wqs :: "addr \<Rightarrow> wait_queue option"
  enabled :: bool

section \<open>Operations\<close>

definition set_up_r_q :: "addr \<Rightarrow> qmem \<Rightarrow> qmem option" where
  "set_up_r_q r m = do {
     q \<leftarrow> wqs m r;
     Some (m\<lparr>wqs := (wqs m)(r \<mapsto> \<lparr>head = None, tail = None\<rparr>)\<rparr>) }"

definition wait_queue_create_heap :: "ptr \<Rightarrow> qmem \<Rightarrow> (addr \<times> qmem) option" where
  "wait_queue_create_heap mal m = do {
     a \<leftarrow> mal;
     Some (a, m\<lparr>wqs := (wqs m)(a \<mapsto> \<lparr>head = None, tail = None\<rparr>)\<rparr>) }"

definition enqueue_heap :: "ptr \<Rightarrow> tid \<Rightarrow> addr \<Rightarrow> qmem \<Rightarrow> qmem option" where
  "enqueue_heap mal i r m = do {
     let en = enabled m;
     let m = m\<lparr>enabled := False\<rparr>;
     q \<leftarrow> wqs m r;
     (if head q = None then do {
        new_node \<leftarrow> mal;
        let m = m\<lparr>nodes := (nodes m)(new_node \<mapsto> \<lparr>tnumber = i, nxt = None\<rparr>)\<rparr>;
        let m = m\<lparr>wqs := (wqs m)(r \<mapsto> \<lparr>head = Some new_node, tail = Some new_node\<rparr>)\<rparr>;
        Some (m\<lparr>enabled := en\<rparr>) }
      else do {
        new_node \<leftarrow> mal;
        let m = m\<lparr>nodes := (nodes m)(new_node \<mapsto> \<lparr>tnumber = i, nxt = None\<rparr>)\<rparr>;
        t \<leftarrow> tail q;
        n \<leftarrow> nodes m t;
        let m = m\<lparr>nodes := (nodes m)(t \<mapsto> n\<lparr>nxt := Some new_node\<rparr>)\<rparr>;
        let m = m\<lparr>wqs := (wqs m)(r \<mapsto> q\<lparr>tail := Some new_node\<rparr>)\<rparr>;
        Some (m\<lparr>enabled := en\<rparr>) }) }"

definition dequeue_element_from_head_heap :: "addr \<Rightarrow> qmem \<Rightarrow> (tid \<times> qmem) option" where
  "dequeue_element_from_head_heap r m = do {
     let en = enabled m;
     let m = m\<lparr>enabled := False\<rparr>;
     q \<leftarrow> wqs m r;
     (case head q of
        None \<Rightarrow> Some (THREAD_NONE, m\<lparr>enabled := en\<rparr>)
      | Some h \<Rightarrow> do {
          n \<leftarrow> nodes m h;
          (if nxt n \<noteq> None then
             Some (tnumber n, m\<lparr>wqs := (wqs m)(r \<mapsto> q\<lparr>head := nxt n\<rparr>),
                                nodes := (nodes m)(h := None), enabled := en\<rparr>)
           else
             Some (tnumber n, m\<lparr>nodes := (nodes m)(h := None),
                                wqs := (wqs m)(r \<mapsto> q\<lparr>head := None, tail := None\<rparr>),
                                enabled := en\<rparr>)) }) }"

text \<open>
  The search loop of \<open>dequeue_element\<close>: \<open>p1\<close> is the node before \<open>p2\<close>. A result
  \<open>Some id\<close> is the \<open>return id\<close> inside the loop, \<open>None\<close> is falling out of it.
\<close>

partial_function (option) dequeue_element_loop ::
  "tid \<Rightarrow> addr \<Rightarrow> addr \<Rightarrow> ptr \<Rightarrow> qmem \<Rightarrow> (tid option \<times> qmem) option" where
  "dequeue_element_loop i r p1 p2 m =
     (case p2 of
        None \<Rightarrow> Some (None, m)
      | Some a2 \<Rightarrow> do {
          n2 \<leftarrow> nodes m a2;
          (if tnumber n2 = i then do {
             n1 \<leftarrow> nodes m p1;
             let m = m\<lparr>nodes := (nodes m)(p1 \<mapsto> n1\<lparr>nxt := nxt n2\<rparr>)\<rparr>;
             q \<leftarrow> wqs m r;
             let m = (if tail q = Some a2 then m\<lparr>wqs := (wqs m)(r \<mapsto> q\<lparr>tail := Some p1\<rparr>)\<rparr> else m);
             Some (Some i, m\<lparr>nodes := (nodes m)(a2 := None)\<rparr>) }
           else dequeue_element_loop i r a2 (nxt n2) m) })"

text \<open>The branch that finds the element behind the head returns without restoring interrupts.\<close>

definition dequeue_element_heap :: "tid \<Rightarrow> addr \<Rightarrow> qmem \<Rightarrow> (tid \<times> qmem) option" where
  "dequeue_element_heap i r m = do {
     let en = enabled m;
     let m = m\<lparr>enabled := False\<rparr>;
     q \<leftarrow> wqs m r;
     (case head q of
        None \<Rightarrow> Some (THREAD_INVALID, m\<lparr>enabled := en\<rparr>)
      | Some h \<Rightarrow> do {
          n \<leftarrow> nodes m h;
          (if tnumber n = i then do {
             let m = m\<lparr>wqs := (wqs m)(r \<mapsto> q\<lparr>head := nxt n,
                         tail := (if nxt n = None then None else tail q)\<rparr>),
                       nodes := (nodes m)(h := None)\<rparr>;
             Some (i, m\<lparr>enabled := en\<rparr>) }
           else do {
             (res, m) \<leftarrow> dequeue_element_loop i r h (nxt n) m;
             (case res of
                Some j \<Rightarrow> Some (j, m)
              | None \<Rightarrow> Some (THREAD_INVALID, m\<lparr>enabled := en\<rparr>)) }) }) }"

text \<open>\<open>wait_queue_destroy\<close>: free every node from the head on, then the struct.\<close>

partial_function (option) free_nodes_loop :: "ptr \<Rightarrow> qmem \<Rightarrow> qmem option" where
  "free_nodes_loop p m =
     (case p of
        None \<Rightarrow> Some m
      | Some a \<Rightarrow> do {
          n \<leftarrow> nodes m a;
          free_nodes_loop (nxt n) (m\<lparr>nodes := (nodes m)(a := None)\<rparr>) })"

definition wait_queue_destroy_heap :: "addr \<Rightarrow> qmem \<Rightarrow> qmem option" where
  "wait_queue_destroy_heap r m = do {
     q \<leftarrow> wqs m r;
     m \<leftarrow> free_nodes_loop (head q) m;
     Some (m\<lparr>wqs := (wqs m)(r := None)\<rparr>) }"

section \<open>Linked lists in memory\<close>

text \<open>
  \<open>seg h p xs q\<close>: following \<open>next\<close> from \<open>p\<close> in \<open>h\<close> passes through
  the nodes of \<open>xs\<close>, listed with their addresses and thread identifiers, and arrives at \<open>q\<close>.
\<close>

type_synonym node_list = "(addr \<times> tid) list"

primrec seg :: "(addr \<Rightarrow> thread_node option) \<Rightarrow> ptr \<Rightarrow> node_list \<Rightarrow> ptr \<Rightarrow> bool" where
  "seg h p [] q = (p = q)"
| "seg h p (x # xs) q =
     (p = Some (fst x) \<and> (\<exists>n. h (fst x) = Some \<lparr>tnumber = snd x, nxt = n\<rparr> \<and> seg h n xs q))"

abbreviation addrs :: "node_list \<Rightarrow> addr set" where
  "addrs xs \<equiv> fst ` set xs"

definition queue_at :: "qmem \<Rightarrow> addr \<Rightarrow> node_list \<Rightarrow> bool" where
  "queue_at m r xs \<longleftrightarrow> (\<exists>q. wqs m r = Some q \<and> seg (nodes m) (head q) xs None \<and>
     tail q = (if xs = [] then None else Some (fst (last xs))))"

lemma seg_append: "seg h p (xs @ ys) q \<longleftrightarrow> (\<exists>r. seg h p xs r \<and> seg h r ys q)"
  by (induction xs arbitrary: p) auto

lemma seg_update [simp]: "a \<notin> addrs xs \<Longrightarrow> seg (h(a := v)) p xs q = seg h p xs q"
  by (induction xs arbitrary: p) auto

lemma seg_dom: "seg h p xs q \<Longrightarrow> a \<in> addrs xs \<Longrightarrow> \<exists>n. h a = Some n"
  by (induction xs arbitrary: p) auto

lemma seg_None_Nil: "seg h None xs q \<Longrightarrow> xs = []"
  by (cases xs) auto

lemma seg_unique: "seg h p xs None \<Longrightarrow> seg h p ys None \<Longrightarrow> xs = ys"
proof (induction xs arbitrary: p ys)
  case Nil
  then show ?case by (auto dest: seg_None_Nil)
next
  case (Cons x xs)
  then show ?case
    by (cases ys) (auto simp: prod_eq_iff)
qed

lemma seg_not_revisited: "seg h p (x # xs) None \<Longrightarrow> fst x \<notin> addrs xs"
proof
  assume s: "seg h p (x # xs) None" and "fst x \<in> addrs xs"
  then obtain y where y: "y \<in> set xs" "fst y = fst x" by auto
  then obtain us vs where xs: "xs = us @ y # vs" by (auto dest: split_list)
  with s y have "seg h (Some (fst x)) (y # vs) None" and "seg h (Some (fst x)) (x # xs) None"
    by (auto simp: seg_append)
  then have "y # vs = x # xs" by (rule seg_unique)
  then have "length (y # vs) = length (x # xs)" by simp
  with xs show False by simp
qed

lemma seg_distinct: "seg h p xs None \<Longrightarrow> distinct (map fst xs)"
proof (induction xs arbitrary: p)
  case (Cons x xs)
  then have "fst x \<notin> addrs xs" by (blast dest: seg_not_revisited)
  with Cons show ?case by auto
qed simp

lemma seg_snoc: "seg h p (xs @ [x]) None \<longleftrightarrow>
    seg h p xs (Some (fst x)) \<and> h (fst x) = Some \<lparr>tnumber = snd x, nxt = None\<rparr>"
  by (auto simp: seg_append)

section \<open>The whole memory as a map of lists\<close>

text \<open>
  \<open>heap_rep m Q\<close>: the live queues of \<open>m\<close> are those of \<open>Q\<close>, each laid out as \<open>Q\<close>
  lists it, and no node belongs to two queues.
\<close>

definition heap_rep :: "qmem \<Rightarrow> (addr \<Rightarrow> node_list option) \<Rightarrow> bool" where
  "heap_rep m Q \<longleftrightarrow>
     (\<forall>r. wqs m r = None \<longleftrightarrow> Q r = None) \<and>
     (\<forall>r xs. Q r = Some xs \<longrightarrow> queue_at m r xs) \<and>
     (\<forall>r s xs ys. Q r = Some xs \<longrightarrow> Q s = Some ys \<longrightarrow> r \<noteq> s \<longrightarrow> addrs xs \<inter> addrs ys = {})"

definition tids_of :: "(addr \<Rightarrow> node_list option) \<Rightarrow> addr \<Rightarrow> tid list option" where
  "tids_of Q r = map_option (map snd) (Q r)"

lemma tids_of_upd [simp]: "tids_of (Q(r \<mapsto> xs)) = (tids_of Q)(r \<mapsto> map snd xs)"
  by (auto simp: tids_of_def)

lemma tids_of_None [simp]: "tids_of (Q(r := None)) = (tids_of Q)(r := None)"
  by (auto simp: tids_of_def)

lemma heap_repD:
  assumes "heap_rep m Q" "Q r = Some xs"
  obtains q where "wqs m r = Some q" "seg (nodes m) (head q) xs None"
    "tail q = (if xs = [] then None else Some (fst (last xs)))"
proof -
  from assms have "queue_at m r xs" unfolding heap_rep_def by blast
  then show thesis unfolding queue_at_def using that by blast
qed

lemma heap_rep_disjoint:
  assumes "heap_rep m Q" "Q r = Some xs" "Q s = Some ys" "r \<noteq> s" "a \<in> addrs ys"
  shows "a \<notin> addrs xs"
proof -
  from assms have "addrs xs \<inter> addrs ys = {}" unfolding heap_rep_def by blast
  with assms(5) show ?thesis by blast
qed

lemma heap_rep_dom:
  assumes "heap_rep m Q" "Q r = Some xs" "a \<in> addrs xs"
  shows "nodes m a \<noteq> None"
  using assms by (metis heap_repD option.distinct(1) seg_dom)

text \<open>
  The frame rule: an operation on queue \<open>r\<close> that changes only nodes of \<open>r\<close> or nodes not in
  any queue, and lays \<open>r\<close> out afresh, keeps the rest of the memory.
\<close>

lemma heap_rep_frame:
  assumes rep: "heap_rep m Q" and r: "Q r = Some xs"
    and same: "\<And>s. s \<noteq> r \<Longrightarrow> wqs m' s = wqs m s"
    and nodes: "\<And>a. a \<notin> addrs xs \<Longrightarrow> nodes m a \<noteq> None \<Longrightarrow> nodes m' a = nodes m a"
    and new: "\<And>a. a \<in> addrs ys \<Longrightarrow> a \<in> addrs xs \<or> nodes m a = None"
    and q: "queue_at m' r ys"
  shows "heap_rep m' (Q(r \<mapsto> ys))"
proof -
  have other: "nodes m' a = nodes m a \<and> a \<notin> addrs ys"
    if "Q s = Some zs" "s \<noteq> r" "a \<in> addrs zs" for s zs a
  proof -
    have "a \<notin> addrs xs" by (rule heap_rep_disjoint [OF rep r that(1) not_sym [OF that(2)] that(3)])
    moreover have "nodes m a \<noteq> None" by (rule heap_rep_dom [OF rep that(1,3)])
    ultimately show ?thesis using nodes [of a] new [of a] by metis
  qed
  have seg_same: "seg (nodes m') p zs None" if "seg (nodes m) p zs None"
    "\<And>a. a \<in> addrs zs \<Longrightarrow> nodes m' a = nodes m a" for p zs
    using that by (induction zs arbitrary: p) auto
  have "queue_at m' s zs" if s: "Q s = Some zs" "s \<noteq> r" for s zs
  proof -
    from rep s(1) obtain q where q: "wqs m s = Some q" "seg (nodes m) (head q) zs None"
      "tail q = (if zs = [] then None else Some (fst (last zs)))" by (rule heap_repD)
    from q(2) have "seg (nodes m') (head q) zs None"
      by (rule seg_same) (use other [OF s] in blast)
    with q same [OF s(2)] show ?thesis unfolding queue_at_def by simp
  qed
  moreover have "addrs ys \<inter> addrs zs = {}" if "Q s = Some zs" "s \<noteq> r" for s zs
    using other that by blast
  moreover have "wqs m' r \<noteq> None" using q by (auto simp: queue_at_def)
  ultimately show ?thesis
    using rep same q unfolding heap_rep_def by (simp add: Int_commute)
qed

lemma heap_rep_enabled [simp]: "heap_rep (m\<lparr>enabled := b\<rparr>) Q = heap_rep m Q"
  by (simp add: heap_rep_def queue_at_def)

section \<open>The operations on the map of lists\<close>

lemma seg_head:
  "seg h p xs None \<Longrightarrow> p = None \<longleftrightarrow> xs = []"
  by (cases xs) auto

lemma enqueue_heap_rep:
  assumes rep: "heap_rep m Q" and r: "Q r = Some xs" and fresh: "nodes m a = None"
  shows "\<exists>m'. enqueue_heap (Some a) i r m = Some m' \<and> heap_rep m' (Q(r \<mapsto> xs @ [(a, i)])) \<and>
     enabled m' = enabled m"
proof -
  from rep r obtain q where q: "wqs m r = Some q" "seg (nodes m) (head q) xs None"
    "tail q = (if xs = [] then None else Some (fst (last xs)))" by (rule heap_repD)
  have a: "a \<notin> addrs xs" using heap_rep_dom [OF rep r] fresh by blast
  show ?thesis
  proof (cases xs rule: rev_cases)
    case Nil
    with q have "head q = None" by simp
    let ?m = "m\<lparr>nodes := (nodes m)(a \<mapsto> \<lparr>tnumber = i, nxt = None\<rparr>),
                wqs := (wqs m)(r \<mapsto> \<lparr>head = Some a, tail = Some a\<rparr>)\<rparr>"
    have "enqueue_heap (Some a) i r m = Some ?m"
      using \<open>head q = None\<close> q(1) by (simp add: enqueue_heap_def Let_def)
    moreover have "heap_rep ?m (Q(r \<mapsto> [(a, i)]))"
      using fresh by (intro heap_rep_frame [OF rep r]) (auto simp: queue_at_def)
    ultimately show ?thesis using Nil by simp
  next
    case (snoc ys x)
    obtain t j where x: "x = (t, j)" by (cases x)
    from q(2) snoc x have ys: "seg (nodes m) (head q) ys (Some t)"
      and t: "nodes m t = Some \<lparr>tnumber = j, nxt = None\<rparr>" by (auto simp: seg_append)
    from seg_head [OF q(2)] snoc obtain h where h: "head q = Some h" by auto
    from seg_distinct [OF q(2)] a snoc x have dist: "t \<notin> addrs ys" "a \<notin> addrs ys" "a \<noteq> t"
      by (simp_all add: distinct_append)
    let ?m = "m\<lparr>nodes := (nodes m)(a \<mapsto> \<lparr>tnumber = i, nxt = None\<rparr>,
                                  t \<mapsto> \<lparr>tnumber = j, nxt = Some a\<rparr>),
                wqs := (wqs m)(r \<mapsto> q\<lparr>tail := Some a\<rparr>)\<rparr>"
    have "enqueue_heap (Some a) i r m = Some ?m"
      using h q(1,3) snoc x t dist by (simp add: enqueue_heap_def Let_def)
    moreover have "heap_rep ?m (Q(r \<mapsto> xs @ [(a, i)]))"
    proof (rule heap_rep_frame [OF rep r])
      show "queue_at ?m r (xs @ [(a, i)])"
        using ys dist snoc x by (simp add: queue_at_def seg_append)
    qed (use a fresh snoc x in auto)
    ultimately show ?thesis by auto
  qed
qed

lemma dequeue_head_heap_Nil:
  assumes "heap_rep m Q" and "Q r = Some []"
  shows "dequeue_element_from_head_heap r m = Some (THREAD_NONE, m)"
proof -
  from assms obtain q where "wqs m r = Some q" "seg (nodes m) (head q) [] None"
    by (rule heap_repD)
  then show ?thesis by (simp add: dequeue_element_from_head_heap_def Let_def)
qed

lemma dequeue_head_heap_Cons:
  assumes rep: "heap_rep m Q" and r: "Q r = Some ((a, i) # xs)"
  shows "\<exists>m'. dequeue_element_from_head_heap r m = Some (i, m') \<and> heap_rep m' (Q(r \<mapsto> xs)) \<and>
     enabled m' = enabled m \<and> nodes m' = (nodes m)(a := None)"
proof -
  from rep r obtain q where q: "wqs m r = Some q" "seg (nodes m) (head q) ((a, i) # xs) None"
    "tail q = (if (a, i) # xs = [] then None else Some (fst (last ((a, i) # xs))))"
    by (rule heap_repD)
  from q(2) obtain n where n: "nodes m a = Some \<lparr>tnumber = i, nxt = n\<rparr>" "seg (nodes m) n xs None"
    and h: "head q = Some a" by auto
  from seg_not_revisited [OF q(2)] have a: "a \<notin> addrs xs" by simp
  let ?q = "if xs = [] then q\<lparr>head := None, tail := None\<rparr> else q\<lparr>head := n\<rparr>"
  let ?m = "m\<lparr>nodes := (nodes m)(a := None), wqs := (wqs m)(r \<mapsto> ?q)\<rparr>"
  have "dequeue_element_from_head_heap r m = Some (i, ?m)"
    using q(1) n h seg_head [OF n(2)]
    by (cases n) (simp_all add: dequeue_element_from_head_heap_def Let_def)
  moreover have "heap_rep ?m (Q(r \<mapsto> xs))"
  proof (rule heap_rep_frame [OF rep r])
    show "queue_at ?m r xs" using n(2) q(3) a by (auto simp: queue_at_def)
  qed (use a in auto)
  ultimately show ?thesis by auto
qed

lemma dequeue_element_loop_None [simp]: "dequeue_element_loop i r p1 None m = Some (None, m)"
  by (simp add: dequeue_element_loop.simps)

lemma dequeue_element_loop_miss [simp]:
  "nodes m a = Some n2 \<Longrightarrow> tnumber n2 \<noteq> i \<Longrightarrow>
   dequeue_element_loop i r p1 (Some a) m = dequeue_element_loop i r a (nxt n2) m"
  by (subst dequeue_element_loop.simps) simp

lemma dequeue_element_loop_hit:
  "nodes m a = Some \<lparr>tnumber = i, nxt = n\<rparr> \<Longrightarrow> nodes m p1 = Some n1 \<Longrightarrow> wqs m r = Some q \<Longrightarrow>
   dequeue_element_loop i r p1 (Some a) m = Some (Some i,
     m\<lparr>nodes := (nodes m)(p1 \<mapsto> n1\<lparr>nxt := n\<rparr>, a := None),
       wqs := (if tail q = Some a then (wqs m)(r \<mapsto> q\<lparr>tail := Some p1\<rparr>) else wqs m)\<rparr>)"
  by (subst dequeue_element_loop.simps) (simp add: Let_def)

lemma dequeue_loop_missing:
  assumes "seg (nodes m) p2 xs None" and "i \<notin> snd ` set xs"
  shows "dequeue_element_loop i r p1 p2 m = Some (None, m)"
  using assms
proof (induction xs arbitrary: p1 p2)
  case Nil
  then show ?case by simp
next
  case (Cons x xs)
  then obtain n where n: "p2 = Some (fst x)" "nodes m (fst x) = Some \<lparr>tnumber = snd x, nxt = n\<rparr>"
    "seg (nodes m) n xs None" by auto
  with Cons show ?case by simp
qed

lemma dequeue_loop_found:
  assumes "seg (nodes m) (Some p1) ((p1, j) # us @ (a, i) # vs) None" and "i \<notin> snd ` set us"
    and "wqs m r = Some q" and "nodes m p1 = Some \<lparr>tnumber = j, nxt = p2\<rparr>"
  shows "\<exists>l k n. last ((p1, j) # us) = (l, k) \<and> seg (nodes m) n vs None \<and>
     nodes m l = Some \<lparr>tnumber = k, nxt = Some a\<rparr> \<and>
     dequeue_element_loop i r p1 p2 m = Some (Some i,
       m\<lparr>nodes := (nodes m)(l \<mapsto> \<lparr>tnumber = k, nxt = n\<rparr>, a := None),
         wqs := (if tail q = Some a then (wqs m)(r \<mapsto> q\<lparr>tail := Some l\<rparr>) else wqs m)\<rparr>)"
  using assms(1,2,4)
proof (induction us arbitrary: p1 j p2)
  case Nil
  then obtain n where n: "p2 = Some a" "nodes m a = Some \<lparr>tnumber = i, nxt = n\<rparr>"
    "seg (nodes m) n vs None" by auto
  with Nil assms(3) show ?case
    by (intro exI [of _ p1] exI [of _ j] exI [of _ n]) (simp add: dequeue_element_loop_hit fun_upd_def)
next
  case (Cons u us)
  obtain b k where u: "u = (b, k)" by (cases u)
  from Cons.prems u obtain n where n: "p2 = Some b" "nodes m b = Some \<lparr>tnumber = k, nxt = n\<rparr>"
    "seg (nodes m) (Some b) ((b, k) # us @ (a, i) # vs) None" "i \<notin> snd ` set us" "i \<noteq> k" by auto
  have "dequeue_element_loop i r p1 p2 m = dequeue_element_loop i r b n m"
    using n by simp
  with Cons.IH [OF n(3,4,2)] u show ?case by simp
qed

primrec remove_tid :: "tid \<Rightarrow> node_list \<Rightarrow> node_list" where
  "remove_tid i [] = []"
| "remove_tid i (x # xs) = (if snd x = i then xs else x # remove_tid i xs)"

lemma map_snd_remove_tid [simp]: "map snd (remove_tid i xs) = remove1 i (map snd xs)"
  by (induction xs) auto

lemma remove_tid_split:
  "i \<notin> snd ` set us \<Longrightarrow> remove_tid i (us @ (a, i) # vs) = us @ vs"
  by (induction us) auto

lemma first_tid_split:
  assumes "i \<in> snd ` set xs"
  obtains us a vs where "xs = us @ (a, i) # vs" "i \<notin> snd ` set us"
proof -
  from assms have "i \<in> set (map snd xs)" by simp
  then obtain ks js where "map snd xs = ks @ i # js" "i \<notin> set ks"
    by (blast dest: split_list_first)
  then show thesis using that by (auto simp: map_eq_append_conv map_eq_Cons_conv)
qed

lemma dequeue_element_heap_missing:
  assumes rep: "heap_rep m Q" and r: "Q r = Some xs" and i: "i \<notin> snd ` set xs"
  shows "dequeue_element_heap i r m = Some (THREAD_INVALID, m)"
proof -
  from rep r obtain q where q: "wqs m r = Some q" "seg (nodes m) (head q) xs None"
    by (rule heap_repD)
  show ?thesis
  proof (cases xs)
    case Nil
    with q show ?thesis by (simp add: dequeue_element_heap_def Let_def)
  next
    case (Cons x ys)
    with q(2) obtain n where n: "head q = Some (fst x)" "seg (nodes m) n ys None"
      "nodes m (fst x) = Some \<lparr>tnumber = snd x, nxt = n\<rparr>" by auto
    from n(2) have "seg (nodes (m\<lparr>enabled := False\<rparr>)) n ys None" by simp
    with i Cons n q(1) show ?thesis
      by (simp add: dequeue_element_heap_def Let_def dequeue_loop_missing)
  qed
qed

lemma queue_at_cut:
  assumes s: "seg (nodes m) (head q) (us @ (l, k) # (a, i) # vs) None"
    and q: "wqs m r = Some q" "tail q = Some (fst (last ((a, i) # vs)))"
    and n: "seg (nodes m) n vs None"
  shows "queue_at (m\<lparr>nodes := (nodes m)(l \<mapsto> \<lparr>tnumber = k, nxt = n\<rparr>, a := None),
     wqs := (if tail q = Some a then (wqs m)(r \<mapsto> q\<lparr>tail := Some l\<rparr>) else wqs m),
     enabled := e\<rparr>) r (us @ (l, k) # vs)"
proof -
  from s have "seg (nodes m) (head q) us (Some l)" by (auto simp: seg_append)
  moreover from seg_distinct [OF s] have "l \<notin> addrs us" "a \<notin> addrs us" "a \<noteq> l"
    "l \<notin> addrs vs" "a \<notin> addrs vs" by auto
  moreover have "tail q = Some a \<longleftrightarrow> vs = []"
    using q(2) \<open>a \<notin> addrs vs\<close> by (cases vs rule: rev_cases) auto
  ultimately show ?thesis using n q by (auto simp: queue_at_def seg_append)
qed

lemma dequeue_element_heap_found:
  assumes rep: "heap_rep m Q" and r: "Q r = Some xs" and i: "i \<in> snd ` set xs"
  shows "\<exists>m'. dequeue_element_heap i r m = Some (i, m') \<and> heap_rep m' (Q(r \<mapsto> remove_tid i xs)) \<and>
     enabled m' = (enabled m \<and> snd (hd xs) = i)"
proof -
  from rep r obtain q where q: "wqs m r = Some q" "seg (nodes m) (head q) xs None"
    "tail q = (if xs = [] then None else Some (fst (last xs)))" by (rule heap_repD)
  from i obtain us a vs where xs: "xs = us @ (a, i) # vs" "i \<notin> snd ` set us"
    by (rule first_tid_split)
  show ?thesis
  proof (cases us)
    case Nil
    with q(2) xs obtain n where n: "head q = Some a" "seg (nodes m) n vs None"
      "nodes m a = Some \<lparr>tnumber = i, nxt = n\<rparr>" by auto
    have "seg (nodes m) (head q) ((a, i) # vs) None" using q(2) xs Nil by simp
    from seg_not_revisited [OF this] have a: "a \<notin> addrs vs" by simp
    let ?m = "m\<lparr>wqs := (wqs m)(r \<mapsto> q\<lparr>head := n, tail := (if n = None then None else tail q)\<rparr>),
                nodes := (nodes m)(a := None)\<rparr>"
    have "dequeue_element_heap i r m = Some (i, ?m)"
      using q(1) n by (simp add: dequeue_element_heap_def Let_def)
    moreover have "heap_rep ?m (Q(r \<mapsto> vs))"
    proof (rule heap_rep_frame [OF rep r])
      show "queue_at ?m r vs"
        using n(2) q(3) a xs seg_head [OF n(2)] by (auto simp: queue_at_def)
    qed (use xs Nil in auto)
    ultimately show ?thesis using xs Nil by simp
  next
    case (Cons u us')
    obtain b j where u: "u = (b, j)" by (cases u)
    from q(2) xs Cons u obtain p2 where p2: "head q = Some b"
      "nodes m b = Some \<lparr>tnumber = j, nxt = p2\<rparr>" by auto
    let ?m0 = "m\<lparr>enabled := False\<rparr>"
    have s0: "seg (nodes ?m0) (Some b) ((b, j) # us' @ (a, i) # vs) None"
      using q(2) xs Cons u p2(1) by simp
    have us': "i \<notin> snd ` set us'" using xs Cons by simp
    have w0: "wqs ?m0 r = Some q" and n0: "nodes ?m0 b = Some \<lparr>tnumber = j, nxt = p2\<rparr>"
      using q(1) p2(2) by simp_all
    obtain l k n where *: "last ((b, j) # us') = (l, k)" "seg (nodes ?m0) n vs None"
      and loop: "dequeue_element_loop i r b p2 ?m0 = Some (Some i,
         ?m0\<lparr>nodes := (nodes ?m0)(l \<mapsto> \<lparr>tnumber = k, nxt = n\<rparr>, a := None),
           wqs := (if tail q = Some a then (wqs ?m0)(r \<mapsto> q\<lparr>tail := Some l\<rparr>) else wqs ?m0)\<rparr>)"
      using dequeue_loop_found [OF s0 us' w0 n0] by (elim exE conjE) (rule that)
    let ?m = "m\<lparr>nodes := (nodes m)(l \<mapsto> \<lparr>tnumber = k, nxt = n\<rparr>, a := None),
           wqs := (if tail q = Some a then (wqs m)(r \<mapsto> q\<lparr>tail := Some l\<rparr>) else wqs m),
           enabled := False\<rparr>"
    have "dequeue_element_heap i r m = Some (i, ?m)"
      using q(1) p2 loop xs Cons u by (auto simp: dequeue_element_heap_def Let_def)
    moreover have "heap_rep ?m (Q(r \<mapsto> us @ vs))"
    proof (rule heap_rep_frame [OF rep r])
      from *(1) Cons u obtain ws where ws: "us = ws @ [(l, k)]"
        by (metis append_butlast_last_id list.distinct(1))
      with q xs have "seg (nodes m) (head q) (ws @ (l, k) # (a, i) # vs) None"
        "tail q = Some (fst (last ((a, i) # vs)))" by auto
      from queue_at_cut [OF this(1) q(1) this(2)] *(2) ws
      show "queue_at ?m r (us @ vs)" by simp
      show "nodes ?m c = nodes m c" if "c \<notin> addrs xs" for c
        using that xs ws by auto
    qed (use xs in auto)
    ultimately show ?thesis using xs Cons u remove_tid_split [OF xs(2)] by (intro exI [of _ ?m]) auto
  qed
qed

lemma free_nodes_loop_None [simp]: "free_nodes_loop None m = Some m"
  by (simp add: free_nodes_loop.simps)

lemma free_nodes_loop_Some:
  "nodes m a = Some n \<Longrightarrow>
   free_nodes_loop (Some a) m = free_nodes_loop (nxt n) (m\<lparr>nodes := (nodes m)(a := None)\<rparr>)"
  by (subst free_nodes_loop.simps) simp

lemma free_nodes_loop_all:
  "seg (nodes m) p xs None \<Longrightarrow> free_nodes_loop p m =
     Some (m\<lparr>nodes := (\<lambda>a. if a \<in> addrs xs then None else nodes m a)\<rparr>)"
proof (induction xs arbitrary: p m)
  case Nil
  then show ?case by simp
next
  case (Cons x xs)
  then obtain n where n: "p = Some (fst x)" "nodes m (fst x) = Some \<lparr>tnumber = snd x, nxt = n\<rparr>"
    "seg (nodes m) n xs None" by auto
  from seg_not_revisited [OF Cons.prems] have "fst x \<notin> addrs xs" .
  with n(3) have "seg (nodes (m\<lparr>nodes := (nodes m)(fst x := None)\<rparr>)) n xs None" by simp
  have "(\<lambda>a. if a \<in> addrs xs then None else nodes (m\<lparr>nodes := (nodes m)(fst x := None)\<rparr>) a) =
     (\<lambda>a. if a \<in> addrs (x # xs) then None else nodes m a)" by (simp add: fun_eq_iff)
  with Cons.IH [OF \<open>seg (nodes (m\<lparr>nodes := (nodes m)(fst x := None)\<rparr>)) n xs None\<close>] n
  show ?case by (simp add: free_nodes_loop_Some)
qed

lemma heap_rep_drop:
  assumes rep: "heap_rep m Q" and r: "Q r = Some xs"
  shows "heap_rep (m\<lparr>nodes := (\<lambda>a. if a \<in> addrs xs then None else nodes m a),
     wqs := (wqs m)(r := None)\<rparr>) (Q(r := None))" (is "heap_rep ?m _")
proof -
  have seg_same: "seg (nodes ?m) p zs None" if "seg (nodes m) p zs None" "addrs zs \<inter> addrs xs = {}" for p zs
    using that by (induction zs arbitrary: p) auto
  have "queue_at ?m s zs" if s: "Q s = Some zs" "s \<noteq> r" for s zs
  proof -
    from rep s(1) obtain q where q: "wqs m s = Some q" "seg (nodes m) (head q) zs None"
      "tail q = (if zs = [] then None else Some (fst (last zs)))" by (rule heap_repD)
    have "addrs zs \<inter> addrs xs = {}" using rep r s unfolding heap_rep_def by metis
    from seg_same [OF q(2) this] q s(2) show ?thesis unfolding queue_at_def by simp
  qed
  then show ?thesis using rep unfolding heap_rep_def by simp
qed

lemma wait_queue_destroy_heap_rep:
  assumes rep: "heap_rep m Q" and r: "Q r = Some xs"
  shows "\<exists>m'. wait_queue_destroy_heap r m = Some m' \<and> heap_rep m' (Q(r := None)) \<and>
     nodes m' = (\<lambda>a. if a \<in> addrs xs then None else nodes m a)"
proof -
  from rep r obtain q where q: "wqs m r = Some q" "seg (nodes m) (head q) xs None"
    by (rule heap_repD)
  with free_nodes_loop_all [OF q(2)] heap_rep_drop [OF rep r] show ?thesis
    by (simp add: wait_queue_destroy_heap_def)
qed

lemma wait_queue_create_heap_rep:
  assumes rep: "heap_rep m Q" and a: "wqs m a = None"
  shows "\<exists>m'. wait_queue_create_heap (Some a) m = Some (a, m') \<and> heap_rep m' (Q(a \<mapsto> []))"
proof -
  have "heap_rep (m\<lparr>wqs := (wqs m)(a \<mapsto> \<lparr>head = None, tail = None\<rparr>)\<rparr>) (Q(a \<mapsto> []))"
    using rep unfolding heap_rep_def queue_at_def by simp
  then show ?thesis by (simp add: wait_queue_create_heap_def)
qed

section \<open>The interface of a queue store\<close>

text \<open>
  What the scheduler relies on: a store of queues of thread identifiers, named by address, in
  which enqueueing appends, dequeueing from the head is first-in first-out with
  \<open>THREAD_NONE\<close> for an empty queue, and dequeueing an element removes its first occurrence
  or answers \<open>THREAD_INVALID\<close>. \<open>fresh\<close> says that the allocator's answer is usable.
\<close>

locale wait_queue_store =
  fixes rep :: "'m \<Rightarrow> (addr \<Rightarrow> tid list option) \<Rightarrow> bool"
    and fresh :: "'a \<Rightarrow> 'm \<Rightarrow> bool"
    and enq :: "'a \<Rightarrow> tid \<Rightarrow> addr \<Rightarrow> 'm \<Rightarrow> 'm option"
    and deq_head :: "addr \<Rightarrow> 'm \<Rightarrow> (tid \<times> 'm) option"
    and deq_elem :: "tid \<Rightarrow> addr \<Rightarrow> 'm \<Rightarrow> (tid \<times> 'm) option"
  assumes enq_law: "rep m Q \<Longrightarrow> Q r = Some xs \<Longrightarrow> fresh a m \<Longrightarrow>
      \<exists>m'. enq a i r m = Some m' \<and> rep m' (Q(r \<mapsto> xs @ [i]))"
    and deq_head_Nil_law: "rep m Q \<Longrightarrow> Q r = Some [] \<Longrightarrow>
      \<exists>m'. deq_head r m = Some (THREAD_NONE, m') \<and> rep m' Q"
    and deq_head_Cons_law: "rep m Q \<Longrightarrow> Q r = Some (i # xs) \<Longrightarrow>
      \<exists>m'. deq_head r m = Some (i, m') \<and> rep m' (Q(r \<mapsto> xs))"
    and deq_elem_law: "rep m Q \<Longrightarrow> Q r = Some xs \<Longrightarrow>
      \<exists>m'. deq_elem i r m = Some (if i \<in> set xs then i else THREAD_INVALID, m') \<and>
        rep m' (Q(r \<mapsto> remove1 i xs))"

text \<open>Emptying a queue from its head, as the loop of \<open>thread_wakeup\<close> does.\<close>

partial_function (option) drain ::
  "(addr \<Rightarrow> 'm \<Rightarrow> (tid \<times> 'm) option) \<Rightarrow> addr \<Rightarrow> 'm \<Rightarrow> (tid list \<times> 'm) option" where
  "drain deq r m = do {
     (t, m) \<leftarrow> deq r m;
     (if t = THREAD_NONE then Some ([], m)
      else do { (ts, m) \<leftarrow> drain deq r m; Some (t # ts, m) }) }"

context wait_queue_store
begin

lemma drain_all:
  assumes "rep m Q" and "Q r = Some xs" and "THREAD_NONE \<notin> set xs"
  shows "\<exists>m'. drain deq_head r m = Some (xs, m') \<and> rep m' (Q(r \<mapsto> []))"
  using assms
proof (induction xs arbitrary: m Q)
  case Nil
  then obtain m' where "deq_head r m = Some (THREAD_NONE, m')" "rep m' Q"
    using deq_head_Nil_law by blast
  moreover have "Q(r \<mapsto> []) = Q" using Nil by auto
  ultimately show ?case by (simp add: drain.simps)
next
  case (Cons x xs)
  then obtain m' where m': "deq_head r m = Some (x, m')" "rep m' (Q(r \<mapsto> xs))"
    using deq_head_Cons_law by blast
  have "\<exists>m''. drain deq_head r m' = Some (xs, m'') \<and> rep m'' ((Q(r \<mapsto> xs))(r \<mapsto> []))"
    by (rule Cons.IH [OF m'(2)]) (use Cons.prems(3) in auto)
  then obtain m'' where "drain deq_head r m' = Some (xs, m'')" "rep m'' (Q(r \<mapsto> []))"
    by (simp only: fun_upd_upd) blast
  with m' Cons.prems(3) show ?case by (subst drain.simps) auto
qed

lemma enq_then_drain:
  assumes "rep m Q" and "Q r = Some xs" and "THREAD_NONE \<notin> set xs" "i \<noteq> THREAD_NONE" and "fresh a m"
  shows "\<exists>m' m''. enq a i r m = Some m' \<and> drain deq_head r m' = Some (xs @ [i], m'') \<and>
     rep m'' (Q(r \<mapsto> []))"
proof -
  from enq_law [OF assms(1,2,5)] obtain m' where m': "enq a i r m = Some m'"
    "rep m' (Q(r \<mapsto> xs @ [i]))" by blast
  have "\<exists>m''. drain deq_head r m' = Some (xs @ [i], m'') \<and> rep m'' ((Q(r \<mapsto> xs @ [i]))(r \<mapsto> []))"
    by (rule drain_all [OF m'(2)]) (use assms(3,4) in auto)
  with m'(1) show ?thesis by auto
qed

end

text \<open>The pointer implementation provides the interface.\<close>

definition heap_tids :: "qmem \<Rightarrow> (addr \<Rightarrow> tid list option) \<Rightarrow> bool" where
  "heap_tids m L \<longleftrightarrow> (\<exists>Q. heap_rep m Q \<and> L = tids_of Q)"

definition heap_fresh :: "ptr \<Rightarrow> qmem \<Rightarrow> bool" where
  "heap_fresh mal m \<longleftrightarrow> (\<exists>a. mal = Some a \<and> nodes m a = None)"

lemma tids_of_Some: "tids_of Q r = Some ts \<longleftrightarrow> (\<exists>xs. Q r = Some xs \<and> ts = map snd xs)"
  by (auto simp: tids_of_def)

interpretation heap_store: wait_queue_store heap_tids heap_fresh enqueue_heap
  dequeue_element_from_head_heap dequeue_element_heap
proof unfold_locales
  fix m :: qmem and L :: "addr \<Rightarrow> tid list option" and r ts mal i
  assume "heap_tids m L" "L r = Some ts" "heap_fresh mal m"
  then obtain Q xs a where *: "heap_rep m Q" "Q r = Some xs" "nodes m a = None"
    "mal = Some a" "L = tids_of Q" "ts = map snd xs"
    by (auto simp: heap_tids_def heap_fresh_def tids_of_Some)
  obtain m' where m': "enqueue_heap (Some a) i r m = Some m'" "heap_rep m' (Q(r \<mapsto> xs @ [(a, i)]))"
    using enqueue_heap_rep [OF *(1-3)] by blast
  have "L(r \<mapsto> ts @ [i]) = tids_of (Q(r \<mapsto> xs @ [(a, i)]))" using * by simp
  with m' * show "\<exists>m'. enqueue_heap mal i r m = Some m' \<and> heap_tids m' (L(r \<mapsto> ts @ [i]))"
    unfolding heap_tids_def by blast
next
  fix m :: qmem and L :: "addr \<Rightarrow> tid list option" and r
  assume "heap_tids m L" "L r = Some []"
  then obtain Q where "heap_rep m Q" "Q r = Some []" by (auto simp: heap_tids_def tids_of_Some)
  then have "dequeue_element_from_head_heap r m = Some (THREAD_NONE, m)"
    by (rule dequeue_head_heap_Nil)
  with \<open>heap_tids m L\<close>
  show "\<exists>m'. dequeue_element_from_head_heap r m = Some (THREAD_NONE, m') \<and> heap_tids m' L"
    by blast
next
  fix m :: qmem and L :: "addr \<Rightarrow> tid list option" and r i ts
  assume "heap_tids m L" "L r = Some (i # ts)"
  then obtain Q a xs where *: "heap_rep m Q" "Q r = Some ((a, i) # xs)" "L = tids_of Q"
    "ts = map snd xs"
    by (auto simp: heap_tids_def tids_of_Some)
  obtain m' where m': "dequeue_element_from_head_heap r m = Some (i, m')" "heap_rep m' (Q(r \<mapsto> xs))"
    using dequeue_head_heap_Cons [OF *(1,2)] by blast
  have "L(r \<mapsto> ts) = tids_of (Q(r \<mapsto> xs))" using * by simp
  with m' show "\<exists>m'. dequeue_element_from_head_heap r m = Some (i, m') \<and> heap_tids m' (L(r \<mapsto> ts))"
    unfolding heap_tids_def by blast
next
  fix m :: qmem and L :: "addr \<Rightarrow> tid list option" and r ts i
  assume "heap_tids m L" "L r = Some ts"
  then obtain Q xs where *: "heap_rep m Q" "Q r = Some xs" "L = tids_of Q" "ts = map snd xs"
    by (auto simp: heap_tids_def tids_of_Some)
  show "\<exists>m'. dequeue_element_heap i r m = Some (if i \<in> set ts then i else THREAD_INVALID, m') \<and>
      heap_tids m' (L(r \<mapsto> remove1 i ts))"
  proof (cases "i \<in> set ts")
    case True
    obtain m' where m': "dequeue_element_heap i r m = Some (i, m')"
      "heap_rep m' (Q(r \<mapsto> remove_tid i xs))"
      using dequeue_element_heap_found [OF *(1,2)] True *(4) by auto
    have "L(r \<mapsto> remove1 i ts) = tids_of (Q(r \<mapsto> remove_tid i xs))" using * by simp
    with m' True show ?thesis unfolding heap_tids_def by auto
  next
    case False
    moreover have "L(r \<mapsto> remove1 i ts) = L"
      using \<open>L r = Some ts\<close> False by (auto simp: remove1_idem)
    ultimately show ?thesis
      using dequeue_element_heap_missing [OF *(1,2), of i] * by (auto simp: heap_tids_def)
  qed
qed

section \<open>Properties\<close>

text \<open>A memory with one queue, at address 0, that holds threads 5 and 7.\<close>

definition two_in_queue :: qmem where
  "two_in_queue = \<lparr>
     nodes = [10 \<mapsto> \<lparr>tnumber = 5, nxt = Some 11\<rparr>, 11 \<mapsto> \<lparr>tnumber = 7, nxt = None\<rparr>],
     wqs = [0 \<mapsto> \<lparr>head = Some 10, tail = Some 11\<rparr>],
     enabled = True\<rparr>"

lemma two_in_queue_rep: "heap_rep two_in_queue [0 \<mapsto> [(10, 5), (11, 7)]]"
  by (simp add: heap_rep_def queue_at_def two_in_queue_def)

text \<open>\<open>enqueue\<close> on a queue laid out in memory appends the thread at the tail, whatever
  free address \<open>malloc\<close> returns; every other queue keeps its content and its nodes, and the
  interrupt state is restored.\<close>

theorem enqueue_appends:
  assumes "heap_rep m Q" and "Q r = Some xs" and "nodes m a = None"
  shows "\<exists>m'. enqueue_heap (Some a) i r m = Some m' \<and> heap_rep m' (Q(r \<mapsto> xs @ [(a, i)])) \<and>
     enabled m' = enabled m"
  using assms by (rule enqueue_heap_rep)

theorem enqueue_appends_witness:
  "\<exists>m'. enqueue_heap (Some 12) 9 0 two_in_queue = Some m' \<and>
     heap_rep m' ([0 \<mapsto> [(10, 5), (11, 7)]](0 \<mapsto> [(10, 5), (11, 7)] @ [(12, 9)])) \<and>
     enabled m' = enabled two_in_queue"
  by (rule enqueue_appends [OF two_in_queue_rep]) (simp_all add: two_in_queue_def)

text \<open>C24: \<open>dequeue_element\<close> removes the first node with the given thread, wherever it is, and
  frees exactly that node's place in the list; a thread that is not queued gives
  \<open>THREAD_INVALID\<close> and changes nothing. The interrupt state is restored except when the node
  was found behind the head: there the function returns with interrupts disabled.\<close>

theorem dequeue_element_removes:
  assumes "heap_rep m Q" and "Q r = Some xs"
  shows "if i \<in> snd ` set xs
    then \<exists>m'. dequeue_element_heap i r m = Some (i, m') \<and> heap_rep m' (Q(r \<mapsto> remove_tid i xs)) \<and>
      enabled m' = (enabled m \<and> snd (hd xs) = i)
    else dequeue_element_heap i r m = Some (THREAD_INVALID, m)"
  using dequeue_element_heap_found [OF assms, of i] dequeue_element_heap_missing [OF assms, of i]
  by simp

theorem dequeue_element_removes_witness:
  "\<exists>m'. dequeue_element_heap 7 0 two_in_queue = Some (7, m') \<and>
     heap_rep m' ([0 \<mapsto> [(10, 5), (11, 7)]](0 \<mapsto> [(10, 5)])) \<and> \<not> enabled m'"
  using dequeue_element_removes [OF two_in_queue_rep, of 0 "[(10, 5), (11, 7)]" 7]
  by (simp add: two_in_queue_def)

text \<open>the queue is first-in first-out: after \<open>enqueue\<close>, taking threads from the head until
  \<open>THREAD_NONE\<close> yields the threads that were queued, in order, and then the new one; the loop
  ends and leaves the queue empty and all other queues as they were.\<close>

theorem queue_is_fifo:
  assumes "heap_tids m L" and "L r = Some ts" and "THREAD_NONE \<notin> set ts" "i \<noteq> THREAD_NONE"
    and "heap_fresh a m"
  shows "\<exists>m' m''. enqueue_heap a i r m = Some m' \<and>
     drain dequeue_element_from_head_heap r m' = Some (ts @ [i], m'') \<and> heap_tids m'' (L(r \<mapsto> []))"
  using assms by (rule heap_store.enq_then_drain)

theorem queue_is_fifo_witness:
  "\<exists>m' m''. enqueue_heap (Some 12) 9 0 two_in_queue = Some m' \<and>
     drain dequeue_element_from_head_heap 0 m' = Some ([5, 7] @ [9], m'') \<and>
     heap_tids m'' ([0 \<mapsto> [5, 7]](0 \<mapsto> []))"
proof (rule queue_is_fifo)
  have "tids_of [0 \<mapsto> [(10, 5), (11, 7)]] = [0 \<mapsto> [5, 7]]" by (simp add: tids_of_def fun_eq_iff)
  with two_in_queue_rep show "heap_tids two_in_queue [0 \<mapsto> [5, 7]]"
    unfolding heap_tids_def by metis
qed (simp_all add: heap_fresh_def two_in_queue_def THREAD_NONE_def)

text \<open>\<open>wait_queue_destroy\<close> on a queue laid out in memory terminates without a fault, frees
  every node of the queue and no other, and leaves the other queues intact.\<close>

theorem wait_queue_destroy_frees:
  assumes "heap_rep m Q" and "Q r = Some xs"
  shows "\<exists>m'. wait_queue_destroy_heap r m = Some m' \<and> heap_rep m' (Q(r := None)) \<and>
     nodes m' = (\<lambda>a. if a \<in> addrs xs then None else nodes m a)"
  using assms by (rule wait_queue_destroy_heap_rep)

theorem wait_queue_destroy_frees_witness:
  "\<exists>m'. wait_queue_destroy_heap 0 two_in_queue = Some m' \<and>
     heap_rep m' ([0 \<mapsto> [(10, 5), (11, 7)]](0 := None)) \<and>
     nodes m' = (\<lambda>a. if a \<in> addrs [(10, 5), (11, 7)] then None else nodes two_in_queue a)"
  by (rule wait_queue_destroy_frees [OF two_in_queue_rep]) simp

end
