(* ===== verification/Kernel_State.thy ===== *)
theory Kernel_State
  imports Thread_Queue "HOL-Library.Word"
begin

text \<open>
  The global state of the thread library (\<open>src/threads/thread.c\<close>): thread control blocks,
  the ready queue and the wait queues, locks, condition variables, thread stacks and the
  interrupt flag, with the queue operations on lists of threads and the primitives that the
  library's functions are made of. The pointer code of the queues is in \<open>Thread_Queue\<close>; here a
  queue is the list of the threads in it, and the interface of that theory is interpreted on
  this state too.
\<close>

section \<open>Calls, frames and saved contexts\<close>

text \<open>
  The library switches between threads in the middle of its functions (\<open>getcontext\<close>,
  \<open>setcontext\<close>). A saved context is therefore the stack of the C functions that are still
  active in the thread, innermost first. A \<open>call\<close> is a library call with its arguments; the
  Boolean of \<open>Create\<close> is what \<open>malloc\<close> answers for the stack, that of \<open>Wait\<close> says
  whether \<open>exit_code\<close> is a non-NULL pointer.
\<close>

datatype call =
    Yield tid
  | Exit int
  | Sleep ptr
  | Wait tid bool
  | LockAcquire ptr
  | CvWait ptr ptr
  | Create nat nat bool
  | Kill tid
  | Wakeup ptr int
  | WqCreate
  | WqDestroy ptr
  | LockCreate
  | LockDestroy ptr
  | LockRelease ptr
  | CvCreate
  | CvDestroy ptr
  | CvSignal ptr ptr
  | CvBroadcast ptr ptr
  | ThreadId
  | InterruptsSet bool

text \<open>A returned value, and what was stored through an \<open>exit_code\<close> pointer, if anything.\<close>

record retval =
  r_val :: int
  r_out :: "int option"

definition rv :: "int \<Rightarrow> retval" where
  "rv v = \<lparr>r_val = v, r_out = None\<rparr>"

lemma rv_sel [simp]: "r_val (rv v) = v" "r_out (rv v) = None"
  by (simp_all add: rv_def)

lemma rv_eq [simp]: "rv v = rv w \<longleftrightarrow> v = w"
  by (simp add: rv_def)

text \<open>What the processor does: enter a call, return a value to the innermost frame, or
  continue a context that \<open>setcontext\<close> has just installed.\<close>

datatype mode = Calling call | Returning retval | Resuming

text \<open>
  \<open>FUser\<close> is the program's own code (\<open>main\<close> or a thread's function), \<open>FStub\<close> a new
  thread before its first instruction, \<open>FStubExit\<close> the call \<open>thread_exit(0)\<close> that
  \<open>thread_stub\<close> makes when the function returns. The others are the points inside a library
  function where it waits for a call that may switch: \<open>FYield en t\<close> is the \<open>getcontext\<close> of
  \<open>thread_yield\<close> with its locals \<open>enable\<close> and \<open>thread_returned\<close>; \<open>FHandler m\<close> the
  signal handler that interrupted \<open>m\<close>.
\<close>

datatype frame =
    FUser
  | FStub nat nat
  | FStubExit
  | FYield bool tid
  | FKilled bool tid
  | FExit1
  | FExit2
  | FWait tid bool
  | FWaitTail tid bool
  | FLockAcquire addr bool
  | FCvReleased addr addr
  | FCvSlept addr
  | FHandler mode

section \<open>The global state\<close>

text \<open>\<open>struct thread\<close>.\<close>

record tcb =
  current_state :: thread_states
  context_of :: "frame list"
  stack_ptr :: ptr
  wq :: ptr
  waiting_on :: int
  exit_code :: int
  exit_code2 :: int

text \<open>\<open>struct lock\<close> and \<open>struct cv\<close>.\<close>

record lock_s =
  lock_flag :: bool
  thread_holding_lock :: tid
  lock_wq :: addr

record cv_s =
  cv_wait_queue :: addr

text \<open>
  The owner of a wait queue is a ghost: the code does not store it, and no operation reads it.
  It records which part of the library made the queue and lets the invariants say that queues
  of different owners are different.
\<close>

datatype queue_owner = OwnReady | OwnThread tid | OwnLock addr | OwnCv addr | OwnUser

record kernel =
  array_of_threads :: "tid \<Rightarrow> tcb"
  current :: tid
  nums_existing_threads :: int
  queues :: "addr \<Rightarrow> tid list option"
  owner :: "addr \<Rightarrow> queue_owner"
  stacks :: "addr set"
  locks :: "addr \<Rightarrow> lock_s option"
  cvs :: "addr \<Rightarrow> cv_s option"
  brk :: addr
  ints :: bool

text \<open>The ready queue \<open>r_q\<close> is the queue at address 0; \<open>malloc\<close> hands out \<open>brk\<close>.\<close>

definition RQ :: addr where "RQ = 0"

abbreviation state :: "kernel \<Rightarrow> tid \<Rightarrow> thread_states" where
  "state k t \<equiv> current_state (array_of_threads k t)"

definition upd_tcb :: "tid \<Rightarrow> (tcb \<Rightarrow> tcb) \<Rightarrow> kernel \<Rightarrow> kernel" where
  "upd_tcb t f k = k\<lparr>array_of_threads := (array_of_threads k)(t := f (array_of_threads k t))\<rparr>"

definition set_state :: "tid \<Rightarrow> thread_states \<Rightarrow> kernel \<Rightarrow> kernel" where
  "set_state t s = upd_tcb t (\<lambda>b. b\<lparr>current_state := s\<rparr>)"

definition valid_tid :: "tid \<Rightarrow> bool" where
  "valid_tid t \<longleftrightarrow> 0 \<le> t \<and> t < THREAD_MAX_THREADS"

lemma tcb_state_same: "current_state b = s \<Longrightarrow> b\<lparr>current_state := s\<rparr> = b"
  by (cases b) simp

text \<open>The indices of the loops \<open>for (i = 0; i < THREAD_MAX_THREADS; i++)\<close>.\<close>

definition all_tids :: "tid list" where
  "all_tids = [0..THREAD_MAX_THREADS - 1]"

lemma set_all_tids [simp]: "t \<in> set all_tids \<longleftrightarrow> valid_tid t"
  by (simp add: all_tids_def valid_tid_def)

lemma distinct_all_tids [simp]: "distinct all_tids"
  by (simp add: all_tids_def)

named_theorems kernel_simps \<open>projections of the state primitives\<close>

lemma upd_tcb_sel [simp]:
  "array_of_threads (upd_tcb t f k) = (array_of_threads k)(t := f (array_of_threads k t))"
  "current (upd_tcb t f k) = current k"
  "nums_existing_threads (upd_tcb t f k) = nums_existing_threads k"
  "queues (upd_tcb t f k) = queues k"
  "owner (upd_tcb t f k) = owner k"
  "stacks (upd_tcb t f k) = stacks k"
  "locks (upd_tcb t f k) = locks k"
  "cvs (upd_tcb t f k) = cvs k"
  "brk (upd_tcb t f k) = brk k"
  "ints (upd_tcb t f k) = ints k"
  by (simp_all add: upd_tcb_def)

lemma set_state_sel [simp]:
  "array_of_threads (set_state t s k) =
     (array_of_threads k)(t := (array_of_threads k t)\<lparr>current_state := s\<rparr>)"
  "current (set_state t s k) = current k"
  "nums_existing_threads (set_state t s k) = nums_existing_threads k"
  "queues (set_state t s k) = queues k"
  "owner (set_state t s k) = owner k"
  "stacks (set_state t s k) = stacks k"
  "locks (set_state t s k) = locks k"
  "cvs (set_state t s k) = cvs k"
  "brk (set_state t s k) = brk k"
  "ints (set_state t s k) = ints k"
  by (simp_all add: set_state_def)

section \<open>Interrupts\<close>

text \<open>\<open>interrupts_set\<close> of \<open>interrupt.c\<close>: sets the state, returns the previous one.\<close>

definition interrupts_set :: "bool \<Rightarrow> kernel \<Rightarrow> bool \<times> kernel" where
  "interrupts_set b k = (ints k, k\<lparr>ints := b\<rparr>)"

definition interrupts_on :: "kernel \<Rightarrow> bool \<times> kernel" where
  "interrupts_on k = interrupts_set True k"

definition interrupts_off :: "kernel \<Rightarrow> bool \<times> kernel" where
  "interrupts_off k = interrupts_set False k"

definition interrupts_enabled :: "kernel \<Rightarrow> bool" where
  "interrupts_enabled k = ints k"

section \<open>Queues of threads\<close>

definition enqueue :: "tid \<Rightarrow> addr \<Rightarrow> kernel \<Rightarrow> kernel option" where
  "enqueue t q k = do {
     let (en, k) = interrupts_set False k;
     xs \<leftarrow> queues k q;
     let k = k\<lparr>queues := (queues k)(q \<mapsto> xs @ [t])\<rparr>;
     Some (snd (interrupts_set en k)) }"

text \<open>As in the pointer code, finding the thread behind the head leaves interrupts disabled.\<close>

definition dequeue_element :: "tid \<Rightarrow> addr \<Rightarrow> kernel \<Rightarrow> (tid \<times> kernel) option" where
  "dequeue_element t q k = do {
     let (en, k) = interrupts_set False k;
     xs \<leftarrow> queues k q;
     (if t \<notin> set xs then Some (THREAD_INVALID, snd (interrupts_set en k))
      else do {
        let k = k\<lparr>queues := (queues k)(q \<mapsto> remove1 t xs)\<rparr>;
        Some (t, if hd xs = t then snd (interrupts_set en k) else k) }) }"

definition dequeue_element_from_head :: "addr \<Rightarrow> kernel \<Rightarrow> (tid \<times> kernel) option" where
  "dequeue_element_from_head q k = do {
     let (en, k) = interrupts_set False k;
     xs \<leftarrow> queues k q;
     (case xs of
        [] \<Rightarrow> Some (THREAD_NONE, snd (interrupts_set en k))
      | t # ts \<Rightarrow> Some (t, snd (interrupts_set en (k\<lparr>queues := (queues k)(q \<mapsto> ts)\<rparr>)))) }"

definition wait_queue_create :: "queue_owner \<Rightarrow> kernel \<Rightarrow> addr \<times> kernel" where
  "wait_queue_create ow k =
     (brk k, k\<lparr>queues := (queues k)(brk k \<mapsto> []), owner := (owner k)(brk k := ow), brk := Suc (brk k)\<rparr>)"

text \<open>\<open>wait_queue_destroy\<close> dereferences its argument: NULL or a freed queue is a fault.\<close>

definition wait_queue_destroy :: "ptr \<Rightarrow> kernel \<Rightarrow> kernel option" where
  "wait_queue_destroy p k = do {
     q \<leftarrow> p;
     _ \<leftarrow> queues k q;
     Some (k\<lparr>queues := (queues k)(q := None)\<rparr>) }"

lemma enqueue_eq [kernel_simps]:
  "queues k q = Some xs \<Longrightarrow> enqueue t q k = Some (k\<lparr>queues := (queues k)(q \<mapsto> xs @ [t])\<rparr>)"
  by (simp add: enqueue_def interrupts_set_def Let_def)

lemma enqueue_Some: "enqueue t q k = Some k' \<longleftrightarrow>
    (\<exists>xs. queues k q = Some xs \<and> k' = k\<lparr>queues := (queues k)(q \<mapsto> xs @ [t])\<rparr>)"
  by (auto simp: enqueue_def interrupts_set_def Let_def bind_eq_Some_conv)

lemma dequeue_head_Nil [kernel_simps]:
  "queues k q = Some [] \<Longrightarrow> dequeue_element_from_head q k = Some (THREAD_NONE, k)"
  by (simp add: dequeue_element_from_head_def interrupts_set_def Let_def)

lemma dequeue_head_Cons [kernel_simps]:
  "queues k q = Some (t # ts) \<Longrightarrow>
   dequeue_element_from_head q k = Some (t, k\<lparr>queues := (queues k)(q \<mapsto> ts)\<rparr>)"
  by (simp add: dequeue_element_from_head_def interrupts_set_def Let_def)

lemma dequeue_element_missing [kernel_simps]:
  "queues k q = Some xs \<Longrightarrow> t \<notin> set xs \<Longrightarrow> dequeue_element t q k = Some (THREAD_INVALID, k)"
  by (simp add: dequeue_element_def interrupts_set_def Let_def)

lemma dequeue_element_found [kernel_simps]:
  "queues k q = Some xs \<Longrightarrow> t \<in> set xs \<Longrightarrow> dequeue_element t q k =
     Some (t, k\<lparr>queues := (queues k)(q \<mapsto> remove1 t xs), ints := (ints k \<and> hd xs = t)\<rparr>)"
  by (simp add: dequeue_element_def interrupts_set_def Let_def)

text \<open>The state provides the interface of the queue store.\<close>

definition kernel_queues :: "kernel \<Rightarrow> (addr \<Rightarrow> tid list option) \<Rightarrow> bool" where
  "kernel_queues k Q \<longleftrightarrow> queues k = Q"

interpretation kernel_store: wait_queue_store kernel_queues "\<lambda>_ _. True" "\<lambda>_::unit. enqueue"
  dequeue_element_from_head dequeue_element
proof unfold_locales
  fix k :: kernel and Q :: "addr \<Rightarrow> tid list option" and r xs t
  assume "kernel_queues k Q" "Q r = Some xs"
  then show "\<exists>k'. enqueue t r k = Some k' \<and> kernel_queues k' (Q(r \<mapsto> xs @ [t]))"
    and "\<exists>k'. dequeue_element t r k = Some (if t \<in> set xs then t else THREAD_INVALID, k') \<and>
       kernel_queues k' (Q(r \<mapsto> remove1 t xs))"
    by (auto simp: kernel_queues_def enqueue_eq dequeue_element_found dequeue_element_missing remove1_idem)
next
  fix k :: kernel and Q :: "addr \<Rightarrow> tid list option" and r
  assume "kernel_queues k Q" "Q r = Some []"
  then show "\<exists>k'. dequeue_element_from_head r k = Some (THREAD_NONE, k') \<and> kernel_queues k' Q"
    by (simp add: kernel_queues_def dequeue_head_Nil)
next
  fix k :: kernel and Q :: "addr \<Rightarrow> tid list option" and r t xs
  assume "kernel_queues k Q" "Q r = Some (t # xs)"
  then show "\<exists>k'. dequeue_element_from_head r k = Some (t, k') \<and> kernel_queues k' (Q(r \<mapsto> xs))"
    by (simp add: kernel_queues_def dequeue_head_Cons)
qed

section \<open>Thread stacks\<close>

text \<open>\<open>malloc(THREAD_MIN_STACK)\<close>; \<open>ok\<close> is whether it succeeds. \<open>free\<close> of a pointer that
  is neither NULL nor a live stack is a fault.\<close>

definition alloc_stack :: "bool \<Rightarrow> kernel \<Rightarrow> ptr \<times> kernel" where
  "alloc_stack ok k =
     (if ok then (Some (brk k), k\<lparr>stacks := insert (brk k) (stacks k), brk := Suc (brk k)\<rparr>)
      else (None, k))"

definition free_stack :: "ptr \<Rightarrow> kernel \<Rightarrow> kernel option" where
  "free_stack p k =
     (case p of None \<Rightarrow> Some k
      | Some a \<Rightarrow> if a \<in> stacks k then Some (k\<lparr>stacks := stacks k - {a}\<rparr>) else None)"

text \<open>
  The initial stack pointer of a new thread (\<open>set_context_function\<close>): the top of the stack,
  aligned down to 16 bytes, minus 8, as a 64-bit address.
\<close>

definition initial_sp :: "64 word \<Rightarrow> 64 word" where
  "initial_sp temp_sp =
     (let temp_sp = temp_sp + 32768;
          sp_mod = temp_sp mod 16;
          temp_sp = temp_sp - sp_mod
      in temp_sp - 8)"

end
