(* ===== verification/Kernel_Ops.thy ===== *)
theory Kernel_Ops
  imports Kernel_State
begin

text \<open>
  The functions of \<open>src/threads/thread.c\<close> that never switch to another thread:
  initialisation, creation, killing, waking up, wait queues, and the non-blocking half of locks
  and condition variables. Each is the whole function, with its interrupt handling, its error
  returns in the code's order and its assertions.
\<close>

section \<open>Initialisation\<close>

definition zero_tcb :: tcb where
  "zero_tcb = \<lparr>current_state = READY, context_of = [], stack_ptr = None, wq = None,
     waiting_on = 0, exit_code = 0, exit_code2 = 0\<rparr>"

text \<open>The zeroed globals before \<open>thread_init\<close>; \<open>READY\<close> is the enumerator 0.\<close>

definition boot :: kernel where
  "boot = \<lparr>array_of_threads = (\<lambda>_. zero_tcb), current = 0, nums_existing_threads = 0,
     queues = [RQ \<mapsto> []], owner = (\<lambda>_. OwnUser)(RQ := OwnReady), stacks = {}, locks = (\<lambda>_. None),
     cvs = (\<lambda>_. None), brk = 1, ints = True\<rparr>"

definition thread_init_one :: "tid \<Rightarrow> kernel \<Rightarrow> kernel" where
  "thread_init_one i k =
     (if i = 0 then
        let k = set_state i RUNNING k;
            (w, k) = wait_queue_create (OwnThread i) k
        in upd_tcb i (\<lambda>b. b\<lparr>wq := Some w, waiting_on := -1\<rparr>) k
      else upd_tcb i (\<lambda>b. b\<lparr>current_state := UNINITIALIZED, wq := None\<rparr>) k)"

definition thread_init :: "kernel \<Rightarrow> kernel" where
  "thread_init k =
     (let k = k\<lparr>nums_existing_threads := nums_existing_threads k + 1\<rparr>;
          k = k\<lparr>current := 0\<rparr>;
          k = fold thread_init_one all_tids k
      in k\<lparr>queues := (queues k)(RQ \<mapsto> [])\<rparr>)"

definition thread_id :: "kernel \<Rightarrow> tid" where
  "thread_id k = current k"

section \<open>Creating threads\<close>

definition set_context_function :: "tid \<Rightarrow> addr \<Rightarrow> nat \<Rightarrow> nat \<Rightarrow> kernel \<Rightarrow> kernel option" where
  "set_context_function i temp_sp fn parg k = do {
     let k = upd_tcb i (\<lambda>b. b\<lparr>current_state := READY, stack_ptr := Some temp_sp\<rparr>) k;
     let (w, k) = wait_queue_create (OwnThread i) k;
     let k = upd_tcb i (\<lambda>b. b\<lparr>wq := Some w, waiting_on := -1, context_of := [FStub fn parg]\<rparr>) k;
     k \<leftarrow> enqueue i RQ k;
     Some (k\<lparr>nums_existing_threads := nums_existing_threads k + 1\<rparr>) }"

text \<open>The loop of \<open>thread_create_helper\<close>, over the indices still to be looked at.\<close>

fun thread_create_loop :: "nat \<Rightarrow> nat \<Rightarrow> bool \<Rightarrow> tid list \<Rightarrow> kernel \<Rightarrow> (tid \<times> kernel) option" where
  "thread_create_loop fn parg ok [] k = Some (THREAD_NOMORE, k)"
| "thread_create_loop fn parg ok (i # js) k =
     (if state k i = UNINITIALIZED then do {
        let k = upd_tcb i (\<lambda>b. b\<lparr>exit_code := -1\<rparr>) k;
        let (sp, k) = alloc_stack ok k;
        (case sp of
           None \<Rightarrow> Some (THREAD_NOMEMORY, k)
         | Some a \<Rightarrow> do { k \<leftarrow> set_context_function i a fn parg k; Some (i, k) }) }
      else if state k i = EXITED then do {
        let k = upd_tcb i (\<lambda>b. b\<lparr>exit_code := -1\<rparr>) k;
        let k = set_state i READY k;
        k \<leftarrow> free_stack (stack_ptr (array_of_threads k i)) k;
        let (sp, k) = alloc_stack ok k;
        (case sp of
           None \<Rightarrow> Some (THREAD_NOMEMORY, k)
         | Some a \<Rightarrow> do { k \<leftarrow> set_context_function i a fn parg k; Some (i, k) }) }
      else thread_create_loop fn parg ok js k)"

definition thread_create_helper :: "nat \<Rightarrow> nat \<Rightarrow> bool \<Rightarrow> kernel \<Rightarrow> (tid \<times> kernel) option" where
  "thread_create_helper fn parg ok k = thread_create_loop fn parg ok all_tids k"

definition thread_create :: "nat \<Rightarrow> nat \<Rightarrow> bool \<Rightarrow> kernel \<Rightarrow> (tid \<times> kernel) option" where
  "thread_create fn parg ok k = do {
     let (en, k) = interrupts_set False k;
     (if nums_existing_threads k \<ge> THREAD_MAX_THREADS
      then Some (THREAD_NOMORE, snd (interrupts_set en k))
      else do {
        (r, k) \<leftarrow> thread_create_helper fn parg ok k;
        (if r = THREAD_NOMEMORY then Some (THREAD_NOMEMORY, snd (interrupts_set en k))
         else Some (r, snd (interrupts_set en k))) }) }"

section \<open>Waking up\<close>

text \<open>The loop of \<open>thread_wakeup\<close> with \<open>all = 1\<close>; \<open>n\<close> is \<open>nums_thread_awoken\<close>.\<close>

partial_function (option) thread_wakeup_loop ::
  "addr \<Rightarrow> int \<Rightarrow> kernel \<Rightarrow> (int \<times> kernel) option" where
  "thread_wakeup_loop q n k = do {
     (r, k) \<leftarrow> dequeue_element_from_head q k;
     (if r = THREAD_NONE then Some (n, k)
      else do {
        let k = (if state k r \<noteq> KILLED then set_state r READY k else k);
        k \<leftarrow> enqueue r RQ k;
        thread_wakeup_loop q (n + 1) (k\<lparr>nums_existing_threads := nums_existing_threads k + 1\<rparr>) }) }"

definition thread_wakeup :: "ptr \<Rightarrow> int \<Rightarrow> kernel \<Rightarrow> (int \<times> kernel) option" where
  "thread_wakeup queue all k = do {
     let (en, k) = interrupts_set False k;
     (case queue of
        None \<Rightarrow> Some (0, snd (interrupts_set en k))
      | Some q \<Rightarrow>
          if all = 1 then do {
            (n, k) \<leftarrow> thread_wakeup_loop q 0 k;
            Some (n, snd (interrupts_set en k)) }
          else do {
            (t, k) \<leftarrow> dequeue_element_from_head q k;
            (if t = THREAD_NONE then Some (0, snd (interrupts_set en k))
             else do {
               let k = (if state k t \<noteq> KILLED then set_state t READY k else k);
               k \<leftarrow> enqueue t RQ k;
               let k = k\<lparr>nums_existing_threads := nums_existing_threads k + 1\<rparr>;
               Some (1, snd (interrupts_set en k)) }) }) }"

section \<open>Killing\<close>

text \<open>\<open>thread_awaken\<close> indexes the thread array with \<open>waiting_on\<close>, which can be \<open>-1\<close>.\<close>

definition thread_awaken :: "tid \<Rightarrow> kernel \<Rightarrow> kernel option" where
  "thread_awaken t k = do {
     let (en, k) = interrupts_set False k;
     let waiting = waiting_on (array_of_threads k t);
     _ \<leftarrow> c_assert (valid_tid waiting);
     q \<leftarrow> wq (array_of_threads k waiting);
     (removed, k) \<leftarrow> dequeue_element t q k;
     _ \<leftarrow> c_assert (removed = t);
     let k = set_state t KILLED k;
     k \<leftarrow> enqueue t RQ k;
     let k = k\<lparr>nums_existing_threads := nums_existing_threads k + 1\<rparr>;
     Some (snd (interrupts_set en k)) }"

definition thread_kill :: "tid \<Rightarrow> kernel \<Rightarrow> (tid \<times> kernel) option" where
  "thread_kill t k = do {
     let (en, k) = interrupts_set False k;
     (if t < 0 \<or> t \<ge> THREAD_MAX_THREADS then Some (THREAD_INVALID, snd (interrupts_set en k))
      else if t = current k then Some (THREAD_INVALID, snd (interrupts_set en k))
      else if state k t = UNINITIALIZED then Some (THREAD_INVALID, snd (interrupts_set en k))
      else do {
        k \<leftarrow> (if state k t = SLEEP then thread_awaken t (set_state t KILLED k) else Some k);
        let k = upd_tcb t (\<lambda>b. b\<lparr>current_state := KILLED, exit_code := 9\<rparr>) k;
        Some (t, snd (interrupts_set en k)) }) }"

section \<open>Reaping exited threads\<close>

text \<open>The loop in \<open>thread_yield\<close> that destroys the exited threads other than the current one.\<close>

definition reap_one :: "tid \<Rightarrow> kernel \<Rightarrow> kernel option" where
  "reap_one i k =
     (if i \<noteq> current k \<and> state k i = EXITED then do {
        k \<leftarrow> free_stack (stack_ptr (array_of_threads k i)) k;
        k \<leftarrow> wait_queue_destroy (wq (array_of_threads k i)) k;
        Some (set_state i UNINITIALIZED k) }
      else Some k)"

fun reap_loop :: "tid list \<Rightarrow> kernel \<Rightarrow> kernel option" where
  "reap_loop [] k = Some k"
| "reap_loop (i # js) k = do { k \<leftarrow> reap_one i k; reap_loop js k }"

definition reap :: "kernel \<Rightarrow> kernel option" where
  "reap k = reap_loop all_tids k"

section \<open>Locks and condition variables, non-blocking part\<close>

definition lock_create :: "kernel \<Rightarrow> addr \<times> kernel" where
  "lock_create k =
     (let (en, k) = interrupts_set False k;
          l = brk k;
          k = k\<lparr>brk := Suc l\<rparr>;
          (w, k) = wait_queue_create (OwnLock l) k;
          k = k\<lparr>locks := (locks k)(l \<mapsto> \<lparr>lock_flag = False, thread_holding_lock = -1, lock_wq = w\<rparr>)\<rparr>
      in (l, snd (interrupts_set en k)))"

text \<open>
  \<open>lock_destroy\<close> tests the pointer (\<open>lock==false\<close>), not the flag, after asserting that it
  is not NULL. The block it guards would read \<open>lock->wq\<close> through NULL.
\<close>

definition lock_destroy :: "ptr \<Rightarrow> kernel \<Rightarrow> kernel option" where
  "lock_destroy lock k = do {
     let (en, k) = interrupts_set False k;
     _ \<leftarrow> c_assert (lock \<noteq> None);
     (if lock = None then None else Some (snd (interrupts_set en k))) }"

definition lock_release :: "ptr \<Rightarrow> kernel \<Rightarrow> kernel option" where
  "lock_release lock k = do {
     let (en, k) = interrupts_set False k;
     l \<leftarrow> lock;
     lk \<leftarrow> locks k l;
     let k = k\<lparr>locks := (locks k)(l \<mapsto> lk\<lparr>lock_flag := False, thread_holding_lock := thread_id k\<rparr>)\<rparr>;
     (_, k) \<leftarrow> thread_wakeup (Some (lock_wq lk)) 1 k;
     Some (snd (interrupts_set en k)) }"

definition cv_create :: "kernel \<Rightarrow> addr \<times> kernel" where
  "cv_create k =
     (let (en, k) = interrupts_set False k;
          c = brk k;
          k = k\<lparr>brk := Suc c\<rparr>;
          (w, k) = wait_queue_create (OwnCv c) k;
          k = k\<lparr>cvs := (cvs k)(c \<mapsto> \<lparr>cv_wait_queue = w\<rparr>)\<rparr>
      in (c, snd (interrupts_set en k)))"

text \<open>
  \<open>cv_destroy\<close> frees the nodes of the queue and the condition variable. The queue struct is
  leaked with its pointers dangling; nothing refers to it any more, so it leaves the model.
\<close>

definition cv_destroy :: "ptr \<Rightarrow> kernel \<Rightarrow> kernel option" where
  "cv_destroy cv k = do {
     let (en, k) = interrupts_set False k;
     c \<leftarrow> cv;
     v \<leftarrow> cvs k c;
     _ \<leftarrow> queues k (cv_wait_queue v);
     let k = k\<lparr>queues := (queues k)(cv_wait_queue v := None), cvs := (cvs k)(c := None)\<rparr>;
     Some (snd (interrupts_set en k)) }"

definition holds_lock :: "kernel \<Rightarrow> lock_s \<Rightarrow> bool" where
  "holds_lock k lk \<longleftrightarrow> lock_flag lk \<and> thread_holding_lock lk = thread_id k"

definition cv_wake :: "int \<Rightarrow> ptr \<Rightarrow> ptr \<Rightarrow> kernel \<Rightarrow> kernel option" where
  "cv_wake all cv lock k = do {
     c \<leftarrow> cv;
     l \<leftarrow> lock;
     lk \<leftarrow> locks k l;
     (if holds_lock k lk then do {
        v \<leftarrow> cvs k c;
        (_, k) \<leftarrow> thread_wakeup (Some (cv_wait_queue v)) all k;
        Some k }
      else Some k) }"

definition cv_signal :: "ptr \<Rightarrow> ptr \<Rightarrow> kernel \<Rightarrow> kernel option" where
  "cv_signal = cv_wake 0"

definition cv_broadcast :: "ptr \<Rightarrow> ptr \<Rightarrow> kernel \<Rightarrow> kernel option" where
  "cv_broadcast = cv_wake 1"

end
