(* ===== verification/Kernel_Machine.thy ===== *)
theory Kernel_Machine
  imports Kernel_Ops
begin

text \<open>
  The functions of \<open>src/threads/thread.c\<close> that may switch threads (\<open>thread_yield\<close>,
  \<open>thread_exit\<close>, \<open>thread_sleep\<close>, \<open>thread_wait\<close>, \<open>lock_acquire\<close>, \<open>cv_wait\<close>), the signal
  handler of \<open>src/threads/interrupt.c\<close>, and the machine that runs them. A function is cut at
  the calls that may switch: the part up to the call ends in a configuration whose mode is that
  call and whose stack holds a frame for the rest of the function.
\<close>

section \<open>Configurations\<close>

datatype conf =
    Running kernel mode "frame list"
  | Terminated int

definition return_to :: "retval \<Rightarrow> frame list \<Rightarrow> bool \<Rightarrow> kernel \<Rightarrow> conf" where
  "return_to v ks en k = Running (snd (interrupts_set en k)) (Returning v) ks"

section \<open>thread_yield\<close>

text \<open>
  The switch, from \<open>getcontext\<close> to \<open>setcontext\<close>: the caller's context is saved, exited
  threads are reaped, a caller that is still running goes to the back of the ready queue, and
  thread \<open>t\<close>, already taken off that queue, becomes current.
\<close>

definition switch_to :: "bool \<Rightarrow> tid \<Rightarrow> frame list \<Rightarrow> kernel \<Rightarrow> conf option" where
  "switch_to en t ks k = do {
     let k = upd_tcb (current k) (\<lambda>b. b\<lparr>context_of := FYield en t # ks\<rparr>) k;
     k \<leftarrow> reap k;
     k \<leftarrow> (if state k (current k) = RUNNING \<and> state k (current k) \<noteq> SLEEP
          then enqueue (current k) RQ (set_state (current k) READY k)
          else Some k);
     let k = (if state k t \<noteq> KILLED then set_state t RUNNING k else k);
     let k = k\<lparr>current := t\<rparr>;
     Some (Running k Resuming (context_of (array_of_threads k t))) }"

definition yield_body :: "bool \<Rightarrow> tid \<Rightarrow> frame list \<Rightarrow> kernel \<Rightarrow> conf option" where
  "yield_body en want ks k =
     (if want \<ge> THREAD_MAX_THREADS \<or> want < -2 then Some (return_to (rv THREAD_INVALID) ks en k)
      else if want = THREAD_SELF \<or> want = current k then Some (return_to (rv (current k)) ks en k)
      else if want = THREAD_ANY then do {
        (t, k) \<leftarrow> dequeue_element_from_head RQ k;
        (if t = THREAD_NONE then Some (return_to (rv THREAD_NONE) ks en k)
         else switch_to en t ks k) }
      else do {
        (t, k) \<leftarrow> dequeue_element want RQ k;
        (if t = THREAD_INVALID then Some (return_to (rv THREAD_INVALID) ks en k)
         else switch_to en want ks k) })"

text \<open>A killed caller first calls \<open>thread_exit(0)\<close>; the rest of the function waits in \<open>FKilled\<close>.\<close>

definition thread_yield :: "tid \<Rightarrow> frame list \<Rightarrow> kernel \<Rightarrow> conf option" where
  "thread_yield want ks k =
     (let (en, k) = interrupts_set False k in
      if state k (current k) = KILLED
      then Some (Running (snd (interrupts_set en k)) (Calling (Exit 0)) (FKilled en want # ks))
      else yield_body en want ks k)"

section \<open>thread_exit\<close>

definition thread_exit :: "int \<Rightarrow> frame list \<Rightarrow> kernel \<Rightarrow> conf option" where
  "thread_exit code ks k = do {
     let (en, k) = interrupts_set False k;
     (_, k) \<leftarrow> thread_wakeup (wq (array_of_threads k (thread_id k))) 1 k;
     (if nums_existing_threads k \<ge> 1 then do {
        let k = set_state (current k) EXITED k;
        let k = k\<lparr>nums_existing_threads := nums_existing_threads k - 1\<rparr>;
        let k = upd_tcb (thread_id k) (\<lambda>b. b\<lparr>exit_code := code\<rparr>) k;
        (_, k) \<leftarrow> thread_wakeup (wq (array_of_threads k (thread_id k))) 1 k;
        Some (Running (snd (interrupts_set en k)) (Calling (Yield THREAD_ANY)) (FExit1 # ks)) }
      else Some (Terminated 0)) }"

section \<open>thread_sleep and thread_wait\<close>

definition thread_sleep :: "ptr \<Rightarrow> frame list \<Rightarrow> kernel \<Rightarrow> conf option" where
  "thread_sleep queue ks k =
     (let (en, k) = interrupts_set False k in
      case queue of
        None \<Rightarrow> Some (return_to (rv THREAD_INVALID) ks en k)
      | Some q \<Rightarrow>
          if nums_existing_threads k = 1 then Some (return_to (rv THREAD_NONE) ks en k)
          else do {
            let k = set_state (current k) SLEEP k;
            k \<leftarrow> enqueue (current k) q k;
            let k = k\<lparr>nums_existing_threads := nums_existing_threads k - 1\<rparr>;
            Some (Running (snd (interrupts_set en k)) (Calling (Yield THREAD_ANY)) ks) })"

text \<open>\<open>has_ptr\<close> is whether the caller passed a non-NULL \<open>exit_code\<close>; writing through NULL is a fault.\<close>

definition thread_wait :: "tid \<Rightarrow> bool \<Rightarrow> frame list \<Rightarrow> kernel \<Rightarrow> conf option" where
  "thread_wait t has_ptr ks k =
     (if t < 0 \<or> t \<ge> THREAD_MAX_THREADS \<or> t = thread_id k
      then Some (Running k (Returning (rv THREAD_INVALID)) ks)
      else let b = array_of_threads k t in
      if current_state b = EXITED \<or>
         current_state b = UNINITIALIZED \<and> exit_code b \<noteq> -1 \<and> has_ptr
      then if has_ptr
        then Some (Running (upd_tcb t (\<lambda>b. b\<lparr>exit_code := -1\<rparr>) k)
                     (Returning \<lparr>r_val = t, r_out = Some (exit_code b)\<rparr>) ks)
        else None
      else if current_state b = UNINITIALIZED
      then Some (Running k (Returning (rv THREAD_INVALID)) ks)
      else Some (Running (upd_tcb (thread_id k) (\<lambda>c. c\<lparr>waiting_on := t\<rparr>) k)
                   (Calling (Sleep (wq b))) (FWait t has_ptr # ks)))"

text \<open>The end of \<open>thread_wait\<close>; its \<open>waiting_on\<close> reset is of the thread waited for.\<close>

definition wait_tail :: "tid \<Rightarrow> bool \<Rightarrow> frame list \<Rightarrow> kernel \<Rightarrow> conf" where
  "wait_tail t en ks k =
     return_to (rv THREAD_INVALID) ks en (upd_tcb t (\<lambda>b. b\<lparr>waiting_on := -1\<rparr>) k)"

definition wait_resumed :: "tid \<Rightarrow> bool \<Rightarrow> frame list \<Rightarrow> kernel \<Rightarrow> conf" where
  "wait_resumed t has_ptr ks k =
     (let (en, k) = interrupts_set False k;
          b = array_of_threads k t
      in if exit_code b \<noteq> -1 then
           return_to \<lparr>r_val = t, r_out = (if has_ptr then Some (exit_code b) else None)\<rparr> ks en
             (upd_tcb t (\<lambda>b. b\<lparr>exit_code2 := exit_code b, exit_code := -1\<rparr>) k)
         else if state k (thread_id k) = KILLED then
           Running (snd (interrupts_set en k))
             (Calling (Exit (exit_code (array_of_threads k (thread_id k))))) (FWaitTail t en # ks)
         else wait_tail t en ks k)"

section \<open>lock_acquire and cv_wait\<close>

text \<open>One evaluation of the guard of \<open>lock_acquire\<close>'s loop, with interrupts disabled.\<close>

definition lock_acquire_loop :: "addr \<Rightarrow> bool \<Rightarrow> frame list \<Rightarrow> kernel \<Rightarrow> conf option" where
  "lock_acquire_loop l en ks k = do {
     lk \<leftarrow> locks k l;
     (if lock_flag lk
      then Some (Running k (Calling (Sleep (Some (lock_wq lk)))) (FLockAcquire l en # ks))
      else Some (return_to (rv 0) ks en
        (k\<lparr>locks := (locks k)(l \<mapsto> lk\<lparr>lock_flag := True, thread_holding_lock := thread_id k\<rparr>)\<rparr>))) }"

definition lock_acquire :: "ptr \<Rightarrow> frame list \<Rightarrow> kernel \<Rightarrow> conf option" where
  "lock_acquire lock ks k = do {
     let (en, k) = interrupts_set False k;
     l \<leftarrow> lock;
     lock_acquire_loop l en ks k }"

text \<open>\<open>cv_wait\<close> gives up the lock, and only then, with interrupts possible in between, sleeps.\<close>

definition cv_wait :: "ptr \<Rightarrow> ptr \<Rightarrow> frame list \<Rightarrow> kernel \<Rightarrow> conf option" where
  "cv_wait cv lock ks k = do {
     c \<leftarrow> cv;
     l \<leftarrow> lock;
     lk \<leftarrow> locks k l;
     (if holds_lock k lk then do {
        k \<leftarrow> lock_release (Some l) k;
        Some (Running k (Returning (rv 0)) (FCvReleased c l # ks)) }
      else Some (Running k (Returning (rv 0)) ks)) }"

section \<open>One step of the machine\<close>

definition unit_result :: "frame list \<Rightarrow> kernel option \<Rightarrow> conf option" where
  "unit_result ks r = map_option (\<lambda>k. Running k (Returning (rv 0)) ks) r"

definition int_result :: "frame list \<Rightarrow> (int \<times> kernel) option \<Rightarrow> conf option" where
  "int_result ks r = map_option (\<lambda>(v, k). Running k (Returning (rv v)) ks) r"

definition addr_result :: "frame list \<Rightarrow> addr \<times> kernel \<Rightarrow> conf option" where
  "addr_result ks r = Some (Running (snd r) (Returning (rv (int (fst r)))) ks)"

fun call_step :: "call \<Rightarrow> frame list \<Rightarrow> kernel \<Rightarrow> conf option" where
  "call_step (Yield want) ks k = thread_yield want ks k"
| "call_step (Exit c) ks k = thread_exit c ks k"
| "call_step (Sleep q) ks k = thread_sleep q ks k"
| "call_step (Wait t p) ks k = thread_wait t p ks k"
| "call_step (LockAcquire l) ks k = lock_acquire l ks k"
| "call_step (CvWait c l) ks k = cv_wait c l ks k"
| "call_step (Create fn parg ok) ks k = int_result ks (thread_create fn parg ok k)"
| "call_step (Kill t) ks k = int_result ks (thread_kill t k)"
| "call_step (Wakeup q all) ks k = int_result ks (thread_wakeup q all k)"
| "call_step WqCreate ks k = addr_result ks (wait_queue_create OwnUser k)"
| "call_step (WqDestroy q) ks k = unit_result ks (wait_queue_destroy q k)"
| "call_step LockCreate ks k = addr_result ks (lock_create k)"
| "call_step (LockDestroy l) ks k = unit_result ks (lock_destroy l k)"
| "call_step (LockRelease l) ks k = unit_result ks (lock_release l k)"
| "call_step CvCreate ks k = addr_result ks (cv_create k)"
| "call_step (CvDestroy c) ks k = unit_result ks (cv_destroy c k)"
| "call_step (CvSignal c l) ks k = unit_result ks (cv_signal c l k)"
| "call_step (CvBroadcast c l) ks k = unit_result ks (cv_broadcast c l k)"
| "call_step ThreadId ks k = int_result ks (Some (thread_id k, k))"
| "call_step (InterruptsSet b) ks k =
     (let (en, k) = interrupts_set b k in int_result ks (Some (of_bool en, k)))"

text \<open>
  Returning value \<open>v\<close> into a frame of the library. \<open>FUser\<close> is not the library's, and
  \<open>FYield\<close> and \<open>FStub\<close> are entered by \<open>setcontext\<close> only.
\<close>

fun return_step :: "retval \<Rightarrow> frame \<Rightarrow> frame list \<Rightarrow> kernel \<Rightarrow> conf option" where
  "return_step v FStubExit ks k = Some (Running k (Calling (Exit 0)) ks)"
| "return_step v (FKilled en want) ks k = yield_body en want ks k"
| "return_step v FExit1 ks k = Some (Running k (Calling (Yield THREAD_ANY)) (FExit2 # ks))"
| "return_step v FExit2 ks k =
     (if r_val v = THREAD_NONE then Some (Terminated 0) else Some (Running k (Returning (rv 0)) ks))"
| "return_step v (FWait t p) ks k = Some (wait_resumed t p ks k)"
| "return_step v (FWaitTail t en) ks k = Some (wait_tail t en ks k)"
| "return_step v (FLockAcquire l en) ks k = lock_acquire_loop l en ks k"
| "return_step v (FCvReleased c l) ks k = do {
     cv \<leftarrow> cvs k c;
     Some (Running k (Calling (Sleep (Some (cv_wait_queue cv)))) (FCvSlept l # ks)) }"
| "return_step v (FCvSlept l) ks k = Some (Running k (Calling (LockAcquire (Some l))) ks)"
| "return_step v (FHandler m) ks k = Some (Running (snd (interrupts_set True k)) m ks)"
| "return_step v _ ks k = None"

text \<open>
  Continuing an installed context: a thread that was switched away from reaps once more, restores
  its interrupt state and returns the thread it yielded to; a new thread starts in \<open>thread_stub\<close>.
\<close>

fun resume_step :: "frame list \<Rightarrow> kernel \<Rightarrow> conf option" where
  "resume_step (FYield en t # ks) k = do { k \<leftarrow> reap k; Some (return_to (rv t) ks en k) }"
| "resume_step (FStub fn parg # ks) k =
     Some (Running (snd (interrupts_on k)) (Returning (rv 0)) (FUser # FStubExit # ks))"
| "resume_step _ k = None"

text \<open>
  The calls the program may make. The library's own queues (the ready queue, the queues of
  threads, locks and condition variables) are not reachable through the interface.
\<close>

definition user_queue :: "kernel \<Rightarrow> ptr \<Rightarrow> bool" where
  "user_queue k p \<longleftrightarrow> (\<forall>q. p = Some q \<longrightarrow> q < brk k \<and> owner k q = OwnUser)"

fun user_call :: "kernel \<Rightarrow> call \<Rightarrow> bool" where
  "user_call k (Sleep q) = user_queue k q"
| "user_call k (Wakeup q _) = user_queue k q"
| "user_call k (WqDestroy q) = user_queue k q"
| "user_call k _ = True"

text \<open>
  The steps of the machine: the library continues; the program, in \<open>FUser\<close>, makes any call or
  returns from its function (returning from \<open>main\<close> ends the process); and, whenever interrupts
  are enabled, the timer signal preempts the thread at any point, the handler calling
  \<open>thread_yield(THREAD_ANY)\<close> with the signal blocked. A fault has no successor.
\<close>

inductive step :: "conf \<Rightarrow> conf \<Rightarrow> bool" where
  call: "call_step c ks k = Some cf \<Longrightarrow> step (Running k (Calling c) ks) cf"
| return: "return_step v f ks k = Some cf \<Longrightarrow> step (Running k (Returning v) (f # ks)) cf"
| resume: "resume_step ks k = Some cf \<Longrightarrow> step (Running k Resuming ks) cf"
| user: "user_call k c \<Longrightarrow> call_step c (FUser # ks) k = Some cf \<Longrightarrow>
    step (Running k (Returning v) (FUser # ks)) cf"
| user_return: "step (Running k (Returning v) (FUser # ks)) (Running k (Returning (rv 0)) ks)"
| main_return: "step (Running k (Returning v) []) (Terminated c)"
| interrupt: "ints k \<Longrightarrow> m \<noteq> Resuming \<Longrightarrow>
    step (Running k m ks)
      (Running (k\<lparr>ints := False\<rparr>) (Calling (Yield THREAD_ANY)) (FHandler m # ks))"

inductive_cases step_RunningE: "step (Running k m ks) cf"
inductive_cases step_TerminatedE: "step (Terminated c) cf"

definition start :: conf where
  "start = Running (thread_init boot) (Returning (rv 0)) [FUser]"

inductive reachable :: "conf \<Rightarrow> bool" where
  init: "reachable start"
| next_step: "reachable cf \<Longrightarrow> step cf cf' \<Longrightarrow> reachable cf'"

end
