(* ===== verification/Kernel_Invariant.thy ===== *)
theory Kernel_Invariant
  imports Kernel_Machine
begin

text \<open>
  The invariant of the thread library's global state and its preservation by the atomic changes
  the library makes: waking a thread, putting the current thread to sleep, exiting it, switching,
  reaping, creating and killing. It relates the ready queue, the thread states, the counter
  \<open>nums_existing_threads\<close>, the ownership of wait queues, the stacks and the saved contexts.
\<close>

section \<open>The invariant\<close>

definition ready_queue :: "kernel \<Rightarrow> tid list" where
  "ready_queue k = the (queues k RQ)"

definition runnable :: "kernel \<Rightarrow> tid \<Rightarrow> bool" where
  "runnable k t \<longleftrightarrow> state k t = RUNNING \<or> state k t = KILLED"

text \<open>
  Queues: every queue holds valid threads once; the ready queue holds threads that are ready (or
  killed and still to run), never the current one; wait queues hold sleeping threads; no thread
  is in two queues.
\<close>

definition queue_ok :: "kernel \<Rightarrow> addr \<Rightarrow> tid list \<Rightarrow> bool" where
  "queue_ok k q xs \<longleftrightarrow> distinct xs \<and> q < brk k \<and>
     (\<forall>t \<in> set xs. valid_tid t \<and>
        (if q = RQ then t \<noteq> current k \<and> (state k t = READY \<or> state k t = KILLED)
         else state k t = SLEEP))"

definition in_queue :: "kernel \<Rightarrow> addr \<Rightarrow> tid \<Rightarrow> bool" where
  "in_queue k q t \<longleftrightarrow> (\<exists>xs. queues k q = Some xs \<and> t \<in> set xs)"

definition queues_inv :: "kernel \<Rightarrow> bool" where
  "queues_inv k \<longleftrightarrow>
     (\<forall>q xs. queues k q = Some xs \<longrightarrow> queue_ok k q xs) \<and>
     (\<forall>t q r. in_queue k q t \<longrightarrow> in_queue k r t \<longrightarrow> q = r)"

text \<open>
  Counting: \<open>nums_existing_threads\<close> is the number of ready threads plus one for the current
  thread while it is runnable; the current thread is the only one in state \<open>RUNNING\<close>.
\<close>

definition counting_inv :: "kernel \<Rightarrow> bool" where
  "counting_inv k \<longleftrightarrow> valid_tid (current k) \<and> queues k RQ \<noteq> None \<and>
     nums_existing_threads k = int (length (ready_queue k)) + of_bool (runnable k (current k)) \<and>
     state k (current k) \<noteq> READY \<and> state k (current k) \<noteq> UNINITIALIZED \<and>
     (\<forall>t. t \<noteq> current k \<longrightarrow> state k t \<noteq> RUNNING)"

text \<open>
  Ownership: each initialized thread, each lock and each condition variable has a live wait queue
  of its own.
\<close>

definition owns :: "kernel \<Rightarrow> addr \<Rightarrow> queue_owner \<Rightarrow> bool" where
  "owns k q ow \<longleftrightarrow> queues k q \<noteq> None \<and> owner k q = ow \<and> q < brk k"

definition owner_inv :: "kernel \<Rightarrow> bool" where
  "owner_inv k \<longleftrightarrow> owner k RQ = OwnReady \<and>
     (\<forall>t. valid_tid t \<longrightarrow> state k t \<noteq> UNINITIALIZED \<longrightarrow>
        (\<exists>q. wq (array_of_threads k t) = Some q \<and> owns k q (OwnThread t))) \<and>
     (\<forall>l lk. locks k l = Some lk \<longrightarrow> l < brk k \<and> owns k (lock_wq lk) (OwnLock l)) \<and>
     (\<forall>c cv. cvs k c = Some cv \<longrightarrow> c < brk k \<and> owns k (cv_wait_queue cv) (OwnCv c))"

text \<open>Stacks: threads that can still run, or are still to be reaped, have their own live stacks.\<close>

definition alive :: "kernel \<Rightarrow> tid \<Rightarrow> bool" where
  "alive k t \<longleftrightarrow> valid_tid t \<and>
     (t = current k \<or> t \<in> set (ready_queue k) \<or> state k t = SLEEP \<or> state k t = EXITED)"

definition stack_inv :: "kernel \<Rightarrow> bool" where
  "stack_inv k \<longleftrightarrow> (\<forall>a \<in> stacks k. a < brk k) \<and>
     (\<forall>t a. alive k t \<longrightarrow> stack_ptr (array_of_threads k t) = Some a \<longrightarrow> a \<in> stacks k) \<and>
     (\<forall>t u a. alive k t \<longrightarrow> alive k u \<longrightarrow> stack_ptr (array_of_threads k t) = Some a \<longrightarrow>
        stack_ptr (array_of_threads k u) = Some a \<longrightarrow> t = u)"

text \<open>
  Saved contexts: a thread that waits to run was saved in \<open>thread_yield\<close> or is new, and is not
  inside \<open>thread_exit\<close>; a preempted mode is never one that only a switch installs, and a
  suspended sleep is never on the ready queue.
\<close>

definition mode_ok :: "mode \<Rightarrow> bool" where
  "mode_ok m \<longleftrightarrow> m \<noteq> Resuming \<and> (\<forall>c. m = Calling c \<longrightarrow>
     (case c of Yield _ \<Rightarrow> True | Exit _ \<Rightarrow> True | LockAcquire _ \<Rightarrow> True
      | Sleep q \<Rightarrow> q \<noteq> Some RQ | _ \<Rightarrow> False))"

definition frame_ok :: "frame \<Rightarrow> bool" where
  "frame_ok f \<longleftrightarrow> (case f of FHandler m \<Rightarrow> mode_ok m | FYield _ _ \<Rightarrow> False | FStub _ _ \<Rightarrow> False | _ \<Rightarrow> True)"

definition exit_frame :: "frame \<Rightarrow> bool" where
  "exit_frame f \<longleftrightarrow> (case f of FExit1 \<Rightarrow> True | FExit2 \<Rightarrow> True | FKilled _ _ \<Rightarrow> True
     | FWaitTail _ _ \<Rightarrow> True | _ \<Rightarrow> False)"

definition clean :: "frame list \<Rightarrow> bool" where
  "clean ks \<longleftrightarrow> (\<forall>f \<in> set ks. frame_ok f \<and> \<not> exit_frame f)"

definition resumable :: "frame list \<Rightarrow> bool" where
  "resumable ks \<longleftrightarrow>
     (\<exists>en t ks'. ks = FYield en t # ks' \<and> clean ks') \<or> (\<exists>fn parg. ks = [FStub fn parg])"

definition context_inv :: "kernel \<Rightarrow> bool" where
  "context_inv k \<longleftrightarrow> (\<forall>t. t \<noteq> current k \<longrightarrow> t \<in> set (ready_queue k) \<or> state k t = SLEEP \<longrightarrow>
     resumable (context_of (array_of_threads k t)))"

definition kernel_inv :: "kernel \<Rightarrow> bool" where
  "kernel_inv k \<longleftrightarrow> queues_inv k \<and> counting_inv k \<and> owner_inv k \<and> stack_inv k \<and> context_inv k"

lemmas inv_defs = queues_inv_def counting_inv_def owner_inv_def stack_inv_def context_inv_def

section \<open>Consequences\<close>

lemma kernel_invD:
  assumes "kernel_inv k"
  shows "queues_inv k" "counting_inv k" "owner_inv k" "stack_inv k" "context_inv k"
  using assms by (auto simp: kernel_inv_def)

lemma ready_queue_eq: "counting_inv k \<Longrightarrow> queues k RQ = Some (ready_queue k)"
  by (auto simp: counting_inv_def ready_queue_def)

lemma in_queueD:
  assumes "queues_inv k" "queues k q = Some xs" "t \<in> set xs"
  shows "valid_tid t" "q \<noteq> RQ \<Longrightarrow> state k t = SLEEP"
    "q = RQ \<Longrightarrow> t \<noteq> current k \<and> (state k t = READY \<or> state k t = KILLED)"
  using assms by (auto simp: queues_inv_def queue_ok_def)

lemma queue_okI: "queues_inv k \<Longrightarrow> queues k q = Some xs \<Longrightarrow> queue_ok k q xs"
  by (simp add: queues_inv_def)

lemma queue_distinct: "queues_inv k \<Longrightarrow> queues k q = Some xs \<Longrightarrow> distinct xs"
  by (auto simp: queues_inv_def queue_ok_def)

lemma in_queue_unique: "queues_inv k \<Longrightarrow> in_queue k q t \<Longrightarrow> in_queue k r t \<Longrightarrow> q = r"
  unfolding queues_inv_def by blast

lemma queues_invI:
  assumes "\<And>q xs. queues k q = Some xs \<Longrightarrow> queue_ok k q xs"
    and "\<And>t q r. in_queue k q t \<Longrightarrow> in_queue k r t \<Longrightarrow> q = r"
  shows "queues_inv k"
  using assms unfolding queues_inv_def by blast

lemma not_none_tid: "valid_tid t \<Longrightarrow> t \<noteq> THREAD_NONE" "valid_tid t \<Longrightarrow> t \<noteq> THREAD_INVALID"
  by (auto simp: valid_tid_def THREAD_NONE_def THREAD_INVALID_def)

lemma RQ_brk: "kernel_inv k \<Longrightarrow> RQ < brk k"
  by (auto simp: kernel_inv_def counting_inv_def queues_inv_def queue_ok_def)

section \<open>Updates the invariant does not see\<close>

lemma kernel_inv_ints [simp]: "kernel_inv (k\<lparr>ints := b\<rparr>) = kernel_inv k"
  by (simp add: kernel_inv_def inv_defs queue_ok_def in_queue_def ready_queue_def runnable_def owns_def alive_def)

lemma ready_queue_sel [simp]:
  "ready_queue (upd_tcb t f k) = ready_queue k" "ready_queue (set_state t s k) = ready_queue k"
  "ready_queue (k\<lparr>ints := b\<rparr>) = ready_queue k" "ready_queue (k\<lparr>current := c\<rparr>) = ready_queue k"
  by (simp_all add: ready_queue_def)

lemma kernel_inv_upd_tcb:
  assumes "\<And>b. current_state (f b) = current_state b" "\<And>b. wq (f b) = wq b"
    "\<And>b. stack_ptr (f b) = stack_ptr b" "\<And>b. context_of (f b) = context_of b"
  shows "kernel_inv (upd_tcb t f k) = kernel_inv k"
proof -
  have "(array_of_threads (upd_tcb t f k) u) = (if u = t then f (array_of_threads k u) else array_of_threads k u)" for u
    by simp
  then have "state (upd_tcb t f k) u = state k u" "wq (array_of_threads (upd_tcb t f k) u) = wq (array_of_threads k u)"
    "stack_ptr (array_of_threads (upd_tcb t f k) u) = stack_ptr (array_of_threads k u)"
    "context_of (array_of_threads (upd_tcb t f k) u) = context_of (array_of_threads k u)" for u
    using assms by simp_all
  then show ?thesis
    by (simp add: kernel_inv_def inv_defs queue_ok_def in_queue_def runnable_def owns_def alive_def del: upd_tcb_sel(1))
qed

section \<open>Transfer of the invariant's parts\<close>

lemma owner_inv_mono:
  assumes "owner_inv k" and "\<And>q ow. owns k q ow \<Longrightarrow> owns k' q ow"
    and "\<And>t. valid_tid t \<Longrightarrow> state k' t \<noteq> UNINITIALIZED \<Longrightarrow>
      state k t \<noteq> UNINITIALIZED \<and> wq (array_of_threads k' t) = wq (array_of_threads k t)"
    and "locks k' = locks k" "cvs k' = cvs k" "brk k \<le> brk k'" "owner k' RQ = owner k RQ"
  shows "owner_inv k'"
proof -
  have "\<exists>q. wq (array_of_threads k' t) = Some q \<and> owns k' q (OwnThread t)"
    if "valid_tid t" "state k' t \<noteq> UNINITIALIZED" for t
    using that assms(1-3) unfolding owner_inv_def by metis
  moreover have "l < brk k' \<and> owns k' (lock_wq lk) (OwnLock l)" if "locks k' l = Some lk" for l lk
    using that assms unfolding owner_inv_def by (metis order_less_le_trans)
  moreover have "c < brk k' \<and> owns k' (cv_wait_queue v) (OwnCv c)" if "cvs k' c = Some v" for c v
    using that assms unfolding owner_inv_def by (metis order_less_le_trans)
  ultimately show ?thesis using assms(1,7) unfolding owner_inv_def by metis
qed

lemma stack_inv_mono:
  assumes "stack_inv k" and "\<And>t. alive k' t \<Longrightarrow>
      alive k t \<and> stack_ptr (array_of_threads k' t) = stack_ptr (array_of_threads k t)"
    and "stacks k' = stacks k" "brk k \<le> brk k'"
  shows "stack_inv k'"
  using assms unfolding stack_inv_def by (metis order_less_le_trans)

lemma context_inv_mono:
  assumes "context_inv k" and "\<And>t. t \<noteq> current k' \<Longrightarrow> t \<in> set (ready_queue k') \<or> state k' t = SLEEP \<Longrightarrow>
      t \<noteq> current k \<and> (t \<in> set (ready_queue k) \<or> state k t = SLEEP) \<and>
        context_of (array_of_threads k' t) = context_of (array_of_threads k t) \<or>
      resumable (context_of (array_of_threads k' t))"
  shows "context_inv k'"
  using assms unfolding context_inv_def by metis

section \<open>Waking a thread\<close>

definition wake :: "thread_states \<Rightarrow> tid \<Rightarrow> addr \<Rightarrow> tid list \<Rightarrow> kernel \<Rightarrow> kernel" where
  "wake s t q rest k = (set_state t s k)\<lparr>
     queues := (queues k)(q \<mapsto> rest, RQ \<mapsto> ready_queue k @ [t]),
     nums_existing_threads := nums_existing_threads k + 1\<rparr>"

lemma wake_sel [simp]:
  "array_of_threads (wake s t q rest k) =
     (array_of_threads k)(t := (array_of_threads k t)\<lparr>current_state := s\<rparr>)"
  "current (wake s t q rest k) = current k"
  "nums_existing_threads (wake s t q rest k) = nums_existing_threads k + 1"
  "queues (wake s t q rest k) = (queues k)(q \<mapsto> rest, RQ \<mapsto> ready_queue k @ [t])"
  "owner (wake s t q rest k) = owner k"
  "stacks (wake s t q rest k) = stacks k"
  "locks (wake s t q rest k) = locks k"
  "cvs (wake s t q rest k) = cvs k"
  "brk (wake s t q rest k) = brk k"
  "ints (wake s t q rest k) = ints k"
  "ready_queue (wake s t q rest k) = ready_queue k @ [t]"
  by (simp_all add: wake_def ready_queue_def)

lemma wake_inv:
  assumes inv: "kernel_inv k" and q: "queues k q = Some xs" "t \<in> set xs" "q \<noteq> RQ"
    and s: "s = READY \<or> s = KILLED" and cur: "t \<noteq> current k"
  shows "kernel_inv (wake s t q (remove1 t xs) k)" (is "kernel_inv ?k")
proof -
  note I = kernel_invD [OF inv]
  note rq = ready_queue_eq [OF I(2)]
  note t = in_queueD [OF I(1) q(1,2)]
  have sleep: "state k t = SLEEP" using t(2) q(3) .
  have iq: "in_queue k q t" using q by (auto simp: in_queue_def)
  have nin: "t \<notin> set (ready_queue k)"
    using in_queue_unique [OF I(1) iq, of RQ] q(3) rq by (auto simp: in_queue_def)
  have d: "distinct xs" using queue_distinct [OF I(1) q(1)] .
  have in_new: "in_queue ?k r u \<longleftrightarrow> (if u = t then r = RQ else in_queue k r u)" for r u
  proof (cases "u = t")
    case True
    have "\<not> in_queue k r t" if "r \<noteq> q" for r
      using in_queue_unique [OF I(1) iq, of r] that by blast
    with True q d show ?thesis by (auto simp: in_queue_def)
  next
    case False
    with q rq d show ?thesis by (simp add: in_queue_def)
  qed
  have "queue_ok ?k r ys" if r: "queues ?k r = Some ys" for r ys
  proof (cases "r = RQ")
    case True
    with queue_okI [OF I(1) rq] nin t(1) s cur r show ?thesis by (auto simp: queue_ok_def)
  next
    case False
    then have "\<exists>zs. queues k r = Some zs \<and> set ys \<subseteq> set zs \<and> distinct ys"
      using r q(1) d queue_distinct [OF I(1), of r ys]
      by (auto split: if_splits dest: notin_set_remove1)
    moreover have "t \<notin> set ys" using in_new [of r t] False r by (auto simp: in_queue_def)
    ultimately show ?thesis using queue_okI [OF I(1), of r] False by (auto simp: queue_ok_def)
  qed
  moreover have "p = r" if "in_queue ?k p u" "in_queue ?k r u" for u p r
    using that in_queue_unique [OF I(1), of p u r] by (simp add: in_new split: if_splits)
  ultimately have 1: "queues_inv ?k" by (rule queues_invI)
  have 2: "counting_inv ?k" using I(2) cur s by (auto simp: counting_inv_def runnable_def)
  have 3: "owner_inv ?k"
    by (rule owner_inv_mono [OF I(3)]) (use q(1) sleep in \<open>auto simp: owns_def split: if_splits\<close>)
  have 4: "stack_inv ?k"
    by (rule stack_inv_mono [OF I(4)]) (use sleep t(1) in \<open>auto simp: alive_def split: if_splits\<close>)
  have 5: "context_inv ?k"
    by (rule context_inv_mono [OF I(5)]) (use sleep cur in \<open>auto split: if_splits\<close>)
  from 1 2 3 4 5 show ?thesis by (simp add: kernel_inv_def)
qed

section \<open>Sleeping, exiting, killing\<close>

lemma runnable_not_queued:
  assumes "kernel_inv k" "runnable k (current k)"
  shows "\<not> in_queue k q (current k)"
proof
  assume "in_queue k q (current k)"
  then obtain xs where "queues k q = Some xs" "current k \<in> set xs" by (auto simp: in_queue_def)
  from in_queueD [OF kernel_invD(1) [OF assms(1)] this] assms(2) show False
    by (cases "q = RQ") (auto simp: runnable_def)
qed

lemma sleep_inv:
  assumes inv: "kernel_inv k" and run: "runnable k (current k)"
    and q: "queues k q = Some xs" "q \<noteq> RQ"
  shows "kernel_inv ((set_state (current k) SLEEP k)\<lparr>
     queues := (queues k)(q \<mapsto> xs @ [current k]),
     nums_existing_threads := nums_existing_threads k - 1\<rparr>)" (is "kernel_inv ?k")
proof -
  note I = kernel_invD [OF inv]
  note rq = ready_queue_eq [OF I(2)]
  have cur: "valid_tid (current k)" using I(2) by (simp add: counting_inv_def)
  have nin: "\<not> in_queue k r (current k)" for r by (rule runnable_not_queued [OF inv run])
  have rq': "ready_queue ?k = ready_queue k" using q(2) by (simp add: ready_queue_def)
  have in_new: "in_queue ?k r u \<longleftrightarrow> (if u = current k then r = q else in_queue k r u)" for r u
    using nin [of r] q(1) by (auto simp: in_queue_def)
  have "queue_ok ?k r ys" if r: "queues ?k r = Some ys" for r ys
  proof (cases "r = q")
    case True
    with queue_okI [OF I(1) q(1)] nin [of q] cur q r show ?thesis
      by (auto simp: queue_ok_def in_queue_def)
  next
    case False
    with r have "queues k r = Some ys" by simp
    with queue_okI [OF I(1) this] nin [of r] show ?thesis by (auto simp: queue_ok_def in_queue_def)
  qed
  moreover have "p = r" if "in_queue ?k p u" "in_queue ?k r u" for u p r
    using that in_queue_unique [OF I(1), of p u r] by (simp only: in_new split: if_splits)
  ultimately have 1: "queues_inv ?k" by (rule queues_invI)
  have 2: "counting_inv ?k" using I(2) run rq' q(2) by (auto simp: counting_inv_def runnable_def)
  have 3: "owner_inv ?k"
    by (rule owner_inv_mono [OF I(3)])
      (use q(1) run in \<open>auto simp: owns_def runnable_def split: if_splits\<close>)
  have 4: "stack_inv ?k"
    by (rule stack_inv_mono [OF I(4)]) (use rq' cur in \<open>auto simp: alive_def split: if_splits\<close>)
  have 5: "context_inv ?k"
    by (rule context_inv_mono [OF I(5)]) (use rq' in \<open>auto split: if_splits\<close>)
  from 1 2 3 4 5 show ?thesis by (simp add: kernel_inv_def)
qed

text \<open>A state change that keeps every queue well formed, for the threads in no wait queue.\<close>

lemma queues_inv_set_state:
  assumes I: "queues_inv k" and "\<And>q. q \<noteq> RQ \<Longrightarrow> \<not> in_queue k q t"
    and "in_queue k RQ t \<Longrightarrow> s = READY \<or> s = KILLED"
  shows "queues_inv (set_state t s k)"
proof (rule queues_invI)
  fix q xs assume q: "queues (set_state t s k) q = Some xs"
  then have "queues k q = Some xs" by simp
  from queue_okI [OF I this] this assms(2) [of q] assms(3)
  show "queue_ok (set_state t s k) q xs" by (auto simp: queue_ok_def in_queue_def)
next
  fix u q r assume "in_queue (set_state t s k) q u" "in_queue (set_state t s k) r u"
  then have "in_queue k q u" "in_queue k r u" by (simp_all add: in_queue_def)
  then show "q = r" by (rule in_queue_unique [OF I])
qed

lemma queues_inv_nums [simp]:
  "queues_inv (k\<lparr>nums_existing_threads := n\<rparr>) = queues_inv k"
  "ready_queue (k\<lparr>nums_existing_threads := n\<rparr>) = ready_queue k"
  by (simp_all add: queues_inv_def queue_ok_def in_queue_def ready_queue_def)

lemma exit_inv:
  assumes inv: "kernel_inv k" and run: "runnable k (current k)"
  shows "kernel_inv ((set_state (current k) EXITED k)\<lparr>
     nums_existing_threads := nums_existing_threads k - 1\<rparr>)" (is "kernel_inv ?k")
proof -
  note I = kernel_invD [OF inv]
  have cur: "valid_tid (current k)" using I(2) by (simp add: counting_inv_def)
  have 1: "queues_inv ?k"
    by (simp, rule queues_inv_set_state [OF I(1)]) (simp_all add: runnable_not_queued [OF inv run])
  have 2: "counting_inv ?k" using I(2) run by (auto simp: counting_inv_def runnable_def)
  have 3: "owner_inv ?k"
    by (rule owner_inv_mono [OF I(3)]) (use run in \<open>auto simp: owns_def runnable_def split: if_splits\<close>)
  have 4: "stack_inv ?k"
    by (rule stack_inv_mono [OF I(4)]) (use cur in \<open>auto simp: alive_def split: if_splits\<close>)
  have 5: "context_inv ?k"
    by (rule context_inv_mono [OF I(5)]) (auto split: if_splits)
  from 1 2 3 4 5 show ?thesis by (simp add: kernel_inv_def)
qed

lemma kill_inv:
  assumes inv: "kernel_inv k" and t: "valid_tid t" "t \<noteq> current k" "state k t \<noteq> UNINITIALIZED"
    "state k t \<noteq> SLEEP"
  shows "kernel_inv (set_state t KILLED k)" (is "kernel_inv ?k")
proof -
  note I = kernel_invD [OF inv]
  have "\<not> in_queue k q t" if "q \<noteq> RQ" for q
    using in_queueD(2) [OF I(1) _ _ that] t(4) by (auto simp: in_queue_def)
  then have 1: "queues_inv ?k" by (rule queues_inv_set_state [OF I(1)]) simp_all
  have 2: "counting_inv ?k" using I(2) t by (auto simp: counting_inv_def runnable_def)
  have 3: "owner_inv ?k"
    by (rule owner_inv_mono [OF I(3)]) (use t in \<open>auto simp: owns_def split: if_splits\<close>)
  have 4: "stack_inv ?k"
    by (rule stack_inv_mono [OF I(4)]) (auto simp: alive_def split: if_splits)
  have 5: "context_inv ?k"
    by (rule context_inv_mono [OF I(5)]) (use t in \<open>auto split: if_splits\<close>)
  from 1 2 3 4 5 show ?thesis by (simp add: kernel_inv_def)
qed

section \<open>Reaping\<close>

text \<open>What reaping leaves alone.\<close>

definition reap_frame :: "kernel \<Rightarrow> kernel \<Rightarrow> bool" where
  "reap_frame k k' \<longleftrightarrow> current k' = current k \<and> ready_queue k' = ready_queue k \<and>
     nums_existing_threads k' = nums_existing_threads k \<and> locks k' = locks k \<and> cvs k' = cvs k \<and>
     owner k' = owner k \<and> brk k' = brk k \<and> ints k' = ints k \<and>
     (\<forall>u. u = current k \<or> state k u \<noteq> EXITED \<longrightarrow> array_of_threads k' u = array_of_threads k u) \<and>
     (\<forall>u. state k' u = state k u \<or> state k' u = UNINITIALIZED)"

lemma reap_frame_refl [simp]: "reap_frame k k"
  by (simp add: reap_frame_def)

lemma reap_frame_trans: "reap_frame k k' \<Longrightarrow> reap_frame k' k'' \<Longrightarrow> reap_frame k k''"
  unfolding reap_frame_def by metis

lemma reap_one_skip: "i = current k \<or> state k i \<noteq> EXITED \<Longrightarrow> reap_one i k = Some k"
  by (auto simp: reap_one_def)

definition reaped :: "tid \<Rightarrow> addr \<Rightarrow> kernel \<Rightarrow> kernel" where
  "reaped i q k = (set_state i UNINITIALIZED k)\<lparr>queues := (queues k)(q := None),
     stacks := stacks k - set_option (stack_ptr (array_of_threads k i))\<rparr>"

lemma reaped_sel [simp]:
  "array_of_threads (reaped i q k) =
     (array_of_threads k)(i := (array_of_threads k i)\<lparr>current_state := UNINITIALIZED\<rparr>)"
  "current (reaped i q k) = current k"
  "nums_existing_threads (reaped i q k) = nums_existing_threads k"
  "queues (reaped i q k) = (queues k)(q := None)"
  "owner (reaped i q k) = owner k"
  "stacks (reaped i q k) = stacks k - set_option (stack_ptr (array_of_threads k i))"
  "locks (reaped i q k) = locks k"
  "cvs (reaped i q k) = cvs k"
  "brk (reaped i q k) = brk k"
  "ints (reaped i q k) = ints k"
  "q \<noteq> RQ \<Longrightarrow> ready_queue (reaped i q k) = ready_queue k"
  by (simp_all add: reaped_def ready_queue_def)

lemma reap_one_exited:
  assumes "i \<noteq> current k" "state k i = EXITED" "wq (array_of_threads k i) = Some q"
    "queues k q \<noteq> None" "\<And>a. stack_ptr (array_of_threads k i) = Some a \<Longrightarrow> a \<in> stacks k"
  shows "reap_one i k = Some (reaped i q k)"
  using assms
  by (cases "stack_ptr (array_of_threads k i)")
    (auto simp: reap_one_def free_stack_def wait_queue_destroy_def reaped_def set_state_def upd_tcb_def)

lemma reaped_inv:
  assumes inv: "kernel_inv k" and i: "valid_tid i" "i \<noteq> current k" "state k i = EXITED"
    and q: "wq (array_of_threads k i) = Some q" "owns k q (OwnThread i)"
  shows "kernel_inv (reaped i q k)" (is "kernel_inv ?k")
proof -
  note I = kernel_invD [OF inv]
  have q': "q \<noteq> RQ" "queues k q \<noteq> None" using q(2) I(3) by (auto simp: owns_def owner_inv_def)
  have nin: "\<not> in_queue k r i" for r
    using in_queueD [OF I(1), of r _ i] i(3) by (cases "r = RQ") (auto simp: in_queue_def)
  have "queue_ok ?k r ys" if r: "queues ?k r = Some ys" for r ys
  proof -
    from r have "queues k r = Some ys" by (simp split: if_splits)
    with queue_okI [OF I(1) this] nin [of r] show ?thesis by (auto simp: queue_ok_def in_queue_def)
  qed
  moreover have "p = r" if "in_queue ?k p u" "in_queue ?k r u" for u p r
    using that in_queue_unique [OF I(1), of p u r] by (auto simp: in_queue_def split: if_splits)
  ultimately have 1: "queues_inv ?k" by (rule queues_invI)
  have 2: "counting_inv ?k" using I(2) i q' by (auto simp: counting_inv_def runnable_def)
  have thread_q: "\<exists>r. wq (array_of_threads ?k t) = Some r \<and> owns ?k r (OwnThread t)"
    if t: "valid_tid t" "state ?k t \<noteq> UNINITIALIZED" for t
  proof -
    from t have "t \<noteq> i" by auto
    with t obtain r where "wq (array_of_threads k t) = Some r" "owns k r (OwnThread t)"
      using I(3) by (auto simp: owner_inv_def)
    with \<open>t \<noteq> i\<close> q(2) show ?thesis by (auto simp: owns_def)
  qed
  have 3: "owner_inv ?k"
    using I(3) thread_q q(2) unfolding owner_inv_def owns_def by auto
  have al: "alive ?k t \<Longrightarrow> alive k t \<and> t \<noteq> i" for t
    using q'(1) i nin [of RQ] ready_queue_eq [OF I(2)] by (auto simp: alive_def in_queue_def split: if_splits)
  have ai: "alive k i" using i by (simp add: alive_def)
  have "a \<in> stacks ?k" if "alive ?k t" "stack_ptr (array_of_threads ?k t) = Some a" for t a
    using I(4) al [OF that(1)] that(2) ai unfolding stack_inv_def by auto
  moreover have "t = u" if "alive ?k t" "alive ?k u" "stack_ptr (array_of_threads ?k t) = Some a"
    "stack_ptr (array_of_threads ?k u) = Some a" for t u a
    using I(4) al [OF that(1)] al [OF that(2)] that(3,4) unfolding stack_inv_def by auto
  ultimately have 4: "stack_inv ?k" using I(4) unfolding stack_inv_def by auto
  have 5: "context_inv ?k"
    by (rule context_inv_mono [OF I(5)]) (use q' in \<open>auto split: if_splits\<close>)
  from 1 2 3 4 5 show ?thesis by (simp add: kernel_inv_def)
qed

lemma reap_one_ok:
  assumes inv: "kernel_inv k" and i: "valid_tid i"
  obtains k' where "reap_one i k = Some k'" "kernel_inv k'" "reap_frame k k'"
    "i \<noteq> current k \<Longrightarrow> state k' i \<noteq> EXITED"
proof (cases "i = current k \<or> state k i \<noteq> EXITED")
  case True
  then show thesis using that [of k, OF reap_one_skip inv reap_frame_refl] by blast
next
  case False
  note I = kernel_invD [OF inv]
  from False i I(3) obtain q where q: "wq (array_of_threads k i) = Some q" "owns k q (OwnThread i)"
    by (auto simp: owner_inv_def)
  have "alive k i" using False i by (simp add: alive_def)
  with I(4) have "stack_ptr (array_of_threads k i) = Some a \<Longrightarrow> a \<in> stacks k" for a
    by (auto simp: stack_inv_def)
  with False q have "reap_one i k = Some (reaped i q k)"
    by (intro reap_one_exited) (auto simp: owns_def)
  moreover have "kernel_inv (reaped i q k)" using reaped_inv [OF inv i _ _ q] False by simp
  moreover have "q \<noteq> RQ" using q(2) I(3) by (auto simp: owns_def owner_inv_def)
  then have "reap_frame k (reaped i q k)" using False by (auto simp: reap_frame_def)
  ultimately show thesis using that by simp
qed

lemma reap_loop_ok:
  assumes "kernel_inv k" and "\<forall>i \<in> set js. valid_tid i"
  shows "\<exists>k'. reap_loop js k = Some k' \<and> kernel_inv k' \<and> reap_frame k k' \<and>
     (\<forall>i \<in> set js. i \<noteq> current k \<longrightarrow> state k' i \<noteq> EXITED)"
  using assms
proof (induction js arbitrary: k)
  case Nil
  then show ?case by simp
next
  case (Cons i js)
  then obtain k1 where k1: "reap_one i k = Some k1" "kernel_inv k1" "reap_frame k k1"
    "i \<noteq> current k \<Longrightarrow> state k1 i \<noteq> EXITED" by (auto elim: reap_one_ok)
  from Cons.IH [OF k1(2)] Cons.prems(2) obtain k2 where k2: "reap_loop js k1 = Some k2"
    "kernel_inv k2" "reap_frame k1 k2" "\<forall>i \<in> set js. i \<noteq> current k1 \<longrightarrow> state k2 i \<noteq> EXITED" by auto
  have "state k2 i \<noteq> EXITED" if "i \<noteq> current k"
    using k2(3) k1(4) [OF that] unfolding reap_frame_def by (metis thread_states.distinct(19))
  moreover have "current k1 = current k" using k1(3) by (simp add: reap_frame_def)
  ultimately show ?case using k1 k2 reap_frame_trans [OF k1(3) k2(3)] by auto
qed

lemma reap_ok:
  assumes "kernel_inv k"
  shows "\<exists>k'. reap k = Some k' \<and> kernel_inv k' \<and> reap_frame k k' \<and>
     (\<forall>i. valid_tid i \<longrightarrow> i \<noteq> current k \<longrightarrow> state k' i \<noteq> EXITED)"
  using reap_loop_ok [OF assms, of all_tids] by (auto simp: reap_def)

end
