(* ===== verification/Kernel_Switch.thy ===== *)
theory Kernel_Switch
  imports Kernel_Invariant
begin

text \<open>
  The switch of \<open>thread_yield\<close>. Reaping does not look at the ready queue or at the context
  being saved, so it commutes with both; the switch is then one atomic change of a state in which
  the invariant holds.
\<close>

section \<open>Reaping commutes with the first half of the switch\<close>

text \<open>The state \<open>thread_yield\<close> reaps in: \<open>ys\<close> is what is left of the ready queue.\<close>

definition leaving :: "frame list \<Rightarrow> tid list \<Rightarrow> bool \<Rightarrow> kernel \<Rightarrow> kernel" where
  "leaving ks ys b k = upd_tcb (current k) (\<lambda>b. b\<lparr>context_of := ks\<rparr>)
     (k\<lparr>queues := (queues k)(RQ \<mapsto> ys), ints := b\<rparr>)"

lemma leaving_sel [simp]:
  "array_of_threads (leaving ks ys b k) =
     (array_of_threads k)(current k := (array_of_threads k (current k))\<lparr>context_of := ks\<rparr>)"
  "current (leaving ks ys b k) = current k"
  "nums_existing_threads (leaving ks ys b k) = nums_existing_threads k"
  "queues (leaving ks ys b k) = (queues k)(RQ \<mapsto> ys)"
  "owner (leaving ks ys b k) = owner k"
  "stacks (leaving ks ys b k) = stacks k"
  "locks (leaving ks ys b k) = locks k"
  "cvs (leaving ks ys b k) = cvs k"
  "brk (leaving ks ys b k) = brk k"
  "ints (leaving ks ys b k) = b"
  by (simp_all add: leaving_def)

lemma leaving_reaped:
  assumes "i \<noteq> current k" "q \<noteq> RQ"
  shows "reaped i q (leaving ks ys b k) = leaving ks ys b (reaped i q k)"
  using assms
  by (simp add: reaped_def leaving_def upd_tcb_def set_state_def fun_upd_twist)

lemma exited_queue:
  assumes "kernel_inv k" "valid_tid i" "i \<noteq> current k" "state k i = EXITED"
  obtains q where "wq (array_of_threads k i) = Some q" "owns k q (OwnThread i)" "q \<noteq> RQ"
    "\<And>a. stack_ptr (array_of_threads k i) = Some a \<Longrightarrow> a \<in> stacks k"
proof -
  note I = kernel_invD [OF assms(1)]
  from assms I(3) obtain q where q: "wq (array_of_threads k i) = Some q" "owns k q (OwnThread i)"
    by (auto simp: owner_inv_def)
  then have "q \<noteq> RQ" using I(3) by (auto simp: owns_def owner_inv_def)
  moreover have "alive k i" using assms by (simp add: alive_def)
  ultimately show thesis using that q I(4) by (auto simp: stack_inv_def)
qed

lemma reap_one_leaving:
  assumes "kernel_inv k" "valid_tid i"
  shows "reap_one i (leaving ks ys b k) = map_option (leaving ks ys b) (reap_one i k)"
proof (cases "i = current k \<or> state k i \<noteq> EXITED")
  case True
  then have "i = current (leaving ks ys b k) \<or> state (leaving ks ys b k) i \<noteq> EXITED" by auto
  then show ?thesis using True by (simp only: reap_one_skip option.map)
next
  case False
  with assms obtain q where q: "wq (array_of_threads k i) = Some q" "owns k q (OwnThread i)"
    "q \<noteq> RQ" "\<And>a. stack_ptr (array_of_threads k i) = Some a \<Longrightarrow> a \<in> stacks k"
    by (auto elim: exited_queue)
  then have "reap_one i k = Some (reaped i q k)"
    using False by (intro reap_one_exited) (auto simp: owns_def)
  moreover have "reap_one i (leaving ks ys b k) = Some (reaped i q (leaving ks ys b k))"
    using False q by (intro reap_one_exited) (auto simp: owns_def)
  ultimately show ?thesis using leaving_reaped False q(3) by simp
qed

lemma reap_loop_leaving:
  assumes "kernel_inv k" "\<forall>i \<in> set js. valid_tid i"
  shows "reap_loop js (leaving ks ys b k) = map_option (leaving ks ys b) (reap_loop js k)"
  using assms
proof (induction js arbitrary: k)
  case Nil
  then show ?case by simp
next
  case (Cons i js)
  then obtain k1 where "reap_one i k = Some k1" "kernel_inv k1" by (auto elim: reap_one_ok)
  with Cons show ?case by (simp add: reap_one_leaving)
qed

lemma reap_leaving:
  "kernel_inv k \<Longrightarrow> reap (leaving ks ys b k) = map_option (leaving ks ys b) (reap k)"
  by (simp add: reap_def reap_loop_leaving)

section \<open>The switch as one change\<close>

definition switched :: "frame list \<Rightarrow> tid \<Rightarrow> bool \<Rightarrow> kernel \<Rightarrow> kernel" where
  "switched ks t b k =
     (let c = current k; ys = remove1 t (ready_queue k);
          back = (state k c = RUNNING);
          A = array_of_threads k
      in k\<lparr>array_of_threads := A(
              c := (A c)\<lparr>context_of := ks, current_state := (if back then READY else state k c)\<rparr>,
              t := (A t)\<lparr>current_state := (if state k t = KILLED then KILLED else RUNNING)\<rparr>),
           queues := (queues k)(RQ \<mapsto> (if back then ys @ [c] else ys)),
           current := t, ints := b\<rparr>)"

lemma switched_sel:
  assumes "t \<noteq> current k"
  shows "state (switched ks t b k) u =
      (if u = t then (if state k t = KILLED then KILLED else RUNNING)
       else if u = current k \<and> state k u = RUNNING then READY else state k u)"
    "context_of (array_of_threads (switched ks t b k) u) =
      (if u = current k then ks else context_of (array_of_threads k u))"
    "wq (array_of_threads (switched ks t b k) u) = wq (array_of_threads k u)"
    "stack_ptr (array_of_threads (switched ks t b k) u) = stack_ptr (array_of_threads k u)"
    "exit_code (array_of_threads (switched ks t b k) u) = exit_code (array_of_threads k u)"
    "waiting_on (array_of_threads (switched ks t b k) u) = waiting_on (array_of_threads k u)"
  using assms by (auto simp: switched_def Let_def)

lemma switched_sel' [simp]:
  "current (switched ks t b k) = t"
  "nums_existing_threads (switched ks t b k) = nums_existing_threads k"
  "queues (switched ks t b k) = (queues k)(RQ \<mapsto> ready_queue (switched ks t b k))"
  "owner (switched ks t b k) = owner k"
  "stacks (switched ks t b k) = stacks k"
  "locks (switched ks t b k) = locks k"
  "cvs (switched ks t b k) = cvs k"
  "brk (switched ks t b k) = brk k"
  "ints (switched ks t b k) = b"
  by (simp_all add: switched_def Let_def ready_queue_def)

lemma ready_queue_switched:
  "ready_queue (switched ks t b k) = remove1 t (ready_queue k) @
     (if state k (current k) = RUNNING then [current k] else [])"
  by (simp add: switched_def Let_def ready_queue_def)

lemma switch_to_eq:
  assumes inv: "kernel_inv k" and t: "t \<in> set (ready_queue k)" and k: "reap k = Some k'"
  shows "switch_to en t ks (k\<lparr>queues := (queues k)(RQ \<mapsto> remove1 t (ready_queue k)), ints := b\<rparr>) =
     Some (Running (switched (FYield en t # ks) t b k') Resuming
       (context_of (array_of_threads k t)))"
proof -
  let ?ys = "remove1 t (ready_queue k)"
  from reap_ok [OF inv] k have inv': "kernel_inv k'" and fr: "reap_frame k k'" by auto
  note I = kernel_invD [OF inv]
  have tc: "t \<noteq> current k" "state k t = READY \<or> state k t = KILLED"
    using in_queueD(3) [OF I(1) ready_queue_eq [OF I(2)] t] by simp_all
  have fr': "current k' = current k" "ready_queue k' = ready_queue k"
    "array_of_threads k' t = array_of_threads k t" "state k' (current k) = state k (current k)"
    using fr tc by (auto simp: reap_frame_def)
  have same: "(array_of_threads k')(t := array_of_threads k t) = array_of_threads k'"
    using fr'(3) by (simp add: fun_upd_idem)
  have "reap (upd_tcb (current k) (\<lambda>b. b\<lparr>context_of := FYield en t # ks\<rparr>)
      (k\<lparr>queues := (queues k)(RQ \<mapsto> ?ys), ints := b\<rparr>)) = Some (leaving (FYield en t # ks) ?ys b k')"
    using reap_leaving [OF inv, of "FYield en t # ks" ?ys b] k by (simp add: leaving_def)
  then show ?thesis
    using tc fr' same
    by (simp add: switch_to_def enqueue_eq switched_def leaving_def upd_tcb_def set_state_def
        Let_def fun_upd_twist tcb_state_same)
qed

lemma switched_inv:
  assumes inv: "kernel_inv k" and t: "t \<in> set (ready_queue k)"
    and cur: "state k (current k) \<in> {RUNNING, SLEEP, EXITED}"
    and ks: "state k (current k) \<noteq> EXITED \<Longrightarrow> clean ks"
  shows "kernel_inv (switched (FYield en u # ks) t b k)" (is "kernel_inv ?k")
proof -
  note I = kernel_invD [OF inv]
  note rq = ready_queue_eq [OF I(2)]
  have tc: "t \<noteq> current k" "state k t = READY \<or> state k t = KILLED" "valid_tid t"
    using in_queueD(1,3) [OF I(1) rq t] by simp_all
  note sel = switched_sel [OF tc(1)]
  have cv: "valid_tid (current k)" using I(2) by (simp add: counting_inv_def)
  have d: "distinct (ready_queue k)" using queue_distinct [OF I(1) rq] .
  have cn: "current k \<notin> set (ready_queue k)" using in_queueD(3) [OF I(1) rq] by blast
  have iq: "in_queue k RQ t" using t rq by (auto simp: in_queue_def)
  have nt: "\<not> in_queue k r t" if "r \<noteq> RQ" for r
    using in_queue_unique [OF I(1) iq, of r] that by blast
  have nc: "\<not> in_queue k r (current k)" if "state k (current k) = RUNNING" for r
    using runnable_not_queued [OF inv] that by (simp add: runnable_def)
  note rq' = ready_queue_switched [of "FYield en u # ks" t b k]
  have "queue_ok ?k r ys" if r: "queues ?k r = Some ys" for r ys
  proof (cases "r = RQ")
    case True
    with r have "ys = ready_queue ?k" by simp
    with True queue_okI [OF I(1) rq] tc cv d cn rq' show ?thesis
      by (auto simp: queue_ok_def sel)
  next
    case False
    with r have "queues k r = Some ys" by simp
    with queue_okI [OF I(1) this] False nt [of r] nc [of r] show ?thesis
      by (auto simp: queue_ok_def sel in_queue_def)
  qed
  moreover have in_new: "in_queue ?k r v \<longleftrightarrow> (if r = RQ then v \<in> set (ready_queue ?k) else in_queue k r v)" for r v
    by (simp add: in_queue_def)
  have "p = r" if "in_queue ?k p v" "in_queue ?k r v" for v p r
  proof -
    have m: "in_queue k RQ v \<or> (v = current k \<and> state k (current k) = RUNNING)" if "v \<in> set (ready_queue ?k)"
      using that d rq by (auto simp: rq' in_queue_def split: if_splits dest: notin_set_remove1)
    show ?thesis
      using that m nc in_queue_unique [OF I(1), of _ v] unfolding in_new
      by (metis (full_types))
  qed
  ultimately have 1: "queues_inv ?k" by (rule queues_invI)
  have nr: "v = current k" if "state k v = RUNNING" for v
    using I(2) that by (auto simp: counting_inv_def)
  have 2: "counting_inv ?k"
    using I(2) tc cur length_remove1_mem [OF t]
    by (auto simp: counting_inv_def runnable_def sel rq' dest: nr)
  have 3: "owner_inv ?k"
    by (rule owner_inv_mono [OF I(3)])
      (use tc cur rq in \<open>auto simp: owns_def sel split: if_splits\<close>)
  have al: "alive k v" if "alive ?k v" for v
    using that tc cur cv t by (auto simp: alive_def sel rq' split: if_splits dest: notin_set_remove1)
  have 4: "stack_inv ?k"
    by (rule stack_inv_mono [OF I(4)]) (use al in \<open>simp_all add: sel\<close>)
  have 5: "context_inv ?k"
    by (rule context_inv_mono [OF I(5)])
      (use tc ks cn d cur in \<open>auto simp: sel rq' resumable_def split: if_splits dest: notin_set_remove1\<close>)
  from 1 2 3 4 5 show ?thesis by (simp add: kernel_inv_def)
qed

end
