(* ===== verification/Kernel_Changes.thy ===== *)
theory Kernel_Changes
  imports Kernel_Switch
begin

text \<open>
  The functions that do not switch, in a state that satisfies the invariant: what each returns
  and leaves behind on every branch, that it does not fault, and that the invariant is kept.
\<close>

section \<open>thread_wakeup\<close>

definition woken :: "addr \<Rightarrow> tid list \<Rightarrow> kernel \<Rightarrow> kernel" where
  "woken q xs k = k\<lparr>
     array_of_threads := (\<lambda>u. if u \<in> set xs then (array_of_threads k u)\<lparr>current_state := READY\<rparr>
                              else array_of_threads k u),
     queues := (queues k)(q \<mapsto> drop (length xs) (the (queues k q)), RQ \<mapsto> ready_queue k @ xs),
     nums_existing_threads := nums_existing_threads k + int (length xs)\<rparr>"

lemma woken_sel [simp]:
  "array_of_threads (woken q xs k) u =
     (if u \<in> set xs then (array_of_threads k u)\<lparr>current_state := READY\<rparr> else array_of_threads k u)"
  "current (woken q xs k) = current k"
  "nums_existing_threads (woken q xs k) = nums_existing_threads k + int (length xs)"
  "queues (woken q xs k) = (queues k)(q \<mapsto> drop (length xs) (the (queues k q)), RQ \<mapsto> ready_queue k @ xs)"
  "owner (woken q xs k) = owner k"
  "stacks (woken q xs k) = stacks k"
  "locks (woken q xs k) = locks k"
  "cvs (woken q xs k) = cvs k"
  "brk (woken q xs k) = brk k"
  "ints (woken q xs k) = ints k"
  "ready_queue (woken q xs k) = ready_queue k @ xs"
  by (simp_all add: woken_def ready_queue_def)

lemma woken_Nil: "queues k q = Some ys \<Longrightarrow> queues k RQ = Some (ready_queue k) \<Longrightarrow> woken q [] k = k"
  by (simp add: woken_def fun_upd_idem)

lemma woken_Cons:
  assumes "queues k q = Some (t # xs)" "q \<noteq> RQ" "t \<notin> set xs"
  shows "woken q xs (wake READY t q xs k) = woken q (t # xs) k"
proof -
  have "array_of_threads (woken q xs (wake READY t q xs k)) = array_of_threads (woken q (t # xs) k)"
    using assms(3) by auto
  then show ?thesis using assms
    by (intro kernel.equality) (auto simp: woken_def wake_def ready_queue_def set_state_def upd_tcb_def)
qed

lemma woken_one: "queues k q = Some (t # xs) \<Longrightarrow> q \<noteq> RQ \<Longrightarrow> woken q [t] k = wake READY t q xs k"
  by (intro kernel.equality) (auto simp: woken_def wake_def ready_queue_def set_state_def upd_tcb_def)

text \<open>One turn of the loop, and its end.\<close>

lemma wakeup_turn:
  assumes inv: "kernel_inv k" and q: "queues k q = Some (t # xs)" "q \<noteq> RQ"
  shows "dequeue_element_from_head q k = Some (t, k\<lparr>queues := (queues k)(q \<mapsto> xs)\<rparr>)"
    "state k t = SLEEP" "t \<noteq> THREAD_NONE"
    "enqueue t RQ (set_state t READY (k\<lparr>queues := (queues k)(q \<mapsto> xs)\<rparr>)) =
       Some ((wake READY t q xs k)\<lparr>nums_existing_threads := nums_existing_threads k\<rparr>)"
proof -
  note I = kernel_invD [OF inv]
  note rq = ready_queue_eq [OF I(2)]
  show "dequeue_element_from_head q k = Some (t, k\<lparr>queues := (queues k)(q \<mapsto> xs)\<rparr>)"
    by (rule dequeue_head_Cons [OF q(1)])
  show "state k t = SLEEP" "t \<noteq> THREAD_NONE"
    using in_queueD(1,2) [OF I(1) q(1), of t] q(2) not_none_tid(1) by auto
  show "enqueue t RQ (set_state t READY (k\<lparr>queues := (queues k)(q \<mapsto> xs)\<rparr>)) =
       Some ((wake READY t q xs k)\<lparr>nums_existing_threads := nums_existing_threads k\<rparr>)"
    using q rq by (simp add: enqueue_eq wake_def set_state_def upd_tcb_def)
qed

lemma thread_wakeup_loop_ok:
  assumes "kernel_inv k" "queues k q = Some xs" "q \<noteq> RQ" "current k \<notin> set xs"
  shows "thread_wakeup_loop q n k = Some (n + int (length xs), woken q xs k) \<and> kernel_inv (woken q xs k)"
  using assms
proof (induction xs arbitrary: k n)
  case Nil
  note rq = ready_queue_eq [OF kernel_invD(2) [OF Nil.prems(1)]]
  show ?case using Nil rq
    by (subst thread_wakeup_loop.simps) (simp add: dequeue_head_Nil woken_Nil)
next
  case (Cons t xs)
  note turn = wakeup_turn [OF Cons.prems(1-3)]
  have inv: "kernel_inv (wake READY t q xs k)"
    using wake_inv [OF Cons.prems(1,2) _ Cons.prems(3), of t READY] Cons.prems(4) by auto
  have d: "t \<notin> set xs" using queue_distinct [OF kernel_invD(1) [OF Cons.prems(1)] Cons.prems(2)] by simp
  have IH: "thread_wakeup_loop q (n + 1) (wake READY t q xs k) =
      Some (n + 1 + int (length xs), woken q xs (wake READY t q xs k)) \<and>
      kernel_inv (woken q xs (wake READY t q xs k))"
    using Cons.prems by (intro Cons.IH inv) auto
  have w: "(wake READY t q xs k)\<lparr>nums_existing_threads := 1 + nums_existing_threads k\<rparr> = wake READY t q xs k"
    by (simp add: wake_def add.commute)
  show ?case
    using IH turn woken_Cons [OF Cons.prems(2,3) d]
    by (subst thread_wakeup_loop.simps) (simp add: add_ac w)
qed

definition wake_list :: "int \<Rightarrow> tid list \<Rightarrow> tid list" where
  "wake_list all xs = (if all = 1 then xs else take 1 xs)"

lemma thread_wakeup_ok:
  assumes inv: "kernel_inv k" and q: "queues k q = Some xs" "q \<noteq> RQ"
    and cur: "state k (current k) \<noteq> SLEEP"
  shows "thread_wakeup (Some q) all k =
      Some (int (length (wake_list all xs)), woken q (wake_list all xs) k) \<and>
    kernel_inv (woken q (wake_list all xs) k)"
proof -
  let ?k = "k\<lparr>ints := False\<rparr>"
  have inv': "kernel_inv ?k" and q': "queues ?k q = Some xs" using inv q by simp_all
  note I = kernel_invD [OF inv]
  have cn: "current k \<notin> set xs" using in_queueD(2) [OF I(1) q(1) _ q(2)] cur by blast
  have w: "(woken q ys ?k)\<lparr>ints := b\<rparr> = (woken q ys k)\<lparr>ints := b\<rparr>" for ys b
    by (simp add: woken_def cong: if_cong)
  have w': "(woken q ys k)\<lparr>ints := ints k\<rparr> = woken q ys k" for ys
    by (simp add: woken_def)
  show ?thesis
  proof (cases "all = 1")
    case True
    from thread_wakeup_loop_ok [OF inv' q' q(2), of 0] cn True w [of "ints k" xs] w' [of xs]
      thread_wakeup_loop_ok [OF inv q, of 0]
    show ?thesis by (simp add: thread_wakeup_def wake_list_def interrupts_set_def)
  next
    case False
    show ?thesis
    proof (cases xs)
      case Nil
      with False q' woken_Nil [OF q(1) ready_queue_eq [OF I(2)]] inv show ?thesis
        by (simp add: thread_wakeup_def wake_list_def interrupts_set_def dequeue_head_Nil)
    next
      case (Cons t ts)
      note turn = wakeup_turn [OF inv' q' [unfolded Cons] q(2)]
      have "kernel_inv (wake READY t q ts k)"
        using wake_inv [OF inv q(1) _ q(2), of t READY] cn Cons by auto
      moreover have "(wake READY t q ts ?k)\<lparr>nums_existing_threads := nums_existing_threads k + 1, ints := ints k\<rparr>
          = wake READY t q ts k" by (simp add: wake_def ready_queue_def set_state_def upd_tcb_def)
      ultimately show ?thesis
        using turn Cons False woken_one [OF q(1) [unfolded Cons] q(2)]
        by (simp add: thread_wakeup_def wake_list_def interrupts_set_def)
    qed
  qed
qed

lemma thread_wakeup_null: "thread_wakeup None all k = Some (0, k)"
  by (simp add: thread_wakeup_def interrupts_set_def)

section \<open>thread_kill\<close>

definition killed :: "tid \<Rightarrow> kernel \<Rightarrow> kernel" where
  "killed t = upd_tcb t (\<lambda>b. b\<lparr>current_state := KILLED, exit_code := 9\<rparr>)"

lemma killed_eq: "killed t k = upd_tcb t (\<lambda>b. b\<lparr>exit_code := 9\<rparr>) (set_state t KILLED k)"
  by (simp add: killed_def set_state_def upd_tcb_def)

lemma killed_inv [simp]: "kernel_inv (killed t k) = kernel_inv (set_state t KILLED k)"
  by (simp add: killed_eq kernel_inv_upd_tcb)

lemma killed_wake: "killed t (wake s t q ys k) = upd_tcb t (\<lambda>b. b\<lparr>exit_code := 9\<rparr>) (wake KILLED t q ys k)"
  by (simp add: killed_def wake_def set_state_def upd_tcb_def)

lemma thread_kill_invalid:
  assumes "\<not> valid_tid t \<or> t = current k \<or> state k t = UNINITIALIZED"
  shows "thread_kill t k = Some (THREAD_INVALID, k)"
  using assms by (auto simp: thread_kill_def interrupts_set_def valid_tid_def Let_def)

lemma thread_kill_awake:
  assumes "valid_tid t" "t \<noteq> current k" "state k t \<noteq> UNINITIALIZED" "state k t \<noteq> SLEEP"
  shows "thread_kill t k = Some (t, killed t k)"
  using assms
  by (simp add: thread_kill_def interrupts_set_def valid_tid_def killed_def upd_tcb_def)

text \<open>The queue \<open>thread_awaken\<close> looks for a sleeping thread in.\<close>

definition awaken_queue :: "kernel \<Rightarrow> tid \<Rightarrow> ptr" where
  "awaken_queue k t =
     (let w = waiting_on (array_of_threads k t)
      in if valid_tid w then wq (array_of_threads k w) else None)"

lemma awaken_queue_ints [simp]: "awaken_queue (k\<lparr>ints := b\<rparr>) t = awaken_queue k t"
  by (simp add: awaken_queue_def Let_def cong: if_cong)

lemma thread_awaken_ok:
  assumes inv: "kernel_inv k" and q: "awaken_queue k t = Some q" "queues k q = Some xs" "t \<in> set xs"
    and s: "state k t = SLEEP"
  shows "thread_awaken t (set_state t s' k) = Some (wake KILLED t q (remove1 t xs) k)" "q \<noteq> RQ"
proof -
  note I = kernel_invD [OF inv]
  note rq = ready_queue_eq [OF I(2)]
  show qr: "q \<noteq> RQ" using in_queueD(3) [OF I(1) q(2,3)] s by auto
  from q(1) have w: "valid_tid (waiting_on (array_of_threads k t))"
    "wq (array_of_threads k (waiting_on (array_of_threads k t))) = Some q"
    by (auto simp: awaken_queue_def Let_def split: if_splits)
  then have w': "wq (array_of_threads (set_state t s' k) (waiting_on (array_of_threads k t))) = Some q"
    by auto
  have d: "dequeue_element t q ((set_state t s' k)\<lparr>ints := False\<rparr>) = Some (t, (set_state t s' k)\<lparr>
      queues := (queues k)(q \<mapsto> remove1 t xs), ints := False\<rparr>)"
    using q(2,3) by (simp add: dequeue_element_found)
  show "thread_awaken t (set_state t s' k) = Some (wake KILLED t q (remove1 t xs) k)"
    using w w' d qr rq
    by (simp add: thread_awaken_def interrupts_set_def wake_def enqueue_eq)
qed

lemma thread_awaken_fault:
  assumes "state k t = SLEEP"
    and q: "\<And>q xs. awaken_queue k t = Some q \<Longrightarrow> queues k q = Some xs \<Longrightarrow> t \<notin> set xs"
    and t: "valid_tid t"
  shows "thread_awaken t (set_state t s' k) = None"
proof -
  let ?w = "waiting_on (array_of_threads k t)" and ?k = "(set_state t s' k)\<lparr>ints := False\<rparr>"
  have sel: "waiting_on (array_of_threads ?k t) = ?w" "wq (array_of_threads ?k u) = wq (array_of_threads k u)"
    "queues ?k = queues k" for u by simp_all
  have eq: "thread_awaken t (set_state t s' k) = (if valid_tid ?w then do {
      q \<leftarrow> wq (array_of_threads k ?w);
      (removed, k') \<leftarrow> dequeue_element t q ?k;
      _ \<leftarrow> c_assert (removed = t);
      k' \<leftarrow> enqueue t RQ (set_state t KILLED k');
      Some (k'\<lparr>nums_existing_threads := nums_existing_threads k' + 1, ints := ints k\<rparr>) } else None)"
    by (simp add: thread_awaken_def interrupts_set_def bind_c_assert Let_def sel)
  have "dequeue_element t q' ?k = None \<or> dequeue_element t q' ?k = Some (THREAD_INVALID, ?k)"
    if "valid_tid ?w" "wq (array_of_threads k ?w) = Some q'" for q'
  proof (cases "queues k q'")
    case None
    then show ?thesis by (simp add: dequeue_element_def interrupts_set_def)
  next
    case (Some xs)
    with that q have "t \<notin> set xs" by (simp add: awaken_queue_def)
    with Some show ?thesis by (simp add: dequeue_element_missing)
  qed
  with not_none_tid(2) [OF t] show ?thesis
    unfolding eq by (cases "wq (array_of_threads k ?w)") (auto simp: bind_c_assert)
qed

lemma thread_kill_asleep:
  assumes inv: "kernel_inv k" and t: "valid_tid t" "t \<noteq> current k" "state k t = SLEEP"
    and q: "awaken_queue k t = Some q" "queues k q = Some xs" "t \<in> set xs"
  shows "thread_kill t k = Some (t, killed t (wake KILLED t q (remove1 t xs) k))"
proof -
  have inv': "kernel_inv (k\<lparr>ints := False\<rparr>)" using inv by simp
  have q': "awaken_queue (k\<lparr>ints := False\<rparr>) t = Some q" using q by simp
  note a = thread_awaken_ok(1) [OF inv' q', of xs KILLED]
  show ?thesis
    using a t q
    by (simp add: thread_kill_def interrupts_set_def valid_tid_def killed_def)
qed

lemma thread_kill_fault:
  assumes t: "valid_tid t" "t \<noteq> current k" "state k t = SLEEP"
    and q: "\<And>q xs. awaken_queue k t = Some q \<Longrightarrow> queues k q = Some xs \<Longrightarrow> t \<notin> set xs"
  shows "thread_kill t k = None"
proof -
  have "thread_awaken t (set_state t KILLED (k\<lparr>ints := False\<rparr>)) = None"
    by (rule thread_awaken_fault) (use t q in \<open>simp_all\<close>)
  with t show ?thesis by (simp add: thread_kill_def interrupts_set_def valid_tid_def)
qed

lemma thread_kill_inv:
  assumes inv: "kernel_inv k" and k: "thread_kill t k = Some (r, k')"
  shows "kernel_inv k'"
proof (cases "\<not> valid_tid t \<or> t = current k \<or> state k t = UNINITIALIZED")
  case True
  with thread_kill_invalid [OF this] inv k show ?thesis by simp
next
  case False
  show ?thesis
  proof (cases "state k t = SLEEP")
    case nosleep: False
    with False thread_kill_awake [of t k] kill_inv [OF inv, of t] k show ?thesis by auto
  next
    case True
    with False k thread_kill_fault [of t k] obtain q xs where
      q: "awaken_queue k t = Some q" "queues k q = Some xs" "t \<in> set xs" by fastforce
    with inv False True have "k' = killed t (wake KILLED t q (remove1 t xs) k)"
      using thread_kill_asleep [OF inv _ _ True q] k by simp
    moreover have "kernel_inv (wake KILLED t q (remove1 t xs) k)"
      using wake_inv [OF inv q(2,3) thread_awaken_ok(2) [OF inv q True], of KILLED] False by simp
    ultimately show ?thesis
      by (simp add: killed_wake kernel_inv_upd_tcb del: killed_inv)
  qed
qed

section \<open>thread_create\<close>

text \<open>A slot \<open>thread_create_helper\<close> takes, and the one it takes.\<close>

definition free_slot :: "kernel \<Rightarrow> tid \<Rightarrow> bool" where
  "free_slot k i \<longleftrightarrow> state k i = UNINITIALIZED \<or> state k i = EXITED"

definition old_stack :: "tid \<Rightarrow> kernel \<Rightarrow> addr set" where
  "old_stack i k = (if state k i = EXITED then set_option (stack_ptr (array_of_threads k i)) else {})"

definition created :: "nat \<Rightarrow> nat \<Rightarrow> tid \<Rightarrow> kernel \<Rightarrow> kernel" where
  "created fn parg i k = k\<lparr>
     array_of_threads := (array_of_threads k)(i := (array_of_threads k i)\<lparr>current_state := READY,
       context_of := [FStub fn parg], stack_ptr := Some (brk k), wq := Some (Suc (brk k)),
       waiting_on := -1, exit_code := -1\<rparr>),
     queues := (queues k)(Suc (brk k) \<mapsto> [], RQ \<mapsto> ready_queue k @ [i]),
     owner := (owner k)(Suc (brk k) := OwnThread i),
     stacks := insert (brk k) (stacks k - old_stack i k),
     brk := Suc (Suc (brk k)),
     nums_existing_threads := nums_existing_threads k + 1\<rparr>"

text \<open>The slot after \<open>malloc\<close> failed: an exited thread has lost its stack and reads \<open>READY\<close>.\<close>

definition create_failed :: "tid \<Rightarrow> kernel \<Rightarrow> kernel" where
  "create_failed i k = k\<lparr>
     array_of_threads := (array_of_threads k)(i := (array_of_threads k i)\<lparr>
       current_state := (if state k i = EXITED then READY else state k i), exit_code := -1\<rparr>),
     stacks := stacks k - old_stack i k\<rparr>"

lemma thread_create_loop_find:
  "thread_create_loop fn parg ok js k =
     (case List.find (free_slot k) js of None \<Rightarrow> Some (THREAD_NOMORE, k)
      | Some i \<Rightarrow> thread_create_loop fn parg ok [i] k)"
  by (induction js) (auto simp: free_slot_def)

lemma set_context_function_eq:
  assumes "queues k RQ = Some (ready_queue k)" "RQ < brk k"
  shows "set_context_function i a fn parg k = Some (k\<lparr>
     array_of_threads := (array_of_threads k)(i := (array_of_threads k i)\<lparr>current_state := READY,
       context_of := [FStub fn parg], stack_ptr := Some a, wq := Some (brk k), waiting_on := -1\<rparr>),
     queues := (queues k)(brk k \<mapsto> [], RQ \<mapsto> ready_queue k @ [i]),
     owner := (owner k)(brk k := OwnThread i),
     brk := Suc (brk k),
     nums_existing_threads := nums_existing_threads k + 1\<rparr>)"
  using assms
  by (simp add: set_context_function_def wait_queue_create_def enqueue_eq upd_tcb_def)
    (rule kernel.equality, auto intro!: tcb.equality simp: fun_eq_iff)

lemma thread_create_slot:
  assumes rq: "queues k RQ = Some (ready_queue k)" "RQ < brk k" and i: "free_slot k i"
    and st: "old_stack i k \<subseteq> stacks k"
  shows "thread_create_loop fn parg ok [i] k =
     Some (if ok then (i, created fn parg i k) else (THREAD_NOMEMORY, create_failed i k))"
proof -
  have rq': "ready_queue (k\<lparr>stacks := S\<rparr>) = ready_queue k" "ready_queue (k\<lparr>brk := b\<rparr>) = ready_queue k" for S b
    by (simp_all add: ready_queue_def)
  have set: "set_context_function i (brk k) fn parg (k\<lparr>array_of_threads :=
        (array_of_threads k)(i := f (array_of_threads k i)), stacks := S, brk := Suc (brk k)\<rparr>) = Some (k\<lparr>
     array_of_threads := (array_of_threads k)(i := (f (array_of_threads k i))\<lparr>current_state := READY,
       context_of := [FStub fn parg], stack_ptr := Some (brk k), wq := Some (Suc (brk k)), waiting_on := -1\<rparr>),
     queues := (queues k)(Suc (brk k) \<mapsto> [], RQ \<mapsto> ready_queue k @ [i]),
     owner := (owner k)(Suc (brk k) := OwnThread i), stacks := S,
     brk := Suc (Suc (brk k)),
     nums_existing_threads := nums_existing_threads k + 1\<rparr>)" for f S
    by (subst set_context_function_eq) (use rq in \<open>simp_all add: ready_queue_def\<close>)
  show ?thesis
  proof (cases "state k i = EXITED")
    case False
    with i have "state k i = UNINITIALIZED" by (simp add: free_slot_def)
    then show ?thesis
      using set [where f = "\<lambda>b. b\<lparr>exit_code := -1\<rparr>" and S = "insert (brk k) (stacks k)"]
      by (simp add: alloc_stack_def created_def create_failed_def old_stack_def upd_tcb_def)
        (auto intro!: kernel.equality tcb.equality simp: fun_eq_iff)
  next
    case True
    have "free_stack (stack_ptr (array_of_threads k i)) (k\<lparr>array_of_threads := A\<rparr>) =
        Some (k\<lparr>array_of_threads := A, stacks := stacks k - old_stack i k\<rparr>)" for A
      using st True by (cases "stack_ptr (array_of_threads k i)") (simp_all add: free_stack_def old_stack_def)
    then show ?thesis
      using True set [where f = "\<lambda>b. b\<lparr>exit_code := -1, current_state := READY\<rparr>"
          and S = "insert (brk k) (stacks k - old_stack i k)"]
      by (simp add: alloc_stack_def created_def create_failed_def upd_tcb_def set_state_def)
        (auto intro!: kernel.equality tcb.equality simp: fun_eq_iff)
  qed
qed

lemma created_ints [simp]: "(created fn parg i (k\<lparr>ints := a\<rparr>))\<lparr>ints := b\<rparr> = (created fn parg i k)\<lparr>ints := b\<rparr>"
  "(create_failed i (k\<lparr>ints := a\<rparr>))\<lparr>ints := b\<rparr> = (create_failed i k)\<lparr>ints := b\<rparr>"
  by (simp_all add: created_def create_failed_def old_stack_def)

lemma created_ints_same: "(created fn parg i k)\<lparr>ints := ints k\<rparr> = created fn parg i k"
  "(create_failed i k)\<lparr>ints := ints k\<rparr> = create_failed i k"
  by (simp_all add: created_def create_failed_def)

definition create_slot :: "kernel \<Rightarrow> tid option" where
  "create_slot k =
     (if nums_existing_threads k \<ge> THREAD_MAX_THREADS then None else List.find (free_slot k) all_tids)"

lemma create_slot_SomeD:
  assumes "create_slot k = Some i"
  shows "valid_tid i" "free_slot k i"
  using assms by (auto simp: create_slot_def find_Some_iff set_all_tids [symmetric] in_set_conv_nth
      simp del: set_all_tids split: if_splits)

lemma thread_create_ok:
  assumes inv: "kernel_inv k" and run: "runnable k (current k)"
  shows "thread_create fn parg ok k = Some (case create_slot k of
      None \<Rightarrow> (THREAD_NOMORE, k)
    | Some i \<Rightarrow> if ok then (i, created fn parg i k) else (THREAD_NOMEMORY, create_failed i k))"
proof -
  note I = kernel_invD [OF inv]
  let ?k = "k\<lparr>ints := False\<rparr>"
  have fs: "free_slot ?k = free_slot k" by (rule ext) (simp add: free_slot_def)
  show ?thesis
  proof (cases "create_slot k")
    case None
    then show ?thesis
      by (auto simp: create_slot_def thread_create_def thread_create_helper_def interrupts_set_def fs
          thread_create_loop_find [of _ _ _ all_tids] thread_consts split: if_splits)
  next
    case (Some i)
    note i = create_slot_SomeD [OF Some]
    have "alive k i" if "state k i = EXITED" using that i by (simp add: alive_def)
    then have "old_stack i ?k \<subseteq> stacks ?k"
      using I(4) by (auto simp: old_stack_def stack_inv_def)
    moreover have "queues ?k RQ = Some (ready_queue ?k)" "RQ < brk ?k"
      using ready_queue_eq [OF I(2)] RQ_brk [OF inv] by simp_all
    ultimately have "thread_create_loop fn parg ok [i] ?k =
        Some (if ok then (i, created fn parg i ?k) else (THREAD_NOMEMORY, create_failed i ?k))"
      using i fs by (intro thread_create_slot) simp_all
    with Some i show ?thesis
      by (auto simp: create_slot_def thread_create_def thread_create_helper_def interrupts_set_def fs
          thread_create_loop_find [of _ _ _ all_tids] created_ints_same valid_tid_def THREAD_NOMEMORY_def
          simp del: thread_create_loop.simps split: if_splits)
  qed
qed

lemma stack_invD:
  assumes "stack_inv k"
  shows "a \<in> stacks k \<Longrightarrow> a < brk k"
    "alive k t \<Longrightarrow> stack_ptr (array_of_threads k t) = Some a \<Longrightarrow> a \<in> stacks k"
    "alive k t \<Longrightarrow> alive k u \<Longrightarrow> stack_ptr (array_of_threads k t) = Some a \<Longrightarrow>
       stack_ptr (array_of_threads k u) = Some a \<Longrightarrow> t = u"
  using assms unfolding stack_inv_def by metis+

lemma stack_invI:
  assumes "\<And>a. a \<in> stacks k \<Longrightarrow> a < brk k"
    "\<And>t a. alive k t \<Longrightarrow> stack_ptr (array_of_threads k t) = Some a \<Longrightarrow> a \<in> stacks k"
    "\<And>t u a. alive k t \<Longrightarrow> alive k u \<Longrightarrow> stack_ptr (array_of_threads k t) = Some a \<Longrightarrow>
       stack_ptr (array_of_threads k u) = Some a \<Longrightarrow> t = u"
  shows "stack_inv k"
  using assms unfolding stack_inv_def by metis

lemma in_old_stack: "a \<in> old_stack i k \<longleftrightarrow> state k i = EXITED \<and> stack_ptr (array_of_threads k i) = Some a"
  by (auto simp: old_stack_def)

lemma created_inv:
  assumes inv: "kernel_inv k" and run: "runnable k (current k)" and i: "valid_tid i" "free_slot k i"
  shows "kernel_inv (created fn parg i k)" (is "kernel_inv ?k")
proof -
  note I = kernel_invD [OF inv]
  note rq = ready_queue_eq [OF I(2)]
  have bnd: "RQ < brk k" by (rule RQ_brk [OF inv])
  have ic: "i \<noteq> current k" using i run by (auto simp: free_slot_def runnable_def)
  have nin: "\<not> in_queue k r i" for r
    using in_queueD [OF I(1), of r _ i] i(2) by (cases "r = RQ") (auto simp: in_queue_def free_slot_def)
  have fresh: "queues k (Suc (brk k)) = None"
    using queue_okI [OF I(1), of "Suc (brk k)"] by (cases "queues k (Suc (brk k))") (auto simp: queue_ok_def)
  have rq': "ready_queue ?k = ready_queue k @ [i]" by (simp add: created_def ready_queue_def)
  have st: "state ?k u = (if u = i then READY else state k u)" for u by (simp add: created_def)
  have cur: "current ?k = current k" "brk ?k = Suc (Suc (brk k))" by (simp_all add: created_def)
  have q': "queues ?k = (queues k)(Suc (brk k) \<mapsto> [], RQ \<mapsto> ready_queue k @ [i])" by (simp add: created_def)
  have "queue_ok ?k r ys" if r: "queues ?k r = Some ys" for r ys
  proof (cases "r = RQ \<or> r = Suc (brk k)")
    case True
    with queue_okI [OF I(1) rq] nin [of RQ] i(1) ic rq r bnd show ?thesis
      by (auto simp: queue_ok_def q' st cur in_queue_def split: if_splits)
  next
    case False
    with r have "queues k r = Some ys" by (simp add: q')
    with queue_okI [OF I(1) this] False nin [of r] show ?thesis
      by (auto simp: queue_ok_def st cur in_queue_def)
  qed
  moreover have in_new: "in_queue ?k r u \<longleftrightarrow> (if u = i then r = RQ else in_queue k r u)" for r u
    using nin [of r] rq fresh by (auto simp: in_queue_def q')
  have "p = r" if "in_queue ?k p u" "in_queue ?k r u" for u p r
    using that in_queue_unique [OF I(1), of p u r] by (simp only: in_new split: if_splits)
  ultimately have 1: "queues_inv ?k" by (rule queues_invI)
  have 2: "counting_inv ?k"
    using I(2) ic by (auto simp: counting_inv_def runnable_def rq' st cur) (simp_all add: created_def)
  have ow: "owns ?k q ow" if "owns k q ow" for q ow
    using that by (auto simp: owns_def created_def)
  have "\<exists>q. wq (array_of_threads ?k t) = Some q \<and> owns ?k q (OwnThread t)"
    if "valid_tid t" "state ?k t \<noteq> UNINITIALIZED" for t
  proof (cases "t = i")
    case True
    then show ?thesis by (simp add: created_def owns_def)
  next
    case False
    with that I(3) obtain q where "wq (array_of_threads k t) = Some q" "owns k q (OwnThread t)"
      by (auto simp: owner_inv_def st)
    with False ow show ?thesis by (simp add: created_def)
  qed
  moreover have "locks ?k = locks k" "cvs ?k = cvs k" "owner ?k RQ = owner k RQ"
    using bnd by (simp_all add: created_def)
  ultimately have 3: "owner_inv ?k"
    using I(3) ow cur unfolding owner_inv_def by (metis less_SucI)
  have al: "alive k u" if "alive ?k u" "u \<noteq> i" for u
    using that by (auto simp: alive_def rq' st cur)
  have ao: "alive k i" if "state k i = EXITED" using that i by (simp add: alive_def)
  have sp: "stack_ptr (array_of_threads ?k u) = (if u = i then Some (brk k) else stack_ptr (array_of_threads k u))"
    for u by (simp add: created_def)
  have ctx: "context_of (array_of_threads ?k u) =
      (if u = i then [FStub fn parg] else context_of (array_of_threads k u))" for u by (simp add: created_def)
  have stk: "stacks ?k = insert (brk k) (stacks k - old_stack i k)" by (simp add: created_def)
  note S = stack_invD [OF I(4)]
  have 4: "stack_inv ?k"
  proof (rule stack_invI)
    show "a < brk ?k" if "a \<in> stacks ?k" for a using that S(1) [of a] by (auto simp: stk cur)
    show "a \<in> stacks ?k" if "alive ?k u" "stack_ptr (array_of_threads ?k u) = Some a" for u a
      using that al [of u] ao S(2) [of u a] S(3) [of u i a] by (auto simp: sp stk in_old_stack split: if_splits)
    show "t = u" if "alive ?k t" "alive ?k u" "stack_ptr (array_of_threads ?k t) = Some a"
      "stack_ptr (array_of_threads ?k u) = Some a" for t u a
      using that al [of t] al [of u] S(3) [of t u a] S(1) [of "brk k"] S(2) [of t "brk k"] S(2) [of u "brk k"]
      by (auto simp: sp split: if_splits)
  qed
  have 5: "context_inv ?k"
    by (rule context_inv_mono [OF I(5)]) (use ic in \<open>auto simp: rq' st cur resumable_def ctx\<close>)
  from 1 2 3 4 5 show ?thesis by (simp add: kernel_inv_def)
qed

lemma create_failed_inv:
  assumes inv: "kernel_inv k" and run: "runnable k (current k)" and i: "valid_tid i" "free_slot k i"
  shows "kernel_inv (create_failed i k)" (is "kernel_inv ?k")
proof -
  note I = kernel_invD [OF inv]
  note rq = ready_queue_eq [OF I(2)]
  have ic: "i \<noteq> current k" using i run by (auto simp: free_slot_def runnable_def)
  have nin: "\<not> in_queue k r i" for r
    using in_queueD [OF I(1), of r _ i] i(2) by (cases "r = RQ") (auto simp: in_queue_def free_slot_def)
  have st: "state ?k u = (if u = i \<and> state k u = EXITED then READY else state k u)" for u
    by (simp add: create_failed_def)
  have sel: "queues ?k = queues k" "owner ?k = owner k" "brk ?k = brk k" "current ?k = current k"
    "locks ?k = locks k" "cvs ?k = cvs k" "ready_queue ?k = ready_queue k"
    "nums_existing_threads ?k = nums_existing_threads k" "stacks ?k = stacks k - old_stack i k"
    "wq (array_of_threads ?k u) = wq (array_of_threads k u)"
    "stack_ptr (array_of_threads ?k u) = stack_ptr (array_of_threads k u)"
    "context_of (array_of_threads ?k u) = context_of (array_of_threads k u)" for u
    by (simp_all add: create_failed_def ready_queue_def)
  have "queue_ok ?k r ys" if "queues ?k r = Some ys" for r ys
    using queue_okI [OF I(1), of r ys] that nin [of r] by (auto simp: queue_ok_def st sel in_queue_def)
  moreover have "p = r" if "in_queue ?k p u" "in_queue ?k r u" for u p r
    using that in_queue_unique [OF I(1), of p u r] by (simp add: in_queue_def sel)
  ultimately have 1: "queues_inv ?k" by (rule queues_invI)
  have 2: "counting_inv ?k" using I(2) ic by (auto simp: counting_inv_def runnable_def sel st)
  have 3: "owner_inv ?k"
    by (rule owner_inv_mono [OF I(3)]) (auto simp: sel st owns_def split: if_splits)
  have al: "alive k u" if "alive ?k u" for u
    using that by (auto simp: alive_def sel st split: if_splits)
  have ni: "u \<noteq> i" if "alive ?k u" "state k i = EXITED" for u
    using that ic nin [of RQ] rq by (auto simp: alive_def sel st in_queue_def split: if_splits)
  have ao: "alive k i" if "state k i = EXITED" using that i by (simp add: alive_def)
  note S = stack_invD [OF I(4)]
  have 4: "stack_inv ?k"
  proof (rule stack_invI)
    show "a < brk ?k" if "a \<in> stacks ?k" for a using that S(1) [of a] by (simp add: sel)
    show "a \<in> stacks ?k" if "alive ?k u" "stack_ptr (array_of_threads ?k u) = Some a" for u a
      using that al [of u] ni [of u] ao S(2) [of u a] S(3) [of u i a] by (auto simp: sel in_old_stack)
    show "t = u" if "alive ?k t" "alive ?k u" "stack_ptr (array_of_threads ?k t) = Some a"
      "stack_ptr (array_of_threads ?k u) = Some a" for t u a
      using that al [of t] al [of u] S(3) [of t u a] by (simp add: sel)
  qed
  have 5: "context_inv ?k"
    by (rule context_inv_mono [OF I(5)]) (auto simp: sel st split: if_splits)
  from 1 2 3 4 5 show ?thesis by (simp add: kernel_inv_def)
qed

lemma thread_create_inv:
  assumes "kernel_inv k" "runnable k (current k)" "thread_create fn parg ok k = Some (r, k')"
  shows "kernel_inv k'"
  using assms thread_create_ok [OF assms(1,2), of fn parg ok] create_slot_SomeD [of k]
    created_inv [OF assms(1,2)] create_failed_inv [OF assms(1,2)]
  by (auto split: option.splits if_splits)

section \<open>Wait queues, locks and condition variables\<close>

text \<open>A state in which queues, locks and condition variables changed, but no thread did.\<close>

lemma kernel_inv_objects:
  assumes inv: "kernel_inv k" and th: "array_of_threads k' = array_of_threads k"
    "current k' = current k" "nums_existing_threads k' = nums_existing_threads k"
    "stacks k' = stacks k" "brk k \<le> brk k'" "queues k' RQ = queues k RQ"
    and q: "\<And>q xs. queues k' q = Some xs \<Longrightarrow> queues k q = Some xs \<or> xs = [] \<and> q < brk k'"
    and ow: "owner_inv k'"
  shows "kernel_inv k'"
proof -
  note I = kernel_invD [OF inv]
  have rq: "ready_queue k' = ready_queue k" using th by (simp add: ready_queue_def)
  have "queue_ok k' r ys" if "queues k' r = Some ys" for r ys
    using q [OF that] queue_okI [OF I(1), of r ys] th by (auto simp: queue_ok_def)
  moreover have "p = r" if "in_queue k' p u" "in_queue k' r u" for u p r
    using that in_queue_unique [OF I(1), of p u r] q unfolding in_queue_def by fastforce
  ultimately have 1: "queues_inv k'" by (rule queues_invI)
  have 2: "counting_inv k'" using I(2) th rq by (simp add: counting_inv_def runnable_def)
  have 4: "stack_inv k'" by (rule stack_inv_mono [OF I(4)]) (use th rq in \<open>auto simp: alive_def\<close>)
  have 5: "context_inv k'" by (rule context_inv_mono [OF I(5)]) (use th rq in auto)
  from 1 2 ow 4 5 show ?thesis by (simp add: kernel_inv_def)
qed

lemma owner_invD:
  assumes "owner_inv k"
  shows "owner k RQ = OwnReady"
    "valid_tid t \<Longrightarrow> state k t \<noteq> UNINITIALIZED \<Longrightarrow>
      \<exists>q. wq (array_of_threads k t) = Some q \<and> owns k q (OwnThread t)"
    "locks k l = Some lk \<Longrightarrow> l < brk k \<and> owns k (lock_wq lk) (OwnLock l)"
    "cvs k c = Some cv \<Longrightarrow> c < brk k \<and> owns k (cv_wait_queue cv) (OwnCv c)"
  using assms unfolding owner_inv_def by metis+

lemma owner_invI:
  assumes "owner k RQ = OwnReady"
    "\<And>t. valid_tid t \<Longrightarrow> state k t \<noteq> UNINITIALIZED \<Longrightarrow>
      \<exists>q. wq (array_of_threads k t) = Some q \<and> owns k q (OwnThread t)"
    "\<And>l lk. locks k l = Some lk \<Longrightarrow> l < brk k \<and> owns k (lock_wq lk) (OwnLock l)"
    "\<And>c cv. cvs k c = Some cv \<Longrightarrow> c < brk k \<and> owns k (cv_wait_queue cv) (OwnCv c)"
  shows "owner_inv k"
  using assms unfolding owner_inv_def by metis

definition new_queue :: "queue_owner \<Rightarrow> kernel \<Rightarrow> kernel" where
  "new_queue ow k = k\<lparr>queues := (queues k)(brk k \<mapsto> []), owner := (owner k)(brk k := ow),
     brk := Suc (brk k)\<rparr>"

lemma wait_queue_create_eq: "wait_queue_create ow k = (brk k, new_queue ow k)"
  by (simp add: wait_queue_create_def new_queue_def)

lemma owns_new_queue: "owns k q ow \<Longrightarrow> owns (new_queue ow' k) q ow"
  "owns (new_queue ow k) (brk k) ow"
  by (auto simp: owns_def new_queue_def)

lemma new_queue_inv:
  assumes inv: "kernel_inv k"
  shows "kernel_inv (new_queue ow k)"
proof (rule kernel_inv_objects [OF inv])
  note I = kernel_invD [OF inv]
  show "owner_inv (new_queue ow k)"
    by (rule owner_inv_mono [OF I(3)])
      (use owns_new_queue RQ_brk [OF inv] in \<open>auto simp: new_queue_def owns_def\<close>)
qed (use RQ_brk [OF inv] in \<open>auto simp: new_queue_def split: if_splits\<close>)

lemma brk_inv:
  assumes inv: "kernel_inv k"
  shows "kernel_inv (k\<lparr>brk := Suc (brk k)\<rparr>)"
proof (rule kernel_inv_objects [OF inv])
  show "owner_inv (k\<lparr>brk := Suc (brk k)\<rparr>)"
    by (rule owner_inv_mono [OF kernel_invD(3) [OF inv]]) (auto simp: owns_def)
qed simp_all

text \<open>Adding, changing and removing a lock or a condition variable.\<close>

lemma locks_inv:
  assumes inv: "kernel_inv k" and L: "\<And>l lk. L l = Some lk \<Longrightarrow> l < brk k \<and> owns k (lock_wq lk) (OwnLock l)"
  shows "kernel_inv (k\<lparr>locks := L\<rparr>)"
proof (rule kernel_inv_objects [OF inv])
  note O = owner_invD [OF kernel_invD(3) [OF inv]]
  show "owner_inv (k\<lparr>locks := L\<rparr>)"
    by (rule owner_invI) (use O L in \<open>simp_all add: owns_def\<close>)
qed simp_all

lemma cvs_inv:
  assumes inv: "kernel_inv k" and C: "\<And>c cv. C c = Some cv \<Longrightarrow> c < brk k \<and> owns k (cv_wait_queue cv) (OwnCv c)"
  shows "kernel_inv (k\<lparr>cvs := C\<rparr>)"
proof (rule kernel_inv_objects [OF inv])
  note O = owner_invD [OF kernel_invD(3) [OF inv]]
  show "owner_inv (k\<lparr>cvs := C\<rparr>)"
    by (rule owner_invI) (use O C in \<open>simp_all add: owns_def\<close>)
qed simp_all

lemma lock_set_inv:
  assumes inv: "kernel_inv k" and "locks k l = Some lk" "lock_wq lk' = lock_wq lk"
  shows "kernel_inv (k\<lparr>locks := (locks k)(l \<mapsto> lk')\<rparr>)"
  by (rule locks_inv [OF inv])
    (use owner_invD(3) [OF kernel_invD(3) [OF inv]] assms(2,3) in \<open>auto split: if_splits\<close>)

lemma drop_queue_inv:
  assumes inv: "kernel_inv k" and q: "owner k q = OwnUser \<or> (\<exists>c. owner k q = OwnCv c \<and> cvs k c = None)"
  shows "kernel_inv (k\<lparr>queues := (queues k)(q := None)\<rparr>)" (is "kernel_inv ?k")
proof (rule kernel_inv_objects [OF inv])
  note O = owner_invD [OF kernel_invD(3) [OF inv]]
  have ow: "owns ?k r ow" if "owns k r ow" "ow \<noteq> owner k q" for r ow
    using that by (auto simp: owns_def)
  show "owner_inv ?k"
  proof (rule owner_invI)
    fix t assume "valid_tid t" "state ?k t \<noteq> UNINITIALIZED"
    then show "\<exists>q. wq (array_of_threads ?k t) = Some q \<and> owns ?k q (OwnThread t)"
      using O(2) [of t] ow q by fastforce
  next
    fix c cv assume "cvs ?k c = Some cv"
    then show "c < brk ?k \<and> owns ?k (cv_wait_queue cv) (OwnCv c)"
      using O(4) [of c cv] ow q by fastforce
  next
    fix l lk assume "locks ?k l = Some lk"
    then show "l < brk ?k \<and> owns ?k (lock_wq lk) (OwnLock l)"
      using O(3) [of l lk] ow q by fastforce
  qed (use O(1) in simp)
  have "q \<noteq> RQ" using q O(1) by auto
  then show "queues ?k RQ = queues k RQ" by simp
qed (auto split: if_splits)

lemma wait_queue_create_inv: "kernel_inv k \<Longrightarrow> kernel_inv (snd (wait_queue_create ow k))"
  by (simp add: wait_queue_create_eq new_queue_inv)

lemma wait_queue_destroy_inv:
  assumes "kernel_inv k" "user_queue k p" "wait_queue_destroy p k = Some k'"
  shows "kernel_inv k'"
  using assms drop_queue_inv [of k]
  by (auto simp: wait_queue_destroy_def user_queue_def bind_eq_Some_conv)

lemma lock_create_eq:
  "lock_create k = (brk k, (new_queue (OwnLock (brk k)) (k\<lparr>brk := Suc (brk k)\<rparr>))\<lparr>locks := (locks k)(brk k \<mapsto>
     \<lparr>lock_flag = False, thread_holding_lock = -1, lock_wq = Suc (brk k)\<rparr>)\<rparr>)"
  by (simp add: lock_create_def interrupts_set_def wait_queue_create_def new_queue_def Let_def)

lemma cv_create_eq:
  "cv_create k = (brk k, (new_queue (OwnCv (brk k)) (k\<lparr>brk := Suc (brk k)\<rparr>))\<lparr>cvs := (cvs k)(brk k \<mapsto>
     \<lparr>cv_wait_queue = Suc (brk k)\<rparr>)\<rparr>)"
  by (simp add: cv_create_def interrupts_set_def wait_queue_create_def new_queue_def Let_def)

lemma lock_create_inv:
  assumes inv: "kernel_inv k"
  shows "kernel_inv (snd (lock_create k))"
proof -
  let ?k = "new_queue (OwnLock (brk k)) (k\<lparr>brk := Suc (brk k)\<rparr>)"
  have inv': "kernel_inv ?k" by (intro new_queue_inv brk_inv inv)
  have new: "owns ?k (Suc (brk k)) (OwnLock (brk k))" "brk k < brk ?k" "locks ?k = locks k"
    by (simp_all add: owns_def new_queue_def)
  show ?thesis
    unfolding lock_create_eq snd_conv
  proof (rule locks_inv [OF inv'])
    fix l lk assume "(((locks k)(brk k \<mapsto> \<lparr>lock_flag = False, thread_holding_lock = -1, lock_wq = Suc (brk k)\<rparr>))) l = Some lk"
    then show "l < brk ?k \<and> owns ?k (lock_wq lk) (OwnLock l)"
      using owner_invD(3) [OF kernel_invD(3) [OF inv'], of l lk] new
      by (cases "l = brk k") auto
  qed
qed

lemma cv_create_inv:
  assumes inv: "kernel_inv k"
  shows "kernel_inv (snd (cv_create k))"
proof -
  let ?k = "new_queue (OwnCv (brk k)) (k\<lparr>brk := Suc (brk k)\<rparr>)"
  have inv': "kernel_inv ?k" by (intro new_queue_inv brk_inv inv)
  have new: "owns ?k (Suc (brk k)) (OwnCv (brk k))" "brk k < brk ?k" "cvs ?k = cvs k"
    by (simp_all add: owns_def new_queue_def)
  show ?thesis
    unfolding cv_create_eq snd_conv
  proof (rule cvs_inv [OF inv'])
    fix c v assume "(((cvs k)(brk k \<mapsto> \<lparr>cv_wait_queue = Suc (brk k)\<rparr>))) c = Some v"
    then show "c < brk ?k \<and> owns ?k (cv_wait_queue v) (OwnCv c)"
      using owner_invD(4) [OF kernel_invD(3) [OF inv'], of c v] new
      by (cases "c = brk k") auto
  qed
qed

lemma lock_destroy_eq: "lock_destroy p k = (if p = None then None else Some k)"
  by (simp add: lock_destroy_def interrupts_set_def bind_c_assert)

lemma cv_destroy_inv:
  assumes inv: "kernel_inv k" and k: "cv_destroy p k = Some k'"
  shows "kernel_inv k'"
proof -
  from k obtain c v where cv: "p = Some c" "cvs k c = Some v"
    "k' = (k\<lparr>cvs := (cvs k)(c := None)\<rparr>)\<lparr>queues := (queues k)(cv_wait_queue v := None)\<rparr>"
    by (auto simp: cv_destroy_def interrupts_set_def bind_eq_Some_conv)
  note O = owner_invD [OF kernel_invD(3) [OF inv]]
  have "kernel_inv (k\<lparr>cvs := (cvs k)(c := None)\<rparr>)"
    by (rule cvs_inv [OF inv]) (use O(4) in \<open>auto split: if_splits\<close>)
  moreover have "owner k (cv_wait_queue v) = OwnCv c" using O(4) [OF cv(2)] by (simp add: owns_def)
  ultimately show ?thesis using drop_queue_inv [of "k\<lparr>cvs := (cvs k)(c := None)\<rparr>" "cv_wait_queue v"]
    unfolding cv(3) by simp
qed

text \<open>Releasing a lock: the flag is cleared and every thread waiting for it becomes ready.\<close>

definition released :: "addr \<Rightarrow> lock_s \<Rightarrow> kernel \<Rightarrow> kernel" where
  "released l lk k = woken (lock_wq lk) (the (queues k (lock_wq lk)))
     (k\<lparr>locks := (locks k)(l \<mapsto> lk\<lparr>lock_flag := False, thread_holding_lock := current k\<rparr>)\<rparr>)"

lemma lock_queue:
  assumes "kernel_inv k" "locks k l = Some lk"
  obtains xs where "queues k (lock_wq lk) = Some xs" "lock_wq lk \<noteq> RQ" "owner k (lock_wq lk) = OwnLock l"
proof -
  have O: "owner k RQ = OwnReady" "owns k (lock_wq lk) (OwnLock l)"
    using owner_invD(1,3) [OF kernel_invD(3) [OF assms(1)]] assms(2) by auto
  then have "lock_wq lk \<noteq> RQ" by (auto simp: owns_def)
  with O(2) that show thesis by (auto simp: owns_def)
qed

lemma cv_queue:
  assumes "kernel_inv k" "cvs k c = Some v"
  obtains xs where "queues k (cv_wait_queue v) = Some xs" "cv_wait_queue v \<noteq> RQ"
    "owner k (cv_wait_queue v) = OwnCv c"
proof -
  have O: "owner k RQ = OwnReady" "owns k (cv_wait_queue v) (OwnCv c)"
    using owner_invD(1,4) [OF kernel_invD(3) [OF assms(1)]] assms(2) by auto
  then have "cv_wait_queue v \<noteq> RQ" by (auto simp: owns_def)
  with O(2) that show thesis by (auto simp: owns_def)
qed

lemma thread_queue:
  assumes "kernel_inv k" "valid_tid t" "state k t \<noteq> UNINITIALIZED"
  obtains q xs where "wq (array_of_threads k t) = Some q" "queues k q = Some xs" "q \<noteq> RQ"
    "owner k q = OwnThread t"
  using owner_invD(1,2) [OF kernel_invD(3) [OF assms(1)]] assms(2,3) that by (fastforce simp: owns_def)

lemma lock_release_ok:
  assumes inv: "kernel_inv k" and cur: "state k (current k) \<noteq> SLEEP" and l: "locks k l = Some lk"
  shows "lock_release (Some l) k = Some (released l lk k) \<and> kernel_inv (released l lk k)"
proof -
  from lock_queue [OF inv l] obtain xs where q: "queues k (lock_wq lk) = Some xs" "lock_wq lk \<noteq> RQ"
    by blast
  let ?L = "(locks k)(l \<mapsto> lk\<lparr>lock_flag := False, thread_holding_lock := current k\<rparr>)"
  let ?k = "(k\<lparr>ints := False\<rparr>)\<lparr>locks := ?L\<rparr>"
  have inv1: "kernel_inv (k\<lparr>locks := ?L\<rparr>)" by (rule lock_set_inv [OF inv l]) simp
  have inv2: "kernel_inv ?k" 
    using lock_set_inv [of "k\<lparr>ints := False\<rparr>" l lk] inv l by simp
  have "thread_wakeup (Some (lock_wq lk)) 1 ?k = Some (int (length xs), woken (lock_wq lk) xs ?k)"
    using thread_wakeup_ok [OF inv2, of "lock_wq lk" xs 1] q cur by (simp add: wake_list_def)
  moreover have "(woken (lock_wq lk) xs ?k)\<lparr>ints := ints k\<rparr> = released l lk k"
    using q(1) by (simp add: released_def woken_def ready_queue_def cong: if_cong)
  ultimately have "lock_release (Some l) k = Some (released l lk k)"
    using l by (simp add: lock_release_def interrupts_set_def thread_id_def)
  moreover have "kernel_inv (released l lk k)"
    using thread_wakeup_ok [OF inv1, of "lock_wq lk" xs 1] q cur by (simp add: wake_list_def released_def)
  ultimately show ?thesis by simp
qed

lemma lock_release_inv:
  assumes "kernel_inv k" "state k (current k) \<noteq> SLEEP" "lock_release p k = Some k'"
  shows "kernel_inv k'"
proof -
  from assms(3) obtain l lk where "p = Some l" "locks k l = Some lk"
    by (auto simp: lock_release_def interrupts_set_def bind_eq_Some_conv)
  with lock_release_ok [OF assms(1,2)] assms(3) show ?thesis by auto
qed

lemma cv_wake_ok:
  assumes inv: "kernel_inv k" and cur: "state k (current k) \<noteq> SLEEP" and l: "locks k l = Some lk"
    and c: "cvs k c = Some v" and q: "queues k (cv_wait_queue v) = Some xs"
  shows "cv_wake all (Some c) (Some l) k =
      Some (if holds_lock k lk then woken (cv_wait_queue v) (wake_list all xs) k else k)"
    "kernel_inv (woken (cv_wait_queue v) (wake_list all xs) k)"
proof -
  have "cv_wait_queue v \<noteq> RQ" using cv_queue [OF inv c] by blast
  note w = thread_wakeup_ok [OF inv q this cur, of all]
  then show "cv_wake all (Some c) (Some l) k =
      Some (if holds_lock k lk then woken (cv_wait_queue v) (wake_list all xs) k else k)"
    using l c by (simp add: cv_wake_def)
  show "kernel_inv (woken (cv_wait_queue v) (wake_list all xs) k)" using w by simp
qed

lemma cv_wake_inv:
  assumes "kernel_inv k" "state k (current k) \<noteq> SLEEP" "cv_wake all p r k = Some k'"
  shows "kernel_inv k'"
proof (cases "k' = k")
  case True
  with assms(1) show ?thesis by simp
next
  case False
  with assms(3) obtain c l lk v where cl: "p = Some c" "r = Some l" "locks k l = Some lk" "cvs k c = Some v"
    by (auto simp: cv_wake_def bind_eq_Some_conv split: if_splits)
  moreover from cv_queue [OF assms(1) cl(4)] obtain xs where "queues k (cv_wait_queue v) = Some xs" by blast
  ultimately show ?thesis using cv_wake_ok [OF assms(1,2)] assms(1,3) by auto
qed

end
