(* ===== verification/Kernel_Control.thy ===== *)
theory Kernel_Control
  imports Kernel_Changes
begin

text \<open>
  The configurations the machine reaches. The invariant of the global state is combined with a
  control invariant: what the state of the current thread says of the functions active in it.
  Both hold after \<open>thread_init\<close> and are kept by every step, so they hold in every reachable
  configuration, whatever the program calls and wherever the timer interrupts it.
\<close>

section \<open>The state after thread_init\<close>

definition booted :: kernel where
  "booted = boot\<lparr>
     array_of_threads := (\<lambda>t. if t = 0 then zero_tcb\<lparr>current_state := RUNNING, wq := Some 1, waiting_on := -1\<rparr>
       else if valid_tid t then zero_tcb\<lparr>current_state := UNINITIALIZED\<rparr> else zero_tcb),
     nums_existing_threads := 1,
     queues := [RQ \<mapsto> [], 1 \<mapsto> []], owner := (owner boot)(1 := OwnThread 0), brk := 2\<rparr>"

lemma all_tids_Cons: "all_tids = 0 # [1..THREAD_MAX_THREADS - 1]"
  by (simp add: all_tids_def THREAD_MAX_THREADS_def upto_rec1)

lemma fold_thread_init_one:
  "0 \<notin> set js \<Longrightarrow> fold thread_init_one js k = k\<lparr>array_of_threads := (\<lambda>t. if t \<in> set js
     then (array_of_threads k t)\<lparr>current_state := UNINITIALIZED, wq := None\<rparr> else array_of_threads k t)\<rparr>"
proof (induction js arbitrary: k)
  case Nil
  then show ?case by simp
next
  case (Cons i js)
  then show ?case
    by (auto simp: thread_init_one_def upd_tcb_def intro!: kernel.equality)
qed

lemma thread_init_boot: "thread_init boot = booted"
proof -
  have tids: "t \<in> {1..THREAD_MAX_THREADS - 1} \<longleftrightarrow> valid_tid t \<and> t \<noteq> 0" for t
    by (auto simp: valid_tid_def)
  have js: "fold thread_init_one [1..THREAD_MAX_THREADS - 1] k = k\<lparr>array_of_threads := (\<lambda>t. if valid_tid t \<and> t \<noteq> 0
     then (array_of_threads k t)\<lparr>current_state := UNINITIALIZED, wq := None\<rparr> else array_of_threads k t)\<rparr>" for k
    using fold_thread_init_one [of "[1..THREAD_MAX_THREADS - 1]" k] by (simp only: set_upto tids) simp
  show ?thesis
    by (rule kernel.equality)
      (auto simp: thread_init_def Let_def all_tids_Cons js thread_init_one_def wait_queue_create_def
        upd_tcb_def set_state_def booted_def boot_def zero_tcb_def RQ_def fun_eq_iff)
qed

lemma booted_inv: "kernel_inv booted"
proof -
  have sel: "state booted t = (if t = 0 then RUNNING else if valid_tid t then UNINITIALIZED else READY)" for t
    by (simp add: booted_def zero_tcb_def)
  have rq: "ready_queue booted = []" by (simp add: booted_def ready_queue_def RQ_def)
  have q: "queues booted = [RQ \<mapsto> [], 1 \<mapsto> []]" "current booted = 0" "brk booted = 2"
    "owner booted = (\<lambda>_. OwnUser)(RQ := OwnReady, 1 := OwnThread 0)"
    "locks booted = (\<lambda>_. None)" "cvs booted = (\<lambda>_. None)" "stacks booted = {}"
    "nums_existing_threads booted = 1" "wq (array_of_threads booted 0) = Some 1"
    "stack_ptr (array_of_threads booted 0) = None"
    by (simp_all add: booted_def boot_def zero_tcb_def)
  have v: "valid_tid 0" by (simp add: valid_tid_def THREAD_MAX_THREADS_def)
  have Q: "queues booted r = Some xs \<Longrightarrow> xs = [] \<and> r < 2" for r xs
    by (simp add: q RQ_def split: if_splits)
  have "queues_inv booted"
    by (rule queues_invI) (use Q in \<open>force simp: queue_ok_def in_queue_def q(3)\<close>)+
  moreover have "counting_inv booted"
    by (simp add: counting_inv_def q rq sel v runnable_def)
  moreover have "owner_inv booted"
  proof (rule owner_invI)
    fix t assume "valid_tid t" "state booted t \<noteq> UNINITIALIZED"
    then have "t = 0" by (simp add: sel split: if_splits)
    then show "\<exists>q. wq (array_of_threads booted t) = Some q \<and> owns booted q (OwnThread t)"
      by (simp add: q owns_def)
  qed (simp_all add: q RQ_def)
  moreover have "alive booted t \<longleftrightarrow> t = 0" for t
    by (auto simp: alive_def rq q v sel split: if_splits)
  then have "stack_inv booted"
    by (simp add: stack_inv_def q)
  moreover have "context_inv booted" by (simp add: context_inv_def rq sel q)
  ultimately show ?thesis by (simp add: kernel_inv_def)
qed

section \<open>The control invariant\<close>

text \<open>A killed thread on its way through \<open>thread_exit\<close>, not yet marked \<open>EXITED\<close>.\<close>

fun exiting :: "mode \<Rightarrow> frame list \<Rightarrow> bool" where
  "exiting m [] = False"
| "exiting m (f # ks) =
     ((\<exists>c. m = Calling (Exit c)) \<and> ((\<exists>en t. f = FKilled en t) \<or> (\<exists>t en. f = FWaitTail t en)) \<or>
      m = Calling (Yield THREAD_ANY) \<and> (case f of FHandler m' \<Rightarrow> exiting m' ks | _ \<Rightarrow> False))"

text \<open>An exited thread in one of the two yields of \<open>thread_exit\<close>, or in a signal handler there.\<close>

fun exit_pending :: "mode \<Rightarrow> frame list \<Rightarrow> bool" where
  "exit_pending m [] = False"
| "exit_pending m (f # ks) =
     ((m = Calling (Yield THREAD_ANY) \<or> m = Returning (rv THREAD_NONE)) \<and>
      (case f of FExit1 \<Rightarrow> True | FExit2 \<Rightarrow> True | FHandler m' \<Rightarrow> exit_pending m' ks | _ \<Rightarrow> False))"

definition ctl_inv :: "kernel \<Rightarrow> mode \<Rightarrow> frame list \<Rightarrow> bool" where
  "ctl_inv k m ks \<longleftrightarrow>
     (if m = Resuming then runnable k (current k) \<and> resumable ks
      else case state k (current k) of
        RUNNING \<Rightarrow> mode_ok m \<and> clean ks
      | KILLED \<Rightarrow> mode_ok m \<and> clean ks \<or> exiting m ks
      | SLEEP \<Rightarrow> m = Calling (Yield THREAD_ANY) \<and> clean ks \<and> ready_queue k \<noteq> []
      | EXITED \<Rightarrow> exit_pending m ks
      | _ \<Rightarrow> False)"

fun conf_inv :: "conf \<Rightarrow> bool" where
  "conf_inv (Running k m ks) = (kernel_inv k \<and> ctl_inv k m ks)"
| "conf_inv (Terminated c) = True"

lemma clean_Nil [simp]: "clean []"
  by (simp add: clean_def)

lemma not_exit_pending_Resuming [simp]: "\<not> exit_pending Resuming ks"
  by (cases ks) auto

lemma clean_Cons [simp]: "clean (f # ks) \<longleftrightarrow> frame_ok f \<and> \<not> exit_frame f \<and> clean ks"
  by (auto simp: clean_def)

lemma mode_ok_simps [simp]:
  "mode_ok (Returning v)" "mode_ok (Calling (Yield t))" "mode_ok (Calling (Exit c))"
  "mode_ok (Calling (LockAcquire l))" "mode_ok (Calling (Sleep q)) \<longleftrightarrow> q \<noteq> Some RQ" "\<not> mode_ok Resuming"
  by (auto simp: mode_ok_def)

lemma frame_simps [simp]:
  "frame_ok (FHandler m) \<longleftrightarrow> mode_ok m" "frame_ok FUser" "frame_ok FStubExit" "frame_ok (FWait t p)"
  "frame_ok (FLockAcquire l b)" "frame_ok (FCvReleased c l)" "frame_ok (FCvSlept l)"
  "\<not> frame_ok (FYield b t)" "\<not> frame_ok (FStub n n')"
  "\<not> exit_frame (FHandler m)" "\<not> exit_frame FUser" "\<not> exit_frame FStubExit" "\<not> exit_frame (FWait t p)"
  "\<not> exit_frame (FLockAcquire l b)" "\<not> exit_frame (FCvReleased c l)" "\<not> exit_frame (FCvSlept l)"
  "exit_frame FExit1" "exit_frame FExit2" "exit_frame (FKilled b t)" "exit_frame (FWaitTail t b)"
  by (auto simp: frame_ok_def exit_frame_def)

lemma current_state_cases:
  assumes "kernel_inv k"
  shows "state k (current k) \<in> {RUNNING, KILLED, SLEEP, EXITED}"
  using kernel_invD(2) [OF assms] by (cases "state k (current k)") (auto simp: counting_inv_def)

text \<open>While the current thread is runnable and in clean code, anything goes.\<close>

definition user_ok :: "kernel \<Rightarrow> frame list \<Rightarrow> bool" where
  "user_ok k ks \<longleftrightarrow> runnable k (current k) \<and> clean ks"

lemma ctl_clean: "user_ok k ks \<Longrightarrow> mode_ok m \<Longrightarrow> ctl_inv k m ks"
  by (auto simp: user_ok_def ctl_inv_def runnable_def split: thread_states.splits)

lemma ctl_ints [simp]: "ctl_inv (k\<lparr>ints := b\<rparr>) m ks = ctl_inv k m ks"
  "user_ok (k\<lparr>ints := b\<rparr>) ks = user_ok k ks"
  by (cases "state k (current k)"; simp add: ctl_inv_def user_ok_def runnable_def)+

section \<open>Functions that do not switch\<close>

text \<open>After such a function the current thread is what it was, in a state that is still valid.\<close>

definition stays :: "kernel \<Rightarrow> kernel \<Rightarrow> bool" where
  "stays k k' \<longleftrightarrow> kernel_inv k' \<and> current k' = current k \<and> state k' (current k) = state k (current k)"

lemma stays_user_ok: "stays k k' \<Longrightarrow> user_ok k' ks = user_ok k ks"
  by (simp add: stays_def user_ok_def runnable_def)

lemma stays_ints [simp]: "stays k (k'\<lparr>ints := b\<rparr>) = stays k k'" "stays (k\<lparr>ints := b\<rparr>) k' = stays k k'"
  by (simp_all add: stays_def)

lemma stays_upd_tcb:
  assumes "kernel_inv k" "\<And>b. current_state (f b) = current_state b" "\<And>b. wq (f b) = wq b"
    "\<And>b. stack_ptr (f b) = stack_ptr b" "\<And>b. context_of (f b) = context_of b"
  shows "stays k (upd_tcb t f k)"
  using assms kernel_inv_upd_tcb [of f t k] by (simp add: stays_def)

lemma awake_not_queued:
  assumes "kernel_inv k" "runnable k (current k)" "queues k q = Some xs"
  shows "current k \<notin> set xs"
  using runnable_not_queued [OF assms(1,2), of q] assms(3) by (auto simp: in_queue_def)

lemma stays_woken:
  assumes "kernel_inv (woken q ys k)" "runnable k (current k)" "queues k q = Some xs" "set ys \<subseteq> set xs"
    "kernel_inv k"
  shows "stays k (woken q ys k)"
  using awake_not_queued [OF assms(5,2,3)] assms by (auto simp: stays_def)

lemma wake_list_subset: "set (wake_list all xs) \<subseteq> set xs"
  by (auto simp: wake_list_def dest: in_set_takeD)

lemma runnable_not_sleep: "runnable k t \<Longrightarrow> state k t \<noteq> SLEEP"
  by (auto simp: runnable_def)

lemma stays_wakeup:
  assumes "kernel_inv k" "runnable k (current k)" "\<And>q. p = Some q \<Longrightarrow> q \<noteq> RQ"
    "thread_wakeup p all k = Some (n, k')"
  shows "stays k k'"
proof (cases p)
  case None
  with assms show ?thesis by (simp add: thread_wakeup_null stays_def)
next
  case (Some q)
  show ?thesis
  proof (cases "queues k q")
    case None
    then have "thread_wakeup p all k = None"
      by (auto simp: Some thread_wakeup_def interrupts_set_def dequeue_element_from_head_def
          thread_wakeup_loop.simps)
    with assms show ?thesis by simp
  next
    case xs: (Some xs)
    note w = thread_wakeup_ok [OF assms(1) xs, of all]
    with assms Some stays_woken [OF _ assms(2) xs wake_list_subset assms(1)]
    show ?thesis by (auto simp: runnable_not_sleep)
  qed
qed

lemma stays_kill:
  assumes "kernel_inv k" "thread_kill t k = Some (r, k')"
  shows "stays k k'"
proof -
  have "current k' = current k \<and> array_of_threads k' (current k) = array_of_threads k (current k)"
  proof (cases "\<not> valid_tid t \<or> t = current k \<or> state k t = UNINITIALIZED")
    case True
    with thread_kill_invalid [OF this] assms show ?thesis by simp
  next
    case False
    show ?thesis
    proof (cases "state k t = SLEEP")
      case nosleep: False
      with False thread_kill_awake [of t k] assms show ?thesis by (auto simp: killed_def)
    next
      case True
      with False assms(2) thread_kill_fault [of t k] obtain q xs where
        "awaken_queue k t = Some q" "queues k q = Some xs" "t \<in> set xs" by fastforce
      with thread_kill_asleep [OF assms(1) _ _ True this] False assms(2) show ?thesis
        by (auto simp: killed_def)
    qed
  qed
  with thread_kill_inv [OF assms] show ?thesis by (simp add: stays_def)
qed

lemma stays_create:
  assumes "kernel_inv k" "runnable k (current k)" "thread_create fn parg ok k = Some (r, k')"
  shows "stays k k'"
proof -
  have "current k' = current k \<and> array_of_threads k' (current k) = array_of_threads k (current k)"
    using assms(2,3) thread_create_ok [OF assms(1,2), of fn parg ok] create_slot_SomeD(2) [of k]
    by (auto simp: created_def create_failed_def runnable_def free_slot_def split: option.splits if_splits)
  with thread_create_inv [OF assms] show ?thesis by (simp add: stays_def)
qed

lemma stays_lock_release:
  assumes "kernel_inv k" "runnable k (current k)" "lock_release p k = Some k'"
  shows "stays k k'"
proof -
  from assms(3) obtain l lk where l: "p = Some l" "locks k l = Some lk"
    by (auto simp: lock_release_def interrupts_set_def bind_eq_Some_conv)
  from lock_queue [OF assms(1) l(2)] obtain xs where q: "queues k (lock_wq lk) = Some xs" by blast
  with awake_not_queued [OF assms(1,2) this]
    lock_release_ok [OF assms(1) runnable_not_sleep [OF assms(2)] l(2)] l assms(3)
  show ?thesis by (auto simp: stays_def released_def)
qed

lemma stays_cv_wake:
  assumes "kernel_inv k" "runnable k (current k)" "cv_wake all p r k = Some k'"
  shows "stays k k'"
proof (cases "k' = k")
  case True
  with assms(1) show ?thesis by (simp add: stays_def)
next
  case False
  with assms(3) obtain c l lk v where cl: "p = Some c" "r = Some l" "locks k l = Some lk" "cvs k c = Some v"
    by (auto simp: cv_wake_def bind_eq_Some_conv split: if_splits)
  from cv_queue [OF assms(1) cl(4)] obtain xs where xs: "queues k (cv_wait_queue v) = Some xs" by blast
  note w = cv_wake_ok [OF assms(1) runnable_not_sleep [OF assms(2)] cl(3,4) xs, of all]
  with stays_woken [OF _ assms(2) xs wake_list_subset assms(1)] assms(1,3) cl False
  show ?thesis by (auto split: if_splits)
qed

lemma stays_new:
  assumes "kernel_inv k"
  shows "stays k (snd (wait_queue_create ow k))" "stays k (snd (lock_create k))" "stays k (snd (cv_create k))"
  using assms
  by (simp_all add: stays_def wait_queue_create_inv lock_create_inv cv_create_inv)
    (simp_all add: lock_create_eq cv_create_eq new_queue_def wait_queue_create_eq)

lemma stays_destroy:
  assumes "kernel_inv k"
  shows "user_queue k p \<Longrightarrow> wait_queue_destroy p k = Some k' \<Longrightarrow> stays k k'"
    "lock_destroy p k = Some k' \<Longrightarrow> stays k k'" "cv_destroy p k = Some k' \<Longrightarrow> stays k k'"
proof -
  show "stays k k'" if "user_queue k p" "wait_queue_destroy p k = Some k'"
    using wait_queue_destroy_inv [OF assms that] that(2)
    by (auto simp: stays_def wait_queue_destroy_def bind_eq_Some_conv)
  show "stays k k'" if "lock_destroy p k = Some k'"
    using that assms by (simp add: lock_destroy_eq stays_def split: if_splits)
  show "stays k k'" if "cv_destroy p k = Some k'"
    using cv_destroy_inv [OF assms that] that
    by (auto simp: stays_def cv_destroy_def interrupts_set_def bind_eq_Some_conv)
qed

section \<open>Functions that may switch\<close>

lemma return_to_inv:
  "kernel_inv k \<Longrightarrow> user_ok k ks \<Longrightarrow> conf_inv (return_to v ks en k)"
  by (simp add: return_to_def interrupts_set_def ctl_clean)

lemma switch_conf_inv:
  assumes inv: "kernel_inv k" and t: "t \<in> set (ready_queue k)"
    and cur: "state k (current k) \<in> {RUNNING, SLEEP, EXITED}"
    and ks: "state k (current k) \<noteq> EXITED \<Longrightarrow> clean ks"
  obtains k' where "reap k = Some k'" "kernel_inv k'" "reap_frame k k'"
    "switch_to en t ks (k\<lparr>queues := (queues k)(RQ \<mapsto> remove1 t (ready_queue k)), ints := b\<rparr>) =
      Some (Running (switched (FYield en t # ks) t b k') Resuming (context_of (array_of_threads k t)))"
    "conf_inv (Running (switched (FYield en t # ks) t b k') Resuming (context_of (array_of_threads k t)))"
proof -
  note I = kernel_invD [OF inv]
  from reap_ok [OF inv] obtain k' where k': "reap k = Some k'" "kernel_inv k'" "reap_frame k k'" by blast
  have tc: "t \<noteq> current k" "state k t = READY \<or> state k t = KILLED"
    using in_queueD(3) [OF I(1) ready_queue_eq [OF I(2)] t] by simp_all
  have fr: "current k' = current k" "ready_queue k' = ready_queue k"
    "array_of_threads k' t = array_of_threads k t" "state k' (current k) = state k (current k)"
    using k'(3) tc by (auto simp: reap_frame_def)
  have "kernel_inv (switched (FYield en t # ks) t b k')"
    by (rule switched_inv [OF k'(2)]) (use fr t cur ks in simp_all)
  moreover have "resumable (context_of (array_of_threads k t))"
    using I(5) tc(1) t by (simp add: context_inv_def)
  ultimately have "conf_inv (Running (switched (FYield en t # ks) t b k') Resuming (context_of (array_of_threads k t)))"
    using tc(1) fr by (auto simp: ctl_inv_def runnable_def switched_sel)
  with that [OF k' switch_to_eq [OF inv t k'(1)]] show thesis by blast
qed

lemma not_special_tid:
  assumes "kernel_inv k"
  shows "THREAD_ANY \<noteq> current k" "\<not> THREAD_ANY \<ge> THREAD_MAX_THREADS" "\<not> THREAD_ANY < -2" "THREAD_ANY \<noteq> THREAD_SELF"
  using kernel_invD(2) [OF assms] by (auto simp: counting_inv_def valid_tid_def thread_consts)

text \<open>
  What \<open>thread_yield\<close> does once it knows the caller is not killed: it returns, or it switches.
\<close>

lemma yield_body_switch:
  assumes inv: "kernel_inv k" and want: "want = THREAD_ANY" "ready_queue k = t # ts"
  shows "yield_body en want ks k =
    switch_to en t ks (k\<lparr>queues := (queues k)(RQ \<mapsto> remove1 t (ready_queue k)), ints := ints k\<rparr>)"
proof -
  note I = kernel_invD [OF inv]
  have q: "queues k RQ = Some (t # ts)" using ready_queue_eq [OF I(2)] want(2) by simp
  have "t \<noteq> THREAD_NONE" using in_queueD(1) [OF I(1) q, of t] not_none_tid by simp
  then show ?thesis using want not_special_tid [OF inv] dequeue_head_Cons [OF q]
    by (simp add: yield_body_def)
qed

lemma yield_body_named:
  assumes inv: "kernel_inv k" and want: "want \<in> set (ready_queue k)"
  shows "yield_body en want ks k =
    switch_to en want ks (k\<lparr>queues := (queues k)(RQ \<mapsto> remove1 want (ready_queue k)),
      ints := (ints k \<and> hd (ready_queue k) = want)\<rparr>)"
proof -
  note I = kernel_invD [OF inv]
  note q = ready_queue_eq [OF I(2)]
  note v = in_queueD(1,3) [OF I(1) q want]
  then have "want \<noteq> THREAD_INVALID" using not_none_tid by simp
  then show ?thesis using v dequeue_element_found [OF q want]
    by (auto simp: yield_body_def valid_tid_def thread_consts)
qed

lemma yield_body_stay:
  assumes inv: "kernel_inv k"
    and stay: "want = THREAD_ANY \<and> ready_queue k = [] \<or> want \<noteq> THREAD_ANY \<and> want \<notin> set (ready_queue k)"
  shows "yield_body en want ks k = Some (return_to (rv
     (if want = THREAD_ANY then THREAD_NONE
      else if want = THREAD_SELF \<or> want = current k then current k
      else THREAD_INVALID)) ks en k)"
proof (cases "want = THREAD_ANY")
  case True
  note q = ready_queue_eq [OF kernel_invD(2) [OF inv]]
  show ?thesis using True stay q not_special_tid [OF inv]
    by (simp add: yield_body_def dequeue_head_Nil)
next
  case False
  note q = ready_queue_eq [OF kernel_invD(2) [OF inv]]
  have "valid_tid (current k)" using kernel_invD(2) [OF inv] by (simp add: counting_inv_def)
  then show ?thesis using False stay dequeue_element_missing [OF q, of want]
    by (auto simp: yield_body_def valid_tid_def thread_consts)
qed

lemma yield_body_inv:
  assumes inv: "kernel_inv k" and ctl: "ctl_inv k (Calling (Yield want)) ks"
    and nk: "state k (current k) \<noteq> KILLED"
    and cf: "yield_body en want ks k = Some cf"
  shows "conf_inv cf"
proof -
  have cur: "state k (current k) \<in> {RUNNING, SLEEP, EXITED}"
    and clean: "state k (current k) \<noteq> EXITED \<Longrightarrow> clean ks"
    using ctl nk current_state_cases [OF inv] by (auto simp: ctl_inv_def)
  consider (any) t ts where "want = THREAD_ANY" "ready_queue k = t # ts"
    | (named) "want \<noteq> THREAD_ANY" "want \<in> set (ready_queue k)"
    | (stay) "want = THREAD_ANY \<and> ready_queue k = [] \<or> want \<noteq> THREAD_ANY \<and> want \<notin> set (ready_queue k)"
    by (cases "ready_queue k") auto
  then show ?thesis
  proof cases
    case any
    then have "t \<in> set (ready_queue k)" by simp
    from switch_conf_inv [OF inv this cur clean, where en = en and b = "ints k"]
      yield_body_switch [OF inv any, of en ks] cf show ?thesis by fastforce
  next
    case named
    from switch_conf_inv [OF inv named(2) cur clean, where en = en and b = "ints k \<and> hd (ready_queue k) = want"]
      yield_body_named [OF inv named(2), of en ks] cf show ?thesis by fastforce
  next
    case stay
    note r = yield_body_stay [OF inv stay, of en ks]
    show ?thesis
    proof (cases "state k (current k) = RUNNING")
      case True
      with clean have "user_ok k ks" by (simp add: user_ok_def runnable_def)
      with return_to_inv [OF inv this] r cf show ?thesis by simp
    next
      case False
      with cur ctl stay have e: "want = THREAD_ANY" "exit_pending (Calling (Yield THREAD_ANY)) ks"
        "state k (current k) = EXITED"
        by (auto simp: ctl_inv_def split: list.splits) (cases ks; simp)+
      then have "exit_pending (Returning (rv THREAD_NONE)) ks" by (cases ks) auto
      with e r cf inv show ?thesis by (auto simp: return_to_def interrupts_set_def ctl_inv_def)
    qed
  qed
qed

lemma thread_yield_inv:
  assumes "kernel_inv k" "ctl_inv k (Calling (Yield want)) ks" "thread_yield want ks k = Some cf"
  shows "conf_inv cf"
proof (cases "state k (current k) = KILLED")
  case True
  with assms show ?thesis by (auto simp: thread_yield_def interrupts_set_def ctl_inv_def)
next
  case False
  with assms yield_body_inv [of "k\<lparr>ints := False\<rparr>" want ks "ints k" cf] show ?thesis
    by (simp add: thread_yield_def interrupts_set_def)
qed

text \<open>\<open>thread_exit\<close>: the threads waiting for the caller wake up, and the caller is \<open>EXITED\<close>.\<close>

definition exited :: "int \<Rightarrow> addr \<Rightarrow> tid list \<Rightarrow> kernel \<Rightarrow> kernel" where
  "exited code q xs k = upd_tcb (current k) (\<lambda>b. b\<lparr>current_state := EXITED, exit_code := code\<rparr>)
     ((woken q xs k)\<lparr>nums_existing_threads := nums_existing_threads k + int (length xs) - 1\<rparr>)"

lemma exited_sel [simp]:
  "array_of_threads (exited code q xs k) = (array_of_threads (woken q xs k))(current k :=
     (array_of_threads (woken q xs k) (current k))\<lparr>current_state := EXITED, exit_code := code\<rparr>)"
  "current (exited code q xs k) = current k"
  "nums_existing_threads (exited code q xs k) = nums_existing_threads k + int (length xs) - 1"
  "queues (exited code q xs k) = queues (woken q xs k)"
  "owner (exited code q xs k) = owner k" "stacks (exited code q xs k) = stacks k"
  "locks (exited code q xs k) = locks k" "cvs (exited code q xs k) = cvs k"
  "brk (exited code q xs k) = brk k" "ints (exited code q xs k) = ints k"
  "ready_queue (exited code q xs k) = ready_queue k @ xs"
  by (simp_all add: exited_def ready_queue_def)

lemma thread_exit_ok:
  assumes inv: "kernel_inv k" and run: "runnable k (current k)"
    and q: "wq (array_of_threads k (current k)) = Some q" "queues k q = Some xs" "q \<noteq> RQ"
  shows "thread_exit code ks k =
      Some (Running (exited code q xs k) (Calling (Yield THREAD_ANY)) (FExit1 # ks))"
    "kernel_inv (exited code q xs k)"
proof -
  let ?k = "k\<lparr>ints := False\<rparr>" and ?c = "current k"
  have inv': "kernel_inv ?k" using inv by simp
  have cn: "?c \<notin> set xs" by (rule awake_not_queued [OF inv run q(2)])
  note w = thread_wakeup_ok [OF inv', of q xs 1]
  let ?w = "woken q xs ?k"
  have 1: "thread_wakeup (Some q) 1 ?k = Some (int (length xs), ?w)" "kernel_inv ?w"
    using w q run by (auto simp: wake_list_def runnable_not_sleep)
  have rw: "runnable ?w (current ?w)" using cn run by (simp add: runnable_def)
  have n: "nums_existing_threads ?w \<ge> 1"
    using kernel_invD(2) [OF 1(2)] rw by (simp add: counting_inv_def)
  let ?e = "upd_tcb ?c (\<lambda>b. b\<lparr>exit_code := code\<rparr>)
     ((set_state ?c EXITED ?w)\<lparr>nums_existing_threads := nums_existing_threads ?w - 1\<rparr>)"
  have 2: "kernel_inv ?e" using exit_inv [OF 1(2) rw] by (simp add: kernel_inv_upd_tcb)
  have "queues ?e q = Some []" using q by simp
  from thread_wakeup_ok [OF 2 this q(3), of 1] woken_Nil [OF this ready_queue_eq [OF kernel_invD(2) [OF 2]]]
  have 3: "thread_wakeup (Some q) 1 ?e = Some (0, ?e)" by (simp add: wake_list_def)
  have eq: "?e\<lparr>ints := ints k\<rparr> = exited code q xs k"
    by (rule kernel.equality)
      (simp_all add: exited_def upd_tcb_def set_state_def woken_def ready_queue_def cong: if_cong)
  from 2 have "kernel_inv (?e\<lparr>ints := ints k\<rparr>)" by (simp only: kernel_inv_ints)
  then show "kernel_inv (exited code q xs k)" by (simp only: eq)
  show "thread_exit code ks k =
      Some (Running (exited code q xs k) (Calling (Yield THREAD_ANY)) (FExit1 # ks))"
    using 1(1) 3 n cn q(1) eq [symmetric]
    by (simp add: thread_exit_def interrupts_set_def thread_id_def Let_def)
qed

lemma own_queue:
  assumes "kernel_inv k"
  obtains q xs where "wq (array_of_threads k (current k)) = Some q" "queues k q = Some xs" "q \<noteq> RQ"
  using thread_queue [OF assms, of "current k"] kernel_invD(2) [OF assms] that
  by (auto simp: counting_inv_def)

lemma thread_exit_inv:
  assumes inv: "kernel_inv k" and run: "runnable k (current k)" and cf: "thread_exit code ks k = Some cf"
  shows "conf_inv cf"
proof -
  from own_queue [OF inv] obtain q xs where
    q: "wq (array_of_threads k (current k)) = Some q" "queues k q = Some xs" "q \<noteq> RQ" by blast
  from thread_exit_ok(1) [OF inv run q, of code ks] thread_exit_ok(2) [OF inv run q, of code] cf
  show ?thesis by (auto simp: ctl_inv_def)
qed

text \<open>\<open>thread_sleep\<close>.\<close>

definition slept :: "addr \<Rightarrow> tid list \<Rightarrow> kernel \<Rightarrow> kernel" where
  "slept q xs k = (set_state (current k) SLEEP k)\<lparr>
     queues := (queues k)(q \<mapsto> xs @ [current k]), nums_existing_threads := nums_existing_threads k - 1\<rparr>"

lemma thread_sleep_ok:
  assumes inv: "kernel_inv k" and run: "runnable k (current k)"
    and q: "queues k q = Some xs" "q \<noteq> RQ"
  shows "thread_sleep (Some q) ks k = Some (if ready_queue k = [] then return_to (rv THREAD_NONE) ks (ints k) k
      else Running (slept q xs k) (Calling (Yield THREAD_ANY)) ks)"
proof -
  have "nums_existing_threads k = 1 \<longleftrightarrow> ready_queue k = []"
    using kernel_invD(2) [OF inv] run by (auto simp: counting_inv_def)
  moreover have "enqueue (current k) q (set_state (current k) SLEEP (k\<lparr>ints := False\<rparr>)) = Some
      ((set_state (current k) SLEEP (k\<lparr>ints := False\<rparr>))\<lparr>queues := (queues k)(q \<mapsto> xs @ [current k])\<rparr>)"
    using q by (simp add: enqueue_eq)
  ultimately show ?thesis
    by (simp add: thread_sleep_def interrupts_set_def slept_def return_to_def Let_def)
qed

lemma thread_sleep_inv:
  assumes inv: "kernel_inv k" and run: "user_ok k ks" and q: "p \<noteq> Some RQ"
    and cf: "thread_sleep p ks k = Some cf"
  shows "conf_inv cf"
proof (cases p)
  case None
  with cf inv run show ?thesis by (auto simp: thread_sleep_def interrupts_set_def return_to_inv)
next
  case (Some a)
  with q have a: "a \<noteq> RQ" by simp
  have run': "runnable k (current k)" using run by (simp add: user_ok_def)
  show ?thesis
  proof (cases "queues k a")
    case None
    with cf Some have "cf = return_to (rv THREAD_NONE) ks (ints k) (k\<lparr>ints := False\<rparr>)"
      by (auto simp: thread_sleep_def interrupts_set_def enqueue_def Let_def split: if_splits)
    with inv run show ?thesis by (simp add: return_to_inv)
  next
    case xs: (Some xs)
    have "kernel_inv (slept a xs k)"
      using sleep_inv [OF inv run' xs a] by (simp add: slept_def)
    moreover have "ready_queue (slept a xs k) = ready_queue k" using a by (simp add: slept_def ready_queue_def)
    ultimately show ?thesis
      using thread_sleep_ok [OF inv run' xs a, of ks] cf Some inv run
      by (auto simp: return_to_inv ctl_inv_def user_ok_def slept_def)
  qed
qed

text \<open>\<open>thread_wait\<close>, \<open>lock_acquire\<close>, \<open>cv_wait\<close>.\<close>

lemma stays_conf_inv: "stays k k' \<Longrightarrow> user_ok k ks \<Longrightarrow> mode_ok m \<Longrightarrow> conf_inv (Running k' m ks)"
  using stays_user_ok [of k k' ks] by (auto simp: ctl_clean stays_def)

lemma thread_wait_inv:
  assumes inv: "kernel_inv k" and run: "user_ok k ks" and cf: "thread_wait t p ks k = Some cf"
  shows "conf_inv cf"
proof (cases "\<not> valid_tid t \<or> t = current k")
  case True
  with cf inv run show ?thesis
    by (auto simp: thread_wait_def thread_id_def valid_tid_def ctl_clean)
next
  case False
  let ?b = "array_of_threads k t"
  have u1: "stays k (upd_tcb t (\<lambda>b. b\<lparr>exit_code := -1\<rparr>) k)"
    "stays k (upd_tcb (current k) (\<lambda>c. c\<lparr>waiting_on := t\<rparr>) k)"
    by (simp_all add: stays_upd_tcb inv)
  have "wq ?b \<noteq> Some RQ" if i: "current_state ?b \<noteq> UNINITIALIZED"
  proof -
    from thread_queue [OF inv _ i] False obtain q where "wq ?b = Some q" "q \<noteq> RQ" by blast
    then show ?thesis by simp
  qed
  moreover have "user_ok k (FWait t p # ks)" using run by (simp add: user_ok_def)
  ultimately show ?thesis
    using cf False inv run stays_conf_inv [OF u1(1) run] stays_conf_inv [OF u1(2)]
    by (auto simp: thread_wait_def thread_id_def valid_tid_def ctl_clean Let_def simp del: conf_inv.simps
        split: if_splits)
      (auto simp: ctl_clean)
qed

lemma wait_tail_inv:
  "kernel_inv k \<Longrightarrow> user_ok k ks \<Longrightarrow> conf_inv (wait_tail t en ks k)"
  using stays_upd_tcb [of k "\<lambda>b. b\<lparr>waiting_on := -1\<rparr>" t]
    stays_user_ok [of k "upd_tcb t (\<lambda>b. b\<lparr>waiting_on := -1\<rparr>) k" ks]
  by (simp add: wait_tail_def return_to_inv stays_def)

lemma wait_resumed_inv:
  assumes inv: "kernel_inv k" and run: "user_ok k ks"
  shows "conf_inv (wait_resumed t p ks k)"
proof -
  let ?k = "k\<lparr>ints := False\<rparr>"
  let ?f = "\<lambda>b. b\<lparr>exit_code2 := exit_code b, exit_code := -1\<rparr>"
  have "stays ?k (upd_tcb t ?f ?k)"
    by (rule stays_upd_tcb) (simp_all add: inv)
  with stays_user_ok [OF this, of ks] run have
    "conf_inv (return_to v ks en (upd_tcb t ?f ?k))"
    for v en by (simp add: return_to_inv stays_def)
  moreover have "conf_inv (wait_tail t en ks ?k)" for en using wait_tail_inv [of ?k ks] inv run by simp
  moreover have "state k (thread_id ?k) = KILLED \<Longrightarrow> ctl_inv (k\<lparr>ints := e\<rparr>) (Calling (Exit c)) (FWaitTail t en # ks)" for e c en
    by (simp add: ctl_inv_def thread_id_def)
  ultimately show ?thesis
    using inv by (simp add: wait_resumed_def interrupts_set_def Let_def)
qed

lemma lock_acquire_loop_inv:
  assumes inv: "kernel_inv k" and run: "user_ok k ks" and cf: "lock_acquire_loop l en ks k = Some cf"
  shows "conf_inv cf"
proof -
  from cf obtain lk where l: "locks k l = Some lk" by (auto simp: lock_acquire_loop_def bind_eq_Some_conv)
  have "lock_wq lk \<noteq> RQ" using lock_queue [OF inv l] by blast
  moreover have "user_ok k (FLockAcquire l en # ks)" using run by (simp add: user_ok_def)
  moreover have "kernel_inv (k\<lparr>locks := (locks k)(l \<mapsto> lk\<lparr>lock_flag := True, thread_holding_lock := current k\<rparr>)\<rparr>)"
    by (rule lock_set_inv [OF inv l]) simp
  then have "conf_inv (return_to v ks en
      (k\<lparr>locks := (locks k)(l \<mapsto> lk\<lparr>lock_flag := True, thread_holding_lock := current k\<rparr>)\<rparr>))" for v
    using run by (intro return_to_inv) (simp_all add: user_ok_def runnable_def)
  ultimately show ?thesis
    using cf l inv by (auto simp: lock_acquire_loop_def ctl_clean thread_id_def split: if_splits)
qed

lemma lock_acquire_inv:
  assumes "kernel_inv k" "user_ok k ks" "lock_acquire p ks k = Some cf"
  shows "conf_inv cf"
  using assms lock_acquire_loop_inv [of "k\<lparr>ints := False\<rparr>" ks _ "ints k" cf]
  by (auto simp: lock_acquire_def interrupts_set_def bind_eq_Some_conv)

lemma cv_wait_inv:
  assumes inv: "kernel_inv k" and run: "user_ok k ks" and cf: "cv_wait c l ks k = Some cf"
  shows "conf_inv cf"
proof -
  have "conf_inv (Running k' (Returning v) (FCvReleased a b # ks))" if "lock_release q k = Some k'" for a b q k' v
    by (rule stays_conf_inv [OF stays_lock_release [OF inv _ that]]) (use run in \<open>simp_all add: user_ok_def\<close>)
  with run inv cf show ?thesis
    by (auto simp: cv_wait_def bind_eq_Some_conv ctl_clean simp del: conf_inv.simps split: if_splits)
      (simp add: ctl_clean)
qed

section \<open>Every step keeps the invariant\<close>

lemma ctl_Calling:
  assumes "kernel_inv k" "ctl_inv k (Calling c) ks"
  obtains (user) "user_ok k ks" "mode_ok (Calling c)"
    | (exiting) "state k (current k) = KILLED" "exiting (Calling c) ks"
    | (yield) "c = Yield THREAD_ANY"
  using assms(2) current_state_cases [OF assms(1)] that
  by (cases ks) (auto simp: ctl_inv_def user_ok_def runnable_def)

lemma exiting_Calling:
  "exiting (Calling c) ks \<Longrightarrow> (\<exists>e. c = Exit e) \<or> c = Yield THREAD_ANY"
  by (cases ks) auto

lemma ctl_Returning:
  assumes "kernel_inv k" "ctl_inv k (Returning v) (f # ks)"
  obtains (user) "user_ok k (f # ks)"
    | (exited) "state k (current k) = EXITED" "exit_pending (Returning v) (f # ks)"
  using assms(2) current_state_cases [OF assms(1)] that
  by (auto simp: ctl_inv_def user_ok_def runnable_def)

lemma call_step_inv:
  assumes inv: "kernel_inv k" and ctl: "ctl_inv k (Calling c) ks" and cf: "call_step c ks k = Some cf"
  shows "conf_inv cf"
proof -
  have exit: "conf_inv cf" if "c = Exit e" "runnable k (current k)" for e
    using thread_exit_inv [OF inv that(2)] cf that(1) by simp
  have yield: "conf_inv cf" if "c = Yield t" for t
    using thread_yield_inv [OF inv] ctl cf that by simp
  from inv ctl show ?thesis
  proof (cases rule: ctl_Calling)
    case user
    then have run: "runnable k (current k)" by (simp add: user_ok_def)
    show ?thesis
      using user cf yield exit [OF _ run] thread_sleep_inv [OF inv user(1)] lock_acquire_inv [OF inv user(1)]
      by (cases c) (auto simp: mode_ok_def)
  next
    case exiting
    have run: "runnable k (current k)" using exiting(1) by (simp add: runnable_def)
    from exiting_Calling [OF exiting(2)] yield exit [OF _ run] show ?thesis by blast
  qed (rule yield)
qed

lemma user_call_inv:
  assumes inv: "kernel_inv k" and run: "user_ok k ks" and u: "user_call k c" and cf: "call_step c ks k = Some cf"
  shows "conf_inv cf"
proof -
  have run': "runnable k (current k)" using run by (simp add: user_ok_def)
  have nRQ: "q \<noteq> RQ" if "user_queue k (Some q)" for q
    using that owner_invD(1) [OF kernel_invD(3) [OF inv]] by (auto simp: user_queue_def)
  have ret: "conf_inv (Running k' (Returning v) ks)" if "stays k k'" for k' v
    by (rule stays_conf_inv [OF that run]) simp
  show ?thesis
  proof (cases c)
    case (Yield t)
    with cf thread_yield_inv [OF inv ctl_clean [OF run]] show ?thesis by simp
  next
    case (Exit e)
    with cf thread_exit_inv [OF inv run'] show ?thesis by simp
  next
    case (Sleep p)
    with cf u nRQ thread_sleep_inv [OF inv run, of p] show ?thesis by (cases p) auto
  next
    case (Wait t p)
    with cf thread_wait_inv [OF inv run] show ?thesis by simp
  next
    case (LockAcquire l)
    with cf lock_acquire_inv [OF inv run] show ?thesis by simp
  next
    case (CvWait a l)
    with cf cv_wait_inv [OF inv run] show ?thesis by simp
  next
    case (Create fn parg ok)
    with cf stays_create [OF inv run'] ret show ?thesis by (auto simp: int_result_def)
  next
    case (Kill t)
    with cf stays_kill [OF inv] ret show ?thesis by (auto simp: int_result_def)
  next
    case (Wakeup p all)
    with u nRQ have "\<And>q. p = Some q \<Longrightarrow> q \<noteq> RQ" by auto
    with Wakeup cf stays_wakeup [OF inv run', of p all] ret show ?thesis by (auto simp: int_result_def)
  next
    case WqCreate
    with cf stays_new(1) [OF inv] ret show ?thesis by (auto simp: addr_result_def)
  next
    case (WqDestroy p)
    with cf u stays_destroy(1) [OF inv, of p] ret show ?thesis by (auto simp: unit_result_def)
  next
    case LockCreate
    with cf stays_new(2) [OF inv] ret show ?thesis by (auto simp: addr_result_def)
  next
    case (LockDestroy p)
    with cf stays_destroy(2) [OF inv, of p] ret show ?thesis by (auto simp: unit_result_def)
  next
    case (LockRelease p)
    with cf stays_lock_release [OF inv run', of p] ret show ?thesis by (auto simp: unit_result_def)
  next
    case CvCreate
    with cf stays_new(3) [OF inv] ret show ?thesis by (auto simp: addr_result_def)
  next
    case (CvDestroy p)
    with cf stays_destroy(3) [OF inv, of p] ret show ?thesis by (auto simp: unit_result_def)
  next
    case (CvSignal a l)
    with cf stays_cv_wake [OF inv run', of 0 a l] ret show ?thesis by (auto simp: unit_result_def cv_signal_def)
  next
    case (CvBroadcast a l)
    with cf stays_cv_wake [OF inv run', of 1 a l] ret show ?thesis by (auto simp: unit_result_def cv_broadcast_def)
  next
    case ThreadId
    with cf ret [of k] inv show ?thesis by (auto simp: int_result_def stays_def)
  next
    case (InterruptsSet b)
    with cf ret [of "k\<lparr>ints := b\<rparr>"] inv show ?thesis by (auto simp: int_result_def interrupts_set_def stays_def)
  qed
qed

lemma return_step_inv:
  assumes inv: "kernel_inv k" and ctl: "ctl_inv k (Returning v) (f # ks)"
    and cf: "return_step v f ks k = Some cf"
  shows "conf_inv cf"
  using inv ctl
proof (cases rule: ctl_Returning)
  case user
  then have run: "user_ok k ks" "frame_ok f" "\<not> exit_frame f" by (simp_all add: user_ok_def)
  show ?thesis
  proof (cases f)
    case (FCvReleased c l)
    from cf FCvReleased obtain cv where cv: "cvs k c = Some cv" by (auto simp: bind_eq_Some_conv)
    have "cv_wait_queue cv \<noteq> RQ" using cv_queue [OF inv cv] by blast
    moreover have "user_ok k (FCvSlept l # ks)" using run by (simp add: user_ok_def)
    ultimately show ?thesis using cf FCvReleased cv inv by (auto simp: ctl_clean)
  next
    case (FHandler m)
    with run cf inv show ?thesis by (auto simp: interrupts_set_def ctl_clean)
  qed (use run cf inv wait_resumed_inv [OF inv run(1)] lock_acquire_loop_inv [OF inv run(1)] in \<open>auto simp: ctl_clean\<close>)
next
  case exited
  then show ?thesis using cf inv
    by (cases f) (auto simp: ctl_inv_def interrupts_set_def)
qed

lemma resume_step_inv:
  assumes inv: "kernel_inv k" and ctl: "ctl_inv k Resuming ks" and cf: "resume_step ks k = Some cf"
  shows "conf_inv cf"
proof -
  from ctl have run: "runnable k (current k)" and r: "resumable ks" by (simp_all add: ctl_inv_def)
  from r consider (yield) en t ks' where "ks = FYield en t # ks'" "clean ks'" | (stub) fn parg where "ks = [FStub fn parg]"
    by (auto simp: resumable_def)
  then show ?thesis
  proof cases
    case yield
    from reap_ok [OF inv] obtain k' where k': "reap k = Some k'" "kernel_inv k'" "reap_frame k k'" by blast
    then have "user_ok k' ks'" using run yield by (simp add: user_ok_def runnable_def reap_frame_def)
    with k' cf yield show ?thesis by (auto intro: return_to_inv)
  next
    case stub
    with cf inv run show ?thesis
      by (auto simp: interrupts_on_def interrupts_set_def ctl_clean user_ok_def)
  qed
qed

lemma interrupt_inv:
  assumes inv: "kernel_inv k" and ctl: "ctl_inv k m ks" and m: "m \<noteq> Resuming"
  shows "conf_inv (Running (k\<lparr>ints := False\<rparr>) (Calling (Yield THREAD_ANY)) (FHandler m # ks))"
  using inv ctl m current_state_cases [OF inv]
  by (cases ks) (auto simp: ctl_inv_def)

lemma step_inv:
  assumes "step cf cf'" "conf_inv cf"
  shows "conf_inv cf'"
  using assms
proof (induction rule: step.induct)
  case (call c ks k cf)
  then show ?case using call_step_inv by auto
next
  case (return v f ks k cf)
  then show ?case using return_step_inv by auto
next
  case (resume ks k cf)
  then show ?case using resume_step_inv by auto
next
  case (user k c ks cf v)
  then have "kernel_inv k" and ctl: "ctl_inv k (Returning v) (FUser # ks)" by auto
  from this have "user_ok k (FUser # ks)" by (cases rule: ctl_Returning) auto
  with user user_call_inv show ?case by auto
next
  case (user_return k v ks)
  then have inv: "kernel_inv k" and "ctl_inv k (Returning v) (FUser # ks)" by auto
  then have "user_ok k (FUser # ks)" by (cases rule: ctl_Returning) auto
  then have "user_ok k ks" by (simp add: user_ok_def)
  with inv show ?case by (simp add: ctl_clean)
next
  case (main_return k v c)
  then show ?case by simp
next
  case (interrupt k m ks)
  then show ?case using interrupt_inv [of k m ks] by (simp only: conf_inv.simps simp_thms)
qed

lemma start_inv: "conf_inv start"
  using booted_inv
  by (simp add: start_def thread_init_boot ctl_inv_def)
    (simp add: booted_def boot_def)

lemma reachable_inv: "reachable cf \<Longrightarrow> conf_inv cf"
  by (induction rule: reachable.induct) (auto simp: start_inv intro: step_inv)

lemma reachable_kernel_inv: "reachable (Running k m ks) \<Longrightarrow> kernel_inv k"
  by (drule reachable_inv) simp

lemma reachable_ctl_inv: "reachable (Running k m ks) \<Longrightarrow> ctl_inv k m ks"
  by (drule reachable_inv) simp

end
