(* ===== verification/Kernel_Theorems.thy ===== *)
theory Kernel_Theorems
  imports Kernel_Control
begin

text \<open>
  The properties of the thread library: the invariants of every reachable configuration, and
  what each function of the interface does in one. The configurations the witnesses use are the
  first ones of a program that creates a thread and yields to it.
\<close>

section \<open>Some reachable configurations\<close>

lemma reap_loop_id:
  "\<forall>i \<in> set js. i \<noteq> current k \<longrightarrow> state k i \<noteq> EXITED \<Longrightarrow> reap_loop js k = Some k"
  by (induction js) (auto simp: reap_one_skip)

lemma reap_id: "(\<And>i. valid_tid i \<Longrightarrow> i \<noteq> current k \<Longrightarrow> state k i \<noteq> EXITED) \<Longrightarrow> reap k = Some k"
  by (simp add: reap_def reap_loop_id)

lemma booted_sel [simp]:
  "state booted t = (if t = 0 then RUNNING else if valid_tid t then UNINITIALIZED else READY)"
  "current booted = 0" "nums_existing_threads booted = 1" "brk booted = 2" "ints booted"
  "queues booted = [RQ \<mapsto> [], 1 \<mapsto> []]" "stacks booted = {}" "ready_queue booted = []"
  "wq (array_of_threads booted 0) = Some 1" "waiting_on (array_of_threads booted 0) = -1"
  "exit_code (array_of_threads booted t) = 0" "locks booted = (\<lambda>_. None)" "cvs booted = (\<lambda>_. None)"
  by (simp_all add: booted_def boot_def zero_tcb_def ready_queue_def RQ_def)

lemma reachable_booted: "reachable (Running booted (Returning (rv 0)) [FUser])"
  using reachable.init by (simp add: start_def thread_init_boot)

lemma valid_small [simp]: "valid_tid 0" "valid_tid 1" "valid_tid 2" "\<not> valid_tid (-1)"
  by (simp_all add: valid_tid_def THREAD_MAX_THREADS_def)

lemma create_slot_booted: "create_slot booted = Some 1"
proof -
  have 1: "[1..THREAD_MAX_THREADS - 1] = 1 # [1 + 1..THREAD_MAX_THREADS - 1]"
    by (rule upto_rec1) (simp add: THREAD_MAX_THREADS_def)
  have "\<not> nums_existing_threads booted \<ge> THREAD_MAX_THREADS" by (simp add: THREAD_MAX_THREADS_def)
  then show ?thesis by (simp add: create_slot_def free_slot_def all_tids_Cons 1)
qed

text \<open>After the first \<open>thread_create\<close>: thread 1 is ready.\<close>

definition two :: kernel where "two = created 7 8 1 booted"

lemma two_sel [simp]:
  "state two t = (if t = 0 then RUNNING else if t = 1 then READY else if valid_tid t then UNINITIALIZED else READY)"
  "current two = 0" "nums_existing_threads two = 2" "brk two = 4" "ints two"
  "queues two = [RQ \<mapsto> [1], 1 \<mapsto> [], 3 \<mapsto> []]" "stacks two = {2}" "ready_queue two = [1]"
  "wq (array_of_threads two 0) = Some 1" "wq (array_of_threads two 1) = Some 3"
  "context_of (array_of_threads two 1) = [FStub 7 8]" "waiting_on (array_of_threads two 0) = -1"
  "locks two = (\<lambda>_. None)" "cvs two = (\<lambda>_. None)"
  "exit_code (array_of_threads two 1) = -1"
  by (simp_all add: two_def created_def old_stack_def ready_queue_def RQ_def fun_upd_twist)

lemma reachable_two: "reachable (Running two (Returning (rv 1)) [FUser])"
proof -
  have "thread_create 7 8 True booted = Some (1, two)"
    using thread_create_ok [OF booted_inv, of 7 8 True] create_slot_booted
    by (simp add: two_def runnable_def)
  then have "call_step (Create 7 8 True) [FUser] booted = Some (Running two (Returning (rv 1)) [FUser])"
    by (simp add: int_result_def)
  then show ?thesis
    using reachable.next_step [OF reachable_booted step.user, of "Create 7 8 True"] by simp
qed

section \<open>Invariants of every reachable configuration\<close>

lemma ready_bound:
  assumes "kernel_inv k"
  shows "length (ready_queue k) \<le> 1023"
proof -
  note I = kernel_invD [OF assms]
  note q = ready_queue_eq [OF I(2)]
  have d: "distinct (ready_queue k)" by (rule queue_distinct [OF I(1) q])
  have "set (ready_queue k) \<subseteq> {0..<1024} - {current k}"
    using in_queueD(1,3) [OF I(1) q] by (auto simp: valid_tid_def THREAD_MAX_THREADS_def)
  moreover have "current k \<in> {0..<1024}"
    using I(2) by (simp add: counting_inv_def valid_tid_def THREAD_MAX_THREADS_def)
  then have "card ({0..<1024} - {current k}) = 1023" by simp
  ultimately have "card (set (ready_queue k)) \<le> 1023"
    by (metis card_mono finite_Diff finite_atLeastLessThan_int)
  then show ?thesis using d by (simp add: distinct_card)
qed

text \<open>C18: In every reachable configuration \<open>nums_existing_threads\<close> is the length of the ready
  queue plus one when the current thread is still runnable, and lies between 0 and 1024.\<close>

theorem thread_count_exact:
  assumes "reachable (Running k m ks)"
  shows "nums_existing_threads k = int (length (ready_queue k)) +
      (if state k (current k) = RUNNING \<or> state k (current k) = KILLED then 1 else 0) \<and>
    0 \<le> nums_existing_threads k \<and> nums_existing_threads k \<le> THREAD_MAX_THREADS"
  using kernel_invD(2) [OF reachable_kernel_inv [OF assms]] ready_bound [OF reachable_kernel_inv [OF assms]]
  by (auto simp: counting_inv_def runnable_def THREAD_MAX_THREADS_def)

theorem thread_count_exact_witness:
  "nums_existing_threads two = int (length (ready_queue two)) + 1 \<and> nums_existing_threads two \<le> 1024"
  using thread_count_exact [OF reachable_two] by (simp add: THREAD_MAX_THREADS_def)

text \<open>C1: In every reachable configuration a thread is in at most one queue and at most once;
  the ready queue holds threads that are ready or killed and never the current one; a thread in
  any other queue is asleep.\<close>

theorem queue_discipline:
  assumes "reachable (Running k m ks)" "queues k q = Some xs" "t \<in> set xs"
  shows "distinct xs \<and> (\<forall>r ys. queues k r = Some ys \<and> t \<in> set ys \<longrightarrow> r = q) \<and>
    (if q = RQ then t \<noteq> current k \<and> (state k t = READY \<or> state k t = KILLED) else state k t = SLEEP)"
proof -
  note I = kernel_invD(1) [OF reachable_kernel_inv [OF assms(1)]]
  have "in_queue k q t" using assms by (auto simp: in_queue_def)
  from in_queue_unique [OF I this] have "\<forall>r ys. queues k r = Some ys \<and> t \<in> set ys \<longrightarrow> r = q"
    by (auto simp: in_queue_def)
  with queue_distinct [OF I assms(2)] in_queueD(2,3) [OF I assms(2,3)] show ?thesis by simp
qed

theorem queue_discipline_witness:
  "distinct [1::tid] \<and> (1::tid) \<noteq> current two \<and> (state two 1 = READY \<or> state two 1 = KILLED)"
  using queue_discipline [OF reachable_two, of RQ "[1]" 1] by (simp add: RQ_def)

text \<open>C3: In every reachable configuration no two threads that are current, ready, asleep or
  waiting to be reaped share a stack, and none of their stacks has been freed.\<close>

theorem stacks_never_shared_or_freed:
  assumes "reachable (Running k m ks)" "alive k t"
    and "stack_ptr (array_of_threads k t) = Some a"
  shows "a \<in> stacks k \<and> (\<forall>u. alive k u \<and> stack_ptr (array_of_threads k u) = Some a \<longrightarrow> u = t)"
  using stack_invD(2,3) [OF kernel_invD(4) [OF reachable_kernel_inv [OF assms(1)]]] assms(2,3)
  by metis

theorem stacks_never_shared_or_freed_witness: "(2::addr) \<in> stacks two"
  using stacks_never_shared_or_freed [OF reachable_two, of 1 2]
  by (simp add: alive_def two_def created_def)

text \<open>C20: The data of every reachable configuration is well-formed: the current thread and every thread in
  a queue are valid identifiers; each initialised thread, each lock and each condition variable points to
  a queue that exists, is not the ready queue and belongs to no other thread, lock or condition variable; and
  what was saved of a thread that may run later is a context that can be resumed.\<close>

theorem state_well_formed:
  assumes "reachable (Running k m ks)"
  shows "valid_tid (current k) \<and> (\<forall>q xs t. queues k q = Some xs \<and> t \<in> set xs \<longrightarrow> valid_tid t) \<and>
    (\<forall>t. valid_tid t \<and> state k t \<noteq> UNINITIALIZED \<longrightarrow>
       (\<exists>q. wq (array_of_threads k t) = Some q \<and> queues k q \<noteq> None \<and> owner k q = OwnThread t)) \<and>
    (\<forall>l lk. locks k l = Some lk \<longrightarrow> queues k (lock_wq lk) \<noteq> None \<and> owner k (lock_wq lk) = OwnLock l) \<and>
    (\<forall>c cv. cvs k c = Some cv \<longrightarrow> queues k (cv_wait_queue cv) \<noteq> None \<and> owner k (cv_wait_queue cv) = OwnCv c) \<and>
    owner k RQ = OwnReady \<and>
    (\<forall>t. t \<noteq> current k \<and> (t \<in> set (ready_queue k) \<or> state k t = SLEEP) \<longrightarrow> resumable (context_of (array_of_threads k t)))"
proof -
  note I = kernel_invD [OF reachable_kernel_inv [OF assms]]
  have "valid_tid (current k)" using I(2) by (simp add: counting_inv_def)
  moreover have "\<forall>q xs t. queues k q = Some xs \<and> t \<in> set xs \<longrightarrow> valid_tid t" using in_queueD(1) [OF I(1)] by blast
  moreover have "\<forall>t. valid_tid t \<and> state k t \<noteq> UNINITIALIZED \<longrightarrow>
      (\<exists>q. wq (array_of_threads k t) = Some q \<and> queues k q \<noteq> None \<and> owner k q = OwnThread t)"
    using I(3) unfolding owner_inv_def owns_def by blast
  moreover have "\<forall>l lk. locks k l = Some lk \<longrightarrow> queues k (lock_wq lk) \<noteq> None \<and> owner k (lock_wq lk) = OwnLock l"
    "\<forall>c cv. cvs k c = Some cv \<longrightarrow> queues k (cv_wait_queue cv) \<noteq> None \<and> owner k (cv_wait_queue cv) = OwnCv c"
    "owner k RQ = OwnReady" using I(3) unfolding owner_inv_def owns_def by blast+
  ultimately show ?thesis using I(5) unfolding context_inv_def by blast
qed

theorem state_well_formed_witness:
  "\<exists>q. wq (array_of_threads two 1) = Some q \<and> owner two q = OwnThread 1 \<and> resumable (context_of (array_of_threads two 1))"
proof -
  have r: "1 \<in> set (ready_queue two)" "1 \<noteq> current two" by simp_all
  have "valid_tid 1" "state two 1 \<noteq> UNINITIALIZED" by (simp_all add: valid_tid_def THREAD_MAX_THREADS_def)
  then obtain q where "wq (array_of_threads two 1) = Some q" "owner two q = OwnThread 1"
    using state_well_formed [OF reachable_two] by blast
  with state_well_formed [OF reachable_two] r show ?thesis by blast
qed

text \<open>\<open>thread_exit\<close> does not return: a value is only ever returned to a frame of
  \<open>thread_exit\<close>, or to the rest of a function that called it, in a thread that has exited
  and found no other thread to run; the next thing that thread does is yield again or end the
  process.\<close>

theorem thread_exit_never_returns:
  assumes "reachable (Running k (Returning v) (f # ks))"
    and "f \<in> {FExit1, FExit2} \<or> (\<exists>en t. f = FKilled en t) \<or> (\<exists>t en. f = FWaitTail t en)"
  shows "f \<in> {FExit1, FExit2} \<and> state k (current k) = EXITED \<and> r_val v = THREAD_NONE \<and>
    return_step v f ks k = Some (if f = FExit1 then Running k (Calling (Yield THREAD_ANY)) (FExit2 # ks)
      else Terminated 0)"
proof -
  have inv: "kernel_inv k" and ctl: "ctl_inv k (Returning v) (f # ks)"
    using reachable_inv [OF assms(1)] by simp_all
  from inv ctl show ?thesis
  proof (cases rule: ctl_Returning)
    case user
    with assms(2) show ?thesis by (auto simp: user_ok_def)
  next
    case exited
    with assms(2) show ?thesis by auto
  qed
qed

text \<open>Thread 0 exits while it is the only one: it is marked, and its two yields find nobody.\<close>

definition lonely :: kernel where "lonely = exited 5 1 [] booted"

lemma lonely_sel [simp]: "state lonely 0 = EXITED" "current lonely = 0" "ready_queue lonely = []"
  by (simp_all add: lonely_def)

lemma reachable_lonely: "reachable (Running lonely (Returning (rv THREAD_NONE)) [FExit1, FUser])"
proof -
  note e = thread_exit_ok [OF booted_inv, of 1 "[]" 5]
  have "thread_exit 5 [FUser] booted = Some (Running lonely (Calling (Yield THREAD_ANY)) [FExit1, FUser])"
    and inv: "kernel_inv lonely"
    using e by (simp_all add: runnable_def lonely_def RQ_def)
  then have 1: "reachable (Running lonely (Calling (Yield THREAD_ANY)) [FExit1, FUser])"
    using reachable.next_step [OF reachable_booted step.user, of "Exit 5"] by simp
  have "thread_yield THREAD_ANY [FExit1, FUser] lonely =
      Some (Running lonely (Returning (rv THREAD_NONE)) [FExit1, FUser])"
    using yield_body_stay [of "lonely\<lparr>ints := False\<rparr>" THREAD_ANY "ints lonely" "[FExit1, FUser]"] inv
    by (simp add: thread_yield_def interrupts_set_def return_to_def)
  with reachable.next_step [OF 1 step.call] show ?thesis by simp
qed

theorem thread_exit_never_returns_witness:
  "state lonely (current lonely) = EXITED \<and> return_step (rv THREAD_NONE) FExit1 [FUser] lonely =
     Some (Running lonely (Calling (Yield THREAD_ANY)) [FExit2, FUser])"
  using thread_exit_never_returns [OF reachable_lonely] by simp

section \<open>thread_yield\<close>

lemma runnable_clean:
  assumes "reachable (Running k m ks)" "state k (current k) = RUNNING"
  shows "kernel_inv k" "m \<noteq> Resuming \<Longrightarrow> clean ks"
  using reachable_inv [OF assms(1)] assms(2) by (auto simp: ctl_inv_def)

lemma yield_switches:
  assumes "kernel_inv k" "state k (current k) \<noteq> KILLED"
    and "want = THREAD_ANY \<and> ready_queue k = t # ts \<or> want \<noteq> THREAD_ANY \<and> want = t \<and> t \<in> set (ready_queue k)"
  shows "\<exists>k'. thread_yield want ks k = Some (Running k' Resuming (context_of (array_of_threads k t))) \<and>
    current k' = t \<and>
    ready_queue k' = remove1 t (ready_queue k) @ (if state k (current k) = RUNNING then [current k] else []) \<and>
    nums_existing_threads k' = nums_existing_threads k \<and>
    context_of (array_of_threads k' (current k)) = FYield (ints k) t # ks \<and>
    (\<forall>u. valid_tid u \<longrightarrow> state k' u =
      (if u = t then (if state k t = KILLED then KILLED else RUNNING)
       else if u = current k then (if state k u = RUNNING then READY else state k u)
       else if state k u = EXITED then UNINITIALIZED else state k u))"
proof -
  have inv: "kernel_inv (k\<lparr>ints := False\<rparr>)" using assms(1) by simp
  note I = kernel_invD [OF inv]
  have t: "t \<in> set (ready_queue (k\<lparr>ints := False\<rparr>))" using assms(3) by auto
  have tc: "t \<noteq> current k" "state k t = READY \<or> state k t = KILLED"
    using in_queueD(3) [OF I(1) ready_queue_eq [OF I(2)] t] by simp_all
  from reap_ok [OF inv] obtain k' where k': "reap (k\<lparr>ints := False\<rparr>) = Some k'"
    "reap_frame (k\<lparr>ints := False\<rparr>) k'"
    "\<And>i. valid_tid i \<Longrightarrow> i \<noteq> current k \<Longrightarrow> state k' i \<noteq> EXITED" by auto
  have fr: "current k' = current k" "ready_queue k' = ready_queue k"
    "nums_existing_threads k' = nums_existing_threads k"
    "\<And>u. u = current k \<or> state k u \<noteq> EXITED \<Longrightarrow> state k' u = state k u"
    "\<And>u. state k' u = state k u \<or> state k' u = UNINITIALIZED"
    using k'(2) by (auto simp: reap_frame_def)
  then have fr5: "\<And>u. state k u = EXITED \<Longrightarrow> valid_tid u \<Longrightarrow> u \<noteq> current k \<Longrightarrow> state k' u = UNINITIALIZED"
    using k'(3) by metis
  have y: "thread_yield want ks k =
      Some (Running (switched (FYield (ints k) t # ks) t False k') Resuming (context_of (array_of_threads k t)))"
    using assms(2,3) switch_to_eq [OF inv t k'(1), of "ints k" ks False]
      yield_body_switch [OF inv, of want t ts "ints k" ks] yield_body_named [OF inv, of want "ints k" ks]
    by (auto simp: thread_yield_def interrupts_set_def)
  let ?k = "switched (FYield (ints k) t # ks) t False k'"
  have "t \<noteq> current k'" using tc fr by simp
  note sel = switched_sel [OF this]
  have "state ?k u = (if u = t then (if state k t = KILLED then KILLED else RUNNING)
       else if u = current k then (if state k u = RUNNING then READY else state k u)
       else if state k u = EXITED then UNINITIALIZED else state k u)" if "valid_tid u" for u
    using that fr(1-4) fr5 tc by (auto simp: sel)
  with y fr(1-4) tc show ?thesis
    by (intro exI [of _ ?k]) (auto simp: ready_queue_switched sel)
qed

text \<open>C14: A call of \<open>thread_yield\<close> that finds a thread to run (the head of the ready queue for
  \<open>THREAD_ANY\<close>, the named thread if it is in that queue) makes it the current one and removes
  it from the queue. A caller that was running becomes ready at the back of the queue, with the
  rest of its call saved; a sleeping or exited caller stays out of it. All threads that had
  exited before are reaped, every other thread keeps its state.\<close>

theorem thread_yield_switches:
  assumes "reachable (Running k m ks)" "state k (current k) \<noteq> KILLED"
    and "want = THREAD_ANY \<and> ready_queue k = t # ts \<or> want \<noteq> THREAD_ANY \<and> want = t \<and> t \<in> set (ready_queue k)"
  shows "\<exists>k'. thread_yield want ks k = Some (Running k' Resuming (context_of (array_of_threads k t))) \<and>
    current k' = t \<and>
    ready_queue k' = remove1 t (ready_queue k) @ (if state k (current k) = RUNNING then [current k] else []) \<and>
    nums_existing_threads k' = nums_existing_threads k \<and>
    context_of (array_of_threads k' (current k)) = FYield (ints k) t # ks \<and>
    (\<forall>u. valid_tid u \<longrightarrow> state k' u =
      (if u = t then (if state k t = KILLED then KILLED else RUNNING)
       else if u = current k then (if state k u = RUNNING then READY else state k u)
       else if state k u = EXITED then UNINITIALIZED else state k u))"
  by (rule yield_switches [OF reachable_kernel_inv [OF assms(1)] assms(2,3)])

theorem thread_yield_switches_witness:
  "\<exists>k'. thread_yield THREAD_ANY [FUser] two = Some (Running k' Resuming [FStub 7 8]) \<and>
     current k' = 1 \<and> ready_queue k' = [0] \<and> state k' 0 = READY \<and> state k' 1 = RUNNING"
  using thread_yield_switches [OF reachable_two, of THREAD_ANY 1 "[]"] by fastforce

lemma yield_stays:
  assumes "kernel_inv k" "state k (current k) \<noteq> KILLED"
    and "want = THREAD_ANY \<and> ready_queue k = [] \<or> want \<noteq> THREAD_ANY \<and> want \<notin> set (ready_queue k)"
  shows "thread_yield want ks k = Some (Running k (Returning (rv
     (if want = THREAD_ANY then THREAD_NONE
      else if want = THREAD_SELF \<or> want = current k then current k
      else THREAD_INVALID))) ks)"
proof -
  have inv: "kernel_inv (k\<lparr>ints := False\<rparr>)" using assms(1) by simp
  from yield_body_stay [OF inv, of want "ints k" ks] assms(2,3) show ?thesis
    by (simp add: thread_yield_def interrupts_set_def return_to_def)
qed

text \<open>When there is nothing to switch to, \<open>thread_yield\<close> returns at once and changes
  nothing: \<open>THREAD_NONE\<close> for \<open>THREAD_ANY\<close> with an empty ready queue, the caller's own
  identifier for \<open>THREAD_SELF\<close> or that identifier, \<open>THREAD_INVALID\<close> for every other argument
  that is not in the ready queue.\<close>

theorem thread_yield_stays:
  assumes "reachable (Running k m ks)" "state k (current k) \<noteq> KILLED"
    and "want = THREAD_ANY \<and> ready_queue k = [] \<or> want \<noteq> THREAD_ANY \<and> want \<notin> set (ready_queue k)"
  shows "thread_yield want ks k = Some (Running k (Returning (rv
     (if want = THREAD_ANY then THREAD_NONE
      else if want = THREAD_SELF \<or> want = current k then current k
      else THREAD_INVALID))) ks)"
  by (rule yield_stays [OF reachable_kernel_inv [OF assms(1)] assms(2,3)])

theorem thread_yield_stays_witness:
  "thread_yield 5 [FUser] two = Some (Running two (Returning (rv THREAD_INVALID)) [FUser])"
  using thread_yield_stays [OF reachable_two, of 5] by (simp add: THREAD_ANY_def THREAD_SELF_def)

section \<open>thread_exit\<close>

text \<open>C36: \<open>thread_exit\<close> never faults in a reachable configuration with a runnable current
  thread. It marks the caller \<open>EXITED\<close> with its exit code, makes every thread waiting for it
  ready, in the order they went to sleep, empties its wait queue, and corrects the thread count;
  it then yields.\<close>

theorem thread_exit_marks_and_wakes:
  assumes "reachable (Running k m ks)" "state k (current k) \<in> {RUNNING, KILLED}"
  shows "\<exists>q xs k'. wq (array_of_threads k (current k)) = Some q \<and> queues k q = Some xs \<and>
    thread_exit code ks k = Some (Running k' (Calling (Yield THREAD_ANY)) (FExit1 # ks)) \<and>
    state k' (current k) = EXITED \<and> exit_code (array_of_threads k' (current k)) = code \<and>
    current k' = current k \<and> ints k' = ints k \<and>
    queues k' q = Some [] \<and> ready_queue k' = ready_queue k @ xs \<and> (\<forall>t \<in> set xs. state k' t = READY) \<and>
    (\<forall>t. t \<noteq> current k \<and> t \<notin> set xs \<longrightarrow> array_of_threads k' t = array_of_threads k t) \<and>
    nums_existing_threads k' = nums_existing_threads k + int (length xs) - 1"
proof -
  note inv = reachable_kernel_inv [OF assms(1)]
  have run: "runnable k (current k)" using assms(2) by (auto simp: runnable_def)
  from own_queue [OF inv] obtain q xs where
    q: "wq (array_of_threads k (current k)) = Some q" "queues k q = Some xs" "q \<noteq> RQ" by blast
  have "current k \<notin> set xs" by (rule awake_not_queued [OF inv run q(2)])
  then show ?thesis using thread_exit_ok(1) [OF inv run q, of code ks] q
    by (intro exI [of _ q] exI [of _ xs] exI [of _ "exited code q xs k"]) auto
qed

theorem thread_exit_marks_and_wakes_witness:
  "\<exists>k'. thread_exit 5 [FUser] two = Some (Running k' (Calling (Yield THREAD_ANY)) [FExit1, FUser]) \<and>
     state k' 0 = EXITED \<and> exit_code (array_of_threads k' 0) = 5 \<and> nums_existing_threads k' = 1"
  using thread_exit_marks_and_wakes [OF reachable_two, of 5] by fastforce

text \<open>A killed thread that runs does nothing more at its next \<open>thread_yield\<close>, whatever the
  argument, than \<open>thread_exit(0)\<close>; the exit code it leaves is 0, not the 9 that
  \<open>thread_kill\<close> stored.\<close>

theorem killed_thread_exits_with_zero:
  assumes "reachable (Running k m ks)" "state k (current k) = KILLED"
  shows "\<exists>k'. thread_yield want ks k = Some (Running k (Calling (Exit 0)) (FKilled (ints k) want # ks)) \<and>
    call_step (Exit 0) (FKilled (ints k) want # ks) k =
      Some (Running k' (Calling (Yield THREAD_ANY)) (FExit1 # FKilled (ints k) want # ks)) \<and>
    state k' (current k) = EXITED \<and> exit_code (array_of_threads k' (current k)) = 0"
proof -
  note inv = reachable_kernel_inv [OF assms(1)]
  have run: "runnable k (current k)" using assms(2) by (auto simp: runnable_def)
  from own_queue [OF inv] obtain q xs where
    q: "wq (array_of_threads k (current k)) = Some q" "queues k q = Some xs" "q \<noteq> RQ" by blast
  have "k\<lparr>ints := False, ints := ints k\<rparr> = k" by simp
  then show ?thesis using thread_exit_ok(1) [OF inv run q, of 0 "FKilled (ints k) want # ks"] assms(2)
    by (auto simp: thread_yield_def interrupts_set_def)
qed

text \<open>Thread 0 kills thread 1, which is ready, and yields to it.\<close>

definition two_killed :: kernel where "two_killed = killed 1 two"

lemma two_killed_sel [simp]:
  "state two_killed t = (if t = 1 then KILLED else state two t)" "current two_killed = 0"
  "ready_queue two_killed = [1]" "context_of (array_of_threads two_killed 1) = [FStub 7 8]"
  by (simp_all add: two_killed_def killed_def)

lemma reachable_two_killed: "reachable (Running two_killed (Returning (rv 1)) [FUser])"
proof -
  have "thread_kill 1 two = Some (1, two_killed)"
    using thread_kill_awake [of 1 two] by (simp add: two_killed_def)
  then have "call_step (Kill 1) [FUser] two = Some (Running two_killed (Returning (rv 1)) [FUser])"
    by (simp add: int_result_def)
  then show ?thesis using reachable.next_step [OF reachable_two step.user, of "Kill 1"] by simp
qed

lemma reachable_running_killed:
  "\<exists>k m ks. reachable (Running k m ks) \<and> current k = 1 \<and> state k (current k) = KILLED \<and>
     m = Returning (rv 0) \<and> ks = [FUser, FStubExit]"
proof -
  have inv: "kernel_inv (two_killed\<lparr>ints := False\<rparr>)" using reachable_kernel_inv [OF reachable_two_killed] by simp
  have r: "reap (two_killed\<lparr>ints := False\<rparr>) = Some (two_killed\<lparr>ints := False\<rparr>)" by (rule reap_id) auto
  let ?k = "switched [FYield (ints two_killed) 1, FUser] 1 False (two_killed\<lparr>ints := False\<rparr>)"
  have "thread_yield THREAD_ANY [FUser] two_killed = Some (Running ?k Resuming [FStub 7 8])"
    using switch_to_eq [OF inv _ r, of 1 "ints two_killed" "[FUser]" False]
      yield_body_switch [OF inv, of THREAD_ANY 1 "[]" "ints two_killed" "[FUser]"]
    by (simp add: thread_yield_def interrupts_set_def)
  then have 1: "reachable (Running ?k Resuming [FStub 7 8])"
    using reachable.next_step [OF reachable_two_killed step.user, of "Yield THREAD_ANY"] by simp
  have "reachable (Running (?k\<lparr>ints := True\<rparr>) (Returning (rv 0)) [FUser, FStubExit])"
    using reachable.next_step [OF 1 step.resume] by (simp add: interrupts_on_def interrupts_set_def)
  moreover have "state ?k 1 = KILLED" by (simp add: switched_sel)
  ultimately show ?thesis by (intro exI [of _ "?k\<lparr>ints := True\<rparr>"]) simp
qed

theorem killed_thread_exits_with_zero_witness:
  "\<exists>k k'. current k = 1 \<and> call_step (Exit 0) [FKilled (ints k) THREAD_SELF, FUser, FStubExit] k =
      Some (Running k' (Calling (Yield THREAD_ANY)) [FExit1, FKilled (ints k) THREAD_SELF, FUser, FStubExit]) \<and>
    exit_code (array_of_threads k' 1) = 0"
proof -
  from reachable_running_killed obtain k where
    "reachable (Running k (Returning (rv 0)) [FUser, FStubExit])" "current k = 1" "state k (current k) = KILLED" by auto
  with killed_thread_exits_with_zero [of k "Returning (rv 0)" "[FUser, FStubExit]" THREAD_SELF]
  show ?thesis by auto
qed

end
