(* ===== verification/Kernel_Calls.thy ===== *)
theory Kernel_Calls
  imports Kernel_Theorems
begin

text \<open>
  What the other functions of the thread interface do in a reachable configuration: creation,
  sleeping and waking, killing, waiting, the interrupt state they leave, and which calls can
  never fault.
\<close>

section \<open>thread_create\<close>

lemma create_slot_least:
  "create_slot k = Some i \<Longrightarrow> 0 \<le> j \<Longrightarrow> j < i \<Longrightarrow> \<not> free_slot k j"
proof -
  assume i: "create_slot k = Some i" and j: "0 \<le> j" "j < i"
  from i obtain n where n: "n < length all_tids" "i = all_tids ! n" "\<forall>m < n. \<not> free_slot k (all_tids ! m)"
    by (auto simp: create_slot_def find_Some_iff split: if_splits)
  have nth: "all_tids ! m = int m" if "m < length all_tids" for m
    using that by (simp add: all_tids_def nth_upto)
  from j n nth [of n] have "nat j < n" by simp
  with n nth [of "nat j"] j show "\<not> free_slot k j" by auto
qed

lemma create_slot_None:
  "create_slot k = None \<longleftrightarrow> nums_existing_threads k \<ge> THREAD_MAX_THREADS \<or> (\<forall>i. valid_tid i \<longrightarrow> \<not> free_slot k i)"
  by (simp add: create_slot_def find_None_iff)

text \<open>\<open>thread_create\<close> never faults. It takes the least slot that is uninitialized or
  exited, gives it a stack and a wait queue that nothing else has, and puts it at the back of the
  ready queue; without memory it returns \<open>THREAD_NOMEMORY\<close> and queues nothing; with no slot, or
  the counter at the maximum, it returns \<open>THREAD_NOMORE\<close> and changes nothing.\<close>

theorem thread_create_takes_least_slot:
  assumes "reachable (Running k m ks)" "state k (current k) \<in> {RUNNING, KILLED}"
  shows "\<exists>r k'. thread_create fn parg ok k = Some (r, k') \<and>
    (if nums_existing_threads k \<ge> THREAD_MAX_THREADS \<or> (\<forall>i. valid_tid i \<longrightarrow> \<not> free_slot k i)
     then r = THREAD_NOMORE \<and> k' = k
     else \<exists>i. valid_tid i \<and> free_slot k i \<and> (\<forall>j. 0 \<le> j \<and> j < i \<longrightarrow> \<not> free_slot k j) \<and>
       (\<forall>u. u \<noteq> i \<longrightarrow> array_of_threads k' u = array_of_threads k u) \<and>
       (if ok then r = i \<and> state k' i = READY \<and> ready_queue k' = ready_queue k @ [i] \<and>
            nums_existing_threads k' = nums_existing_threads k + 1 \<and>
            context_of (array_of_threads k' i) = [FStub fn parg] \<and>
            (\<exists>a w. stack_ptr (array_of_threads k' i) = Some a \<and> a \<notin> stacks k \<and> a \<in> stacks k' \<and>
               wq (array_of_threads k' i) = Some w \<and> queues k w = None \<and> queues k' w = Some [])
        else r = THREAD_NOMEMORY \<and> queues k' = queues k \<and>
            nums_existing_threads k' = nums_existing_threads k))"
proof -
  note inv = reachable_kernel_inv [OF assms(1)]
  note I = kernel_invD [OF inv]
  have run: "runnable k (current k)" using assms(2) by (auto simp: runnable_def)
  note ok = thread_create_ok [OF inv run, of fn parg ok]
  show ?thesis
  proof (cases "create_slot k")
    case None
    with ok have "thread_create fn parg ok k = Some (THREAD_NOMORE, k)" by simp
    with None show ?thesis unfolding create_slot_None by simp
  next
    case (Some i)
    then have n: "\<not> (nums_existing_threads k \<ge> THREAD_MAX_THREADS \<or> (\<forall>i. valid_tid i \<longrightarrow> \<not> free_slot k i))"
      unfolding create_slot_None [symmetric] by simp
    have fresh: "brk k \<notin> stacks k" "queues k (Suc (brk k)) = None" "Suc (brk k) \<noteq> RQ"
      using stack_invD(1) [OF I(4), of "brk k"] queue_okI [OF I(1), of "Suc (brk k)"]
      by (cases "queues k (Suc (brk k))"; auto simp: queue_ok_def RQ_def)+
    note i = create_slot_SomeD [OF Some] create_slot_least [OF Some]
    have "\<exists>a w. stack_ptr (array_of_threads (created fn parg i k) i) = Some a \<and> a \<notin> stacks k \<and>
        a \<in> stacks (created fn parg i k) \<and> wq (array_of_threads (created fn parg i k) i) = Some w \<and>
        queues k w = None \<and> queues (created fn parg i k) w = Some []"
      using fresh by (simp add: created_def)
    with ok Some i n show ?thesis
      by (intro exI [of _ "if ok then i else THREAD_NOMEMORY"]
          exI [of _ "if ok then created fn parg i k else create_failed i k"] conjI)
        (simp, (simp only: if_False, intro exI [of _ i], auto simp: created_def create_failed_def ready_queue_def))
  qed
qed

theorem thread_create_takes_least_slot_witness:
  "\<exists>k'. thread_create 5 6 True two = Some (2, k') \<and> ready_queue k' = [1, 2] \<and> nums_existing_threads k' = 3"
proof -
  have f: "free_slot two 2" "\<not> free_slot two 0" "\<not> free_slot two 1" by (simp_all add: free_slot_def)
  from thread_create_takes_least_slot [OF reachable_two, of 5 6 True] f obtain i k' where
    i: "valid_tid i" "free_slot two i" "\<forall>j. 0 \<le> j \<and> j < i \<longrightarrow> \<not> free_slot two j"
    and k': "thread_create 5 6 True two = Some (i, k')" "ready_queue k' = [1, i]" "nums_existing_threads k' = 3"
    by (auto simp: THREAD_MAX_THREADS_def split: if_splits)
  have "i \<noteq> 0" "i \<noteq> 1" "0 \<le> i" "\<not> 2 < i" using i f by (auto simp: valid_tid_def)
  then have "i = 2" by simp
  with k' show ?thesis by simp
qed

section \<open>thread_sleep and thread_wakeup\<close>

text \<open>\<open>thread_wakeup\<close> on a live wait queue moves all sleepers (\<open>all = 1\<close>) or the first
  one (any other argument) to the back of the ready queue in the order they went to sleep, makes
  them \<open>READY\<close>, returns how many they were and changes no other thread.\<close>

theorem thread_wakeup_in_order:
  assumes "reachable (Running k m ks)" "state k (current k) \<in> {RUNNING, KILLED}"
    and "queues k q = Some xs" "q \<noteq> RQ"
  shows "\<exists>k'. thread_wakeup (Some q) all k = Some (int (length (wake_list all xs)), k') \<and>
    queues k' = (queues k)(q \<mapsto> (if all = 1 then [] else drop 1 xs), RQ \<mapsto> ready_queue k @ wake_list all xs) \<and>
    nums_existing_threads k' = nums_existing_threads k + int (length (wake_list all xs)) \<and>
    (\<forall>t. array_of_threads k' t = (if t \<in> set (wake_list all xs)
       then (array_of_threads k t)\<lparr>current_state := READY\<rparr> else array_of_threads k t)) \<and>
    current k' = current k \<and> ints k' = ints k"
proof -
  note inv = reachable_kernel_inv [OF assms(1)]
  have "state k (current k) \<noteq> SLEEP" using assms(2) by auto
  from thread_wakeup_ok [OF inv assms(3,4) this, of all] assms(3) show ?thesis
    by (cases xs) (auto simp: wake_list_def)
qed

text \<open>\<open>thread_sleep\<close> on a live wait queue returns \<open>THREAD_NONE\<close> and changes nothing when
  the caller is the only thread that can run. Otherwise the caller is put at the back of the queue
  and the head of the ready queue becomes the current thread.\<close>

theorem thread_sleep_gives_way:
  assumes "reachable (Running k m ks)" "state k (current k) \<in> {RUNNING, KILLED}"
    and "queues k q = Some xs" "q \<noteq> RQ"
  shows "(case ready_queue k of
      [] \<Rightarrow> thread_sleep (Some q) ks k = Some (Running k (Returning (rv THREAD_NONE)) ks)
    | t # ts \<Rightarrow> (\<exists>k' k''. thread_sleep (Some q) ks k = Some (Running k' (Calling (Yield THREAD_ANY)) ks) \<and>
        queues k' q = Some (xs @ [current k]) \<and> nums_existing_threads k' = nums_existing_threads k - 1 \<and>
        call_step (Yield THREAD_ANY) ks k' = Some (Running k'' Resuming (context_of (array_of_threads k t))) \<and>
        current k'' = t \<and> ready_queue k'' = ts \<and> state k'' (current k) = SLEEP \<and>
        context_of (array_of_threads k'' (current k)) = FYield (ints k) t # ks))"
proof -
  note inv = reachable_kernel_inv [OF assms(1)]
  have run: "runnable k (current k)" using assms(2) by (auto simp: runnable_def)
  note ok = thread_sleep_ok [OF inv run assms(3,4), of ks]
  show ?thesis
  proof (cases "ready_queue k")
    case Nil
    with ok show ?thesis by (simp add: return_to_def interrupts_set_def)
  next
    case (Cons t ts)
    let ?k = "slept q xs k"
    have inv': "kernel_inv ?k" using sleep_inv [OF inv run assms(3,4)] by (simp add: slept_def)
    have sel: "ready_queue ?k = t # ts" "current ?k = current k" "state ?k (current k) = SLEEP"
      "ints ?k = ints k" "queues ?k q = Some (xs @ [current k])"
      "nums_existing_threads ?k = nums_existing_threads k - 1"
      using assms(4) Cons by (simp_all add: slept_def ready_queue_def)
    have tc: "t \<noteq> current k" "valid_tid (current k)"
      using in_queueD(3) [OF kernel_invD(1) [OF inv] ready_queue_eq [OF kernel_invD(2) [OF inv]], of t] Cons
        kernel_invD(2) [OF inv] by (auto simp: counting_inv_def)
    then have ctx: "context_of (array_of_threads ?k t) = context_of (array_of_threads k t)"
      by (simp add: slept_def)
    from yield_switches [OF inv', of THREAD_ANY t ts ks] sel obtain k'' where
      y: "thread_yield THREAD_ANY ks ?k = Some (Running k'' Resuming (context_of (array_of_threads k t)))"
      "current k'' = t" "ready_queue k'' = ts" "context_of (array_of_threads k'' (current k)) = FYield (ints k) t # ks"
      and st: "state k'' (current k) = SLEEP"
      using tc by (auto simp: ctx)
    then show ?thesis using ok sel Cons by auto
  qed
qed

text \<open>Thread 0 makes a wait queue and sleeps on it; thread 1 runs.\<close>

definition two_queue :: kernel where "two_queue = new_queue OwnUser two"

lemma two_queue_sel [simp]:
  "array_of_threads two_queue = array_of_threads two" "current two_queue = 0"
  "ready_queue two_queue = [1]" "queues two_queue = [RQ \<mapsto> [1], 1 \<mapsto> [], 3 \<mapsto> [], 4 \<mapsto> []]" "ints two_queue"
  by (simp_all add: two_queue_def new_queue_def ready_queue_def RQ_def)

lemma reachable_two_queue: "reachable (Running two_queue (Returning (rv 4)) [FUser])"
proof -
  have "call_step WqCreate [FUser] two = Some (Running two_queue (Returning (rv 4)) [FUser])"
    by (simp add: addr_result_def wait_queue_create_eq two_queue_def)
  then show ?thesis using reachable.next_step [OF reachable_two step.user, of WqCreate] by simp
qed

theorem thread_wakeup_in_order_witness:
  "\<exists>k'. thread_wakeup (Some 4) 1 two_queue = Some (0, k') \<and> queues k' RQ = Some [1]"
  using thread_wakeup_in_order [OF reachable_two_queue, of 4 "[]" 1] by (auto simp: RQ_def wake_list_def)

theorem thread_sleep_gives_way_witness:
  "\<exists>k' k''. thread_sleep (Some 4) [FUser] two_queue = Some (Running k' (Calling (Yield THREAD_ANY)) [FUser]) \<and>
     queues k' 4 = Some [0] \<and>
     call_step (Yield THREAD_ANY) [FUser] k' = Some (Running k'' Resuming [FStub 7 8]) \<and> current k'' = 1 \<and>
     state k'' 0 = SLEEP"
  using thread_sleep_gives_way [OF reachable_two_queue, of 4 "[]"] by (fastforce simp: RQ_def)

section \<open>thread_kill\<close>

text \<open>\<open>thread_kill\<close> refuses an invalid identifier, the caller itself and an unused slot, and
  changes nothing. Any other thread that is not asleep is marked \<open>KILLED\<close> with exit code 9 and
  stays where it is. One asleep in the wait queue of the thread it waits for is also moved from
  that queue to the back of the ready queue.\<close>

theorem thread_kill_marks:
  assumes "reachable (Running k m ks)"
  shows "(\<not> valid_tid t \<or> t = current k \<or> state k t = UNINITIALIZED \<longrightarrow>
      thread_kill t k = Some (THREAD_INVALID, k)) \<and>
    (valid_tid t \<and> t \<noteq> current k \<and> state k t \<notin> {UNINITIALIZED, SLEEP} \<longrightarrow>
      thread_kill t k = Some (t, upd_tcb t (\<lambda>b. b\<lparr>current_state := KILLED, exit_code := 9\<rparr>) k)) \<and>
    (valid_tid t \<and> t \<noteq> current k \<and> state k t = SLEEP \<and> awaken_queue k t = Some q \<and>
      queues k q = Some xs \<and> t \<in> set xs \<longrightarrow>
      (\<exists>k'. thread_kill t k = Some (t, k') \<and>
        queues k' = (queues k)(q \<mapsto> remove1 t xs, RQ \<mapsto> ready_queue k @ [t]) \<and>
        nums_existing_threads k' = nums_existing_threads k + 1 \<and> current k' = current k \<and> ints k' = ints k \<and>
        array_of_threads k' = (array_of_threads k)(t := (array_of_threads k t)\<lparr>current_state := KILLED, exit_code := 9\<rparr>)))"
proof (intro conjI impI)
  note inv = reachable_kernel_inv [OF assms]
  show "thread_kill t k = Some (THREAD_INVALID, k)" if "\<not> valid_tid t \<or> t = current k \<or> state k t = UNINITIALIZED"
    using that by (rule thread_kill_invalid)
  show "thread_kill t k = Some (t, upd_tcb t (\<lambda>b. b\<lparr>current_state := KILLED, exit_code := 9\<rparr>) k)"
    if "valid_tid t \<and> t \<noteq> current k \<and> state k t \<notin> {UNINITIALIZED, SLEEP}"
    using that thread_kill_awake [of t k] by (simp add: killed_def)
  assume a: "valid_tid t \<and> t \<noteq> current k \<and> state k t = SLEEP \<and> awaken_queue k t = Some q \<and>
      queues k q = Some xs \<and> t \<in> set xs"
  from a have "thread_kill t k = Some (t, killed t (wake KILLED t q (remove1 t xs) k))"
    by (intro thread_kill_asleep [OF inv]) simp_all
  then show "\<exists>k'. thread_kill t k = Some (t, k') \<and>
        queues k' = (queues k)(q \<mapsto> remove1 t xs, RQ \<mapsto> ready_queue k @ [t]) \<and>
        nums_existing_threads k' = nums_existing_threads k + 1 \<and> current k' = current k \<and> ints k' = ints k \<and>
        array_of_threads k' = (array_of_threads k)(t := (array_of_threads k t)\<lparr>current_state := KILLED, exit_code := 9\<rparr>)"
    by (intro exI) (auto simp: killed_def)
qed

theorem thread_kill_marks_witness:
  "\<exists>k'. thread_kill 1 two = Some (1, k') \<and> state k' 1 = KILLED \<and> exit_code (array_of_threads k' 1) = 9"
  using thread_kill_marks [OF reachable_two, of 1 0 "[]"] by auto

text \<open>Killing a thread that sleeps on a wait queue without being in \<open>thread_wait\<close> (on a
  program's own wait queue, in \<open>lock_acquire\<close> or in \<open>cv_wait\<close>) is a fault: its
  \<open>waiting_on\<close> is still -1, and \<open>thread_awaken\<close> indexes the thread array with it.\<close>

theorem killing_plain_sleeper_faults:
  assumes "reachable (Running k m ks)" "valid_tid t" "t \<noteq> current k" "state k t = SLEEP"
    and "waiting_on (array_of_threads k t) = -1"
  shows "thread_kill t k = None"
  by (rule thread_kill_fault [OF assms(2-4)]) (use assms(5) in \<open>simp add: awaken_queue_def\<close>)

lemma reachable_sleeper:
  "\<exists>k m ks. reachable (Running k m ks) \<and> current k = 1 \<and> state k 0 = SLEEP \<and>
     waiting_on (array_of_threads k 0) = -1"
proof -
  note inv = reachable_kernel_inv [OF reachable_two_queue]
  have run: "runnable two_queue (current two_queue)" by (simp add: runnable_def)
  let ?s = "slept 4 [] two_queue"
  have q: "queues two_queue 4 = Some []" "(4::addr) \<noteq> RQ" by (simp_all add: RQ_def)
  have "call_step (Sleep (Some 4)) [FUser] two_queue = Some (Running ?s (Calling (Yield THREAD_ANY)) [FUser])"
    using thread_sleep_ok [OF inv run q, of "[FUser]"] by simp
  moreover have "user_call two_queue (Sleep (Some 4))"
    by (simp add: user_queue_def two_queue_def new_queue_def)
  ultimately have 1: "reachable (Running ?s (Calling (Yield THREAD_ANY)) [FUser])"
    using reachable.next_step [OF reachable_two_queue step.user] by blast
  have inv': "kernel_inv (?s\<lparr>ints := False\<rparr>)" using reachable_kernel_inv [OF 1] by simp
  have s: "ready_queue ?s = [1]" "current ?s = 0" "state ?s t = (if t = 0 then SLEEP else state two t)" for t
    by (simp_all add: slept_def ready_queue_def two_queue_def new_queue_def RQ_def)
  have r: "reap (?s\<lparr>ints := False\<rparr>) = Some (?s\<lparr>ints := False\<rparr>)" by (rule reap_id) (auto simp: s)
  let ?k = "switched [FYield (ints ?s) 1, FUser] 1 False (?s\<lparr>ints := False\<rparr>)"
  have "thread_yield THREAD_ANY [FUser] ?s = Some (Running ?k Resuming (context_of (array_of_threads ?s 1)))"
    using switch_to_eq [OF inv' _ r, of 1 "ints ?s" "[FUser]" False] s
      yield_body_switch [OF inv', of THREAD_ANY 1 "[]" "ints ?s" "[FUser]"]
    by (simp add: thread_yield_def interrupts_set_def)
  then have "reachable (Running ?k Resuming (context_of (array_of_threads ?s 1)))"
    using reachable.next_step [OF 1 step.call] by simp
  moreover have "state ?k 0 = SLEEP" "waiting_on (array_of_threads ?k 0) = -1" "current ?k = 1"
    by (simp_all add: switched_sel s) (simp add: slept_def)
  ultimately show ?thesis by blast
qed

theorem killing_plain_sleeper_faults_witness:
  "\<exists>k m ks. reachable (Running k m ks) \<and> state k 0 = SLEEP \<and> thread_kill 0 k = None"
proof -
  from reachable_sleeper obtain k m ks where k: "reachable (Running k m ks)" "current k = 1" "state k 0 = SLEEP"
    "waiting_on (array_of_threads k 0) = -1" by blast
  with killing_plain_sleeper_faults [OF k(1), of 0] show ?thesis by auto
qed

end
