(* ===== verification/Kernel_Frames.thy ===== *)
theory Kernel_Frames
  imports Kernel_Calls
begin

text \<open>
  What the queue operations and the switch of \<open>src/threads/thread.c\<close> leave alone. They write queues, the states and contexts of threads,
  stacks, the current thread, the count of threads and the interrupt flag. A part of the kernel's state that does not
  depend on these is the same after them; this is proved once, for every such part.
\<close>

locale kernel_part =
  fixes part :: "kernel \<Rightarrow> 'a"
  assumes part_update [simp]: "part (k\<lparr>queues := Q\<rparr>) = part k" "part (k\<lparr>ints := b\<rparr>) = part k" "part (k\<lparr>current := t\<rparr>) = part k"
      "part (k\<lparr>nums_existing_threads := n\<rparr>) = part k" "part (k\<lparr>stacks := S\<rparr>) = part k"
    and part_state [simp]: "part (set_state t s k) = part k"
    and part_context [simp]: "part (upd_tcb t (\<lambda>b. b\<lparr>context_of := c\<rparr>) k) = part k"
begin

lemma part_enqueue: "enqueue t q k = Some k' \<Longrightarrow> part k' = part k"
  by (auto simp: enqueue_Some)

lemma part_dequeue_head:
  "dequeue_element_from_head q k = Some (t, k') \<Longrightarrow> part k' = part k"
  by (cases "queues k q"; cases "the (queues k q)")
    (auto simp: dequeue_element_from_head_def interrupts_set_def)

lemma part_dequeue: "dequeue_element u q k = Some (t, k') \<Longrightarrow> part k' = part k"
  by (auto simp: dequeue_element_def interrupts_set_def bind_eq_Some_conv Let_def split: if_splits)

lemma part_wakeup_loop':
  "thread_wakeup_loop q n k = Some y \<Longrightarrow> part (snd y) = part k"
proof (erule thread_wakeup_loop.raw_induct [where P = "\<lambda>q n k y. part (snd y) = part k", rotated])
  fix loop q n k y
  assume IH: "\<And>q n k y. loop q n k = Some y \<Longrightarrow> part (snd y) = part k"
    and y: "dequeue_element_from_head q k \<bind> (\<lambda>(r, k).
      if r = THREAD_NONE then Some (n, k)
      else let k = if state k r \<noteq> KILLED then set_state r READY k else k
        in enqueue r RQ k \<bind> (\<lambda>k. loop q (n + 1)
          (k\<lparr>nums_existing_threads := nums_existing_threads k + 1\<rparr>))) = Some y"
  from y obtain t k1 where d: "dequeue_element_from_head q k = Some (t, k1)"
    by (auto simp: bind_eq_Some_conv)
  show "part (snd y) = part k"
  proof (cases "t = THREAD_NONE")
    case True
    with y d part_dequeue_head [OF d] show ?thesis by auto
  next
    case False
    with y d obtain k3 where e: "enqueue t RQ (if state k1 t \<noteq> KILLED then set_state t READY k1 else k1) = Some k3"
      and l: "loop q (n + 1) (k3\<lparr>nums_existing_threads := nums_existing_threads k3 + 1\<rparr>) = Some y"
      by (auto simp: bind_eq_Some_conv Let_def)
    from IH [OF l] part_enqueue [OF e] part_dequeue_head [OF d] show ?thesis by (simp split: if_splits)
  qed
qed

lemma part_wakeup_loop:
  "thread_wakeup_loop q n k = Some (r, k') \<Longrightarrow> part k' = part k"
  using part_wakeup_loop' [of q n k "(r, k')"] by simp

lemma part_wakeup:
  assumes "thread_wakeup p all k = Some (r, k')" shows "part k' = part k"
proof (cases p)
  case None
  with assms show ?thesis by (simp add: thread_wakeup_null)
next
  case (Some q)
  let ?k = "k\<lparr>ints := False\<rparr>"
  show ?thesis
  proof (cases "all = 1")
    case True
    with assms Some show ?thesis
      by (auto simp: thread_wakeup_def interrupts_set_def bind_eq_Some_conv dest!: part_wakeup_loop)
  next
    case False
    from assms Some False obtain t k1 where d: "dequeue_element_from_head q ?k = Some (t, k1)"
      by (auto simp: thread_wakeup_def interrupts_set_def bind_eq_Some_conv)
    let ?k2 = "if state k1 t \<noteq> KILLED then set_state t READY k1 else k1"
    have "part ?k2 = part k1" by simp
    with assms Some False d part_dequeue_head [OF d] show ?thesis
      by (auto simp: thread_wakeup_def interrupts_set_def bind_eq_Some_conv enqueue_Some split: if_splits)
  qed
qed

lemma part_awaken: "thread_awaken t k = Some k' \<Longrightarrow> part k' = part k"
  by (auto simp: thread_awaken_def interrupts_set_def bind_eq_Some_conv enqueue_Some Let_def dest!: part_dequeue)

lemma part_free_stack: "free_stack p k = Some k' \<Longrightarrow> part k' = part k"
  by (auto simp: free_stack_def split: option.splits if_splits)

lemma part_reap_one: "reap_one i k = Some k' \<Longrightarrow> part k' = part k"
  by (auto simp: reap_one_def bind_eq_Some_conv wait_queue_destroy_def dest!: part_free_stack split: if_splits)

lemma part_reap_loop: "reap_loop js k = Some k' \<Longrightarrow> part k' = part k"
proof (induction js arbitrary: k)
  case (Cons i js)
  then obtain k1 where "reap_one i k = Some k1" "reap_loop js k1 = Some k'" by (auto simp: bind_eq_Some_conv)
  with Cons.IH [of k1] part_reap_one show ?case by simp
qed simp

lemma part_reap: "reap k = Some k' \<Longrightarrow> part k' = part k"
  by (simp add: reap_def part_reap_loop)

lemma part_switch_to:
  assumes "switch_to en t ks k = Some (Running k' m ks')" shows "part k' = part k"
proof -
  let ?s = "upd_tcb (current k) (\<lambda>b. b\<lparr>context_of := FYield en t # ks\<rparr>) k"
  let ?requeue = "\<lambda>k1. if state k1 (current k1) = RUNNING \<and> state k1 (current k1) \<noteq> SLEEP
    then enqueue (current k1) RQ (set_state (current k1) READY k1) else Some k1"
  from assms obtain k1 where r: "reap ?s = Some k1"
    by (auto simp: switch_to_def bind_eq_Some_conv Let_def simp del: upd_tcb_sel)
  with assms obtain k2 where e: "?requeue k1 = Some k2" and k': "part k' = part k2"
    by (auto simp: switch_to_def bind_eq_Some_conv Let_def simp del: upd_tcb_sel(1))
  have "part k2 = part k1" using e by (auto dest!: part_enqueue split: if_splits)
  with k' part_reap [OF r] show ?thesis by simp
qed

lemma part_yield_body: "yield_body en want ks k = Some (Running k' m ks') \<Longrightarrow> part k' = part k"
  by (auto simp: yield_body_def bind_eq_Some_conv return_to_def interrupts_set_def
      dest!: part_switch_to part_dequeue part_dequeue_head split: if_splits)

lemma part_yield: "thread_yield want ks k = Some (Running k' m ks') \<Longrightarrow> part k' = part k"
  by (auto simp: thread_yield_def interrupts_set_def dest!: part_yield_body split: if_splits)

lemma part_sleep: "thread_sleep p ks k = Some (Running k' m ks') \<Longrightarrow> part k' = part k"
  by (auto simp: thread_sleep_def interrupts_set_def bind_eq_Some_conv return_to_def Let_def enqueue_Some
      split: if_splits option.splits)

end

end
