(* ===== verification/Kernel_Sync.thy ===== *)
theory Kernel_Sync
  imports Kernel_Frames
begin

text \<open>
  Locks and condition variables: who holds a lock and how that changes, what releasing and
  signalling do, and the interrupt state that every function leaves behind.
\<close>

section \<open>What leaves the locks alone\<close>

named_theorems same_locks \<open>functions that change no lock\<close>

interpretation locks_part: kernel_part locks
  by unfold_locales simp_all

lemmas [same_locks] = locks_part.part_enqueue locks_part.part_dequeue locks_part.part_dequeue_head locks_part.part_wakeup_loop
  locks_part.part_wakeup locks_part.part_awaken locks_part.part_free_stack locks_part.part_reap locks_part.part_switch_to
  locks_part.part_yield_body locks_part.part_yield locks_part.part_sleep

lemma locks_kill [same_locks]: "thread_kill t k = Some (r, k') \<Longrightarrow> locks k' = locks k"
  by (auto simp: thread_kill_def interrupts_set_def bind_eq_Some_conv Let_def dest!: locks_part.part_awaken split: if_splits)

lemma locks_set_context [same_locks]: "set_context_function i a fn parg k = Some k' \<Longrightarrow> locks k' = locks k"
  by (auto simp: set_context_function_def wait_queue_create_def bind_eq_Some_conv enqueue_Some)

lemma locks_alloc [simp]: "locks (snd (alloc_stack ok k)) = locks k"
  by (simp add: alloc_stack_def)

lemma locks_new_slot:
  assumes "(case sp of None \<Rightarrow> Some (THREAD_NOMEMORY, k1)
     | Some a \<Rightarrow> set_context_function i a fn parg k1 \<bind> (\<lambda>k. Some (i, k))) = Some (r, k')"
  shows "locks k' = locks k1"
  using assms by (cases sp) (auto simp: bind_eq_Some_conv dest: locks_set_context)

lemma locks_create_one:
  assumes "thread_create_loop fn parg ok [i] k = Some (r, k')" shows "locks k' = locks k"
proof -
  let ?k1 = "upd_tcb i (\<lambda>b. b\<lparr>exit_code := -1\<rparr>) k"
  let ?k2 = "set_state i READY ?k1"
  consider (new) "state k i = UNINITIALIZED" | (old) "state k i = EXITED"
    | (other) "state k i \<noteq> UNINITIALIZED" "state k i \<noteq> EXITED" by blast
  then show ?thesis
  proof cases
    case new
    with assms locks_new_slot [where sp = "fst (alloc_stack ok ?k1)" and ?k1.0 = "snd (alloc_stack ok ?k1)"]
    show ?thesis by (simp add: Let_def case_prod_beta)
  next
    case old
    with assms obtain k3 where f: "free_stack (stack_ptr (array_of_threads ?k2 i)) ?k2 = Some k3"
      by (auto simp: bind_eq_Some_conv Let_def simp del: upd_tcb_sel set_state_sel)
    with old assms locks_part.part_free_stack [OF f]
      locks_new_slot [where sp = "fst (alloc_stack ok k3)" and ?k1.0 = "snd (alloc_stack ok k3)"]
    show ?thesis by (simp add: Let_def case_prod_beta)
  next
    case other
    with assms show ?thesis by simp
  qed
qed

lemma locks_create_loop [same_locks]:
  assumes "thread_create_loop fn parg ok js k = Some (r, k')" shows "locks k' = locks k"
proof (cases "List.find (free_slot k) js")
  case None
  with assms show ?thesis by (subst (asm) thread_create_loop_find) simp
next
  case (Some i)
  with assms have "thread_create_loop fn parg ok [i] k = Some (r, k')"
    by (subst (asm) thread_create_loop_find) (simp del: thread_create_loop.simps)
  then show ?thesis by (rule locks_create_one)
qed

lemma locks_thread_create [same_locks]: "thread_create fn parg ok k = Some (r, k') \<Longrightarrow> locks k' = locks k"
  by (auto simp: thread_create_def thread_create_helper_def interrupts_set_def bind_eq_Some_conv
      dest!: locks_create_loop split: if_splits)

lemma locks_exit [same_locks]: "thread_exit c ks k = Some (Running k' m ks') \<Longrightarrow> locks k' = locks k"
  by (auto simp: thread_exit_def interrupts_set_def bind_eq_Some_conv Let_def dest!: locks_part.part_wakeup split: if_splits)

lemma locks_wait [same_locks]: "thread_wait t p ks k = Some (Running k' m ks') \<Longrightarrow> locks k' = locks k"
  by (auto simp: thread_wait_def Let_def split: if_splits)

lemma locks_wait_tail [same_locks]: "wait_tail t en ks k = Running k' m ks' \<Longrightarrow> locks k' = locks k"
  by (auto simp: wait_tail_def return_to_def interrupts_set_def)

lemma locks_wait_resumed [same_locks]: "wait_resumed t p ks k = Running k' m ks' \<Longrightarrow> locks k' = locks k"
  by (auto simp: wait_resumed_def return_to_def interrupts_set_def Let_def dest!: locks_wait_tail split: if_splits)

lemma locks_cv_wake [same_locks]: "cv_wake all p r k = Some k' \<Longrightarrow> locks k' = locks k"
  by (auto simp: cv_wake_def bind_eq_Some_conv dest!: locks_part.part_wakeup split: if_splits)

section \<open>How a lock changes\<close>

text \<open>
  A lock that is held keeps its record until it is released; a lock that becomes held is held
  by the current thread.
\<close>

definition lock_step :: "kernel \<Rightarrow> kernel \<Rightarrow> bool" where
  "lock_step k k' \<longleftrightarrow> (\<forall>l lk. locks k l = Some lk \<longrightarrow> (\<exists>lk'. locks k' l = Some lk' \<and>
     (lock_flag lk' \<longrightarrow> (if lock_flag lk then lk' = lk else thread_holding_lock lk' = current k \<or> lk' = lk))))"

lemma lock_step_same: "locks k' = locks k \<Longrightarrow> lock_step k k'"
  by (simp add: lock_step_def)

lemma lock_step_upd:
  assumes "locks k' = (locks k)(l \<mapsto> lk')" "locks k l = Some lk"
    and "lock_flag lk' \<Longrightarrow> \<not> lock_flag lk \<and> thread_holding_lock lk' = current k"
  shows "lock_step k k'"
  unfolding lock_step_def
proof (intro allI impI)
  fix r rk assume "locks k r = Some rk"
  with assms show "\<exists>rk'. locks k' r = Some rk' \<and> (lock_flag rk' \<longrightarrow>
      (if lock_flag rk then rk' = rk else thread_holding_lock rk' = current k \<or> rk' = rk))"
    by (cases "r = l") auto
qed

lemma lock_step_release: "lock_release p k = Some k' \<Longrightarrow> lock_step k k'"
  by (auto simp: lock_release_def interrupts_set_def bind_eq_Some_conv dest!: locks_part.part_wakeup intro!: lock_step_upd)

lemma lock_step_acquire:
  assumes "lock_acquire_loop l en ks k = Some (Running k' m ks')" shows "lock_step k k'"
proof -
  from assms obtain lk where l: "locks k l = Some lk" by (auto simp: lock_acquire_loop_def bind_eq_Some_conv)
  show ?thesis
  proof (cases "lock_flag lk")
    case True
    with assms l show ?thesis by (auto simp: lock_acquire_loop_def intro: lock_step_same)
  next
    case False
    with assms l show ?thesis
      by (intro lock_step_upd [OF _ l]) (auto simp: lock_acquire_loop_def return_to_def interrupts_set_def thread_id_def)
  qed
qed

lemma lock_step_ints [simp]: "lock_step (k\<lparr>ints := b\<rparr>) k' = lock_step k k'"
  by (simp add: lock_step_def)

lemma lock_step_create:
  assumes "kernel_inv k" shows "lock_step k (snd (lock_create k))"
proof -
  have "locks k (brk k) = None"
    using owner_invD(3) [OF kernel_invD(3) [OF assms], of "brk k"] by (cases "locks k (brk k)") auto
  then show ?thesis by (auto simp: lock_step_def lock_create_eq)
qed

lemma lock_step_call:
  assumes "kernel_inv k" "call_step c ks k = Some (Running k' m ks')"
  shows "lock_step k k'"
proof (cases c)
  case (LockAcquire l)
  with assms lock_step_acquire [of _ "ints k" ks "k\<lparr>ints := False\<rparr>"] show ?thesis
    by (auto simp: lock_acquire_def interrupts_set_def bind_eq_Some_conv)
next
  case (CvWait a l)
  with assms show ?thesis
    by (auto simp: cv_wait_def bind_eq_Some_conv intro: lock_step_release lock_step_same split: if_splits)
next
  case LockCreate
  with assms lock_step_create [OF assms(1)] show ?thesis by (auto simp: addr_result_def)
next
  case (LockRelease l)
  with assms show ?thesis by (auto simp: unit_result_def intro: lock_step_release)
qed (use assms in \<open>auto simp: int_result_def unit_result_def addr_result_def wait_queue_create_def
      wait_queue_destroy_def lock_destroy_eq cv_create_eq new_queue_def cv_destroy_def cv_signal_def
      cv_broadcast_def interrupts_set_def bind_eq_Some_conv dest!: same_locks intro!: lock_step_same split: if_splits\<close>)

lemma lock_step_return:
  "return_step v f ks k = Some (Running k' m ks') \<Longrightarrow> lock_step k k'"
proof (cases f)
  case (FLockAcquire l en)
  then show "return_step v f ks k = Some (Running k' m ks') \<Longrightarrow> lock_step k k'"
    by (simp add: lock_step_acquire)
qed (auto simp: bind_eq_Some_conv interrupts_set_def dest!: same_locks intro!: lock_step_same split: if_splits)

lemma lock_step_resume: "resume_step ks k = Some (Running k' m ks') \<Longrightarrow> lock_step k k'"
  by (cases "(ks, k)" rule: resume_step.cases)
    (auto simp: bind_eq_Some_conv return_to_def interrupts_on_def interrupts_set_def dest!: same_locks intro!: lock_step_same)

text \<open>C6: Mutual exclusion: from one configuration to the next, a held lock either keeps its
  holder or becomes free; only the running thread can become the holder of a lock, and only of a
  free one.\<close>

theorem lock_holder_changes_only_through_free:
  assumes "reachable (Running k m ks)" "step (Running k m ks) (Running k' m' ks')" "locks k l = Some lk"
  shows "\<exists>lk'. locks k' l = Some lk' \<and> (lock_flag lk' \<longrightarrow>
    (if lock_flag lk then lk' = lk else thread_holding_lock lk' = current k \<or> lk' = lk))"
proof -
  note inv = reachable_kernel_inv [OF assms(1)]
  have "lock_step k k'"
    using assms(2)
    by (rule step_RunningE)
      (auto intro: lock_step_same lock_step_call [OF inv] lock_step_return lock_step_resume)
  with assms(3) show ?thesis by (auto simp: lock_step_def)
qed

text \<open>Thread 0 creates a lock.\<close>

definition with_lock :: kernel where "with_lock = snd (lock_create booted)"

lemma with_lock_sel [simp]:
  "array_of_threads with_lock = array_of_threads booted" "current with_lock = 0"
  "locks with_lock = [2 \<mapsto> \<lparr>lock_flag = False, thread_holding_lock = -1, lock_wq = 3\<rparr>]" "ints with_lock"
  "queues with_lock = [RQ \<mapsto> [], 1 \<mapsto> [], 3 \<mapsto> []]" "ready_queue with_lock = []" "cvs with_lock = (\<lambda>_. None)"
  "brk with_lock = 4" "nums_existing_threads with_lock = 1"
  by (simp_all add: with_lock_def lock_create_eq new_queue_def ready_queue_def RQ_def)

lemma reachable_with_lock: "reachable (Running with_lock (Returning (rv 2)) [FUser])"
proof -
  have "call_step LockCreate [FUser] booted = Some (Running with_lock (Returning (rv 2)) [FUser])"
    by (simp add: addr_result_def with_lock_def lock_create_eq)
  then show ?thesis using reachable.next_step [OF reachable_booted step.user, of LockCreate] by simp
qed

definition holding :: kernel where
  "holding = with_lock\<lparr>locks := [2 \<mapsto> \<lparr>lock_flag = True, thread_holding_lock = 0, lock_wq = 3\<rparr>]\<rparr>"

lemma holding_sel [simp]:
  "array_of_threads holding = array_of_threads booted" "current holding = 0"
  "locks holding = [2 \<mapsto> \<lparr>lock_flag = True, thread_holding_lock = 0, lock_wq = 3\<rparr>]" "ints holding"
  "queues holding = [RQ \<mapsto> [], 1 \<mapsto> [], 3 \<mapsto> []]" "ready_queue holding = []" "cvs holding = (\<lambda>_. None)"
  "brk holding = 4" "nums_existing_threads holding = 1"
  by (simp_all add: holding_def ready_queue_def RQ_def)

lemma step_holding:
  "step (Running with_lock (Returning (rv 2)) [FUser]) (Running holding (Returning (rv 0)) [FUser])"
proof -
  have "call_step (LockAcquire (Some 2)) [FUser] with_lock = Some (Running holding (Returning (rv 0)) [FUser])"
    by (simp add: lock_acquire_def lock_acquire_loop_def interrupts_set_def return_to_def holding_def thread_id_def)
  then show ?thesis by (intro step.user [of _ "LockAcquire (Some 2)"]) simp_all
qed

lemma reachable_holding: "reachable (Running holding (Returning (rv 0)) [FUser])"
  by (rule reachable.next_step [OF reachable_with_lock step_holding])

theorem lock_holder_changes_only_through_free_witness:
  "\<exists>lk'. locks holding 2 = Some lk' \<and> lock_flag lk' \<and> thread_holding_lock lk' = current with_lock"
  using lock_holder_changes_only_through_free [OF reachable_with_lock step_holding, of 2] by auto

text \<open>\<open>lock_release\<close> frees the lock and makes every thread waiting for it ready, first come
  first; it does so for any caller, whether it holds the lock or not, and records the caller as
  the holder.\<close>

theorem lock_release_frees_and_wakes_all:
  assumes "reachable (Running k m ks)" "state k (current k) \<in> {RUNNING, KILLED}" "locks k l = Some lk"
  shows "\<exists>xs k'. queues k (lock_wq lk) = Some xs \<and> lock_release (Some l) k = Some k' \<and>
    locks k' = (locks k)(l \<mapsto> lk\<lparr>lock_flag := False, thread_holding_lock := current k\<rparr>) \<and>
    queues k' = (queues k)(lock_wq lk \<mapsto> [], RQ \<mapsto> ready_queue k @ xs) \<and>
    (\<forall>t. state k' t = (if t \<in> set xs then READY else state k t)) \<and>
    nums_existing_threads k' = nums_existing_threads k + int (length xs) \<and> ints k' = ints k"
proof -
  note inv = reachable_kernel_inv [OF assms(1)]
  from lock_queue [OF inv assms(3)] obtain xs where q: "queues k (lock_wq lk) = Some xs" by blast
  have "state k (current k) \<noteq> SLEEP" using assms(2) by auto
  from lock_release_ok [OF inv this assms(3)] q show ?thesis
    by (intro exI [of _ xs] exI [of _ "released l lk k"]) (simp add: released_def ready_queue_def)
qed

theorem lock_release_frees_and_wakes_all_witness:
  "\<exists>k'. lock_release (Some 2) holding = Some k' \<and>
     locks k' = [2 \<mapsto> \<lparr>lock_flag = False, thread_holding_lock = 0, lock_wq = 3\<rparr>]"
  using lock_release_frees_and_wakes_all [OF reachable_holding, of 2] by fastforce

section \<open>Condition variables\<close>

text \<open>\<open>cv_signal\<close> and \<open>cv_broadcast\<close> do nothing unless the caller holds the lock. If it
  does, the first waiter, or every waiter in order, moves to the back of the ready queue.\<close>

theorem cv_wakeups_need_the_lock:
  assumes "reachable (Running k m ks)" "state k (current k) \<in> {RUNNING, KILLED}"
    and "locks k l = Some lk" "cvs k c = Some v" "queues k (cv_wait_queue v) = Some xs"
  shows "\<exists>k1 k2. cv_signal (Some c) (Some l) k = Some k1 \<and> cv_broadcast (Some c) (Some l) k = Some k2 \<and>
    (if lock_flag lk \<and> thread_holding_lock lk = current k
     then ready_queue k1 = ready_queue k @ take 1 xs \<and> queues k1 (cv_wait_queue v) = Some (drop 1 xs) \<and>
          ready_queue k2 = ready_queue k @ xs \<and> queues k2 (cv_wait_queue v) = Some [] \<and>
          locks k1 = locks k \<and> locks k2 = locks k
     else k1 = k \<and> k2 = k)"
proof -
  note inv = reachable_kernel_inv [OF assms(1)]
  have "state k (current k) \<noteq> SLEEP" using assms(2) by auto
  note w = cv_wake_ok(1) [OF inv this assms(3-5)]
  have "cv_wait_queue v \<noteq> RQ" using cv_queue [OF inv assms(4)] by blast
  with w [of 0] w [of 1] assms(5) show ?thesis
    by (cases xs) (simp_all add: cv_signal_def cv_broadcast_def holds_lock_def thread_id_def wake_list_def)
qed

text \<open>\<open>cv_wait\<close> gives up the lock before it sleeps. A caller that holds the lock returns from
  the release with the lock free, the lock's waiters ready, and itself not yet in the condition
  variable's queue: a \<open>cv_signal\<close> or \<open>cv_broadcast\<close> that another thread makes at that point
  does not wake it. A caller that does not hold the lock does not wait at all.\<close>

theorem cv_wait_releases_before_sleeping:
  assumes "reachable (Running k m ks)" "state k (current k) \<in> {RUNNING, KILLED}"
    and "locks k l = Some lk" "cvs k c = Some v" "queues k (cv_wait_queue v) = Some xs"
  shows "if lock_flag lk \<and> thread_holding_lock lk = current k
    then \<exists>k'. cv_wait (Some c) (Some l) ks k = Some (Running k' (Returning (rv 0)) (FCvReleased c l # ks)) \<and>
      (\<exists>lk'. locks k' l = Some lk' \<and> \<not> lock_flag lk') \<and> ints k' = ints k \<and>
      queues k' (cv_wait_queue v) = Some xs \<and> current k \<notin> set xs \<and>
      return_step (rv 0) (FCvReleased c l) ks k' =
        Some (Running k' (Calling (Sleep (Some (cv_wait_queue v)))) (FCvSlept l # ks))
    else cv_wait (Some c) (Some l) ks k = Some (Running k (Returning (rv 0)) ks)"
proof -
  note inv = reachable_kernel_inv [OF assms(1)]
  have s: "state k (current k) \<noteq> SLEEP" and run: "runnable k (current k)"
    using assms(2) by (auto simp: runnable_def)
  have "owner k (lock_wq lk) = OwnLock l" using lock_queue [OF inv assms(3)] by blast
  moreover have "owner k (cv_wait_queue v) = OwnCv c" "cv_wait_queue v \<noteq> RQ"
    using cv_queue [OF inv assms(4)] by blast+
  ultimately have ne: "cv_wait_queue v \<noteq> lock_wq lk" "cv_wait_queue v \<noteq> RQ" by auto
  note r = lock_release_ok [OF inv s assms(3)]
  have "current k \<notin> set xs" by (rule awake_not_queued [OF inv run assms(5)])
  with r ne assms(3-5) show ?thesis
    by (auto simp: cv_wait_def holds_lock_def thread_id_def released_def)
qed

definition with_cv :: kernel where "with_cv = snd (cv_create holding)"

lemma with_cv_sel [simp]:
  "array_of_threads with_cv = array_of_threads booted" "current with_cv = 0"
  "locks with_cv = locks holding" "ints with_cv" "cvs with_cv = [4 \<mapsto> \<lparr>cv_wait_queue = 5\<rparr>]"
  "queues with_cv = [RQ \<mapsto> [], 1 \<mapsto> [], 3 \<mapsto> [], 5 \<mapsto> []]" "ready_queue with_cv = []"
  by (simp_all add: with_cv_def cv_create_eq new_queue_def ready_queue_def RQ_def)

lemma reachable_with_cv: "reachable (Running with_cv (Returning (rv 4)) [FUser])"
proof -
  have "call_step CvCreate [FUser] holding = Some (Running with_cv (Returning (rv 4)) [FUser])"
    by (simp add: addr_result_def with_cv_def cv_create_eq)
  then show ?thesis using reachable.next_step [OF reachable_holding step.user, of CvCreate] by simp
qed

theorem cv_wakeups_need_the_lock_witness:
  "\<exists>k1. cv_signal (Some 4) (Some 2) with_cv = Some k1 \<and> ready_queue k1 = []"
  using cv_wakeups_need_the_lock [OF reachable_with_cv, of 2 _ 4 _ "[]"] by fastforce

theorem cv_wait_releases_before_sleeping_witness:
  "\<exists>k'. cv_wait (Some 4) (Some 2) [FUser] with_cv =
       Some (Running k' (Returning (rv 0)) [FCvReleased 4 2, FUser]) \<and> queues k' 5 = Some []"
  using cv_wait_releases_before_sleeping [OF reachable_with_cv, of 2 _ 4 _ "[]"] by fastforce

end
