(* ===== verification/Kernel_Wait.thy ===== *)
theory Kernel_Wait
  imports Kernel_Sync
begin

text \<open>
  \<open>thread_wait\<close> up to its sleep, the interrupt state library calls leave behind, and the stack pointer of a new thread.
\<close>

section \<open>thread_wait\<close>

text \<open>Before sleeping, \<open>thread_wait\<close> refuses an invalid identifier, the caller itself and a
  thread that was never created or has been waited for (its exit code reads -1). A thread that
  has exited is collected at once: its exit code is stored through the pointer and replaced by
  -1; with a NULL pointer that store is a fault. Otherwise the caller registers what it waits for
  and sleeps on the wait queue of the thread.\<close>

theorem thread_wait_before_sleeping:
  "thread_wait t has_ptr ks k =
    (if \<not> valid_tid t \<or> t = current k \<or>
        state k t = UNINITIALIZED \<and> (exit_code (array_of_threads k t) = -1 \<or> \<not> has_ptr)
     then Some (Running k (Returning (rv THREAD_INVALID)) ks)
     else if state k t = UNINITIALIZED \<or> state k t = EXITED
     then (if has_ptr then Some (Running (upd_tcb t (\<lambda>b. b\<lparr>exit_code := -1\<rparr>) k)
         (Returning \<lparr>r_val = t, r_out = Some (exit_code (array_of_threads k t))\<rparr>) ks) else None)
     else Some (Running (upd_tcb (current k) (\<lambda>b. b\<lparr>waiting_on := t\<rparr>) k)
         (Calling (Sleep (wq (array_of_threads k t)))) (FWait t has_ptr # ks)))"
  by (auto simp: thread_wait_def thread_id_def valid_tid_def Let_def)

theorem thread_wait_before_sleeping_witness:
  "thread_wait 0 True [FUser] two = Some (Running two (Returning (rv THREAD_INVALID)) [FUser]) \<and>
   thread_wait 1 True [FUser] two =
     Some (Running (upd_tcb 0 (\<lambda>b. b\<lparr>waiting_on := 1\<rparr>) two) (Calling (Sleep (Some 3))) [FWait 1 True, FUser])"
  using thread_wait_before_sleeping [of 0 True "[FUser]" two] thread_wait_before_sleeping [of 1 True "[FUser]" two]
  by simp

text \<open>A new thread at the head of the ready queue takes over from a thread that yields.\<close>

lemma reachable_handover:
  assumes r: "reachable (Running s (Calling (Yield THREAD_ANY)) ks)" and "ready_queue s = t # ts"
    and "state s (current s) \<noteq> KILLED" "context_of (array_of_threads s t) = [FStub a b]"
    and "\<And>u. valid_tid u \<Longrightarrow> u \<noteq> current s \<Longrightarrow> state s u \<noteq> EXITED"
  shows "reachable (Running ((switched (FYield (ints s) t # ks) t False (s\<lparr>ints := False\<rparr>))\<lparr>ints := True\<rparr>)
    (Returning (rv 0)) [FUser, FStubExit])"
proof -
  let ?s = "s\<lparr>ints := False\<rparr>"
  let ?k = "switched (FYield (ints s) t # ks) t False ?s"
  have inv: "kernel_inv ?s" using reachable_kernel_inv [OF r] by simp
  have reap: "reap ?s = Some ?s" by (rule reap_id) (use assms(5) in simp)
  have "thread_yield THREAD_ANY ks s = Some (Running ?k Resuming [FStub a b])"
    using switch_to_eq [OF inv _ reap, of t "ints s" ks False] assms(2-4)
      yield_body_switch [OF inv, of THREAD_ANY t ts "ints s" ks]
    by (simp add: thread_yield_def interrupts_set_def)
  then have "reachable (Running ?k Resuming [FStub a b])"
    using reachable.next_step [OF r step.call] by simp
  from reachable.next_step [OF this step.resume] show ?thesis
    by (simp add: interrupts_on_def interrupts_set_def)
qed

lemma reachable_waiter:
  "\<exists>k. reachable (Running k (Returning (rv 0)) [FUser, FStubExit]) \<and> current k = 1 \<and>
    state k (current k) = RUNNING \<and> wq (array_of_threads k 1) = Some 3 \<and> queues k 3 = Some [0] \<and>
    exit_code (array_of_threads k 1) = -1"
proof -
  let ?w = "upd_tcb 0 (\<lambda>b. b\<lparr>waiting_on := 1\<rparr>) two"
  have w: "call_step (Wait 1 True) [FUser] two = Some (Running ?w (Calling (Sleep (Some 3))) [FWait 1 True, FUser])"
    by (simp add: thread_wait_def thread_id_def THREAD_MAX_THREADS_def)
  then have 1: "reachable (Running ?w (Calling (Sleep (Some 3))) [FWait 1 True, FUser])"
    using reachable.next_step [OF reachable_two step.user, of "Wait 1 True"] by simp
  note inv = reachable_kernel_inv [OF 1]
  have q: "runnable ?w (current ?w)" "queues ?w 3 = Some []" "(3::addr) \<noteq> RQ"
    by (simp_all add: runnable_def RQ_def)
  let ?s = "slept 3 [] ?w"
  from thread_sleep_ok [OF inv q, of "[FWait 1 True, FUser]"]
  have "call_step (Sleep (Some 3)) [FWait 1 True, FUser] ?w =
      Some (Running ?s (Calling (Yield THREAD_ANY)) [FWait 1 True, FUser])" by simp
  then have 2: "reachable (Running ?s (Calling (Yield THREAD_ANY)) [FWait 1 True, FUser])"
    by (rule reachable.next_step [OF 1 step.call])
  have s: "ready_queue ?s = [1]" "current ?s = 0" "context_of (array_of_threads ?s 1) = [FStub 7 8]"
    "state ?s t = (if t = 0 then SLEEP else state two t)" for t
    by (simp_all add: slept_def ready_queue_def RQ_def)
  have "state ?s u \<noteq> EXITED" for u unfolding s by simp
  note h = reachable_handover [OF 2 s(1) _ s(3) this]
  let ?k = "(switched (FYield (ints ?s) 1 # [FWait 1 True, FUser]) 1 False (?s\<lparr>ints := False\<rparr>))\<lparr>ints := True\<rparr>"
  have k: "reachable (Running ?k (Returning (rv 0)) [FUser, FStubExit])"
    by (rule h) (simp add: s)
  have "state ?k 1 = RUNNING" "wq (array_of_threads ?k 1) = Some 3" "queues ?k 3 = Some [0]" "current ?k = 1"
    by (simp_all add: switched_sel s, simp_all add: slept_def RQ_def)
  moreover have "exit_code (array_of_threads ?k 1) = -1"
    by (simp add: switched_sel s) (simp add: slept_def)
  ultimately show ?thesis using k by (intro exI [of _ ?k]) simp
qed

section \<open>Interrupts\<close>

lemma ints_thread_create:
  "thread_create fn parg ok k = Some (r, k') \<Longrightarrow> ints k' = ints k"
  by (auto simp: thread_create_def interrupts_set_def bind_eq_Some_conv split: if_splits)

lemma ints_wakeup: "thread_wakeup p all k = Some (r, k') \<Longrightarrow> ints k' = ints k"
  by (auto simp: thread_wakeup_def interrupts_set_def bind_eq_Some_conv Let_def split: option.splits if_splits)

lemma ints_kill: "thread_kill t k = Some (r, k') \<Longrightarrow> ints k' = ints k"
  by (auto simp: thread_kill_def interrupts_set_def bind_eq_Some_conv Let_def split: if_splits)

lemma ints_release: "lock_release p k = Some k' \<Longrightarrow> ints k' = ints k"
  by (auto simp: lock_release_def interrupts_set_def bind_eq_Some_conv)

lemma ints_cv_wake: "cv_wake all c l k = Some k' \<Longrightarrow> ints k' = ints k"
  by (auto simp: cv_wake_def bind_eq_Some_conv dest: ints_wakeup split: if_splits)

lemma ints_return_to: "return_to v ks en k = Running k' m ks' \<Longrightarrow> ints k' = en"
  by (auto simp: return_to_def interrupts_set_def)

lemma switch_to_resumes: "switch_to en t ks k = Some (Running k' m ks') \<Longrightarrow> m = Resuming"
  by (auto simp: switch_to_def bind_eq_Some_conv Let_def)

lemma ints_yield: "thread_yield want ks k = Some (Running k' (Returning v) ks') \<Longrightarrow> ints k' = ints k"
  by (auto simp: thread_yield_def yield_body_def interrupts_set_def bind_eq_Some_conv
      dest: ints_return_to switch_to_resumes split: if_splits)

text \<open>A library call that returns to its caller without a switch leaves interrupts as it found
  them, on every path including the error returns.\<close>

theorem calls_restore_interrupts:
  assumes "call_step c ks k = Some (Running k' (Returning v) ks')" "\<forall>b. c \<noteq> InterruptsSet b"
  shows "ints k' = ints k"
proof (cases c)
  case (Sleep p)
  with assms show ?thesis
    by (auto simp: thread_sleep_def interrupts_set_def bind_eq_Some_conv Let_def dest: ints_return_to
        split: option.splits if_splits)
next
  case (LockAcquire l)
  with assms show ?thesis
    by (auto simp: lock_acquire_def lock_acquire_loop_def interrupts_set_def bind_eq_Some_conv Let_def
        dest: ints_return_to split: if_splits)
next
  case (Exit e)
  with assms show ?thesis
    by (auto simp: thread_exit_def interrupts_set_def bind_eq_Some_conv Let_def split: if_splits)
next
  case (InterruptsSet b)
  with assms(2) show ?thesis by blast
qed (use assms in \<open>auto simp: thread_wait_def cv_wait_def int_result_def unit_result_def addr_result_def
      wait_queue_create_def wait_queue_destroy_def lock_create_eq lock_destroy_eq cv_create_eq new_queue_def
      cv_destroy_def cv_signal_def cv_broadcast_def interrupts_set_def bind_eq_Some_conv Let_def
      dest: ints_thread_create ints_kill ints_wakeup ints_release ints_cv_wake ints_yield split: if_splits\<close>)

theorem calls_restore_interrupts_witness:
  "ints (snd (lock_create booted)) = ints booted"
  using calls_restore_interrupts [of LockCreate "[]" booted "snd (lock_create booted)" "rv 2" "[]"]
  by (simp add: addr_result_def lock_create_eq)

text \<open>The exception is inside the library: \<open>dequeue_element\<close>, called with interrupts enabled
  for a thread that is in the queue but not at its head, returns with interrupts disabled.\<close>

theorem dequeue_behind_head_disables_interrupts:
  assumes "queues k q = Some (h # xs)" "t \<in> set xs" "t \<noteq> h" "ints k"
  shows "\<exists>k'. dequeue_element t q k = Some (t, k') \<and> queues k' q = Some (h # remove1 t xs) \<and> \<not> ints k'"
  using dequeue_element_found [OF assms(1), of t] assms by auto

theorem dequeue_behind_head_disables_interrupts_witness:
  "\<exists>k'. dequeue_element 6 RQ (booted\<lparr>queues := [RQ \<mapsto> [4, 6]]\<rparr>) = Some (6, k') \<and> \<not> ints k'"
  using dequeue_behind_head_disables_interrupts [of "booted\<lparr>queues := [RQ \<mapsto> [4, 6]]\<rparr>" RQ 4 "[6]" 6]
  by (auto simp: booted_def boot_def)

section \<open>The stack of a new thread\<close>

text \<open>For every 64-bit stack address that \<open>malloc\<close> can return, the initial stack pointer is 8
  below a multiple of 16, as at the entry of a function, and lies inside the allocated stack.\<close>

theorem initial_sp_aligned:
  assumes "unat base + 32768 < 2 ^ 64"
  shows "unat (initial_sp base) mod 16 = 8 \<and>
    unat base + 32744 < unat (initial_sp base) + 1 \<and> unat (initial_sp base) + 8 \<le> unat base + 32768"
proof -
  have top: "unat (base + 32768) = unat base + 32768"
    using assms by (subst unat_add_lem [THEN iffD1]) simp_all
  let ?r = "(unat base + 32768) mod 16"
  have m: "unat ((base + 32768) mod 16) = ?r" by (simp add: unat_mod_distrib top)
  have "unat (base + 32768 - (base + 32768) mod 16) = unat base + 32768 - ?r"
    by (subst unat_sub) (simp_all add: m top word_le_nat_alt)
  then have s: "unat (initial_sp base) = unat base + 32768 - ?r - 8"
    unfolding initial_sp_def Let_def by (subst unat_sub) (simp_all add: word_le_nat_alt)
  obtain n r where nr: "?r = r" "unat base + 32768 = 16 * n + r" "r < 16"
    using that [of ?r "(unat base + 32768) div 16"] by simp
  from s nr have sp: "unat (initial_sp base) = 16 * (n - 1) + 8" "unat (initial_sp base) + 8 + r = unat base + 32768"
    by simp_all
  from sp(1) have "unat (initial_sp base) mod 16 = 8" by simp
  with sp(2) nr(3) show ?thesis by simp
qed

theorem initial_sp_aligned_witness: "unat (initial_sp 100) mod 16 = 8"
  using initial_sp_aligned [of 100] by simp

end
