(* ===== verification/Kernel_Fair.thy ===== *)
theory Kernel_Fair
  imports Kernel_Theorems
begin

text \<open>
  Fairness of the scheduler of \<open>src/threads/thread.c\<close>. A step of the machine either leaves the
  current thread as it is and puts threads at the end of the ready queue, or it is the switch of
  \<open>thread_yield\<close>, which takes the next thread out of the queue, from wherever it stands. So a thread
  in the ready queue is never overtaken, and each \<open>thread_yield(THREAD_ANY)\<close> that switches, which is what the
  timer's handler calls, brings it one place forward.
\<close>

section \<open>What a step does to the ready queue\<close>

definition appends :: "kernel \<Rightarrow> kernel \<Rightarrow> bool" where
  "appends k k' \<longleftrightarrow> current k' = current k \<and> (\<exists>ys. ready_queue k' = ready_queue k @ ys)"

fun advances :: "kernel \<Rightarrow> conf \<Rightarrow> bool" where
  "advances k (Running k' m ks) \<longleftrightarrow> appends k k' \<or>
     m = Resuming \<and> current k' \<in> set (ready_queue k) \<and>
     (\<exists>ys. ready_queue k' = remove1 (current k') (ready_queue k) @ ys)"
| "advances k (Terminated c) \<longleftrightarrow> True"

lemma appends_same: "current k' = current k \<Longrightarrow> ready_queue k' = ready_queue k @ ys \<Longrightarrow> appends k k'"
  by (auto simp: appends_def)

lemma appends_eq: "current k' = current k \<Longrightarrow> ready_queue k' = ready_queue k \<Longrightarrow> appends k k'"
  by (auto simp: appends_def)

lemma appends_refl [simp]: "appends k k" "appends k (k\<lparr>ints := b\<rparr>)" "appends k (upd_tcb t f k)"
  by (simp_all add: appends_eq)

lemma appends_ints [simp]: "appends k (k'\<lparr>ints := b\<rparr>) = appends k k'" "appends (k\<lparr>ints := b\<rparr>) k' = appends k k'"
  "advances (k\<lparr>ints := b\<rparr>) cf = advances k cf"
  by (simp_all add: appends_def) (cases cf; simp add: appends_def)

lemma advances_return [simp]: "advances k (return_to v ks en k') = advances k (Running k' (Returning v) ks)"
  by (simp add: return_to_def interrupts_set_def)

lemma ready_queue_woken: "ready_queue (woken q xs k) = ready_queue k @ xs"
  by (simp add: woken_def ready_queue_def)

lemma appends_woken [simp]: "appends k (woken q xs k)"
  by (rule appends_same) (simp_all add: ready_queue_woken)

lemma appends_wakeup:
  assumes "kernel_inv k" "runnable k (current k)" "\<And>q. p = Some q \<Longrightarrow> q \<noteq> RQ"
    "thread_wakeup p all k = Some (n, k')"
  shows "appends k k'"
proof (cases p)
  case None
  with assms show ?thesis by (simp add: thread_wakeup_null)
next
  case (Some q)
  show ?thesis
  proof (cases "queues k q")
    case None
    then have "thread_wakeup p all k = None"
      by (auto simp: Some thread_wakeup_def interrupts_set_def dequeue_element_from_head_def
          thread_wakeup_loop.simps)
    with assms show ?thesis by simp
  next
    case xs: (Some xs)
    from thread_wakeup_ok [OF assms(1) xs, of all] assms Some show ?thesis
      by (auto simp: runnable_not_sleep)
  qed
qed

lemma appends_kill:
  assumes "kernel_inv k" "thread_kill t k = Some (r, k')"
  shows "appends k k'"
proof (cases "\<not> valid_tid t \<or> t = current k \<or> state k t = UNINITIALIZED")
  case True
  with thread_kill_invalid [OF this] assms show ?thesis by simp
next
  case False
  show ?thesis
  proof (cases "state k t = SLEEP")
    case nosleep: False
    with False thread_kill_awake [of t k] assms show ?thesis by (auto simp: killed_def)
  next
    case True
    with False assms(2) thread_kill_fault [of t k] obtain q xs where
      "awaken_queue k t = Some q" "queues k q = Some xs" "t \<in> set xs" by fastforce
    with thread_kill_asleep [OF assms(1) _ _ True this] False assms(2) show ?thesis
      by (auto simp: killed_def intro: appends_same)
  qed
qed

lemma appends_create:
  assumes "kernel_inv k" "runnable k (current k)" "thread_create fn parg ok k = Some (r, k')"
  shows "appends k k'"
  using assms(3) thread_create_ok [OF assms(1,2), of fn parg ok] RQ_brk [OF assms(1)]
  by (auto simp: created_def create_failed_def ready_queue_def appends_def split: option.splits if_splits)

lemma appends_lock_release:
  assumes "kernel_inv k" "runnable k (current k)" "lock_release p k = Some k'"
  shows "appends k k'"
proof -
  from assms(3) obtain l lk where l: "p = Some l" "locks k l = Some lk"
    by (auto simp: lock_release_def interrupts_set_def bind_eq_Some_conv)
  with lock_release_ok [OF assms(1) runnable_not_sleep [OF assms(2)] l(2)] assms(3)
  show ?thesis by (auto simp: released_def ready_queue_woken appends_def ready_queue_def)
qed

lemma appends_cv_wake:
  assumes "kernel_inv k" "runnable k (current k)" "cv_wake all p r k = Some k'"
  shows "appends k k'"
proof (cases "k' = k")
  case True
  then show ?thesis by simp
next
  case False
  with assms(3) obtain c l lk v where cl: "p = Some c" "r = Some l" "locks k l = Some lk" "cvs k c = Some v"
    by (auto simp: cv_wake_def bind_eq_Some_conv split: if_splits)
  from cv_queue [OF assms(1) cl(4)] obtain xs where xs: "queues k (cv_wait_queue v) = Some xs" by blast
  from cv_wake_ok [OF assms(1) runnable_not_sleep [OF assms(2)] cl(3,4) xs, of all] assms(3) cl False
  show ?thesis by (auto split: if_splits)
qed

lemma appends_new:
  assumes "kernel_inv k"
  shows "appends k (snd (wait_queue_create ow k))" "appends k (snd (lock_create k))" "appends k (snd (cv_create k))"
  using RQ_brk [OF assms]
  by (simp_all add: lock_create_eq cv_create_eq new_queue_def wait_queue_create_eq appends_def ready_queue_def)

lemma appends_destroy:
  assumes "kernel_inv k"
  shows "user_queue k p \<Longrightarrow> wait_queue_destroy p k = Some k' \<Longrightarrow> appends k k'"
    "lock_destroy p k = Some k' \<Longrightarrow> appends k k'" "cv_destroy p k = Some k' \<Longrightarrow> appends k k'"
proof -
  have "owner k RQ = OwnReady" by (rule owner_invD(1) [OF kernel_invD(3) [OF assms]])
  then show "appends k k'" if "user_queue k p" "wait_queue_destroy p k = Some k'"
    using that by (auto simp: user_queue_def wait_queue_destroy_def bind_eq_Some_conv appends_def ready_queue_def)
  show "appends k k'" if "lock_destroy p k = Some k'"
    using that by (simp add: lock_destroy_eq split: if_splits)
  show "appends k k'" if d: "cv_destroy p k = Some k'"
  proof -
    from d obtain c v where cv: "p = Some c" "cvs k c = Some v"
      by (auto simp: cv_destroy_def interrupts_set_def bind_eq_Some_conv)
    from cv_queue [OF assms cv(2)] have "cv_wait_queue v \<noteq> RQ" by blast
    with d cv show ?thesis
      by (auto simp: cv_destroy_def interrupts_set_def bind_eq_Some_conv appends_def ready_queue_def)
  qed
qed

section \<open>The functions that may switch\<close>

lemma switch_advances:
  assumes inv: "kernel_inv k" and t: "t \<in> set (ready_queue k)"
    and k': "reap_frame k k'"
  shows "advances k (Running (switched ks t b k') Resuming cs)"
  using k' t by (simp add: ready_queue_switched reap_frame_def)

lemma yield_body_advances:
  assumes inv: "kernel_inv k" and ctl: "ctl_inv k (Calling (Yield want)) ks"
    and nk: "state k (current k) \<noteq> KILLED"
    and cf: "yield_body en want ks k = Some cf"
  shows "advances k cf \<and> (want = THREAD_ANY \<longrightarrow> (\<exists>k' m ks'. cf = Running k' m ks' \<and>
    (m = Resuming \<longrightarrow> current k' = hd (ready_queue k))))"
proof -
  have cur: "state k (current k) \<in> {RUNNING, SLEEP, EXITED}"
    and clean: "state k (current k) \<noteq> EXITED \<Longrightarrow> clean ks"
    using ctl nk current_state_cases [OF inv] by (auto simp: ctl_inv_def)
  consider (any) t ts where "want = THREAD_ANY" "ready_queue k = t # ts"
    | (named) "want \<noteq> THREAD_ANY" "want \<in> set (ready_queue k)"
    | (stay) "want = THREAD_ANY \<and> ready_queue k = [] \<or> want \<noteq> THREAD_ANY \<and> want \<notin> set (ready_queue k)"
    by (cases "ready_queue k") auto
  then show ?thesis
  proof cases
    case any
    then have t: "t \<in> set (ready_queue k)" by simp
    from switch_conf_inv [OF inv t cur clean, where en = en and b = "ints k"] obtain k' where
      "reap_frame k k'" "switch_to en t ks (k\<lparr>queues := (queues k)(RQ \<mapsto> remove1 t (ready_queue k)), ints := ints k\<rparr>) =
      Some (Running (switched (FYield en t # ks) t (ints k) k') Resuming (context_of (array_of_threads k t)))"
      by blast
    with yield_body_switch [OF inv any, of en ks] cf switch_advances [OF inv t] any show ?thesis
      by (auto simp del: advances.simps)
  next
    case named
    let ?b = "ints k \<and> hd (ready_queue k) = want"
    from switch_conf_inv [OF inv named(2) cur clean, where en = en and b = ?b] obtain k' where
      "reap_frame k k'" "switch_to en want ks (k\<lparr>queues := (queues k)(RQ \<mapsto> remove1 want (ready_queue k)), ints := ?b\<rparr>) =
      Some (Running (switched (FYield en want # ks) want ?b k') Resuming (context_of (array_of_threads k want)))"
      by blast
    with yield_body_named [OF inv named(2), of en ks] cf switch_advances [OF inv named(2)] named show ?thesis
      by (auto simp del: advances.simps)
  next
    case stay
    from yield_body_stay [OF inv stay, of en ks] cf show ?thesis
      by (auto simp: return_to_def interrupts_set_def)
  qed
qed

lemma thread_yield_advances:
  assumes inv: "kernel_inv k" and ctl: "ctl_inv k (Calling (Yield want)) ks"
    and cf: "thread_yield want ks k = Some cf"
  shows "advances k cf \<and> (want = THREAD_ANY \<longrightarrow> (\<exists>k' m ks'. cf = Running k' m ks' \<and>
    (m = Resuming \<longrightarrow> current k' = hd (ready_queue k))))"
proof (cases "state k (current k) = KILLED")
  case True
  with cf show ?thesis by (auto simp: thread_yield_def interrupts_set_def)
next
  case False
  with assms yield_body_advances [of "k\<lparr>ints := False\<rparr>" want ks "ints k" cf] show ?thesis
    by (simp add: thread_yield_def interrupts_set_def)
qed

lemma thread_exit_advances:
  assumes "kernel_inv k" "runnable k (current k)" "thread_exit code ks k = Some cf"
  shows "advances k cf"
proof -
  from own_queue [OF assms(1)] obtain q xs where
    q: "wq (array_of_threads k (current k)) = Some q" "queues k q = Some xs" "q \<noteq> RQ" by blast
  from thread_exit_ok(1) [OF assms(1,2) q, of code ks] assms(3) show ?thesis by (auto simp: appends_def)
qed

lemma thread_sleep_advances:
  assumes inv: "kernel_inv k" and run: "runnable k (current k)" and q: "p \<noteq> Some RQ"
    and cf: "thread_sleep p ks k = Some cf"
  shows "advances k cf"
proof (cases p)
  case None
  with cf show ?thesis by (auto simp: thread_sleep_def interrupts_set_def)
next
  case (Some a)
  with q have a: "a \<noteq> RQ" by simp
  show ?thesis
  proof (cases "queues k a")
    case None
    with cf Some show ?thesis
      by (auto simp: thread_sleep_def interrupts_set_def enqueue_def Let_def split: if_splits)
  next
    case xs: (Some xs)
    have "appends k (slept a xs k)" using a by (simp add: appends_eq slept_def ready_queue_def)
    with thread_sleep_ok [OF inv run xs a, of ks] cf Some show ?thesis by auto
  qed
qed

lemma thread_wait_advances: "thread_wait t p ks k = Some cf \<Longrightarrow> advances k cf"
  by (auto simp: thread_wait_def Let_def split: if_splits)

lemma wait_resumed_advances: "advances k (wait_resumed t p ks k)"
  by (simp add: wait_resumed_def wait_tail_def interrupts_set_def Let_def appends_eq)

lemma lock_acquire_loop_advances: "lock_acquire_loop l en ks k = Some cf \<Longrightarrow> advances k cf"
  by (auto simp: lock_acquire_loop_def bind_eq_Some_conv appends_def ready_queue_def split: if_splits)

lemma lock_acquire_advances: "lock_acquire p ks k = Some cf \<Longrightarrow> advances k cf"
  using lock_acquire_loop_advances [of _ "ints k" ks "k\<lparr>ints := False\<rparr>" cf]
  by (auto simp: lock_acquire_def interrupts_set_def bind_eq_Some_conv)

lemma cv_wait_advances:
  assumes "kernel_inv k" "runnable k (current k)" "cv_wait c l ks k = Some cf"
  shows "advances k cf"
  using assms(3) appends_lock_release [OF assms(1,2)]
  by (auto simp: cv_wait_def bind_eq_Some_conv split: if_splits)

section \<open>Every step\<close>

lemma results_advance:
  assumes "\<And>v k'. r = Some (v, k') \<Longrightarrow> appends k k'"
  shows "int_result ks r = Some cf \<Longrightarrow> advances k cf"
  using assms by (auto simp: int_result_def)

lemma unit_result_advances:
  assumes "\<And>k'. r = Some k' \<Longrightarrow> appends k k'"
  shows "unit_result ks r = Some cf \<Longrightarrow> advances k cf"
  using assms by (auto simp: unit_result_def)

lemma user_call_advances:
  assumes inv: "kernel_inv k" and run: "user_ok k ks" and u: "user_call k c \<or> mode_ok (Calling c)"
    and nq: "\<And>p all. c = Wakeup p all \<Longrightarrow> user_call k c" "\<And>p. c = WqDestroy p \<Longrightarrow> user_call k c"
    and cf: "call_step c ks k = Some cf"
  shows "advances k cf"
proof -
  have run': "runnable k (current k)" using run by (simp add: user_ok_def)
  have nRQ: "q \<noteq> RQ" if "user_queue k (Some q)" for q
    using that owner_invD(1) [OF kernel_invD(3) [OF inv]] by (auto simp: user_queue_def)
  show ?thesis
  proof (cases c)
    case (Yield t)
    with cf thread_yield_advances [OF inv ctl_clean [OF run]] show ?thesis by simp
  next
    case (Exit e)
    with cf thread_exit_advances [OF inv run'] show ?thesis by simp
  next
    case (Sleep p)
    then have "p \<noteq> Some RQ" using u nRQ by auto
    from thread_sleep_advances [OF inv run' this] cf Sleep show ?thesis by auto
  next
    case (Wait t p)
    with cf thread_wait_advances show ?thesis by simp
  next
    case (LockAcquire l)
    with cf lock_acquire_advances show ?thesis by simp
  next
    case (CvWait a l)
    with cf cv_wait_advances [OF inv run'] show ?thesis by simp
  next
    case (Create fn parg ok)
    with cf results_advance [OF appends_create [OF inv run']] show ?thesis by simp
  next
    case (Kill t)
    with cf appends_kill [OF inv] show ?thesis by (auto intro: results_advance)
  next
    case (Wakeup p all)
    with nq(1) nRQ have "\<And>q. p = Some q \<Longrightarrow> q \<noteq> RQ" by auto
    with Wakeup cf appends_wakeup [OF inv run', of p all] show ?thesis by (auto intro: results_advance)
  next
    case WqCreate
    with cf appends_new(1) [OF inv] show ?thesis by (auto simp: addr_result_def)
  next
    case (WqDestroy p)
    with cf nq(2) appends_destroy(1) [OF inv, of p] show ?thesis by (auto intro: unit_result_advances)
  next
    case LockCreate
    with cf appends_new(2) [OF inv] show ?thesis by (auto simp: addr_result_def)
  next
    case (LockDestroy p)
    with cf appends_destroy(2) [OF inv, of p] show ?thesis by (auto intro: unit_result_advances)
  next
    case (LockRelease p)
    with cf appends_lock_release [OF inv run', of p] show ?thesis by (auto intro: unit_result_advances)
  next
    case CvCreate
    with cf appends_new(3) [OF inv] show ?thesis by (auto simp: addr_result_def)
  next
    case (CvDestroy p)
    with cf appends_destroy(3) [OF inv, of p] show ?thesis by (auto intro: unit_result_advances)
  next
    case (CvSignal a l)
    with cf appends_cv_wake [OF inv run', of 0 a l] show ?thesis by (auto simp: cv_signal_def intro: unit_result_advances)
  next
    case (CvBroadcast a l)
    with cf appends_cv_wake [OF inv run', of 1 a l] show ?thesis by (auto simp: cv_broadcast_def intro: unit_result_advances)
  next
    case ThreadId
    with cf show ?thesis by (auto simp: int_result_def)
  next
    case (InterruptsSet b)
    with cf show ?thesis by (auto simp: int_result_def interrupts_set_def)
  qed
qed

lemma call_step_advances:
  assumes inv: "kernel_inv k" and ctl: "ctl_inv k (Calling c) ks" and cf: "call_step c ks k = Some cf"
  shows "advances k cf"
proof -
  have exit: "advances k cf" if "c = Exit e" "runnable k (current k)" for e
    using thread_exit_advances [OF inv that(2)] cf that(1) by simp
  have yield: "advances k cf" if "c = Yield t" for t
    using thread_yield_advances [OF inv] ctl cf that by simp
  from inv ctl show ?thesis
  proof (cases rule: ctl_Calling)
    case user
    have "c \<noteq> Wakeup p all" "c \<noteq> WqDestroy p" for p all using user(2) by (auto simp: mode_ok_def)
    with user_call_advances [OF inv user(1) disjI2 [OF user(2)] _ _ cf] show ?thesis by blast
  next
    case exiting
    have run: "runnable k (current k)" using exiting(1) by (simp add: runnable_def)
    from exiting_Calling [OF exiting(2)] yield exit [OF _ run] show ?thesis by blast
  qed (rule yield)
qed

lemma return_step_advances:
  assumes inv: "kernel_inv k" and ctl: "ctl_inv k (Returning v) (f # ks)"
    and cf: "return_step v f ks k = Some cf"
  shows "advances k cf"
  using inv ctl
proof (cases rule: ctl_Returning)
  case user
  then have "frame_ok f" "\<not> exit_frame f" by (simp_all add: user_ok_def)
  with cf wait_resumed_advances lock_acquire_loop_advances show ?thesis
    by (cases f) (auto simp: bind_eq_Some_conv interrupts_set_def)
next
  case exited
  then show ?thesis using cf by (cases f) (auto simp: interrupts_set_def)
qed

lemma resume_step_advances:
  assumes inv: "kernel_inv k" and cf: "resume_step ks k = Some cf"
  shows "advances k cf"
proof (cases ks)
  case (Cons f ks')
  from reap_ok [OF inv] obtain k' where "reap k = Some k'" "reap_frame k k'" by blast
  with cf Cons show ?thesis
    by (cases f) (auto simp: interrupts_on_def interrupts_set_def reap_frame_def appends_def)
qed (use cf in simp)

lemma step_advances:
  assumes "step (Running k m ks) cf" "conf_inv (Running k m ks)"
  shows "advances k cf"
proof -
  from assms(2) have inv: "kernel_inv k" and ctl: "ctl_inv k m ks" by simp_all
  from assms(1) show ?thesis
  proof (cases rule: step.cases)
    case (call c)
    with call_step_advances [OF inv] ctl show ?thesis by simp
  next
    case (return v f ks')
    with return_step_advances [OF inv] ctl show ?thesis by simp
  next
    case resume
    with resume_step_advances [OF inv] show ?thesis by simp
  next
    case (user c ks' v)
    then have "user_ok k (FUser # ks')" using inv ctl by (auto elim: ctl_Returning)
    show ?thesis by (rule user_call_advances [OF inv \<open>user_ok k (FUser # ks')\<close>, of c]) (use user in simp_all)
  qed auto
qed

section \<open>No thread starves\<close>

text \<open>A turn: a switch to the first thread of the ready queue, as \<open>thread_yield(THREAD_ANY)\<close> makes it.\<close>

fun turn :: "conf \<Rightarrow> conf \<Rightarrow> bool" where
  "turn (Running k m ks) (Running k' Resuming ks') \<longleftrightarrow> ready_queue k \<noteq> [] \<and> current k' = hd (ready_queue k)"
| "turn _ _ \<longleftrightarrow> False"

text \<open>A call of \<open>thread_yield(THREAD_ANY)\<close> by a thread that is not killed, from start to end: by the handler of the timer, by another
  function of the library, or by the program. The second configuration is the one that the call gives, whatever that is.\<close>

fun any_call :: "conf \<Rightarrow> conf \<Rightarrow> bool" where
  "any_call (Running k (Calling (Yield want)) ks) cf \<longleftrightarrow>
     want = THREAD_ANY \<and> state k (current k) \<noteq> KILLED \<and> thread_yield THREAD_ANY ks k = Some cf"
| "any_call (Running k (Returning v) (FUser # ks)) cf \<longleftrightarrow>
     state k (current k) \<noteq> KILLED \<and> thread_yield THREAD_ANY (FUser # ks) k = Some cf"
| "any_call _ _ \<longleftrightarrow> False"

fun any_calls :: "conf list \<Rightarrow> nat" where
  "any_calls (a # b # cs) = of_bool (any_call a b) + any_calls (b # cs)"
| "any_calls _ = 0"

fun execution :: "conf list \<Rightarrow> bool" where
  "execution (a # b # cs) \<longleftrightarrow> step a b \<and> execution (b # cs)"
| "execution _ \<longleftrightarrow> True"

fun runs :: "tid \<Rightarrow> conf \<Rightarrow> bool" where
  "runs t (Running k m ks) \<longleftrightarrow> current k = t"
| "runs t (Terminated c) \<longleftrightarrow> False"

text \<open>The threads that stand before \<open>t\<close> in the ready queue.\<close>

definition ahead :: "tid \<Rightarrow> kernel \<Rightarrow> tid list" where
  "ahead t k = takeWhile (\<lambda>u. u \<noteq> t) (ready_queue k)"

text \<open>The place that \<open>t\<close> still has in a configuration: in the queue, with at most \<open>n\<close> threads ahead.\<close>

fun waits_within :: "tid \<Rightarrow> nat \<Rightarrow> conf \<Rightarrow> bool" where
  "waits_within t n (Running k m ks) \<longleftrightarrow> t \<in> set (ready_queue k) \<and> length (ahead t k) \<le> n"
| "waits_within t n (Terminated c) \<longleftrightarrow> True"

lemma takeWhile_append_in: "t \<in> set xs \<Longrightarrow> takeWhile (\<lambda>u. u \<noteq> t) (xs @ ys) = takeWhile (\<lambda>u. u \<noteq> t) xs"
  by (induction xs) auto

lemma takeWhile_remove1:
  "u \<noteq> t \<Longrightarrow> length (takeWhile (\<lambda>u. u \<noteq> t) (remove1 u xs)) \<le> length (takeWhile (\<lambda>u. u \<noteq> t) xs)"
  by (induction xs) auto

lemma turn_head: "turn (Running k m ks) (Running k' m' ks') \<Longrightarrow> current k' = hd (ready_queue k)"
  by (cases m') auto

text \<open>Every \<open>thread_yield(THREAD_ANY)\<close> of a thread that is not killed is a turn, when a thread is ready.\<close>

lemma yield_any_turn:
  assumes "kernel_inv k" "state k (current k) \<noteq> KILLED" "ready_queue k \<noteq> []"
  obtains cf where "thread_yield THREAD_ANY ks k = Some cf" "turn (Running k m ks) cf"
  using yield_switches [OF assms(1,2), of THREAD_ANY "hd (ready_queue k)" "tl (ready_queue k)" ks] assms(3) that
  by fastforce

lemma any_call_turn:
  assumes "any_call (Running k m ks) cf" "kernel_inv k" "ready_queue k \<noteq> []"
  shows "turn (Running k m ks) cf"
proof -
  from assms(1) have y: "state k (current k) \<noteq> KILLED" "thread_yield THREAD_ANY ks k = Some cf"
    by (cases "(Running k m ks, cf)" rule: any_call.cases; auto)+
  from yield_any_turn [OF assms(2) y(1) assms(3), of ks m] obtain cf' where
    "thread_yield THREAD_ANY ks k = Some cf'" "turn (Running k m ks) cf'" by blast
  with y(2) show ?thesis by simp
qed

lemma current_not_ready: "kernel_inv k \<Longrightarrow> current k \<notin> set (ready_queue k)"
  using in_queueD(3) [OF kernel_invD(1) ready_queue_eq [OF kernel_invD(2)], of k "current k"] by auto

lemma step_waits:
  assumes st: "step (Running k m ks) cf" and inv: "conf_inv (Running k m ks)"
    and t: "t \<in> set (ready_queue k)" and nr: "\<not> runs t cf"
  shows "\<exists>n. waits_within t n cf \<and> n + of_bool (turn (Running k m ks) cf) \<le> length (ahead t k)"
proof (cases cf)
  case (Terminated c)
  then show ?thesis by (intro exI [of _ 0]) simp
next
  case (Running k' m' ks')
  with step_advances [OF st inv] have "advances k (Running k' m' ks')" by simp
  then consider (same) ys where "current k' = current k" "ready_queue k' = ready_queue k @ ys"
    | (switch) ys where "m' = Resuming" "current k' \<in> set (ready_queue k)"
        "ready_queue k' = remove1 (current k') (ready_queue k) @ ys"
    by (auto simp: appends_def)
  then show ?thesis
  proof cases
    case same
    have "hd (ready_queue k) \<noteq> current k"
      using current_not_ready [of k] inv t by (cases "ready_queue k") auto
    with turn_head [of k m ks k' m' ks'] same Running have "\<not> turn (Running k m ks) cf" by auto
    with same t Running show ?thesis
      by (intro exI [of _ "length (ahead t k)"]) (simp add: ahead_def takeWhile_append_in)
  next
    case switch
    have u: "current k' \<noteq> t" using nr Running by simp
    with t have t': "t \<in> set (remove1 (current k') (ready_queue k))" by simp
    have eq: "ahead t k' = takeWhile (\<lambda>u. u \<noteq> t) (remove1 (current k') (ready_queue k))"
      using switch(3) t' by (simp add: ahead_def takeWhile_append_in)
    have "length (ahead t k') + of_bool (turn (Running k m ks) cf) \<le> length (ahead t k)"
    proof (cases "turn (Running k m ks) cf")
      case True
      then have "current k' = hd (ready_queue k)" using turn_head Running by simp
      with t u eq show ?thesis by (cases "ready_queue k") (auto simp: ahead_def)
    next
      case False
      with takeWhile_remove1 [OF u, of "ready_queue k"] eq show ?thesis by (simp add: ahead_def)
    qed
    with switch t' Running show ?thesis by (intro exI [of _ "length (ahead t k')"]) simp
  qed
qed

lemma execution_waits:
  assumes "conf_inv c" "waits_within t n c" "execution (c # cs)" "\<forall>d \<in> set cs. \<not> runs t d"
  shows "\<exists>n'. waits_within t n' (last (c # cs)) \<and> n' + any_calls (c # cs) \<le> n"
  using assms
proof (induction cs arbitrary: c n)
  case Nil
  then show ?case by auto
next
  case (Cons d cs)
  then have st: "step c d" by simp
  then obtain k m ks where c: "c = Running k m ks" by (cases c) (auto elim: step_TerminatedE)
  with step_waits [of k m ks d t] st Cons.prems obtain i where
    i: "waits_within t i d" "i + of_bool (turn c d) \<le> n" by auto
  have "of_bool (any_call c d) \<le> (of_bool (turn c d) :: nat)"
  proof (cases "any_call c d")
    case True
    have "kernel_inv k" "ready_queue k \<noteq> []" using Cons.prems(1,2) c by auto
    with any_call_turn [of k m ks d] True c show ?thesis by simp
  qed simp
  with i(2) have i2: "i + of_bool (any_call c d) \<le> n" by linarith
  from Cons.IH [OF step_inv [OF st Cons.prems(1)] i(1)] Cons.prems obtain n' where
    "waits_within t n' (last (d # cs))" "n' + any_calls (d # cs) \<le> i" by auto
  with i2 show ?case by (intro exI [of _ n']) auto
qed

lemma takeWhile_less: "t \<in> set xs \<Longrightarrow> length (takeWhile (\<lambda>u. u \<noteq> t) xs) < length xs"
  by (induction xs) auto

lemma ahead_less: "t \<in> set (ready_queue k) \<Longrightarrow> length (ahead t k) < length (ready_queue k)"
  by (simp add: ahead_def takeWhile_less)

text \<open>C19: A ready thread is never overtaken by the calls of \<open>thread_yield(THREAD_ANY)\<close>, which the timer's handler, \<open>thread_sleep\<close> and
  \<open>thread_exit\<close> make and the program may make. However the program and the timer continue from a reachable configuration, a
  thread in the ready queue stays in it until it runs, and before it runs at most as many of these calls by threads that are not
  killed are completed as there are threads ahead of it, at most 1022; each of them brings it forward by one place. A
  \<open>thread_yield\<close> to a named thread is not counted: it may pass over waiting threads, but never moves one back.\<close>

theorem no_starvation:
  assumes "reachable (Running k m ks)" "t \<in> set (ready_queue k)"
    and "execution (Running k m ks # cs)" "\<forall>c \<in> set cs. \<not> runs t c"
  shows "any_calls (Running k m ks # cs) \<le> length (ahead t k) \<and> length (ahead t k) \<le> 1022 \<and>
    waits_within t (length (ahead t k) - any_calls (Running k m ks # cs)) (last (Running k m ks # cs))"
proof -
  have "length (ahead t k) \<le> 1022"
    using ready_bound [OF reachable_kernel_inv [OF assms(1)]] ahead_less [OF assms(2)] by simp
  moreover have "waits_within t n c \<Longrightarrow> n \<le> n' \<Longrightarrow> waits_within t n' c" for n n' c by (cases c) auto
  moreover from execution_waits [OF reachable_inv [OF assms(1)] _ assms(3,4)] assms(2) obtain n' where
    "waits_within t n' (last (Running k m ks # cs))" "n' + any_calls (Running k m ks # cs) \<le> length (ahead t k)"
    by fastforce
  ultimately show ?thesis by (metis add_leD2 le_diff_conv2)
qed

text \<open>A third thread, and the first turn after that: thread 1 runs, and thread 2 is next.\<close>

definition three :: kernel where "three = created 7 9 2 two"

lemma three_sel [simp]:
  "state three t = (if t = 0 then RUNNING else if t = 1 \<or> t = 2 then READY
     else if valid_tid t then UNINITIALIZED else READY)"
  "current three = 0" "ready_queue three = [1, 2]" "ints three"
  "context_of (array_of_threads three 1) = [FStub 7 8]" "context_of (array_of_threads three 2) = [FStub 7 9]"
  by (simp_all add: three_def created_def ready_queue_def RQ_def)

lemma create_slot_two: "create_slot two = Some 2"
proof -
  have "[1..THREAD_MAX_THREADS - 1] = 1 # 2 # [2 + 1..THREAD_MAX_THREADS - 1]"
    by (simp add: upto_rec1 THREAD_MAX_THREADS_def)
  moreover have "\<not> nums_existing_threads two \<ge> THREAD_MAX_THREADS" by (simp add: THREAD_MAX_THREADS_def)
  ultimately show ?thesis by (simp add: create_slot_def free_slot_def all_tids_Cons)
qed

lemma reachable_three: "reachable (Running three (Returning (rv 2)) [FUser])"
proof -
  have "thread_create 7 9 True two = Some (2, three)"
    using thread_create_ok [OF reachable_kernel_inv [OF reachable_two], of 7 9 True] create_slot_two
    by (simp add: three_def runnable_def)
  then have "call_step (Create 7 9 True) [FUser] two = Some (Running three (Returning (rv 2)) [FUser])"
    by (simp add: int_result_def)
  then show ?thesis
    using reachable.next_step [OF reachable_two step.user, of "Create 7 9 True"] by simp
qed

theorem no_starvation_witness:
  "\<exists>cf. execution [Running three (Returning (rv 2)) [FUser], cf] \<and> any_calls [Running three (Returning (rv 2)) [FUser], cf] = 1 \<and>
    ahead 2 three = [1] \<and> waits_within 2 0 cf"
proof -
  have "kernel_inv three" by (rule reachable_kernel_inv [OF reachable_three])
  then obtain cf where cf: "thread_yield THREAD_ANY [FUser] three = Some cf" "turn (Running three (Returning (rv 2)) [FUser]) cf"
    using yield_any_turn [of three "[FUser]" "Returning (rv 2)"] by auto
  then have "step (Running three (Returning (rv 2)) [FUser]) cf"
    by (intro step.user [of _ "Yield THREAD_ANY"]) simp_all
  moreover have "\<not> runs 2 cf" using cf(2) by (cases cf) (auto dest: turn_head)
  moreover have "ahead 2 three = [1]" by (simp add: ahead_def)
  ultimately show ?thesis using no_starvation [OF reachable_three, of 2 "[cf]"] cf(1) by (intro exI [of _ cf]) auto
qed

end
