(* ===== verification/Kernel_Race.thy ===== *)
theory Kernel_Race
  imports Kernel_Wait Kernel_Fair
begin

text \<open>
  A race in \<open>thread_wait\<close> of \<open>src/threads/thread.c\<close>: it reads the wait queue of the thread it waits for while interrupts are
  enabled, and sleeps on that queue later. In between the timer may let the other thread run to its end, and a third
  one reap it; then the queue that \<open>thread_sleep\<close> is called with has been freed.
\<close>

section \<open>Reaping one thread\<close>

lemma reap_loop_single:
  assumes "i \<noteq> current k" "state k i = EXITED" "wq (array_of_threads k i) = Some q" "queues k q \<noteq> None"
    "\<And>a. stack_ptr (array_of_threads k i) = Some a \<Longrightarrow> a \<in> stacks k"
    "\<forall>j \<in> set js. j \<noteq> i \<longrightarrow> j \<noteq> current k \<longrightarrow> state k j \<noteq> EXITED" "i \<in> set js"
  shows "reap_loop js k = Some (reaped i q k)"
  using assms(6,7)
proof (induction js)
  case (Cons j js)
  show ?case
  proof (cases "j = i")
    case True
    have "reap_loop js (reaped i q k) = Some (reaped i q k)"
      using Cons.prems(1) by (intro reap_loop_id) auto
    with True reap_one_exited [OF assms(1-5)] show ?thesis by simp
  next
    case False
    with Cons.prems(1) have "reap_one j k = Some k" by (intro reap_one_skip) auto
    with Cons False show ?thesis by simp
  qed
qed simp

lemma reap_single:
  assumes "kernel_inv k" "valid_tid i" "i \<noteq> current k" "state k i = EXITED" "wq (array_of_threads k i) = Some q"
    "\<And>j. valid_tid j \<Longrightarrow> j \<noteq> i \<Longrightarrow> j \<noteq> current k \<Longrightarrow> state k j \<noteq> EXITED"
  shows "reap k = Some (reaped i q k)"
proof -
  from exited_queue [OF assms(1-4)] assms(5) have "queues k q \<noteq> None"
    "\<And>a. stack_ptr (array_of_threads k i) = Some a \<Longrightarrow> a \<in> stacks k" by (metis option.inject owns_def)+
  then show ?thesis unfolding reap_def using assms(2-6)
    by (intro reap_loop_single) auto
qed

section \<open>The race\<close>

text \<open>Thread 0 is about to sleep in \<open>thread_wait\<close> for thread 1 when the timer expires.\<close>

definition about_to_sleep :: "frame list" where
  "about_to_sleep = [FHandler (Calling (Sleep (Some 3))), FWait 1 True, FUser]"

lemma race_preempted:
  "\<exists>a. reachable (Running a (Returning (rv 0)) [FUser, FStubExit]) \<and> current a = 1 \<and> ready_queue a = [2, 0] \<and>
    state a 0 = READY \<and> state a 1 = RUNNING \<and> (\<forall>u. u \<notin> {0, 1} \<longrightarrow> state a u = state three u) \<and>
    wq (array_of_threads a 1) = Some 3 \<and> queues a 3 = Some [] \<and> nums_existing_threads a = 3 \<and>
    context_of (array_of_threads a 0) = FYield False 1 # about_to_sleep \<and> context_of (array_of_threads a 2) = [FStub 7 9]"
proof -
  let ?w = "upd_tcb 0 (\<lambda>b. b\<lparr>waiting_on := 1\<rparr>) three"
  have q: "wq (array_of_threads three 1) = Some 3" "queues three 3 = Some []" "nums_existing_threads three = 3"
    by (simp_all add: three_def created_def RQ_def)
  have "call_step (Wait 1 True) [FUser] three = Some (Running ?w (Calling (Sleep (Some 3))) [FWait 1 True, FUser])"
    using q(1) by (simp add: thread_wait_def thread_id_def THREAD_MAX_THREADS_def)
  then have "reachable (Running ?w (Calling (Sleep (Some 3))) [FWait 1 True, FUser])"
    using reachable.next_step [OF reachable_three step.user, of "Wait 1 True"] by simp
  then have 2: "reachable (Running (?w\<lparr>ints := False\<rparr>) (Calling (Yield THREAD_ANY)) about_to_sleep)"
    unfolding about_to_sleep_def by (rule reachable.next_step [OF _ step.interrupt]) simp_all
  have s: "ready_queue (?w\<lparr>ints := False\<rparr>) = [1, 2]" "current (?w\<lparr>ints := False\<rparr>) = 0"
    "\<And>u. state (?w\<lparr>ints := False\<rparr>) u = state three u" "context_of (array_of_threads (?w\<lparr>ints := False\<rparr>) 1) = [FStub 7 8]" by simp_all
  let ?a = "(switched (FYield False 1 # about_to_sleep) 1 False (?w\<lparr>ints := False\<rparr>))\<lparr>ints := True\<rparr>"
  have "reachable (Running ?a (Returning (rv 0)) [FUser, FStubExit])"
    using reachable_handover [OF 2 s(1) _ s(4)] by simp
  then show ?thesis using q by (intro exI [of _ ?a]) (simp add: switched_sel ready_queue_switched RQ_def)
qed


text \<open>Thread 1 exits, and the new thread 2 runs.\<close>

lemma race_exited:
  "\<exists>b. reachable (Running b (Returning (rv 0)) [FUser, FStubExit]) \<and> current b = 2 \<and> ready_queue b = [0] \<and>
    state b 0 = READY \<and> state b 1 = EXITED \<and> state b 2 = RUNNING \<and> (\<forall>u. u \<notin> {0, 1, 2} \<longrightarrow> state b u = state three u) \<and>
    wq (array_of_threads b 1) = Some 3 \<and> nums_existing_threads b = 2 \<and>
    context_of (array_of_threads b 0) = FYield False 1 # about_to_sleep"
proof -
  from race_preempted obtain a where a: "reachable (Running a (Returning (rv 0)) [FUser, FStubExit])" "current a = 1"
    "ready_queue a = [2, 0]" "state a 0 = READY" "state a 1 = RUNNING" "\<And>u. u \<notin> {0, 1} \<Longrightarrow> state a u = state three u"
    "wq (array_of_threads a 1) = Some 3" "queues a 3 = Some []" "nums_existing_threads a = 3"
    "context_of (array_of_threads a 0) = FYield False 1 # about_to_sleep" "context_of (array_of_threads a 2) = [FStub 7 9]" by auto
  let ?s = "exited 5 3 [] a"
  note inv = reachable_kernel_inv [OF a(1)]
  have "call_step (Exit 5) [FUser, FStubExit] a = Some (Running ?s (Calling (Yield THREAD_ANY)) [FExit1, FUser, FStubExit])"
    using thread_exit_ok(1) [OF inv _ _ a(8), of 5 "[FUser, FStubExit]"] a(2,5,7) by (simp add: runnable_def RQ_def)
  then have 1: "reachable (Running ?s (Calling (Yield THREAD_ANY)) [FExit1, FUser, FStubExit])"
    using reachable.next_step [OF a(1) step.user, of "Exit 5"] by simp
  have s: "ready_queue ?s = [2, 0]" "current ?s = 1" "context_of (array_of_threads ?s 2) = [FStub 7 9]"
    "\<And>u. state ?s u = (if u = 1 then EXITED else state a u)" using a by (simp_all add: ready_queue_woken)
  have no: "state ?s u \<noteq> EXITED" if "valid_tid u" "u \<noteq> current ?s" for u
    using that a(4,6) s(2,4) by (cases "u = 0") auto
  let ?b = "(switched (FYield (ints ?s) 2 # [FExit1, FUser, FStubExit]) 2 False (?s\<lparr>ints := False\<rparr>))\<lparr>ints := True\<rparr>"
  have "reachable (Running ?b (Returning (rv 0)) [FUser, FStubExit])"
    by (rule reachable_handover [OF 1 s(1) _ s(3) no]) (use s in simp_all)
  then show ?thesis using a s by (intro exI [of _ ?b]) (simp add: switched_sel ready_queue_switched)
qed

text \<open>Thread 2 yields, which reaps thread 1 and frees its queue; thread 0 goes on from the handler.\<close>

lemma race_reaped:
  "\<exists>c. reachable (Running c (Calling (Sleep (Some 3))) [FWait 1 True, FUser]) \<and> current c = 0 \<and>
    state c 1 = UNINITIALIZED \<and> queues c 3 = None \<and> nums_existing_threads c = 2"
proof -
  from race_exited obtain b where b: "reachable (Running b (Returning (rv 0)) [FUser, FStubExit])" "current b = 2"
    "ready_queue b = [0]" "state b 0 = READY" "state b 1 = EXITED" "state b 2 = RUNNING"
    "\<And>u. u \<notin> {0, 1, 2} \<Longrightarrow> state b u = state three u" "wq (array_of_threads b 1) = Some 3" "nums_existing_threads b = 2"
    "context_of (array_of_threads b 0) = FYield False 1 # about_to_sleep" by auto
  let ?s = "b\<lparr>ints := False\<rparr>"
  have inv: "kernel_inv ?s" using reachable_kernel_inv [OF b(1)] by simp
  have r: "reap ?s = Some (reaped 1 3 ?s)"
  proof (rule reap_single [OF inv])
    show "state ?s j \<noteq> EXITED" if "valid_tid j" "j \<noteq> 1" "j \<noteq> current ?s" for j
      using that b(2,4) b(7) [of j] by (cases "j = 0") auto
  qed (use b(2,5,8) in auto)
  let ?c = "switched (FYield (ints b) 0 # [FUser, FStubExit]) 0 False (reaped 1 3 ?s)"
  have "thread_yield THREAD_ANY [FUser, FStubExit] b = Some (Running ?c Resuming (FYield False 1 # about_to_sleep))"
    using switch_to_eq [OF inv _ r, of 0 "ints b" "[FUser, FStubExit]" False] b(2,3,6,10)
      yield_body_switch [OF inv, of THREAD_ANY 0 "[]" "ints b" "[FUser, FStubExit]"]
    by (simp add: thread_yield_def interrupts_set_def)
  then have 1: "reachable (Running ?c Resuming (FYield False 1 # about_to_sleep))"
    using reachable.next_step [OF b(1) step.user, of "Yield THREAD_ANY"] by simp
  have c: "state ?c u = (if u = 0 then RUNNING else if u = 1 then UNINITIALIZED else if u = 2 then READY else state three u)" for u
    using b by (simp add: switched_sel)
  have "reap ?c = Some ?c" by (rule reap_id) (simp add: c)
  with reachable.next_step [OF 1 step.resume] have
    "reachable (Running (?c\<lparr>ints := False\<rparr>) (Returning (rv 1)) about_to_sleep)" by (simp add: return_to_def interrupts_set_def)
  from reachable.next_step [OF this [unfolded about_to_sleep_def] step.return] have
    "reachable (Running (?c\<lparr>ints := True\<rparr>) (Calling (Sleep (Some 3))) [FWait 1 True, FUser])" by (simp add: interrupts_set_def)
  moreover have "queues ?c 3 = None" by (simp add: RQ_def)
  ultimately show ?thesis using b(9) c [of 1] by (intro exI [of _ "?c\<lparr>ints := True\<rparr>"]) simp
qed

text \<open>The call is a fault, a use of freed memory.\<close>

lemma thread_wait_race_faults:
  "\<exists>k. reachable (Running k (Calling (Sleep (Some 3))) [FWait 1 True, FUser]) \<and> current k = 0 \<and> state k 1 = UNINITIALIZED \<and>
    thread_sleep (Some 3) [FWait 1 True, FUser] k = None"
proof -
  from race_reaped obtain c where c: "reachable (Running c (Calling (Sleep (Some 3))) [FWait 1 True, FUser])" "current c = 0"
    "state c 1 = UNINITIALIZED" "queues c 3 = None" "nums_existing_threads c = 2" by blast
  have "thread_sleep (Some 3) [FWait 1 True, FUser] c = None"
    using c(4,5) by (simp add: thread_sleep_def interrupts_set_def enqueue_def Let_def)
  with c(1-3) show ?thesis by blast
qed

section \<open>Which calls fault\<close>

lemma sleep_without_queue:
  assumes "kernel_inv k" "runnable k (current k)" "queues k q = None"
  shows "thread_sleep (Some q) ks k = None \<longleftrightarrow> ready_queue k \<noteq> []"
proof -
  have "nums_existing_threads k = 1 \<longleftrightarrow> ready_queue k = []"
    using kernel_invD(2) [OF assms(1)] assms(2) by (auto simp: counting_inv_def)
  with assms(3) show ?thesis by (auto simp: thread_sleep_def interrupts_set_def enqueue_def Let_def)
qed

text \<open>C16: Which of the calls that switch threads can fault, in a reachable configuration: not the continuation of a thread, not
  \<open>thread_yield\<close> with any argument, not \<open>thread_exit\<close>. \<open>thread_sleep\<close> on a queue other than the ready queue faults exactly if
  the queue does not exist and another thread is ready. The last part happens: in a reachable configuration thread 0, in
  \<open>thread_wait(1, &code)\<close>, sleeps on the queue of thread 1, which has exited and been reaped since \<open>thread_wait\<close> read it.\<close>

theorem switching_faults_only_without_queue:
  assumes "reachable (Running k m ks)"
  shows "(m = Resuming \<longrightarrow> resume_step ks k \<noteq> None) \<and>
    (m \<noteq> Resuming \<longrightarrow> thread_yield want ks k \<noteq> None) \<and>
    (state k (current k) \<in> {RUNNING, KILLED} \<longrightarrow> thread_exit code ks k \<noteq> None \<and>
      (q \<noteq> RQ \<longrightarrow> (thread_sleep (Some q) ks k = None \<longleftrightarrow> queues k q = None \<and> ready_queue k \<noteq> []))) \<and>
    (\<exists>k. reachable (Running k (Calling (Sleep (Some 3))) [FWait 1 True, FUser]) \<and> current k = 0 \<and> state k 1 = UNINITIALIZED \<and>
      thread_sleep (Some 3) [FWait 1 True, FUser] k = None)"
proof (intro conjI impI)
  note inv = reachable_kernel_inv [OF assms] and ctl = reachable_ctl_inv [OF assms]
  show "resume_step ks k \<noteq> None" if "m = Resuming"
    using that ctl reap_ok [OF inv] by (auto simp: ctl_inv_def resumable_def)
  show "thread_yield want ks k \<noteq> None" if "m \<noteq> Resuming"
  proof (cases "state k (current k) = KILLED")
    case True
    then show ?thesis by (simp add: thread_yield_def interrupts_set_def)
  next
    case False
    consider (any) t ts where "want = THREAD_ANY" "ready_queue k = t # ts"
      | (named) "want \<noteq> THREAD_ANY" "want \<in> set (ready_queue k)"
      | (stay) "want = THREAD_ANY \<and> ready_queue k = [] \<or> want \<noteq> THREAD_ANY \<and> want \<notin> set (ready_queue k)"
      by (cases "ready_queue k") auto
    then show ?thesis
      using yield_switches [OF inv False, of want] yield_stays [OF inv False]
      by cases fastforce+
  qed
  assume "state k (current k) \<in> {RUNNING, KILLED}"
  then have run: "runnable k (current k)" by (auto simp: runnable_def)
  from own_queue [OF inv] obtain r xs where
    "wq (array_of_threads k (current k)) = Some r" "queues k r = Some xs" "r \<noteq> RQ" by blast
  from thread_exit_ok(1) [OF inv run this] show "thread_exit code ks k \<noteq> None" by simp
  show "thread_sleep (Some q) ks k = None \<longleftrightarrow> queues k q = None \<and> ready_queue k \<noteq> []" if "q \<noteq> RQ"
    using that thread_sleep_ok [OF inv run, of q] sleep_without_queue [OF inv run, of q ks] by (cases "queues k q") auto
next
  show "\<exists>k. reachable (Running k (Calling (Sleep (Some 3))) [FWait 1 True, FUser]) \<and> current k = 0 \<and> state k 1 = UNINITIALIZED \<and>
      thread_sleep (Some 3) [FWait 1 True, FUser] k = None" by (rule thread_wait_race_faults)
qed

theorem switching_faults_only_without_queue_witness:
  "thread_yield 1 [FUser] two \<noteq> None \<and> thread_exit 3 [FUser] two \<noteq> None \<and> thread_sleep (Some 3) [FUser] two \<noteq> None"
  using switching_faults_only_without_queue [OF reachable_two, of 1 3 3] by (simp add: RQ_def)

end
