(* ===== verification/Kernel_Codes.thy ===== *)
theory Kernel_Codes
  imports Kernel_Wait
begin

text \<open>
  The exit codes of \<open>src/threads/thread.c\<close>: which steps of the machine write \<open>exit_code\<close>, and with what. They are \<open>thread_exit\<close>,
  \<open>thread_kill\<close>, \<open>thread_create\<close> and the two places where \<open>thread_wait\<close> collects a code.
\<close>

section \<open>Operations that leave the exit codes alone\<close>

definition codes :: "kernel \<Rightarrow> tid \<Rightarrow> int" where
  "codes k = (\<lambda>t. exit_code (array_of_threads k t))"

named_theorems same_codes \<open>functions that change no exit code\<close>

lemma codes_update [simp]:
  "codes (k\<lparr>queues := Q\<rparr>) = codes k" "codes (k\<lparr>ints := b\<rparr>) = codes k" "codes (k\<lparr>current := t\<rparr>) = codes k"
  "codes (k\<lparr>nums_existing_threads := n\<rparr>) = codes k" "codes (k\<lparr>stacks := S\<rparr>) = codes k" "codes (k\<lparr>brk := a\<rparr>) = codes k"
  "codes (k\<lparr>locks := L\<rparr>) = codes k" "codes (k\<lparr>cvs := C\<rparr>) = codes k" "codes (k\<lparr>owner := W\<rparr>) = codes k"
  by (simp_all add: codes_def)

lemma codes_upd [simp]:
  "codes (upd_tcb t f k) = (codes k)(t := exit_code (f (array_of_threads k t)))"
  by (auto simp: codes_def)

lemma codes_state [simp]: "codes (set_state t s k) = codes k"
  by (auto simp: codes_def)

lemma codes_fields [simp]:
  "(codes k)(t := exit_code (array_of_threads k t)) = codes k"
  by (auto simp: codes_def)

interpretation codes_part: kernel_part codes
  by unfold_locales simp_all

lemmas [same_codes] = codes_part.part_enqueue codes_part.part_dequeue codes_part.part_dequeue_head codes_part.part_wakeup_loop
  codes_part.part_wakeup codes_part.part_awaken codes_part.part_free_stack codes_part.part_reap codes_part.part_switch_to
  codes_part.part_yield_body codes_part.part_yield codes_part.part_sleep

lemma codes_destroy [same_codes]: "wait_queue_destroy p k = Some k' \<Longrightarrow> codes k' = codes k"
  by (auto simp: wait_queue_destroy_def bind_eq_Some_conv)

lemma codes_release [same_codes]: "lock_release p k = Some k' \<Longrightarrow> codes k' = codes k"
  by (auto simp: lock_release_def interrupts_set_def bind_eq_Some_conv dest!: codes_part.part_wakeup)

lemma codes_cv_wake [same_codes]: "cv_wake all p r k = Some k' \<Longrightarrow> codes k' = codes k"
  by (auto simp: cv_wake_def bind_eq_Some_conv dest!: codes_part.part_wakeup split: if_splits)

lemma codes_acquire_loop [same_codes]: "lock_acquire_loop l en ks k = Some (Running k' m ks') \<Longrightarrow> codes k' = codes k"
  by (auto simp: lock_acquire_loop_def return_to_def interrupts_set_def bind_eq_Some_conv split: if_splits)

lemma codes_acquire [same_codes]: "lock_acquire p ks k = Some (Running k' m ks') \<Longrightarrow> codes k' = codes k"
  by (auto simp: lock_acquire_def interrupts_set_def bind_eq_Some_conv dest!: codes_acquire_loop)

lemma codes_cv_wait [same_codes]: "cv_wait p r ks k = Some (Running k' m ks') \<Longrightarrow> codes k' = codes k"
  by (auto simp: cv_wait_def bind_eq_Some_conv dest!: codes_release split: if_splits)



section \<open>Operations that write an exit code\<close>













section \<open>Every step\<close>










end
