(* ===== verification/Kernel_Locks.thy ===== *)
theory Kernel_Locks
  imports Kernel_Sync
begin

text \<open>
  No wakeup of a lock of \<open>src/threads/thread.c\<close> is lost: between the test of the flag in \<open>lock_acquire\<close> and the sleep,
  interrupts stay disabled, so nobody can release the lock in between, and a release empties the lock's queue. Hence
  threads sleep in the queue of a lock only while the lock is held, in every reachable configuration.
\<close>

section \<open>What a function leaves alone\<close>

text \<open>Addresses keep their owners, the empty queues of locks stay empty, the interrupt state is restored, and a saved context
  stays as it is or becomes that of a new thread.\<close>

definition keeps :: "kernel \<Rightarrow> kernel \<Rightarrow> bool" where
  "keeps k k' \<longleftrightarrow> ints k' = ints k \<and> brk k \<le> brk k' \<and>
     (\<forall>q < brk k. owner k' q = owner k q) \<and>
     (\<forall>q l. queues k q = Some [] \<longrightarrow> owner k q = OwnLock l \<longrightarrow> q < brk k \<longrightarrow> queues k' q = Some []) \<and>
     (\<forall>t. context_of (array_of_threads k' t) = context_of (array_of_threads k t) \<or>
        (\<exists>fn parg. context_of (array_of_threads k' t) = [FStub fn parg]))"

lemma keeps_refl [simp]: "keeps k k"
  by (simp add: keeps_def)

lemma keepsD:
  assumes "keeps k k'"
  shows "ints k' = ints k" "brk k \<le> brk k'" "q < brk k \<Longrightarrow> owner k' q = owner k q"
    "queues k q = Some [] \<Longrightarrow> owner k q = OwnLock l \<Longrightarrow> q < brk k \<Longrightarrow> queues k' q = Some []"
    "context_of (array_of_threads k' t) = context_of (array_of_threads k t) \<or>
     (\<exists>fn parg. context_of (array_of_threads k' t) = [FStub fn parg])"
  using assms by (simp_all add: keeps_def)

lemma keeps_trans:
  assumes "keeps k k1" "keeps k1 k2"
  shows "keeps k k2"
proof -
  note a = keepsD [OF assms(1)] and b = keepsD [OF assms(2)]
  have "context_of (array_of_threads k2 t) = context_of (array_of_threads k t) \<or>
     (\<exists>fn parg. context_of (array_of_threads k2 t) = [FStub fn parg])" for t
    using a(5) [of t] b(5) [of t] by auto
  moreover have "queues k2 q = Some []" if "queues k q = Some []" "owner k q = OwnLock l" "q < brk k" for q l
    using a(2) a(3) [of q] a(4) [OF that] b(4) [of q l] that by simp
  ultimately show ?thesis using a(1-3) b(1-3) by (simp add: keeps_def)
qed

lemma keeps_upd [simp]: "(\<And>b. context_of (f b) = context_of b) \<Longrightarrow> keeps k (upd_tcb t f k)"
  by (simp add: keeps_def)

lemma keeps_ints: "keeps (k\<lparr>ints := b\<rparr>) k' \<Longrightarrow> keeps k (k'\<lparr>ints := ints k\<rparr>)"
  by (simp add: keeps_def)

lemma keeps_locks [simp]: "keeps k (k\<lparr>locks := L\<rparr>)"
  by (simp add: keeps_def)

lemma keeps_woken:
  assumes "kernel_inv k" "queues k q = Some xs"
  shows "keeps k (woken q ys k)"
  using owner_invD(1) [OF kernel_invD(3) [OF assms(1)]] assms(2) by (auto simp: keeps_def)

lemma keeps_wakeup:
  assumes "kernel_inv k" "runnable k (current k)" "\<And>q. p = Some q \<Longrightarrow> q \<noteq> RQ"
    "thread_wakeup p all k = Some (n, k')"
  shows "keeps k k'"
proof (cases p)
  case None
  with assms show ?thesis by (simp add: thread_wakeup_null)
next
  case (Some q)
  show ?thesis
  proof (cases "queues k q")
    case None
    then have "thread_wakeup p all k = None"
      by (auto simp: Some thread_wakeup_def interrupts_set_def dequeue_element_from_head_def
          thread_wakeup_loop.simps)
    with assms show ?thesis by simp
  next
    case xs: (Some xs)
    from thread_wakeup_ok [OF assms(1) xs, of all] keeps_woken [OF assms(1) xs] assms Some show ?thesis
      by (auto simp: runnable_not_sleep)
  qed
qed

lemma keeps_kill:
  assumes "kernel_inv k" "thread_kill t k = Some (r, k')"
  shows "keeps k k'"
proof (cases "\<not> valid_tid t \<or> t = current k \<or> state k t = UNINITIALIZED")
  case True
  with thread_kill_invalid [OF this] assms show ?thesis by simp
next
  case False
  show ?thesis
  proof (cases "state k t = SLEEP")
    case nosleep: False
    with False thread_kill_awake [of t k] assms show ?thesis by (auto simp: killed_def)
  next
    case True
    with False assms(2) thread_kill_fault [of t k] obtain q xs where
      q: "awaken_queue k t = Some q" "queues k q = Some xs" "t \<in> set xs" by fastforce
    have "keeps k (wake KILLED t q (remove1 t xs) k)"
      using q owner_invD(1) [OF kernel_invD(3) [OF assms(1)]] by (auto simp: keeps_def)
    then have "keeps k (killed t (wake KILLED t q (remove1 t xs) k))"
      unfolding killed_def by (rule keeps_trans) simp
    with thread_kill_asleep [OF assms(1) _ _ True q] False assms(2) show ?thesis by auto
  qed
qed

lemma keeps_create:
  assumes "kernel_inv k" "runnable k (current k)" "thread_create fn parg ok k = Some (r, k')"
  shows "keeps k k'"
  using assms(3) thread_create_ok [OF assms(1,2), of fn parg ok] owner_invD(1) [OF kernel_invD(3) [OF assms(1)]]
  by (auto simp: created_def create_failed_def keeps_def split: option.splits if_splits)

lemma keeps_new:
  "keeps k (snd (wait_queue_create ow k))" "keeps k (snd (lock_create k))" "keeps k (snd (cv_create k))"
  by (auto simp: lock_create_eq cv_create_eq new_queue_def wait_queue_create_eq keeps_def)

lemma keeps_drop:
  assumes "\<And>l. owner k q \<noteq> OwnLock l"
  shows "keeps k (k\<lparr>queues := (queues k)(q := None)\<rparr>)"
  using assms by (auto simp: keeps_def)

lemma keeps_destroy:
  assumes "kernel_inv k"
  shows "user_queue k p \<Longrightarrow> wait_queue_destroy p k = Some k' \<Longrightarrow> keeps k k'"
    "lock_destroy p k = Some k' \<Longrightarrow> keeps k k'" "cv_destroy p k = Some k' \<Longrightarrow> keeps k k'"
proof -
  show "keeps k k'" if "user_queue k p" "wait_queue_destroy p k = Some k'"
    using that by (auto simp: user_queue_def wait_queue_destroy_def bind_eq_Some_conv intro: keeps_drop)
  show "keeps k k'" if "lock_destroy p k = Some k'"
    using that by (simp add: lock_destroy_eq split: if_splits)
  show "keeps k k'" if d: "cv_destroy p k = Some k'"
  proof -
    from d obtain c v where cv: "p = Some c" "cvs k c = Some v"
      by (auto simp: cv_destroy_def interrupts_set_def bind_eq_Some_conv)
    from cv_queue [OF assms cv(2)] have "owner k (cv_wait_queue v) = OwnCv c" by blast
    with d cv show ?thesis
      by (auto simp: cv_destroy_def interrupts_set_def bind_eq_Some_conv keeps_def)
  qed
qed

lemma keeps_release:
  assumes "kernel_inv k" "runnable k (current k)" "lock_release p k = Some k'"
  shows "keeps k k' \<and> (\<exists>l lk. p = Some l \<and> locks k l = Some lk \<and> k' = released l lk k)"
proof -
  from assms(3) obtain l lk where l: "p = Some l" "locks k l = Some lk"
    by (auto simp: lock_release_def interrupts_set_def bind_eq_Some_conv)
  from lock_queue [OF assms(1) l(2)] obtain xs where xs: "queues k (lock_wq lk) = Some xs" by blast
  let ?k = "k\<lparr>locks := (locks k)(l \<mapsto> lk\<lparr>lock_flag := False, thread_holding_lock := current k\<rparr>)\<rparr>"
  have "kernel_inv ?k" by (rule lock_set_inv [OF assms(1) l(2)]) simp
  from keeps_trans [OF keeps_locks keeps_woken [OF this]] xs have "keeps k (released l lk k)"
    by (simp add: released_def)
  with lock_release_ok [OF assms(1) runnable_not_sleep [OF assms(2)] l(2)] l assms(3) show ?thesis by simp
qed

lemma keeps_cv_wake:
  assumes "kernel_inv k" "runnable k (current k)" "cv_wake all p r k = Some k'"
  shows "keeps k k'"
proof (cases "k' = k")
  case False
  with assms(3) obtain c l lk v where cl: "p = Some c" "r = Some l" "locks k l = Some lk" "cvs k c = Some v"
    by (auto simp: cv_wake_def bind_eq_Some_conv split: if_splits)
  from cv_queue [OF assms(1) cl(4)] obtain xs where xs: "queues k (cv_wait_queue v) = Some xs" by blast
  from cv_wake_ok [OF assms(1) runnable_not_sleep [OF assms(2)] cl(3,4) xs, of all] assms(3) cl False
    keeps_woken [OF assms(1) xs] show ?thesis by (auto split: if_splits)
qed simp

lemma keeps_reap_one:
  assumes "kernel_inv k" "valid_tid i" "reap_one i k = Some k'"
  shows "keeps k k'"
proof (cases "i = current k \<or> state k i \<noteq> EXITED")
  case True
  with assms(3) show ?thesis by (simp add: reap_one_skip)
next
  case False
  then have u: "state k i \<noteq> UNINITIALIZED" by simp
  from thread_queue [OF assms(1,2) u] obtain q where
    q: "wq (array_of_threads k i) = Some q" "owner k q = OwnThread i" by blast
  with False assms(3) show ?thesis
    by (auto simp: reap_one_def free_stack_def wait_queue_destroy_def bind_eq_Some_conv keeps_def split: option.splits if_splits)
qed

lemma keeps_reap_loop:
  assumes "kernel_inv k" "\<forall>i \<in> set js. valid_tid i" "reap_loop js k = Some k'"
  shows "keeps k k'"
  using assms
proof (induction js arbitrary: k)
  case (Cons i js)
  then obtain k1 where k1: "reap_one i k = Some k1" "reap_loop js k1 = Some k'" by (auto simp: bind_eq_Some_conv)
  with Cons.prems have "kernel_inv k1" using reap_one_ok [of k i] by (metis list.set_intros(1) option.inject)
  with Cons k1 keeps_trans [OF keeps_reap_one [of k i k1]] show ?case by simp
qed simp

lemma keeps_reap: "kernel_inv k \<Longrightarrow> reap k = Some k' \<Longrightarrow> keeps k k'"
  by (rule keeps_reap_loop [of k all_tids]) (simp_all add: reap_def)

section \<open>Frames that must not be interrupted\<close>

text \<open>\<open>needs_off\<close>: the function below will return to \<open>lock_acquire\<close>'s loop with the interrupt state it has now.\<close>

fun needs_off :: "frame list \<Rightarrow> bool" where
  "needs_off [] = False"
| "needs_off (f # ks) = (case f of FLockAcquire _ _ \<Rightarrow> True | FExit1 \<Rightarrow> needs_off ks | FExit2 \<Rightarrow> needs_off ks | _ \<Rightarrow> False)"

text \<open>A sleep that can be interrupted is not on the queue of a lock.\<close>

definition plain :: "kernel \<Rightarrow> mode \<Rightarrow> bool" where
  "plain k m \<longleftrightarrow> (\<forall>q. m = Calling (Sleep (Some q)) \<longrightarrow> q < brk k \<and> (\<forall>l. owner k q \<noteq> OwnLock l))"

fun quiet :: "kernel \<Rightarrow> frame list \<Rightarrow> bool" where
  "quiet k [] = True"
| "quiet k (f # ks) = (quiet k ks \<and>
     (case f of FYield en _ \<Rightarrow> needs_off ks \<longrightarrow> \<not> en | FKilled en _ \<Rightarrow> needs_off ks \<longrightarrow> \<not> en
      | FExit1 \<Rightarrow> True | FExit2 \<Rightarrow> True | FHandler m \<Rightarrow> \<not> needs_off ks \<and> plain k m | _ \<Rightarrow> \<not> needs_off ks))"

text \<open>A sleep on the queue of a lock comes from \<open>lock_acquire\<close>, and the lock is held.\<close>

definition mode_quiet :: "kernel \<Rightarrow> mode \<Rightarrow> frame list \<Rightarrow> bool" where
  "mode_quiet k m ks \<longleftrightarrow>
     (m \<noteq> Resuming \<longrightarrow> needs_off ks \<longrightarrow> \<not> ints k) \<and>
     (\<forall>p. m = Calling (LockAcquire p) \<longrightarrow> \<not> needs_off ks) \<and>
     (\<forall>q. m = Calling (Sleep (Some q)) \<longrightarrow> q < brk k \<and>
        (\<forall>l. owner k q = OwnLock l \<longrightarrow> needs_off ks \<and> (\<exists>lk. locks k l = Some lk \<and> lock_flag lk)))"

text \<open>Nobody sleeps on a free lock.\<close>

definition free_empty :: "kernel \<Rightarrow> bool" where
  "free_empty k \<longleftrightarrow> (\<forall>l lk. locks k l = Some lk \<longrightarrow> lock_flag lk \<or> queues k (lock_wq lk) = Some [])"

definition contexts_quiet :: "kernel \<Rightarrow> bool" where
  "contexts_quiet k \<longleftrightarrow> (\<forall>t. quiet k (context_of (array_of_threads k t)))"

fun lock_inv :: "conf \<Rightarrow> bool" where
  "lock_inv (Running k m ks) = (free_empty k \<and> contexts_quiet k \<and> quiet k ks \<and> mode_quiet k m ks)"
| "lock_inv (Terminated c) = True"

lemma quiet_ints [simp]: "plain (k\<lparr>ints := b\<rparr>) m = plain k m" "quiet (k\<lparr>ints := b\<rparr>) ks = quiet k ks"
  "contexts_quiet (k\<lparr>ints := b\<rparr>) = contexts_quiet k" "free_empty (k\<lparr>ints := b\<rparr>) = free_empty k"
proof -
  show p: "plain (k\<lparr>ints := b\<rparr>) m = plain k m" for m by (simp add: plain_def)
  show q: "quiet (k\<lparr>ints := b\<rparr>) ks = quiet k ks" for ks by (induction ks) (auto simp: p split: frame.split)
  show "contexts_quiet (k\<lparr>ints := b\<rparr>) = contexts_quiet k" "free_empty (k\<lparr>ints := b\<rparr>) = free_empty k"
    by (simp_all add: contexts_quiet_def free_empty_def q)
qed

lemma plain_keeps: "keeps k k' \<Longrightarrow> plain k m \<Longrightarrow> plain k' m"
  by (auto simp: plain_def keeps_def)

lemma quiet_keeps: "keeps k k' \<Longrightarrow> quiet k ks \<Longrightarrow> quiet k' ks"
  by (induction ks) (auto simp: plain_keeps split: frame.splits)

lemma contexts_keeps:
  assumes "keeps k k'" "contexts_quiet k"
  shows "contexts_quiet k'"
  unfolding contexts_quiet_def
proof
  fix t
  have "quiet k' (context_of (array_of_threads k t))"
    using assms quiet_keeps by (simp add: contexts_quiet_def)
  with keepsD(5) [OF assms(1), of t] show "quiet k' (context_of (array_of_threads k' t))" by auto
qed

lemma free_empty_keeps:
  assumes "kernel_inv k" "keeps k k'" "locks k' = locks k" "free_empty k"
  shows "free_empty k'"
  unfolding free_empty_def
proof (intro allI impI)
  fix l lk assume "locks k' l = Some lk"
  with assms(3) have l: "locks k l = Some lk" by simp
  then have "owner k (lock_wq lk) = OwnLock l" "lock_wq lk < brk k"
    using owner_invD(3) [OF kernel_invD(3) [OF assms(1)]] by (auto simp: owns_def)
  with assms(4) l keepsD(4) [OF assms(2), of "lock_wq lk" l] show "lock_flag lk \<or> queues k' (lock_wq lk) = Some []"
    by (auto simp: free_empty_def)
qed

lemma returning_quiet: "(needs_off ks \<longrightarrow> \<not> ints k) \<Longrightarrow> mode_quiet k (Returning v) ks"
  "(needs_off ks \<longrightarrow> \<not> ints k) \<Longrightarrow> mode_quiet k (Calling (Yield t)) ks"
  "(needs_off ks \<longrightarrow> \<not> ints k) \<Longrightarrow> mode_quiet k (Calling (Exit e)) ks"
  "mode_quiet k Resuming ks"
  by (simp_all add: mode_quiet_def)

lemma return_to_quiet:
  "free_empty k \<Longrightarrow> contexts_quiet k \<Longrightarrow> quiet k ks \<Longrightarrow> (needs_off ks \<longrightarrow> \<not> en) \<Longrightarrow> lock_inv (return_to v ks en k)"
  by (simp add: return_to_def interrupts_set_def returning_quiet)

lemma keeps_lock_inv:
  assumes "kernel_inv k" "lock_inv (Running k m ks)" "keeps k k'" "locks k' = locks k" "m \<noteq> Resuming"
  shows "lock_inv (Running k' (Returning v) ks)"
  using assms quiet_keeps contexts_keeps free_empty_keeps [OF assms(1,3,4)] keepsD(1) [OF assms(3)]
  by (auto intro!: returning_quiet) (simp add: mode_quiet_def)

section \<open>The functions that may switch\<close>

lemma quiet_same:
  assumes "owner k' = owner k" "brk k' = brk k"
  shows "quiet k' ks = quiet k ks"
proof -
  have "plain k' m = plain k m" for m using assms by (simp add: plain_def)
  then show ?thesis by (induction ks) (auto split: frame.split)
qed

lemma switched_quiet:
  assumes inv: "kernel_inv k" and t: "t \<noteq> current k"
    and free: "free_empty k" and cs: "contexts_quiet k" and ks: "quiet k ks" "needs_off ks \<longrightarrow> \<not> en" and c: "quiet k c"
  shows "lock_inv (Running (switched (FYield en u # ks) t b k) Resuming c)"
proof -
  let ?k = "switched (FYield en u # ks) t b k"
  have q: "quiet ?k xs = quiet k xs" for xs by (rule quiet_same) simp_all
  have "contexts_quiet ?k" using cs ks by (simp add: contexts_quiet_def q switched_sel(2) [OF t])
  moreover have "free_empty ?k"
    unfolding free_empty_def
  proof (intro allI impI)
    fix l lk assume "locks ?k l = Some lk"
    then have l: "locks k l = Some lk" by simp
    have "lock_wq lk \<noteq> RQ" using lock_queue [OF inv l] by blast
    with free l show "lock_flag lk \<or> queues ?k (lock_wq lk) = Some []" by (auto simp: free_empty_def)
  qed
  ultimately show ?thesis using c by (simp add: q returning_quiet)
qed

lemma switch_quiet:
  assumes inv: "kernel_inv k" and t: "t \<in> set (ready_queue k)"
    and cur: "state k (current k) \<in> {RUNNING, SLEEP, EXITED}" and cl: "state k (current k) \<noteq> EXITED \<Longrightarrow> clean ks"
    and free: "free_empty k" and cs: "contexts_quiet k" and ks: "quiet k ks" "needs_off ks \<longrightarrow> \<not> en"
    and cf: "switch_to en t ks (k\<lparr>queues := (queues k)(RQ \<mapsto> remove1 t (ready_queue k)), ints := b\<rparr>) = Some cf"
  shows "lock_inv cf"
proof -
  from switch_conf_inv [OF inv t cur cl, where en = en and b = b] obtain k' where k':
    "reap k = Some k'" "kernel_inv k'" "reap_frame k k'"
    "switch_to en t ks (k\<lparr>queues := (queues k)(RQ \<mapsto> remove1 t (ready_queue k)), ints := b\<rparr>) =
      Some (Running (switched (FYield en t # ks) t b k') Resuming (context_of (array_of_threads k t)))"
    by blast
  note keep = keeps_reap [OF inv k'(1)]
  have "t \<noteq> current k'"
    using in_queueD(3) [OF kernel_invD(1) [OF inv] ready_queue_eq [OF kernel_invD(2) [OF inv]] t] k'(3)
    by (simp add: reap_frame_def)
  moreover have "free_empty k'" using free_empty_keeps [OF inv keep locks_part.part_reap [OF k'(1)] free] .
  moreover have "quiet k' (context_of (array_of_threads k t))"
    using quiet_keeps [OF keep] cs by (simp add: contexts_quiet_def)
  ultimately show ?thesis
    using switched_quiet [OF k'(2)] contexts_keeps [OF keep cs] quiet_keeps [OF keep ks(1)] ks(2) k'(4) cf by simp
qed

lemma yield_body_quiet:
  assumes inv: "kernel_inv k" and ctl: "ctl_inv k (Calling (Yield want)) ks"
    and nk: "state k (current k) \<noteq> KILLED"
    and q: "free_empty k" "contexts_quiet k" "quiet k ks" "needs_off ks \<longrightarrow> \<not> en"
    and cf: "yield_body en want ks k = Some cf"
  shows "lock_inv cf"
proof -
  have cur: "state k (current k) \<in> {RUNNING, SLEEP, EXITED}"
    and clean: "state k (current k) \<noteq> EXITED \<Longrightarrow> clean ks"
    using ctl nk current_state_cases [OF inv] by (auto simp: ctl_inv_def)
  consider (any) t ts where "want = THREAD_ANY" "ready_queue k = t # ts"
    | (named) "want \<noteq> THREAD_ANY" "want \<in> set (ready_queue k)"
    | (stay) "want = THREAD_ANY \<and> ready_queue k = [] \<or> want \<noteq> THREAD_ANY \<and> want \<notin> set (ready_queue k)"
    by (cases "ready_queue k") auto
  then show ?thesis
  proof cases
    case any
    then have "t \<in> set (ready_queue k)" by simp
    from switch_quiet [where b = "ints k", OF inv this cur clean q] yield_body_switch [OF inv any, of en ks] cf show ?thesis by simp
  next
    case named
    from switch_quiet [where b = "ints k \<and> hd (ready_queue k) = want", OF inv named(2) cur clean q] yield_body_named [OF inv named(2), of en ks] cf show ?thesis by simp
  next
    case stay
    from yield_body_stay [OF inv stay, of en ks] return_to_quiet [OF q] cf show ?thesis by simp
  qed
qed

lemma thread_yield_quiet:
  assumes inv: "kernel_inv k" and ctl: "ctl_inv k (Calling (Yield want)) ks"
    and q: "free_empty k" "contexts_quiet k" "quiet k ks" "needs_off ks \<longrightarrow> \<not> ints k"
    and cf: "thread_yield want ks k = Some cf"
  shows "lock_inv cf"
proof (cases "state k (current k) = KILLED")
  case True
  with cf q show ?thesis by (auto simp: thread_yield_def interrupts_set_def returning_quiet)
next
  case False
  with assms yield_body_quiet [of "k\<lparr>ints := False\<rparr>" want ks "ints k" cf] show ?thesis
    by (simp add: thread_yield_def interrupts_set_def)
qed

lemma thread_exit_quiet:
  assumes inv: "kernel_inv k" and run: "runnable k (current k)"
    and q: "free_empty k" "contexts_quiet k" "quiet k ks" "needs_off ks \<longrightarrow> \<not> ints k"
    and cf: "thread_exit code ks k = Some cf"
  shows "lock_inv cf"
proof -
  from own_queue [OF inv] obtain r xs where
    r: "wq (array_of_threads k (current k)) = Some r" "queues k r = Some xs" "r \<noteq> RQ" by blast
  let ?w = "(woken r xs k)\<lparr>nums_existing_threads := nums_existing_threads k + int (length xs) - 1\<rparr>"
  have "keeps k ?w" using keeps_woken [OF inv r(2), of xs] by (simp add: keeps_def)
  then have keep: "keeps k (exited code r xs k)"
    unfolding exited_def by (rule keeps_trans) (rule keeps_upd, simp)
  from free_empty_keeps [OF inv keep _ q(1)] contexts_keeps [OF keep q(2)] quiet_keeps [OF keep q(3)] q(4)
    thread_exit_ok(1) [OF inv run r, of code ks] cf
  show ?thesis by (auto simp: returning_quiet)
qed

lemma thread_sleep_quiet:
  assumes inv: "kernel_inv k" and run: "runnable k (current k)" and RQ: "p \<noteq> Some RQ"
    and q: "free_empty k" "contexts_quiet k" "quiet k ks" "mode_quiet k (Calling (Sleep p)) ks"
    and cf: "thread_sleep p ks k = Some cf"
  shows "lock_inv cf"
proof -
  have off: "needs_off ks \<longrightarrow> \<not> ints k" using q(4) by (simp add: mode_quiet_def)
  note ret = return_to_quiet [OF q(1-3) off]
  show ?thesis
  proof (cases p)
    case None
    with cf return_to_quiet [of "k\<lparr>ints := False\<rparr>" ks] q off show ?thesis
      by (auto simp: thread_sleep_def interrupts_set_def)
  next
    case (Some a)
    with RQ have a: "a \<noteq> RQ" by simp
    from cf Some obtain xs where xs: "queues k a = Some xs \<or> cf = return_to (rv THREAD_NONE) ks (ints k) (k\<lparr>ints := False\<rparr>)"
      by (auto simp: thread_sleep_def interrupts_set_def enqueue_def Let_def bind_eq_Some_conv split: if_splits)
    then show ?thesis
    proof
      assume xs: "queues k a = Some xs"
      let ?k = "slept a xs k"
      have same: "owner ?k = owner k" "brk ?k = brk k" "ints ?k = ints k" "locks ?k = locks k"
        "\<And>t. context_of (array_of_threads ?k t) = context_of (array_of_threads k t)"
        by (simp_all add: slept_def)
      have "free_empty ?k"
        unfolding free_empty_def
      proof (intro allI impI)
        fix l lk assume "locks ?k l = Some lk"
        then have l: "locks k l = Some lk" by (simp add: same)
        have o: "owner k (lock_wq lk) = OwnLock l" using lock_queue [OF inv l] by blast
        show "lock_flag lk \<or> queues ?k (lock_wq lk) = Some []"
          using q(1,4) l o Some by (cases "lock_wq lk = a") (auto simp: free_empty_def mode_quiet_def slept_def)
      qed
      moreover have "quiet ?k zs = quiet k zs" for zs by (rule quiet_same) (simp_all add: same)
      ultimately have "lock_inv (Running ?k (Calling (Yield THREAD_ANY)) ks)"
        using q(2,3) off by (simp add: contexts_quiet_def same returning_quiet)
      with thread_sleep_ok [OF inv run xs a, of ks] cf Some ret show ?thesis by auto
    qed (use return_to_quiet [of "k\<lparr>ints := False\<rparr>" ks] q off in simp)
  qed
qed

lemma thread_wait_quiet:
  assumes inv: "kernel_inv k" and q: "free_empty k" "contexts_quiet k" "quiet k ks" "\<not> needs_off ks"
    and cf: "thread_wait t p ks k = Some cf"
  shows "lock_inv cf"
proof -
  have keep: "lock_inv (Running (upd_tcb u f k) (Returning v) ks)" if "\<And>b. context_of (f b) = context_of b" for u f v
    using free_empty_keeps [OF inv keeps_upd] contexts_keeps [OF keeps_upd] quiet_keeps [OF keeps_upd] that q
    by (simp add: returning_quiet)
  have sleeps: "lock_inv (Running (upd_tcb u f k) (Calling (Sleep (wq (array_of_threads k t)))) (FWait t p # ks))"
    if "\<And>b. context_of (f b) = context_of b" "valid_tid t" "state k t \<noteq> UNINITIALIZED" for u f
  proof -
    from owner_invD(2) [OF kernel_invD(3) [OF inv] that(2,3)] obtain r where
      "wq (array_of_threads k t) = Some r" "owner k r = OwnThread t" "r < brk k" by (auto simp: owns_def)
    then show ?thesis
      using free_empty_keeps [OF inv keeps_upd] contexts_keeps [OF keeps_upd] quiet_keeps [OF keeps_upd] that(1) q
      by (simp add: mode_quiet_def)
  qed
  have here: "lock_inv (Running k (Returning v) ks)" for v using q by (simp add: returning_quiet)
  show ?thesis
    using cf sleeps [of "\<lambda>c. c\<lparr>waiting_on := t\<rparr>"] keep [of "\<lambda>b. b\<lparr>exit_code := -1\<rparr>"] here
    by (auto simp: thread_wait_def valid_tid_def Let_def simp del: lock_inv.simps split: if_splits)
qed

lemma upd_quiet:
  assumes "kernel_inv k" "free_empty k" "contexts_quiet k" "quiet k ks" "\<And>b. context_of (f b) = context_of b"
  shows "free_empty (upd_tcb t f k)" "contexts_quiet (upd_tcb t f k)" "quiet (upd_tcb t f k) ks"
  using free_empty_keeps [OF assms(1) keeps_upd [OF assms(5)] _ assms(2)] contexts_keeps [OF keeps_upd [OF assms(5)] assms(3)]
    quiet_keeps [OF keeps_upd [OF assms(5)] assms(4)] by simp_all

lemma wait_resumed_quiet:
  assumes inv: "kernel_inv k" and q: "free_empty k" "contexts_quiet k" "quiet k ks" "\<not> needs_off ks"
  shows "lock_inv (wait_resumed t p ks k)" "lock_inv (wait_tail t en ks k)"
proof -
  have off: "kernel_inv (k\<lparr>ints := b\<rparr>)" "free_empty (k\<lparr>ints := b\<rparr>)" "contexts_quiet (k\<lparr>ints := b\<rparr>)" "quiet (k\<lparr>ints := b\<rparr>) ks"
    for b using inv q by simp_all
  have tail: "lock_inv (wait_tail t en ks (k\<lparr>ints := b\<rparr>))" for b en
    unfolding wait_tail_def by (intro return_to_quiet upd_quiet [where ks = ks] off) (simp_all add: q)
  from tail [of en "ints k"] show "lock_inv (wait_tail t en ks k)" by simp
  have "lock_inv (return_to v ks e (upd_tcb t (\<lambda>b. b\<lparr>exit_code2 := exit_code b, exit_code := -1\<rparr>) (k\<lparr>ints := False\<rparr>)))" for v e
    by (intro return_to_quiet upd_quiet [where ks = ks] off) (simp_all add: q)
  with tail q show "lock_inv (wait_resumed t p ks k)"
    by (auto simp: wait_resumed_def interrupts_set_def Let_def returning_quiet)
qed

lemma lock_acquire_loop_quiet:
  assumes inv: "kernel_inv k" and q: "free_empty k" "contexts_quiet k" "quiet k ks" "\<not> needs_off ks" "\<not> ints k"
    and cf: "lock_acquire_loop l en ks k = Some cf"
  shows "lock_inv cf"
proof -
  from cf obtain lk where l: "locks k l = Some lk" by (auto simp: lock_acquire_loop_def bind_eq_Some_conv)
  show ?thesis
  proof (cases "lock_flag lk")
    case True
    from owner_invD(3) [OF kernel_invD(3) [OF inv] l] have "owner k (lock_wq lk) = OwnLock l" "lock_wq lk < brk k"
      by (auto simp: owns_def)
    with True l q cf show ?thesis by (auto simp: lock_acquire_loop_def mode_quiet_def)
  next
    case False
    let ?k = "k\<lparr>locks := (locks k)(l \<mapsto> lk\<lparr>lock_flag := True, thread_holding_lock := thread_id k\<rparr>)\<rparr>"
    have "free_empty ?k" using q(1) l by (simp add: free_empty_def)
    then have "lock_inv (return_to (rv 0) ks en ?k)"
      by (rule return_to_quiet) (use q contexts_keeps [of k ?k] quiet_keeps [of k ?k] in simp_all)
    with False l cf show ?thesis by (simp add: lock_acquire_loop_def)
  qed
qed

lemma lock_acquire_quiet:
  assumes "kernel_inv k" "free_empty k" "contexts_quiet k" "quiet k ks" "\<not> needs_off ks" "lock_acquire p ks k = Some cf"
  shows "lock_inv cf"
  using assms lock_acquire_loop_quiet [of "k\<lparr>ints := False\<rparr>" ks _ "ints k" cf]
  by (auto simp: lock_acquire_def interrupts_set_def bind_eq_Some_conv)

lemma released_quiet:
  assumes inv: "kernel_inv k" and run: "runnable k (current k)" and r: "lock_release p k = Some k'" and q: "free_empty k"
  shows "free_empty k'"
  unfolding free_empty_def
proof (intro allI impI)
  fix r rk assume r': "locks k' r = Some rk"
  from keeps_release [OF inv run r] obtain l lk where l: "p = Some l" "locks k l = Some lk" "k' = released l lk k"
    and keep: "keeps k k'" by blast
  show "lock_flag rk \<or> queues k' (lock_wq rk) = Some []"
  proof (cases "r = l")
    case True
    with r' l have "lock_wq rk = lock_wq lk" by (auto simp: released_def)
    moreover from lock_queue [OF inv l(2)] obtain xs where "queues k (lock_wq lk) = Some xs" "lock_wq lk \<noteq> RQ" by blast
    ultimately show ?thesis using l by (simp add: released_def)
  next
    case False
    with r' l have rk: "locks k r = Some rk" by (simp add: released_def)
    then have "owner k (lock_wq rk) = OwnLock r" "lock_wq rk < brk k"
      using owner_invD(3) [OF kernel_invD(3) [OF inv]] by (auto simp: owns_def)
    with q rk keepsD(4) [OF keep, of "lock_wq rk" r] show ?thesis by (auto simp: free_empty_def)
  qed
qed

lemma cv_wait_quiet:
  assumes inv: "kernel_inv k" and run: "runnable k (current k)"
    and q: "free_empty k" "contexts_quiet k" "quiet k ks" "\<not> needs_off ks" and cf: "cv_wait c l ks k = Some cf"
  shows "lock_inv cf"
proof -
  have "lock_inv (Running k' (Returning v) (FCvReleased a b # ks))" if r: "lock_release p k = Some k'" for a b p k' v
  proof -
    have keep: "keeps k k'" using keeps_release [OF inv run r] by blast
    show ?thesis
      using released_quiet [OF inv run r q(1)] contexts_keeps [OF keep q(2)] quiet_keeps [OF keep q(3)] q(4)
      by (simp add: returning_quiet)
  qed
  with q cf show ?thesis
    by (auto simp: cv_wait_def bind_eq_Some_conv returning_quiet simp del: lock_inv.simps split: if_splits)
      (simp add: returning_quiet)
qed

lemma free_empty_new_lock:
  assumes inv: "kernel_inv k" and q: "free_empty k"
  shows "free_empty (snd (lock_create k))"
  unfolding free_empty_def
proof (intro allI impI)
  fix l lk assume l: "locks (snd (lock_create k)) l = Some lk"
  show "lock_flag lk \<or> queues (snd (lock_create k)) (lock_wq lk) = Some []"
  proof (cases "l = brk k")
    case True
    with l show ?thesis by (auto simp: lock_create_eq new_queue_def)
  next
    case False
    with l have l': "locks k l = Some lk" by (simp add: lock_create_eq)
    then have "lock_wq lk < brk k" "owner k (lock_wq lk) = OwnLock l"
      using owner_invD(3) [OF kernel_invD(3) [OF inv]] by (auto simp: owns_def)
    with keepsD(4) [OF keeps_new(2), of k "lock_wq lk" l] q l' show ?thesis by (auto simp: free_empty_def)
  qed
qed

section \<open>Every step\<close>

lemma lock_invD:
  assumes "lock_inv (Running k m ks)"
  shows "free_empty k" "contexts_quiet k" "quiet k ks" "mode_quiet k m ks" "m \<noteq> Resuming \<Longrightarrow> needs_off ks \<longrightarrow> \<not> ints k"
  using assms by (simp_all add: mode_quiet_def)

lemma call_step_quiet:
  assumes inv: "kernel_inv k" and ctl: "ctl_inv k (Calling c) ks" and q: "lock_inv (Running k (Calling c) ks)"
    and cf: "call_step c ks k = Some cf"
  shows "lock_inv cf"
proof -
  note Q = lock_invD [OF q]
  have off: "needs_off ks \<longrightarrow> \<not> ints k" using Q(5) by simp
  have exit: "lock_inv cf" if "c = Exit e" "runnable k (current k)" for e
    using thread_exit_quiet [OF inv that(2) Q(1-3) off] cf that(1) by simp
  have yield: "lock_inv cf" if "c = Yield t" for t
    using thread_yield_quiet [OF inv _ Q(1-3) off] ctl cf that by simp
  from inv ctl show ?thesis
  proof (cases rule: ctl_Calling)
    case user
    then have run: "runnable k (current k)" by (simp add: user_ok_def)
    consider (y) t where "c = Yield t" | (e) e where "c = Exit e" | (s) p where "c = Sleep p" "p \<noteq> Some RQ"
      | (l) p where "c = LockAcquire p"
      using user(2) by (cases c) (auto simp: mode_ok_def)
    then show ?thesis
    proof cases
      case s
      with thread_sleep_quiet [OF inv run s(2) Q(1-3)] Q(4) cf show ?thesis by simp
    next
      case l
      with lock_acquire_quiet [OF inv Q(1-3)] Q(4) cf show ?thesis by (simp add: mode_quiet_def)
    qed (use yield exit [OF _ run] in blast)+
  next
    case exiting
    have run: "runnable k (current k)" using exiting(1) by (simp add: runnable_def)
    from exiting_Calling [OF exiting(2)] yield exit [OF _ run] show ?thesis by blast
  qed (rule yield)
qed

lemma user_call_quiet:
  assumes inv: "kernel_inv k" and run: "user_ok k ks" and u: "user_call k c"
    and q: "free_empty k" "contexts_quiet k" "quiet k ks" "\<not> needs_off ks" and cf: "call_step c ks k = Some cf"
  shows "lock_inv cf"
proof -
  have run': "runnable k (current k)" using run by (simp add: user_ok_def)
  have off: "needs_off ks \<longrightarrow> \<not> ints k" using q(4) by simp
  have nRQ: "r \<noteq> RQ" if "user_queue k (Some r)" for r
    using that owner_invD(1) [OF kernel_invD(3) [OF inv]] by (auto simp: user_queue_def)
  have ret: "lock_inv (Running k' (Returning v) ks)" if "keeps k k'" "free_empty k'" for k' v
    using that contexts_keeps [OF that(1) q(2)] quiet_keeps [OF that(1) q(3)] q(4) by (simp add: returning_quiet)
  have same: "lock_inv (Running k' (Returning v) ks)" if "keeps k k'" "locks k' = locks k" for k' v
    by (rule ret [OF that(1) free_empty_keeps [OF inv that q(1)]])
  note keep = keeps_create [OF inv run'] keeps_kill [OF inv] keeps_wakeup [OF inv run'] keeps_destroy [OF inv]
    keeps_cv_wake [OF inv run']
  show ?thesis
  proof (cases c)
    case (Yield t)
    with cf thread_yield_quiet [OF inv ctl_clean [OF run] q(1-3) off] show ?thesis by simp
  next
    case (Exit e)
    with cf thread_exit_quiet [OF inv run' q(1-3) off] show ?thesis by simp
  next
    case (Sleep p)
    have "p \<noteq> Some RQ" using u nRQ Sleep by auto
    moreover have "mode_quiet k (Calling (Sleep p)) ks"
      using u Sleep q(4) by (auto simp: mode_quiet_def user_queue_def)
    ultimately show ?thesis using cf Sleep thread_sleep_quiet [OF inv run' _ q(1-3)] by simp
  next
    case (Wait t p)
    with cf thread_wait_quiet [OF inv q] show ?thesis by simp
  next
    case (LockAcquire l)
    with cf lock_acquire_quiet [OF inv q] show ?thesis by simp
  next
    case (CvWait a l)
    with cf cv_wait_quiet [OF inv run' q] show ?thesis by simp
  next
    case (Create fn parg ok)
    with cf show ?thesis
      by (auto simp: int_result_def simp del: lock_inv.simps intro: same [OF keep(1) locks_thread_create])
  next
    case (Kill t)
    with cf show ?thesis
      by (auto simp: int_result_def simp del: lock_inv.simps intro: same [OF keep(2) locks_kill])
  next
    case (Wakeup p all)
    with u nRQ have "\<And>q. p = Some q \<Longrightarrow> q \<noteq> RQ" by auto
    with Wakeup cf show ?thesis
      by (auto simp: int_result_def simp del: lock_inv.simps intro: same [OF keep(3) [of p all] locks_part.part_wakeup])
  next
    case WqCreate
    with cf same [OF keeps_new(1)] show ?thesis by (auto simp: addr_result_def wait_queue_create_eq new_queue_def)
  next
    case (WqDestroy p)
    with cf u obtain k' where k': "wait_queue_destroy p k = Some k'" "user_queue k p" "cf = Running k' (Returning (rv 0)) ks"
      by (auto simp: unit_result_def)
    then have "locks k' = locks k" by (auto simp: wait_queue_destroy_def bind_eq_Some_conv)
    from same [OF keep(4) [OF k'(2,1)] this] k'(3) show ?thesis by simp
  next
    case LockCreate
    with cf ret [OF keeps_new(2) free_empty_new_lock [OF inv q(1)]] show ?thesis by (auto simp: addr_result_def)
  next
    case (LockDestroy p)
    with cf same [of k] show ?thesis by (auto simp: unit_result_def lock_destroy_eq split: if_splits)
  next
    case (LockRelease p)
    with cf released_quiet [OF inv run' _ q(1)] keeps_release [OF inv run'] ret show ?thesis
      by (auto simp: unit_result_def simp del: lock_inv.simps)
  next
    case CvCreate
    with cf same [OF keeps_new(3)] show ?thesis by (auto simp: addr_result_def cv_create_eq new_queue_def)
  next
    case (CvDestroy p)
    with cf obtain k' where k': "cv_destroy p k = Some k'" "cf = Running k' (Returning (rv 0)) ks"
      by (auto simp: unit_result_def)
    then have "locks k' = locks k" by (auto simp: cv_destroy_def interrupts_set_def bind_eq_Some_conv)
    from same [OF keep(6) [OF k'(1)] this] k'(2) show ?thesis by simp
  next
    case (CvSignal a l)
    with cf show ?thesis
      by (auto simp: unit_result_def cv_signal_def simp del: lock_inv.simps intro: same [OF keep(7) locks_cv_wake])
  next
    case (CvBroadcast a l)
    with cf show ?thesis
      by (auto simp: unit_result_def cv_broadcast_def simp del: lock_inv.simps intro: same [OF keep(7) locks_cv_wake])
  next
    case ThreadId
    with cf same [of k] show ?thesis by (auto simp: int_result_def)
  next
    case (InterruptsSet b)
    with cf q show ?thesis by (auto simp: int_result_def interrupts_set_def returning_quiet)
  qed
qed

lemma plain_mode_quiet: "plain k m \<Longrightarrow> \<not> needs_off ks \<Longrightarrow> mode_quiet k m ks"
  by (auto simp: plain_def mode_quiet_def)

lemma return_step_quiet:
  assumes inv: "kernel_inv k" and ctl: "ctl_inv k (Returning v) (f # ks)"
    and q: "lock_inv (Running k (Returning v) (f # ks))" and cf: "return_step v f ks k = Some cf"
  shows "lock_inv cf"
proof -
  note Q = lock_invD(1,2) [OF q]
  have ks: "quiet k ks" using q by simp
  show ?thesis
  proof (cases f)
    case (FKilled en want)
    with ctl current_state_cases [OF inv] have False by (auto simp: ctl_inv_def)
    then show ?thesis ..
  next
    case (FWait t p)
    with cf q wait_resumed_quiet(1) [OF inv Q ks] show ?thesis by auto
  next
    case (FWaitTail t en)
    with cf q wait_resumed_quiet(2) [OF inv Q ks] show ?thesis by auto
  next
    case (FLockAcquire l en)
    with cf q lock_acquire_loop_quiet [OF inv Q ks] show ?thesis by (auto simp: mode_quiet_def)
  next
    case (FCvReleased c l)
    with cf obtain cv where cv: "cvs k c = Some cv" "cf = Running k (Calling (Sleep (Some (cv_wait_queue cv)))) (FCvSlept l # ks)"
      by (auto simp: bind_eq_Some_conv)
    from owner_invD(4) [OF kernel_invD(3) [OF inv] cv(1)] have
      "owner k (cv_wait_queue cv) = OwnCv c" "cv_wait_queue cv < brk k" by (auto simp: owns_def)
    with cv q FCvReleased show ?thesis by (auto simp: mode_quiet_def)
  next
    case (FCvSlept l)
    with cf q show ?thesis by (auto simp: mode_quiet_def)
  next
    case (FHandler m)
    then have "plain k m" "\<not> needs_off ks" using q by simp_all
    then have "mode_quiet (k\<lparr>ints := True\<rparr>) m ks" by (intro plain_mode_quiet) simp_all
    with cf q FHandler show ?thesis by (auto simp: interrupts_set_def)
  qed (use cf q in \<open>auto simp: returning_quiet mode_quiet_def split: if_splits\<close>)
qed

lemma resume_step_quiet:
  assumes inv: "kernel_inv k" and q: "lock_inv (Running k Resuming ks)" and cf: "resume_step ks k = Some cf"
  shows "lock_inv cf"
proof (cases ks)
  case (Cons f ks')
  note Q = lock_invD(1,2) [OF q]
  from cf Cons consider (yield) en t where "f = FYield en t" | (stub) fn parg where "f = FStub fn parg"
    by (cases f) auto
  then show ?thesis
  proof cases
    case yield
    with cf Cons obtain k' where k': "reap k = Some k'" "cf = return_to (rv t) ks' en k'"
      by (auto simp: bind_eq_Some_conv)
    note keep = keeps_reap [OF inv k'(1)]
    have "quiet k ks'" "needs_off ks' \<longrightarrow> \<not> en" using q Cons yield by simp_all
    with return_to_quiet [OF free_empty_keeps [OF inv keep locks_part.part_reap [OF k'(1)] Q(1)] contexts_keeps [OF keep Q(2)]]
      quiet_keeps [OF keep] k'(2) show ?thesis by simp
  next
    case stub
    with cf Cons q show ?thesis by (auto simp: interrupts_on_def interrupts_set_def returning_quiet)
  qed
qed (use cf in simp)

lemma step_quiet:
  assumes "step cf cf'" "conf_inv cf" "lock_inv cf"
  shows "lock_inv cf'"
  using assms
proof (induction rule: step.induct)
  case (call c ks k cf)
  then show ?case using call_step_quiet by auto
next
  case (return v f ks k cf)
  then show ?case using return_step_quiet by auto
next
  case (resume ks k cf)
  then show ?case using resume_step_quiet by auto
next
  case (user k c ks cf v)
  then have inv: "kernel_inv k" and ctl: "ctl_inv k (Returning v) (FUser # ks)" by auto
  from this have "user_ok k (FUser # ks)" by (cases rule: ctl_Returning) auto
  with user user_call_quiet [OF inv] show ?case by auto
next
  case (user_return k v ks)
  then show ?case by (simp add: returning_quiet)
next
  case (interrupt k m ks)
  then have "\<not> needs_off ks" "plain k m" by (auto simp: mode_quiet_def plain_def)
  with interrupt show ?case by (simp add: returning_quiet)
qed simp

lemma booted_lock_inv: "lock_inv (Running booted (Returning v) [FUser])"
proof -
  have "context_of (array_of_threads booted t) = []" for t by (simp add: booted_def zero_tcb_def)
  moreover have "locks booted l = None" for l by (simp add: booted_def boot_def)
  ultimately show ?thesis by (simp add: free_empty_def contexts_quiet_def returning_quiet)
qed

lemma reachable_lock_inv: "reachable cf \<Longrightarrow> lock_inv cf"
proof (induction rule: reachable.induct)
  case init
  show ?case using booted_lock_inv by (simp add: start_def thread_init_boot)
next
  case (next_step cf cf')
  with step_quiet reachable_inv show ?case by blast
qed

section \<open>No lost wakeup\<close>

text \<open>C7: No lost wakeup: wherever the timer interrupts, threads sleep in the queue of a lock only while the lock is
  held, and a release by any running thread moves all of them, in their order, to the end of the ready queue.\<close>

theorem lock_sleepers_are_woken:
  assumes "reachable (Running k m ks)" "locks k l = Some lk" "queues k (lock_wq lk) = Some xs" "xs \<noteq> []"
  shows "lock_flag lk \<and> (\<forall>t \<in> set xs. state k t = SLEEP) \<and>
    (state k (current k) \<in> {RUNNING, KILLED} \<longrightarrow> (\<exists>k'. lock_release (Some l) k = Some k' \<and>
       queues k' (lock_wq lk) = Some [] \<and> ready_queue k' = ready_queue k @ xs \<and> (\<forall>t \<in> set xs. state k' t = READY)))"
proof -
  note inv = reachable_kernel_inv [OF assms(1)]
  have "free_empty k" using reachable_lock_inv [OF assms(1)] by simp
  then have "lock_flag lk" using assms(2-4) unfolding free_empty_def by (metis option.inject)
  moreover have n: "lock_wq lk \<noteq> RQ" using lock_queue [OF inv assms(2)] by blast
  then have "\<forall>t \<in> set xs. state k t = SLEEP" using in_queueD(2) [OF kernel_invD(1) [OF inv] assms(3)] by blast
  moreover have "lock_release (Some l) k = Some (released l lk k)" if "state k (current k) \<in> {RUNNING, KILLED}"
    using lock_release_ok [OF inv _ assms(2)] that by auto
  ultimately show ?thesis using assms(3) n by (auto simp: released_def ready_queue_def)
qed

text \<open>Thread 0 holds the lock, and thread 1 sleeps on it.\<close>

lemma reachable_rivals: "reachable (Running (created 7 8 1 holding) (Returning (rv 1)) [FUser])"
proof -
  have "free_slot holding = free_slot booted" by (rule ext) (simp add: free_slot_def)
  then have "create_slot holding = create_slot booted" by (simp add: create_slot_def)
  then have "thread_create 7 8 True holding = Some (1, created 7 8 1 holding)"
    using thread_create_ok [OF reachable_kernel_inv [OF reachable_holding], of 7 8 True] create_slot_booted
    by (simp add: runnable_def)
  then have "call_step (Create 7 8 True) [FUser] holding = Some (Running (created 7 8 1 holding) (Returning (rv 1)) [FUser])"
    by (simp add: int_result_def)
  then show ?thesis using reachable.next_step [OF reachable_holding step.user, of "Create 7 8 True"] by simp
qed

lemma reap_idle:
  assumes "\<And>i. state k i \<noteq> EXITED"
  shows "reap k = Some k"
proof -
  have "reap_loop js k = Some k" for js by (induction js) (simp_all add: reap_one_skip assms)
  then show ?thesis by (simp add: reap_def)
qed

lemma yield_idle:
  assumes "reachable (Running k m ks)" "ready_queue k = [t]" "state k (current k) \<in> {RUNNING, SLEEP}" "clean ks"
    and "\<And>i. state k i \<noteq> EXITED"
  shows "thread_yield THREAD_ANY ks k =
    Some (Running (switched (FYield (ints k) t # ks) t False k) Resuming (context_of (array_of_threads k t)))"
proof -
  let ?k = "k\<lparr>ints := False\<rparr>"
  have inv: "kernel_inv ?k" using reachable_kernel_inv [OF assms(1)] by simp
  have rq: "ready_queue ?k = [t]" using assms(2) by (simp add: ready_queue_def)
  have "reap ?k = Some ?k" by (rule reap_idle) (simp add: assms(5))
  with switch_to_eq [OF inv, of t ?k "ints k" ks False] yield_body_switch [OF inv refl rq, of "ints k" ks] rq assms(3)
  show ?thesis by (auto simp: thread_yield_def interrupts_set_def switched_def ready_queue_def)
qed

definition rivals :: kernel where "rivals = created 7 8 1 holding"

lemma rivals_sel [simp]:
  "current rivals = 0" "ready_queue rivals = [1]" "ints rivals" "queues rivals 3 = Some []"
  "locks rivals = [2 \<mapsto> \<lparr>lock_flag = True, thread_holding_lock = 0, lock_wq = 3\<rparr>]"
  "state rivals t = (if t = 0 then RUNNING else if t = 1 then READY else if valid_tid t then UNINITIALIZED else READY)"
  "context_of (array_of_threads rivals 1) = [FStub 7 8]"
  by (simp_all add: rivals_def created_def ready_queue_def RQ_def)

definition yielded :: kernel where "yielded = switched [FYield True 1, FUser] 1 False rivals"

lemma yielded_sel [simp]:
  "current yielded = 1" "ready_queue yielded = [0]" "queues yielded 3 = Some []" "\<not> ints yielded"
  "locks yielded = [2 \<mapsto> \<lparr>lock_flag = True, thread_holding_lock = 0, lock_wq = 3\<rparr>]"
  "state yielded t = (if t = 0 then READY else if t = 1 then RUNNING else if valid_tid t then UNINITIALIZED else READY)"
  "context_of (array_of_threads yielded 0) = [FYield True 1, FUser]"
  by (simp_all add: yielded_def ready_queue_switched switched_sel) (simp add: RQ_def)

lemma reachable_yielded: "reachable (Running (yielded\<lparr>ints := True\<rparr>) (Returning (rv 0)) [FUser, FStubExit])"
proof -
  have "thread_yield THREAD_ANY [FUser] rivals = Some (Running yielded Resuming [FStub 7 8])"
    using yield_idle [OF reachable_rivals [folded rivals_def], of 1] by (simp add: yielded_def)
  then have "reachable (Running yielded Resuming [FStub 7 8])"
    by (intro reachable.next_step [OF reachable_rivals [folded rivals_def] step.user [of _ "Yield THREAD_ANY"]]) simp_all
  then show ?thesis
    by (rule reachable.next_step [OF _ step.resume]) (simp add: interrupts_on_def interrupts_set_def)
qed

definition waiting :: kernel where "waiting = slept 3 [] yielded"

lemma waiting_sel [simp]:
  "current waiting = 1" "ready_queue waiting = [0]" "queues waiting 3 = Some [1]" "\<not> ints waiting"
  "locks waiting = [2 \<mapsto> \<lparr>lock_flag = True, thread_holding_lock = 0, lock_wq = 3\<rparr>]"
  "state waiting t = (if t = 0 then READY else if t = 1 then SLEEP else if valid_tid t then UNINITIALIZED else READY)"
  "context_of (array_of_threads waiting 0) = [FYield True 1, FUser]"
  by (simp_all add: waiting_def slept_def ready_queue_def RQ_def) (simp_all add: ready_queue_def [unfolded RQ_def, symmetric])

lemma reachable_waiting:
  "reachable (Running waiting (Calling (Yield THREAD_ANY)) [FLockAcquire 2 True, FUser, FStubExit])" (is "reachable (Running _ _ ?ls)")
proof -
  have "call_step (LockAcquire (Some 2)) [FUser, FStubExit] (yielded\<lparr>ints := True\<rparr>) =
      Some (Running yielded (Calling (Sleep (Some 3))) ?ls)"
    by (simp add: lock_acquire_def lock_acquire_loop_def interrupts_set_def)
  then have r: "reachable (Running yielded (Calling (Sleep (Some 3))) ?ls)"
    by (intro reachable.next_step [OF reachable_yielded step.user [of _ "LockAcquire (Some 2)"]]) simp_all
  have "call_step (Sleep (Some 3)) ?ls yielded = Some (Running waiting (Calling (Yield THREAD_ANY)) ?ls)"
    using thread_sleep_ok [OF reachable_kernel_inv [OF r], of 3 "[]" ?ls] by (simp add: runnable_def RQ_def waiting_def)
  then show ?thesis by (rule reachable.next_step [OF r step.call])
qed

theorem lock_sleepers_are_woken_witness:
  "\<exists>k ks k'. reachable (Running k Resuming ks) \<and> queues k 3 = Some [1] \<and> state k 1 = SLEEP \<and>
     lock_release (Some 2) k = Some k' \<and> ready_queue k' = [1] \<and> state k' 1 = READY"
proof -
  let ?ls = "[FLockAcquire 2 True, FUser, FStubExit]"
  let ?k = "switched (FYield False 0 # ?ls) 0 False waiting"
  have "thread_yield THREAD_ANY ?ls waiting = Some (Running ?k Resuming [FYield True 1, FUser])"
    using yield_idle [OF reachable_waiting, of 0] by simp
  then have r: "reachable (Running ?k Resuming [FYield True 1, FUser])"
    by (intro reachable.next_step [OF reachable_waiting step.call]) simp
  have "queues ?k 3 = Some [1]" by (simp add: RQ_def)
  with lock_sleepers_are_woken [OF r, of 2 _ "[1]"] r show ?thesis
    by (intro exI [of _ ?k]) (auto simp: switched_sel ready_queue_switched RQ_def)
qed

end
