(* ===== verification/Thread_Interrupts.thy ===== *)
theory Thread_Interrupts
  imports Kernel_State
begin

text \<open>
  The preemption machinery of \<open>src/threads/interrupt.c\<close>: the signal mask behind the interrupt flag of the
  kernel model, the one-shot timer that the handler starts again, and the busy loop \<open>spin\<close>. The
  operations on the mask are shown to refine those on the flag, and the timer never stops for good.
\<close>

section \<open>Signals\<close>

text \<open>\<open>SIGALRM\<close> and the period of the timer in microseconds.\<close>

definition SIG_TYPE :: int where "SIG_TYPE = 14"

definition SIG_INTERVAL :: int where "SIG_INTERVAL = 200"

text \<open>What the process knows of signals: the mask, whether the handler is registered (\<open>init\<close>), whether
  its messages are on, the time to which the timer is set, and whether the signal is pending.\<close>

record signals =
  sig_mask :: "int set"
  registered :: bool
  loud :: bool
  timer :: "int option"
  pending :: bool

definition signals_init :: signals where
  "signals_init = \<lparr>sig_mask = {}, registered = False, loud = False, timer = None, pending = False\<rparr>"

datatype sig_how = SIG_BLOCK | SIG_UNBLOCK

text \<open>\<open>sigprocmask\<close>: the new mask, and the old one as the result.\<close>

definition sigprocmask :: "sig_how \<Rightarrow> int set \<Rightarrow> signals \<Rightarrow> int set \<times> signals" where
  "sigprocmask how sigs s =
     (sig_mask s, s\<lparr>sig_mask := (case how of SIG_BLOCK \<Rightarrow> sig_mask s \<union> sigs | SIG_UNBLOCK \<Rightarrow> sig_mask s - sigs)\<rparr>)"

definition set_signal :: "int set" where "set_signal = {SIG_TYPE}"

definition mask_interrupts_set :: "int \<Rightarrow> signals \<Rightarrow> int \<times> signals" where
  "mask_interrupts_set en s =
     (let (omask, s) = (if en \<noteq> 0 then sigprocmask SIG_UNBLOCK set_signal s else sigprocmask SIG_BLOCK set_signal s)
      in (if SIG_TYPE \<in> omask then 0 else 1, s))"

definition mask_interrupts_on :: "signals \<Rightarrow> int \<times> signals" where
  "mask_interrupts_on s = mask_interrupts_set 1 s"

definition mask_interrupts_off :: "signals \<Rightarrow> int \<times> signals" where
  "mask_interrupts_off s = mask_interrupts_set 0 s"

definition mask_interrupts_enabled :: "signals \<Rightarrow> int" where
  "mask_interrupts_enabled s = (if SIG_TYPE \<in> sig_mask s then 0 else 1)"

definition interrupts_quiet :: "signals \<Rightarrow> signals" where
  "interrupts_quiet s = s\<lparr>loud := False\<rparr>"

text \<open>\<open>unintr_printf\<close>: \<open>ret\<close> is what \<open>vprintf\<close> returns.\<close>

definition unintr_printf :: "int \<Rightarrow> signals \<Rightarrow> int \<times> signals" where
  "unintr_printf ret s =
     (let (en, s) = mask_interrupts_off s; (_, s) = mask_interrupts_set en s in (ret, s))"

definition set_interrupt :: "signals \<Rightarrow> signals" where
  "set_interrupt s = s\<lparr>timer := Some SIG_INTERVAL\<rparr>"

definition register_interrupt_handler :: "bool \<Rightarrow> signals \<Rightarrow> signals option" where
  "register_interrupt_handler verbose s = do {
     _ \<leftarrow> c_assert (\<not> registered s);
     Some (set_interrupt (s\<lparr>registered := True, loud := verbose\<rparr>)) }"

text \<open>The handler up to its call of \<open>thread_yield\<close>. The signal is in the mask while it runs, because \<open>sa_mask\<close> is
  empty and \<open>SA_NODEFER\<close> is not set.\<close>

definition deliver :: "signals \<Rightarrow> signals" where
  "deliver s = s\<lparr>pending := False, sig_mask := insert SIG_TYPE (sig_mask s)\<rparr>"

definition interrupt_handler :: "signals \<Rightarrow> signals option" where
  "interrupt_handler s = do { _ \<leftarrow> c_assert (mask_interrupts_enabled s = 0); Some (set_interrupt s) }"

text \<open>The signals while the program runs: the library and the program change the mask, \<open>setcontext\<close> and the return
  from the handler install a saved one, the timer expires, the signal is delivered.\<close>

inductive sig_step :: "signals \<Rightarrow> signals \<Rightarrow> bool" where
  register: "register_interrupt_handler v s = Some s' \<Longrightarrow> sig_step s s'"
| change: "sig_step s (snd (mask_interrupts_set b s))"
| restore: "sig_step s (s\<lparr>sig_mask := m\<rparr>)"
| quiet: "sig_step s (interrupts_quiet s)"
| expire: "timer s \<noteq> None \<Longrightarrow> sig_step s (s\<lparr>timer := None, pending := True\<rparr>)"
| handle: "pending s \<Longrightarrow> SIG_TYPE \<notin> sig_mask s \<Longrightarrow> interrupt_handler (deliver s) = Some s' \<Longrightarrow> sig_step s s'"

inductive sig_reach :: "signals \<Rightarrow> bool" where
  sig_start: "sig_reach signals_init"
| sig_next: "sig_reach s \<Longrightarrow> sig_step s s' \<Longrightarrow> sig_reach s'"

section \<open>The busy loop\<close>

text \<open>\<open>clock i\<close> is what call \<open>i\<close> of \<open>gettimeofday\<close> stores, in microseconds. The result is the number of calls.\<close>

partial_function (option) spin_loop :: "int \<Rightarrow> (nat \<Rightarrow> int) \<Rightarrow> nat \<Rightarrow> nat option" where
  "spin_loop usecs clock i =
     (if usecs \<le> clock i - clock 0 then Some i else spin_loop usecs clock (Suc i))"

definition spin :: "int \<Rightarrow> (nat \<Rightarrow> int) \<Rightarrow> nat option" where
  "spin usecs clock = spin_loop usecs clock 1"

section \<open>The flag\<close>

text \<open>The kernel model's flag and the mask.\<close>

definition masks :: "kernel \<Rightarrow> signals \<Rightarrow> bool" where
  "masks k s \<longleftrightarrow> (ints k \<longleftrightarrow> SIG_TYPE \<notin> sig_mask s)"

lemma masks_set:
  assumes "masks k s"
  shows "masks (snd (interrupts_set (b \<noteq> 0) k)) (snd (mask_interrupts_set b s))"
    "fst (mask_interrupts_set b s) = of_bool (fst (interrupts_set (b \<noteq> 0) k))"
  using assms by (auto simp: masks_def mask_interrupts_set_def interrupts_set_def sigprocmask_def set_signal_def)

section \<open>The timer\<close>

lemma armed_step:
  assumes "sig_step s s'" "registered s \<longrightarrow> timer s \<noteq> None \<or> pending s"
  shows "registered s' \<longrightarrow> timer s' \<noteq> None \<or> pending s'"
  using assms
  by cases (auto simp: register_interrupt_handler_def set_interrupt_def mask_interrupts_set_def sigprocmask_def
      interrupts_quiet_def interrupt_handler_def bind_c_assert_Some)

lemma sig_reach_armed: "sig_reach s \<Longrightarrow> registered s \<longrightarrow> timer s \<noteq> None \<or> pending s"
  by (induction rule: sig_reach.induct) (auto simp: signals_init_def dest: armed_step)

lemma handler_runs: "\<exists>s'. interrupt_handler (deliver s) = Some s' \<and> timer s' = Some SIG_INTERVAL"
  by (simp add: interrupt_handler_def deliver_def mask_interrupts_enabled_def set_interrupt_def)

lemma spin_loop_least:
  assumes "usecs \<le> clock (i + n) - clock 0" "\<forall>j < n. clock (i + j) - clock 0 < usecs"
  shows "spin_loop usecs clock i = Some (i + n)"
  using assms
proof (induction n arbitrary: i)
  case 0
  then show ?case by (subst spin_loop.simps) simp
next
  case (Suc n)
  have "clock i - clock 0 < usecs" using Suc.prems(2) by force
  moreover have "spin_loop usecs clock (Suc i) = Some (Suc i + n)"
    using Suc.prems by (intro Suc.IH) force+
  ultimately show ?case by (subst spin_loop.simps) simp
qed

lemma spin_loop_elapsed: "spin_loop usecs clock i = Some n \<Longrightarrow> i \<le> n \<and> usecs \<le> clock n - clock 0"
proof (rule spin_loop.raw_induct [where P = "\<lambda>u c i n. i \<le> n \<and> u \<le> c n - c 0"])
  fix rec :: "int \<Rightarrow> (nat \<Rightarrow> int) \<Rightarrow> nat \<Rightarrow> nat option" and u c i n
  assume IH: "\<And>u c i n. rec u c i = Some n \<Longrightarrow> i \<le> n \<and> u \<le> c n - c 0"
    and r: "(if u \<le> c i - c 0 then Some i else rec u c (Suc i)) = Some n"
  show "i \<le> n \<and> u \<le> c n - c 0"
    using IH [of u c "Suc i" n] r by (auto split: if_splits)
qed

section \<open>Properties\<close>

text \<open>The operations on the signal mask refine the interrupt flag of the kernel model: \<open>interrupts_set\<close>
  leaves mask and flag in agreement and returns the previous state as 0 or 1, \<open>interrupts_enabled\<close> reads it,
  and \<open>unintr_printf\<close> leaves it as it was.\<close>

theorem mask_refines_flag:
  assumes "masks k s"
  shows "masks (snd (interrupts_set (b \<noteq> 0) k)) (snd (mask_interrupts_set b s)) \<and>
    fst (mask_interrupts_set b s) = of_bool (fst (interrupts_set (b \<noteq> 0) k)) \<and>
    mask_interrupts_enabled s = of_bool (interrupts_enabled k) \<and> masks k (snd (unintr_printf r s))"
  using assms masks_set [OF assms, of b]
  by (auto simp: masks_def mask_interrupts_enabled_def interrupts_enabled_def unintr_printf_def mask_interrupts_off_def
      mask_interrupts_set_def sigprocmask_def set_signal_def)

theorem mask_refines_flag_witness:
  "fst (mask_interrupts_set 0 signals_init) = 1 \<and> (\<exists>k. masks k signals_init \<and> ints k)"
proof -
  fix k :: kernel
  have "masks (k\<lparr>ints := True\<rparr>) signals_init" by (simp add: masks_def signals_init_def)
  with mask_refines_flag [OF this, of 0 0] show ?thesis
    by (auto simp: interrupts_set_def intro!: exI [of _ "k\<lparr>ints := True\<rparr>"])
qed

text \<open>C38: Preemption never stops: once the handler is registered, in every reachable state the one-shot timer
  is set or its signal is pending, so wherever the signal is not blocked the handler can run after at
  most one expiry; its assertion holds, and it sets the timer again.\<close>

theorem timer_never_stops:
  assumes "sig_reach s" "registered s" "SIG_TYPE \<notin> sig_mask s"
  shows "\<exists>s1 s2. (s1 = s \<or> sig_step s s1) \<and> pending s1 \<and> interrupt_handler (deliver s1) = Some s2 \<and> sig_step s1 s2 \<and>
    timer s2 = Some SIG_INTERVAL"
proof -
  from sig_reach_armed [OF assms(1)] assms(2) consider "pending s" | "timer s \<noteq> None" by blast
  then have "\<exists>s1. (s1 = s \<or> sig_step s s1) \<and> pending s1 \<and> SIG_TYPE \<notin> sig_mask s1"
  proof cases
    case 1
    then show ?thesis using assms(3) by blast
  next
    case 2
    then have "sig_step s (s\<lparr>timer := None, pending := True\<rparr>)" by (rule sig_step.expire)
    then show ?thesis using assms(3) by (intro exI [of _ "s\<lparr>timer := None, pending := True\<rparr>"]) simp
  qed
  then obtain s1 where s1: "s1 = s \<or> sig_step s s1" "pending s1" "SIG_TYPE \<notin> sig_mask s1" by blast
  obtain s2 where s2: "interrupt_handler (deliver s1) = Some s2" "timer s2 = Some SIG_INTERVAL" using handler_runs by blast
  with s1 sig_step.handle [OF s1(2,3) s2(1)] show ?thesis by blast
qed

theorem timer_never_stops_witness:
  "\<exists>s. register_interrupt_handler False signals_init = Some s \<and> sig_reach s \<and>
     (\<exists>s1 s2. pending s1 \<and> interrupt_handler (deliver s1) = Some s2 \<and> timer s2 = Some SIG_INTERVAL)"
proof -
  let ?s = "set_interrupt (signals_init\<lparr>registered := True, loud := False\<rparr>)"
  have r: "register_interrupt_handler False signals_init = Some ?s"
    by (simp add: register_interrupt_handler_def signals_init_def)
  then have "sig_reach ?s" by (rule sig_next [OF sig_start sig_step.register])
  moreover from timer_never_stops [OF this] have
    "\<exists>s1 s2. pending s1 \<and> interrupt_handler (deliver s1) = Some s2 \<and> timer s2 = Some SIG_INTERVAL"
    by (auto simp: set_interrupt_def signals_init_def)
  ultimately show ?thesis using r by blast
qed

text \<open>\<open>spin\<close> returns if and only if the clock ever shows the time, and not before.\<close>

theorem spin_returns_iff:
  "(\<exists>n. spin usecs clock = Some n \<and> usecs \<le> clock n - clock 0) \<longleftrightarrow> (\<exists>n \<ge> 1. usecs \<le> clock n - clock 0)"
proof
  assume "\<exists>n. spin usecs clock = Some n \<and> usecs \<le> clock n - clock 0"
  then show "\<exists>n \<ge> 1. usecs \<le> clock n - clock 0" using spin_loop_elapsed [of usecs clock 1] by (auto simp: spin_def)
next
  assume "\<exists>n \<ge> 1. usecs \<le> clock n - clock 0"
  then have "\<exists>n. usecs \<le> clock (1 + n) - clock 0" by (metis le_Suc_ex)
  then obtain n where n: "usecs \<le> clock (1 + n) - clock 0" "\<forall>j < n. clock (1 + j) - clock 0 < usecs"
    using exists_least_iff [of "\<lambda>n. usecs \<le> clock (1 + n) - clock 0"] by (auto simp: not_le)
  then show "\<exists>n. spin usecs clock = Some n \<and> usecs \<le> clock n - clock 0"
    using spin_loop_least [of usecs clock 1 n] by (auto simp: spin_def)
qed

end
