(* ===== verification/C_Strings.thy ===== *)
theory C_Strings
  imports Prelude "HOL-Library.Word"
begin

text \<open>
  What the programs use of C's library on strings and numbers: the 32-bit \<open>int\<close>, strings that
  end in a NUL, searching and splitting them, and decimal numbers.
\<close>

section \<open>Strings and 32-bit arithmetic\<close>

definition s32 :: "int \<Rightarrow> int" where "s32 x = signed_take_bit 31 x"

lemma s32_id: "- (2 ^ 31) \<le> x \<Longrightarrow> x < 2 ^ 31 \<Longrightarrow> s32 x = x"
  by (simp add: s32_def signed_take_bit_int_eq_self)

lemma s32_s32_diff: "s32 (s32 a - b) = s32 (a - b)"
proof -
  have "take_bit 32 (signed_take_bit 31 a) = take_bit 32 a"
    using take_bit_signed_take_bit [of 32 31 a] by simp
  then have "take_bit 32 (signed_take_bit 31 a - b) = take_bit 32 (a - b)"
    by (metis take_bit_diff)
  then have "take_bit (Suc 31) (signed_take_bit 31 a - b) = take_bit (Suc 31) (a - b)" by simp
  then show ?thesis unfolding s32_def by (simp only: signed_take_bit_eq_iff_take_bit_eq)
qed

definition NUL :: char where "NUL = CHR 0x00"

text \<open>The string in a buffer, and \<open>strdup\<close>: it reads the buffer and, when no NUL ends the string
  there, the bytes \<open>slack\<close> behind it; with no NUL in these it runs into memory that is not the
  program's. \<open>strdup(NULL)\<close> is a fault too.\<close>

definition c_str :: "char list \<Rightarrow> char list" where
  "c_str bs = takeWhile (\<lambda>c. c \<noteq> NUL) bs"

definition c_strdup :: "char list \<Rightarrow> char list option \<Rightarrow> char list option" where
  "c_strdup slack b = (case b of None \<Rightarrow> None
     | Some bs \<Rightarrow> if NUL \<in> set (bs @ slack) then Some (c_str (bs @ slack) @ [NUL]) else None)"

lemma c_str_line: "NUL \<notin> set l \<Longrightarrow> c_str (l @ NUL # rest) = l"
  unfolding c_str_def by (induction l) auto

section \<open>Printing, searching and splitting\<close>

fun dec :: "nat \<Rightarrow> char list" where
  "dec n = (if n < 10 then [char_of (48 + n)] else dec (n div 10) @ [char_of (48 + n mod 10)])"

declare dec.simps [simp del]

definition print_d :: "int \<Rightarrow> char list" where
  "print_d i = (if i < 0 then CHR ''-'' # dec (nat (- i)) else dec (nat i))"

definition print_u :: "32 word \<Rightarrow> char list" where
  "print_u w = dec (unat w)"

fun strstr :: "char list \<Rightarrow> char list \<Rightarrow> char list option" where
  "strstr [] needle = (if needle = [] then Some [] else None)"
| "strstr (c # cs) needle = (if take (length needle) (c # cs) = needle then Some (c # cs) else strstr cs needle)"

fun strrchr :: "char list \<Rightarrow> char \<Rightarrow> char list option" where
  "strrchr [] c = None"
| "strrchr (d # ds) c = (case strrchr ds c of Some s \<Rightarrow> Some s | None \<Rightarrow> if d = c then Some (d # ds) else None)"

definition isspace :: "char \<Rightarrow> bool" where
  "isspace c \<longleftrightarrow> c = CHR '' '' \<or> c \<in> {CHR 0x09, CHR 0x0A, CHR 0x0B, CHR 0x0C, CHR 0x0D}"

text \<open>\<open>sscanf\<close> with \<open>k\<close> conversions \<open>%s\<close>: the words converted, at most \<open>k\<close>.\<close>

fun sscanf_s :: "nat \<Rightarrow> char list \<Rightarrow> char list list" where
  "sscanf_s 0 s = []"
| "sscanf_s (Suc k) s =
     (let s = dropWhile isspace s; w = takeWhile (\<lambda>c. \<not> isspace c) s
      in if w = [] then [] else w # sscanf_s k (dropWhile (\<lambda>c. \<not> isspace c) s))"

definition tolower :: "char \<Rightarrow> char" where
  "tolower c = (let n = of_char c :: nat in if 65 \<le> n \<and> n \<le> 90 then char_of (n + 32) else c)"

definition strcasecmp_eq :: "char list \<Rightarrow> char list \<Rightarrow> bool" where
  "strcasecmp_eq s t \<longleftrightarrow> map tolower s = map tolower t"

section \<open>Decimal numbers\<close>

definition isdigit :: "char \<Rightarrow> bool" where
  "isdigit c \<longleftrightarrow> 48 \<le> (of_char c :: nat) \<and> (of_char c :: nat) \<le> 57"

definition digits_value :: "char list \<Rightarrow> nat" where
  "digits_value ds = foldl (\<lambda>a c. a * 10 + (of_char c - 48)) 0 ds"

lemma of_char_digit: "k < 10 \<Longrightarrow> (of_char (char_of (48 + k :: nat)) :: nat) = 48 + k"
  by (simp add: of_char_of)

lemma isdigit_digit: "k < 10 \<Longrightarrow> isdigit (char_of (48 + k :: nat))"
  by (simp add: isdigit_def of_char_digit)

lemma digits_value_snoc: "digits_value (ds @ [c]) = digits_value ds * 10 + (of_char c - 48)"
  by (simp add: digits_value_def)

lemma dec_digits: "(\<forall>c \<in> set (dec n). isdigit c) \<and> dec n \<noteq> [] \<and> digits_value (dec n) = n"
proof (induction n rule: dec.induct)
  case (1 n)
  show ?case
  proof (cases "n < 10")
    case True
    then show ?thesis
      by (subst (1 2 3) dec.simps) (simp add: isdigit_digit of_char_digit digits_value_def)
  next
    case False
    have "n div 10 * 10 + n mod 10 = n" by simp
    with 1 False show ?thesis
      by (subst (1 2 3) dec.simps) (simp add: isdigit_digit of_char_digit digits_value_snoc)
  qed
qed

lemma isdigit_not_space: "isdigit c \<Longrightarrow> \<not> isspace c \<and> c \<noteq> CHR ''-'' \<and> c \<noteq> CHR ''+''"
  by (auto simp: isdigit_def isspace_def)

lemma length_dec: "n < 10 ^ Suc k \<Longrightarrow> length (dec n) \<le> Suc k"
proof (induction k arbitrary: n)
  case 0
  then show ?case by (subst dec.simps) simp
next
  case (Suc k)
  show ?case
  proof (cases "n < 10")
    case True
    then show ?thesis by (subst dec.simps) simp
  next
    case False
    have "n div 10 < 10 ^ Suc k" using Suc.prems by (simp add: div_less_iff_less_mult)
    from Suc.IH [OF this] False show ?thesis by (subst dec.simps) simp
  qed
qed

lemma unat_32_less: "unat w < 2 ^ 32" for w :: "32 word"
  using unsigned_less [of w, where ?'a = nat] by simp

end
