(* ===== verification/Thread_Demos.thy ===== *)
theory Thread_Demos
  imports Thread_Interrupts C_Strings
begin

text \<open>
  The demonstrations of the thread library: \<open>src/threads/show_handler.c\<close>, which tests that interrupts are on and off when
  they should be, and \<open>src/threads/show_ucontext.c\<close>, which looks for its own code in \<open>/proc\<close> and goes back with \<open>setcontext\<close>.
  When the timer expires and the handler runs, what is in the file and the addresses are parameters.
\<close>

section \<open>show\_handler.c\<close>

text \<open>What happens while the program is in its own code: the timer expires, and the handler runs and comes back, because \<open>thread_yield\<close>
  finds no other thread; its return restores the mask.\<close>

inductive background :: "signals \<Rightarrow> signals \<Rightarrow> bool" where
  nothing: "background s s"
| expires: "background s t \<Longrightarrow> timer t \<noteq> None \<Longrightarrow> background s (t\<lparr>timer := None, pending := True\<rparr>)"
| handled: "background s t \<Longrightarrow> pending t \<Longrightarrow> SIG_TYPE \<notin> sig_mask t \<Longrightarrow> interrupt_handler (deliver t) = Some u \<Longrightarrow>
    background s (u\<lparr>sig_mask := sig_mask t\<rparr>)"

text \<open>\<open>env t\<close> is what happens at the moment \<open>t\<close>. The loop of \<open>test\<close> for \<open>n\<close> more rounds; a failed assertion is \<open>None\<close>.\<close>

fun test_loop :: "(nat \<Rightarrow> signals \<Rightarrow> signals) \<Rightarrow> int \<Rightarrow> nat \<Rightarrow> nat \<Rightarrow> signals \<Rightarrow> (nat \<times> signals) option" where
  "test_loop env en 0 t s = Some (t, s)"
| "test_loop env en (Suc n) t s =
     (let s = env t s; (_, s) = unintr_printf 1 s; s = env (Suc t) s; is_enabled = mask_interrupts_enabled s
      in do { _ \<leftarrow> c_assert (en = is_enabled); test_loop env en n (t + 2) s })"

definition demo_test :: "(nat \<Rightarrow> signals \<Rightarrow> signals) \<Rightarrow> int \<Rightarrow> nat \<Rightarrow> signals \<Rightarrow> (nat \<times> signals) option" where
  "demo_test env en t s = do {
     (t, s) \<leftarrow> test_loop env en 16 t s;
     let (_, s) = unintr_printf 1 s;
     Some (Suc t, env t s) }"

definition show_handler :: "(nat \<Rightarrow> signals \<Rightarrow> signals) \<Rightarrow> signals \<Rightarrow> signals option" where
  "show_handler env s = do {
     s \<leftarrow> register_interrupt_handler True s;
     (t, s) \<leftarrow> demo_test env 1 0 s;
     let (en, s) = mask_interrupts_off s;
     _ \<leftarrow> c_assert (en \<noteq> 0);
     (t, s) \<leftarrow> demo_test env 0 t s;
     let (en, s) = mask_interrupts_off s;
     _ \<leftarrow> c_assert (en = 0);
     (t, s) \<leftarrow> demo_test env 0 t s;
     let (en, s) = mask_interrupts_set 1 s;
     _ \<leftarrow> c_assert (en = 0);
     (t, s) \<leftarrow> demo_test env 1 t s;
     let (en, s) = mask_interrupts_set 1 s;
     _ \<leftarrow> c_assert (en \<noteq> 0);
     (t, s) \<leftarrow> demo_test env 1 t s;
     Some s }"

text \<open>What a moment in the background leaves as it is.\<close>

definition live :: "bool \<Rightarrow> signals \<Rightarrow> bool" where
  "live en s \<longleftrightarrow> (en \<longleftrightarrow> SIG_TYPE \<notin> sig_mask s) \<and> (timer s \<noteq> None \<or> pending s)"

lemma background_live: "background s t \<Longrightarrow> live en s \<Longrightarrow> live en t"
proof (induction rule: background.induct)
  case (handled s t u)
  then show ?case by (auto simp: live_def interrupt_handler_def set_interrupt_def)
qed (auto simp: live_def)

lemma live_printf: "live en s \<Longrightarrow> live en (snd (unintr_printf r s))"
  by (auto simp: live_def unintr_printf_def mask_interrupts_off_def mask_interrupts_set_def sigprocmask_def set_signal_def)

lemma live_enabled: "live en s \<Longrightarrow> mask_interrupts_enabled s = of_bool en"
  by (auto simp: live_def mask_interrupts_enabled_def)

lemma live_set: "live en s \<Longrightarrow> fst (mask_interrupts_set b s) = of_bool en \<and> live (b \<noteq> 0) (snd (mask_interrupts_set b s))"
  by (auto simp: live_def mask_interrupts_set_def sigprocmask_def set_signal_def)

lemma test_loop_passes:
  assumes "\<forall>t s. background s (env t s)" "live en s"
  shows "\<exists>t' s'. test_loop env (of_bool en) n t s = Some (t', s') \<and> live en s'"
  using assms(2)
proof (induction n arbitrary: t s)
  case (Suc n)
  let ?s = "env (Suc t) (snd (unintr_printf 1 (env t s)))"
  have "live en ?s" using assms(1) Suc.prems background_live live_printf by blast
  with Suc.IH [OF this, of "t + 2"] live_enabled [OF this] show ?case by (simp add: Let_def case_prod_unfold)
qed simp

lemma demo_test_passes:
  assumes "\<forall>t s. background s (env t s)" "live en s"
  shows "\<exists>t' s'. demo_test env (of_bool en) t s = Some (t', s') \<and> live en s'"
proof -
  from test_loop_passes [OF assms, of 16 t] obtain t' s' where l: "test_loop env (of_bool en) 16 t s = Some (t', s')" "live en s'" by blast
  have "live en (env t' (snd (unintr_printf 1 s')))" using assms(1) l(2) background_live live_printf by blast
  with l(1) show ?thesis by (simp add: demo_test_def case_prod_unfold)
qed

section \<open>show\_ucontext.c\<close>

text \<open>\<open>fgets\<close> of at most \<open>n\<close> bytes: the line and the rest of the file; no byte is \<open>NULL\<close>.\<close>

fun fgets :: "nat \<Rightarrow> char list \<Rightarrow> char list \<times> char list" where
  "fgets 0 f = ([], f)"
| "fgets (Suc n) [] = ([], [])"
| "fgets (Suc n) (c # f) = (if c = CHR 0x0A then ([c], f) else let (l, r) = fgets n f in (c # l, r))"

definition isxdigit :: "char \<Rightarrow> bool" where
  "isxdigit c \<longleftrightarrow> (let n = of_char c :: nat in 48 \<le> n \<and> n \<le> 57 \<or> 65 \<le> n \<and> n \<le> 70 \<or> 97 \<le> n \<and> n \<le> 102)"

definition hex_value :: "char list \<Rightarrow> nat" where
  "hex_value ds = foldl (\<lambda>a c. a * 16 + (let n = of_char c in if n \<le> 57 then n - 48 else if n \<le> 70 then n - 55 else n - 87)) 0 ds"

text \<open>The conversion \<open>%lx\<close> of \<open>sscanf\<close>: the value, and what is left of the text.\<close>

definition scan_lx :: "char list \<Rightarrow> (64 word \<times> char list) option" where
  "scan_lx s =
     (let s = dropWhile isspace s; neg = (s \<noteq> [] \<and> hd s = CHR ''-'');
          s = (if s \<noteq> [] \<and> hd s \<in> {CHR ''-'', CHR ''+''} then tl s else s);
          s = (if take 2 s = ''0x'' \<or> take 2 s = ''0X'' then drop 2 s else s);
          ds = takeWhile isxdigit s; v = hex_value ds
      in if ds = [] then None
         else Some (if 2 ^ 64 \<le> v then - 1 else if neg then - of_nat v else of_nat v, dropWhile isxdigit s))"

text \<open>\<open>sscanf(line, "%lx-%lx %*c%*c%c%*c ", startp, endp, &ex)\<close>: the number of conversions stored, and the three variables.\<close>

type_synonym region = "64 word \<times> 64 word \<times> char"

definition scan_region :: "char list \<Rightarrow> region \<Rightarrow> int \<times> region" where
  "scan_region line r =
     (if dropWhile isspace line = [] then (-1, r)
      else case (r, scan_lx line) of
        ((start, ed, ex), None) \<Rightarrow> (0, r)
      | ((start, ed, ex), Some (a, s)) \<Rightarrow>
          if s = [] \<or> hd s \<noteq> CHR ''-'' then (1, a, ed, ex)
          else (case scan_lx (tl s) of
              None \<Rightarrow> (1, a, ed, ex)
            | Some (b, s) \<Rightarrow> let s = dropWhile isspace s in if length s < 3 then (2, a, b, ex) else (3, a, b, s ! 2)))"

lemma fgets_append: "fgets n f = (l, r) \<Longrightarrow> f = l @ r"
  by (induction n f arbitrary: l r rule: fgets.induct) (auto split: if_splits prod.splits)

lemma fgets_shorter: "(l, r) = fgets n f \<Longrightarrow> l \<noteq> [] \<Longrightarrow> length r < length f"
  using fgets_append [of n f l r] by simp

text \<open>The loop over the lines of \<open>/proc/<pid>/maps\<close>.\<close>

function get_start_end :: "char list \<Rightarrow> region \<Rightarrow> region" where
  "get_start_end f r =
     (let (line, f') = fgets 255 f; (matches, r) = (if line \<noteq> [] then scan_region line r else (-1, r))
      in if snd (snd r) \<noteq> CHR ''x'' \<and> 0 < matches then get_start_end f' r else r)"
  by pat_completeness auto
termination
  by (relation "measure (length \<circ> fst)") (auto simp: fgets_shorter split: if_splits)

declare get_start_end.simps [simp del]

text \<open>What is printed, in order: a label and a number. \<open>infos\<close> are the addresses and sizes.\<close>

type_synonym printed = "(char list \<times> int) list"

definition show_interrupt :: "signals \<Rightarrow> printed \<times> signals" where
  "show_interrupt s =
     (let (_, s) = mask_interrupts_on s;
          context_mask = sig_mask s; out = [(''interrupt is disabled'', if SIG_TYPE \<in> context_mask then 1 else 0)];
          (_, s) = mask_interrupts_off s;
          context_mask = sig_mask s; out = out @ [(''interrupt is disabled'', if SIG_TYPE \<in> context_mask then 1 else 0)]
      in (out, s))"

text \<open>Addresses in the process when \<open>getcontext\<close> is called.\<close>

record addresses =
  ad_main :: int
  ad_rip :: int
  ad_argc :: int
  ad_argv :: int
  ad_called :: int
  ad_err :: int
  ad_rsp :: int
  ad_stack :: int
  ad_size :: int

definition context_infos :: "addresses \<Rightarrow> region \<Rightarrow> printed" where
  "context_infos ad r =
     [(''start'', uint (fst r)), (''end'', uint (fst (snd r))), (''ucontext_t size'', ad_size ad),
      (''memory address of main()'', ad_main ad), (''memory address of the program counter (RIP) saved in mycontext'', ad_rip ad),
      (''argc'', ad_argc ad), (''argv'', ad_argv ad),
      (''memory address of the variable setcontext_called'', ad_called ad), (''memory address of the variable err'', ad_err ad),
      (''number of bytes pushed to the stack between setcontext_called and err'', 4 * ((ad_called ad - ad_err ad) div 4)),
      (''stack pointer register (RSP) stored in mycontext'', ad_rsp ad),
      (''number of bytes between err and the saved stack in mycontext'', ad_err ad - ad_rsp ad),
      (''value of uc_stack.ss_sp'', ad_stack ad)]"

text \<open>\<open>main\<close> from the point where \<open>getcontext\<close> returns, the first time or through \<open>setcontext\<close>, which installs the saved registers and the saved
  signal mask and leaves the memory as it is. \<open>in_memory\<close> says whether \<open>setcontext_called\<close> is on the stack, as \<open>volatile\<close> makes sure, or in a
  register whose saved value is \<open>reg\<close>.\<close>

partial_function (option) after_getcontext ::
  "bool \<Rightarrow> addresses \<Rightarrow> char list \<Rightarrow> region \<Rightarrow> int \<Rightarrow> int set \<Rightarrow> int \<Rightarrow> printed \<Rightarrow> signals \<Rightarrow> (printed \<times> signals) option"
where
  "after_getcontext in_memory ad maps r reg saved_mask setcontext_called out s =
     (let out = out @ [(''main: setcontext_called'', setcontext_called)]
      in if setcontext_called = 1 then (let (o', s) = show_interrupt s in Some (out @ o', s))
         else let r = get_start_end maps r; out = out @ context_infos ad r; setcontext_called = 1
           in after_getcontext in_memory ad maps r reg saved_mask (if in_memory then setcontext_called else reg) out
                (s\<lparr>sig_mask := saved_mask\<rparr>))"

definition show_ucontext :: "bool \<Rightarrow> addresses \<Rightarrow> char list \<Rightarrow> region \<Rightarrow> signals \<Rightarrow> (printed \<times> signals) option" where
  "show_ucontext in_memory ad maps r s =
     (let setcontext_called = 0 in after_getcontext in_memory ad maps r setcontext_called (sig_mask s) setcontext_called [] s)"

section \<open>Reading the map\<close>

text \<open>A line: the digits of the start and the end, and the rest, which begins with the permissions.\<close>

definition map_line :: "char list \<times> char list \<times> char list \<Rightarrow> char list" where
  "map_line l = fst l @ CHR ''-'' # fst (snd l) @ CHR '' '' # snd (snd l) @ [CHR 0x0A]"

definition map_entry :: "char list \<times> char list \<times> char list \<Rightarrow> bool" where
  "map_entry l \<longleftrightarrow> (case l of (a, b, p) \<Rightarrow>
     a \<noteq> [] \<and> b \<noteq> [] \<and> (\<forall>c \<in> set (a @ b). isxdigit c) \<and> hex_value a < 2 ^ 64 \<and> hex_value b < 2 ^ 64 \<and>
     3 \<le> length p \<and> \<not> isspace (hd p) \<and> CHR 0x0A \<notin> set p \<and> length (map_line l) \<le> 255)"

lemma fgets_end [simp]: "fgets n [] = ([], [])"
  by (cases n) simp_all

lemma fgets_line: "CHR 0x0A \<notin> set l \<Longrightarrow> length l < n \<Longrightarrow> fgets n (l @ CHR 0x0A # rest) = (l @ [CHR 0x0A], rest)"
proof (induction l arbitrary: n)
  case Nil
  then show ?case by (cases n) auto
next
  case (Cons c l)
  then show ?case by (cases n) auto
qed

lemma xdigit_plain: "isxdigit c \<Longrightarrow> \<not> isspace c \<and> c \<noteq> CHR ''-'' \<and> c \<noteq> CHR ''+'' \<and> c \<noteq> CHR ''x'' \<and> c \<noteq> CHR ''X'' \<and> c \<noteq> CHR 0x0A"
  by (auto simp: isxdigit_def isspace_def Let_def)

lemma scan_lx_digits:
  assumes "ds \<noteq> []" "\<forall>c \<in> set ds. isxdigit c" "\<not> isxdigit c" "c \<noteq> CHR ''x''" "c \<noteq> CHR ''X''" "hex_value ds < 2 ^ 64"
  shows "scan_lx (ds @ c # rest) = Some (of_nat (hex_value ds), c # rest)"
proof -
  obtain d ds' where d: "ds = d # ds'" using assms(1) by (cases ds) auto
  have pd: "\<not> isspace d" "d \<noteq> CHR ''-''" "d \<noteq> CHR ''+''" using xdigit_plain [of d] assms(2) d by auto
  have "take 2 (ds @ c # rest) \<noteq> ''0x'' \<and> take 2 (ds @ c # rest) \<noteq> ''0X''"
    using d xdigit_plain assms(2,4,5) by (cases ds') (auto simp: numeral_2_eq_2)
  moreover have "takeWhile isxdigit (ds @ c # rest) = ds" "dropWhile isxdigit (ds @ c # rest) = c # rest"
    using assms(2,3) by (simp_all add: takeWhile_append dropWhile_append)
  moreover have "dropWhile isspace (ds @ c # rest) = ds @ c # rest" "hd (ds @ c # rest) = d" using pd d by simp_all
  ultimately show ?thesis using pd assms(1,6) by (simp add: scan_lx_def Let_def)
qed

lemma scan_region_line:
  assumes "map_entry (a, b, p)"
  shows "scan_region (map_line (a, b, p)) (start, ed, ex) = (3, of_nat (hex_value a), of_nat (hex_value b), p ! 2)"
proof -
  have A: "a \<noteq> []" "b \<noteq> []" "\<forall>c \<in> set a. isxdigit c" "\<forall>c \<in> set b. isxdigit c" "hex_value a < 2 ^ 64" "hex_value b < 2 ^ 64"
    "3 \<le> length p" "\<not> isspace (hd p)" using assms by (auto simp: map_entry_def)
  have x: "\<not> isxdigit CHR ''-''" "\<not> isxdigit CHR '' ''" by (simp_all add: isxdigit_def)
  note s1 = scan_lx_digits [OF A(1,3) x(1) _ _ A(5), of "b @ CHR '' '' # p @ [CHR 0x0A]"]
  note s2 = scan_lx_digits [OF A(2,4) x(2) _ _ A(6), of "p @ [CHR 0x0A]"]
  have p: "dropWhile isspace (CHR '' '' # p @ [CHR 0x0A]) = p @ [CHR 0x0A]" using A(7,8) by (cases p) (auto simp: isspace_def)
  have "dropWhile isspace (map_line (a, b, p)) \<noteq> []" using A(1,3) xdigit_plain by (cases a) (auto simp: map_line_def)
  then show ?thesis using s1 s2 p A(7) by (simp add: scan_region_def map_line_def nth_append)
qed

lemma fgets_map_line: "map_entry l \<Longrightarrow> fgets 255 (map_line l @ rest) = (map_line l, rest)"
proof -
  assume e: "map_entry l"
  let ?l = "fst l @ CHR ''-'' # fst (snd l) @ CHR '' '' # snd (snd l)"
  have "CHR 0x0A \<notin> set ?l" "length ?l < 255" using e xdigit_plain [of "CHR 0x0A"] by (auto simp: map_entry_def map_line_def)
  from fgets_line [OF this, of rest] show ?thesis by (simp add: map_line_def)
qed

lemma map_line_nonempty: "map_line l \<noteq> []"
  by (simp add: map_line_def)

lemma get_start_end_finds:
  assumes "\<forall>l \<in> set ls. map_entry l \<and> snd (snd l) ! 2 \<noteq> CHR ''x''" "map_entry (a, b, p)" "p ! 2 = CHR ''x''"
  shows "get_start_end (concat (map map_line ls) @ map_line (a, b, p) @ rest) r = (of_nat (hex_value a), of_nat (hex_value b), CHR ''x'')"
  using assms(1)
proof (induction ls arbitrary: r)
  case Nil
  show ?case using fgets_map_line [OF assms(2), of rest] scan_region_line [OF assms(2)] assms(3)
    by (cases r) (subst get_start_end.simps, simp add: map_line_nonempty)
next
  case (Cons l ls)
  obtain a' b' p' where l: "l = (a', b', p')" by (cases l)
  have e: "map_entry (a', b', p')" using Cons.prems l by simp
  show ?case using fgets_map_line [OF e] scan_region_line [OF e] Cons l
    by (cases r) (subst get_start_end.simps, simp add: map_line_nonempty)
qed

section \<open>Going back\<close>

text \<open>A variable in a register is 0 again whenever \<open>setcontext\<close> comes back.\<close>

lemma register_endless: "after_getcontext False ad maps r 0 m 0 out s = None"
proof -
  have "\<not> im \<longrightarrow> reg = 0 \<longrightarrow> c = 0 \<longrightarrow> False" if "after_getcontext im ad' f r reg m c out s = Some res"
    for im ad' f r reg m c out s res
    using that
  proof (rule after_getcontext.raw_induct [where P = "\<lambda>im ad f r reg m c out s res. \<not> im \<longrightarrow> reg = 0 \<longrightarrow> c = 0 \<longrightarrow> False", rotated],
      goal_cases)
    case (1 g im ad f r reg m c out s res)
    show ?case
    proof (intro impI)
      assume e: "\<not> im" "reg = 0" "c = 0"
      with 1(2) obtain out' r' s' where "g im ad f r' 0 m 0 out' s' = Some res" by (auto simp: Let_def)
      with 1(1) e(1) show False by blast
    qed
  qed
  then show ?thesis by (cases "after_getcontext False ad maps r 0 m 0 out s") blast+
qed

lemma show_interrupt_prints:
  "show_interrupt s = ([(''interrupt is disabled'', 0), (''interrupt is disabled'', 1)], s\<lparr>sig_mask := insert SIG_TYPE (sig_mask s)\<rparr>)"
  by (auto simp: show_interrupt_def mask_interrupts_on_def mask_interrupts_off_def mask_interrupts_set_def sigprocmask_def set_signal_def)

section \<open>Properties\<close>

text \<open>C39: No assertion of \<open>show_handler\<close> fails, whenever the timer expires and the handler runs between its steps: \<open>interrupts_off\<close> and
  \<open>interrupts_set\<close> return the state before, \<open>interrupts_enabled\<close> the state now, and neither printing nor the
  handler changes it; at the end interrupts are on and the timer still runs.\<close>

theorem show_handler_passes:
  assumes "\<forall>t s. background s (env t s)"
  shows "\<exists>s. show_handler env signals_init = Some s \<and> SIG_TYPE \<notin> sig_mask s \<and> (timer s \<noteq> None \<or> pending s)"
proof -
  let ?s0 = "set_interrupt (signals_init\<lparr>registered := True, loud := True\<rparr>)"
  have r: "register_interrupt_handler True signals_init = Some ?s0" by (simp add: register_interrupt_handler_def signals_init_def)
  note T = demo_test_passes [OF assms]
  have "live True ?s0" by (simp add: live_def set_interrupt_def signals_init_def)
  from T [OF this, of 0] obtain t1 s1 where 1: "demo_test env 1 0 ?s0 = Some (t1, s1)" "live True s1" by auto
  obtain s2 where 2: "mask_interrupts_off s1 = (1, s2)" "live False s2"
    using live_set [OF 1(2), of 0] by (cases "mask_interrupts_set 0 s1") (auto simp: mask_interrupts_off_def)
  from T [OF 2(2), of t1] obtain t3 s3 where 3: "demo_test env 0 t1 s2 = Some (t3, s3)" "live False s3" by auto
  obtain s4 where 4: "mask_interrupts_off s3 = (0, s4)" "live False s4"
    using live_set [OF 3(2), of 0] by (cases "mask_interrupts_set 0 s3") (auto simp: mask_interrupts_off_def)
  from T [OF 4(2), of t3] obtain t5 s5 where 5: "demo_test env 0 t3 s4 = Some (t5, s5)" "live False s5" by auto
  obtain s6 where 6: "mask_interrupts_set 1 s5 = (0, s6)" "live True s6"
    using live_set [OF 5(2), of 1] by (cases "mask_interrupts_set 1 s5") auto
  from T [OF 6(2), of t5] obtain t7 s7 where 7: "demo_test env 1 t5 s6 = Some (t7, s7)" "live True s7" by auto
  obtain s8 where 8: "mask_interrupts_set 1 s7 = (1, s8)" "live True s8"
    using live_set [OF 7(2), of 1] by (cases "mask_interrupts_set 1 s7") auto
  from T [OF 8(2), of t7] obtain t9 s9 where 9: "demo_test env 1 t7 s8 = Some (t9, s9)" "live True s9" by auto
  have "show_handler env signals_init = Some s9" using r 1(1) 2(1) 3(1) 4(1) 5(1) 6(1) 7(1) 8(1) 9(1) by (simp add: show_handler_def)
  then show ?thesis using 9(2) by (simp add: live_def)
qed

theorem show_handler_passes_witness:
  "\<exists>s. show_handler (\<lambda>t s. if timer s = None then s else s\<lparr>timer := None, pending := True\<rparr>) signals_init = Some s \<and> SIG_TYPE \<notin> sig_mask s"
proof -
  have "\<forall>t s. background s ((\<lambda>t s. if timer s = None then s else s\<lparr>timer := None, pending := True\<rparr>) t s)"
    by (auto intro: background.intros)
  from show_handler_passes [OF this] show ?thesis by blast
qed

text \<open>\<open>show_ucontext\<close> ends after \<open>getcontext\<close> has returned exactly twice, because \<open>setcontext_called\<close> is volatile: the variable in memory
  keeps its value when \<open>setcontext\<close> restores the registers. In a register it would be 0 again every time, and the program
  would never end, as its comment says.\<close>

theorem show_ucontext_needs_volatile:
  "show_ucontext True ad maps r s =
     Some ((''main: setcontext_called'', 0) # context_infos ad (get_start_end maps r) @
       [(''main: setcontext_called'', 1), (''interrupt is disabled'', 0), (''interrupt is disabled'', 1)],
       s\<lparr>sig_mask := insert SIG_TYPE (sig_mask s)\<rparr>) \<and>
   show_ucontext False ad maps r s = None"
proof -
  have "after_getcontext True ad maps r' 0 (sig_mask s) 1 out (s\<lparr>sig_mask := sig_mask s\<rparr>) =
      Some (out @ [(''main: setcontext_called'', 1), (''interrupt is disabled'', 0), (''interrupt is disabled'', 1)],
        s\<lparr>sig_mask := insert SIG_TYPE (sig_mask s)\<rparr>)" for r' out
    by (subst after_getcontext.simps) (simp add: show_interrupt_prints)
  then show ?thesis unfolding show_ucontext_def Let_def
    by (subst after_getcontext.simps) (simp add: Let_def register_endless)
qed

text \<open>\<open>get_start_end\<close> finds the range of the first executable region in the map of the process, whatever lines come before and after it.\<close>

theorem get_start_end_executable:
  assumes "\<forall>l \<in> set ls. map_entry l \<and> snd (snd l) ! 2 \<noteq> CHR ''x''" "map_entry (a, b, p)" "p ! 2 = CHR ''x''"
  shows "get_start_end (concat (map map_line ls) @ map_line (a, b, p) @ rest) r = (of_nat (hex_value a), of_nat (hex_value b), CHR ''x'')"
  using assms by (rule get_start_end_finds)

theorem get_start_end_executable_witness:
  "get_start_end (map_line (''400000'', ''401000'', ''r--p 0'') @ map_line (''401000'', ''4a0000'', ''r-xp 0'')) (0, 0, CHR 0x00) =
    (0x401000, 0x4a0000, CHR ''x'')"
proof -
  have "map_entry (''400000'', ''401000'', ''r--p 0'')" "map_entry (''401000'', ''4a0000'', ''r-xp 0'')"
    by (simp_all add: map_entry_def map_line_def isxdigit_def hex_value_def isspace_def Let_def)
  moreover have "hex_value ''401000'' = 0x401000" "hex_value ''4a0000'' = 0x4a0000"
    by (simp_all add: hex_value_def Let_def)
  ultimately show ?thesis
    using get_start_end_executable [of "[(''400000'', ''401000'', ''r--p 0'')]" "''401000''" "''4a0000''" "''r-xp 0''" "[]" "(0, 0, CHR 0x00)"]
    by simp
qed

text \<open>Without an executable region the loop ends with the last line that can be read, and reports its range.\<close>

theorem get_start_end_none:
  "map_entry (a, b, p) \<Longrightarrow> p ! 2 \<noteq> CHR ''x'' \<Longrightarrow>
     get_start_end (map_line (a, b, p)) r = (of_nat (hex_value a), of_nat (hex_value b), p ! 2)"
  using fgets_map_line [of "(a, b, p)" "[]"] scan_region_line [of a b p]
  by (cases r) (subst get_start_end.simps, simp add: map_line_nonempty get_start_end.simps [of "[]"])

end
