(* ===== verification/C_IO.thy ===== *)
theory C_IO
  imports Prelude
begin

text \<open>
  What the operating system answers to the calls of \<open>read\<close> and \<open>write\<close>, as events: the programs that
  do I/O take them as parameters.
\<close>

section \<open>What read and write answer\<close>

text \<open>The end of the list is the end of the file. A chunk longer than asked for is split.\<close>

datatype read_event = Data "char list" | Interrupted | Failed

text \<open>\<open>Wrote k\<close> accepts \<open>k\<close> bytes, at least one and at most what is left; the Boolean of
  \<open>WroteNothing\<close> is whether a stale \<open>errno\<close> reads \<open>EINTR\<close> when \<open>write\<close> returns 0.\<close>

datatype write_event = Wrote nat | WroteNothing bool | WInterrupted | WFailed

fun bytes_of :: "read_event list \<Rightarrow> char list" where
  "bytes_of [] = []"
| "bytes_of (Data bs # es) = bs @ bytes_of es"
| "bytes_of (_ # es) = bytes_of es"

text \<open>A source that delivers all its bytes: no failure, and no empty chunk, which would be an early
  end of the file.\<close>

definition healthy :: "read_event list \<Rightarrow> bool" where
  "healthy es \<longleftrightarrow> Failed \<notin> set es \<and> Data [] \<notin> set es"

lemma healthy_simps [simp]:
  "healthy []" "healthy (Data bs # es) \<longleftrightarrow> bs \<noteq> [] \<and> healthy es"
  "healthy (Interrupted # es) \<longleftrightarrow> healthy es" "\<not> healthy (Failed # es)"
  by (auto simp: healthy_def)

end
