(* ===== verification/Web_Rio.thy ===== *)
theory Web_Rio
  imports C_IO
begin

text \<open>
  The robust I/O functions of the web server (\<open>src/webserver/common.c\<close>). What the operating
  system answers to successive calls of \<open>read\<close> and \<open>write\<close> is a list of events: data in
  chunks of any size, interruptions by a signal, failures. The functions hide the chunks: reading
  lines depends only on the bytes of the stream, and writing delivers every byte once.
\<close>

section \<open>Reading\<close>

definition RIO_BUFSIZE :: nat where "RIO_BUFSIZE = 8192"

text \<open>\<open>rio_read\<close>: the count or -1, the bytes stored, and what is left of the source.\<close>

fun rio_read :: "nat \<Rightarrow> read_event list \<Rightarrow> int \<times> char list \<times> read_event list" where
  "rio_read 0 es = (0, [], es)"
| "rio_read (Suc n) [] = (0, [], [])"
| "rio_read (Suc n) (Interrupted # es) = rio_read (Suc n) es"
| "rio_read (Suc n) (Failed # es) = (-1, [], es)"
| "rio_read (Suc n) (Data bs # es) =
     (if bs = [] then (0, [], es)
      else if Suc n < length bs then (int (Suc n), take (Suc n) bs, Data (drop (Suc n) bs) # es)
      else let (r, cs, es') = rio_read (Suc n - length bs) es
           in if r < 0 then (r, bs @ cs, es') else (int (length bs) + r, bs @ cs, es'))"

text \<open>\<open>struct rio\<close>: the unread bytes of the internal buffer and the descriptor's source.\<close>

record rio =
  rio_buf :: "char list"
  rio_src :: "read_event list"

definition rio_init :: "read_event list \<Rightarrow> rio" where
  "rio_init es = \<lparr>rio_buf = [], rio_src = es\<rparr>"

text \<open>The loop of \<open>rio_readb\<close> that refills an empty buffer: the new \<open>rio_cnt\<close>, buffer and source.\<close>

fun rio_refill :: "read_event list \<Rightarrow> int \<times> char list \<times> read_event list" where
  "rio_refill [] = (0, [], [])"
| "rio_refill (Interrupted # es) = rio_refill es"
| "rio_refill (Failed # es) = (-1, [], es)"
| "rio_refill (Data bs # es) =
     (if length bs \<le> RIO_BUFSIZE then (int (length bs), bs, es)
      else (int RIO_BUFSIZE, take RIO_BUFSIZE bs, Data (drop RIO_BUFSIZE bs) # es))"

definition rio_readb :: "nat \<Rightarrow> rio \<Rightarrow> int \<times> char list \<times> rio" where
  "rio_readb n rp =
     (let (cnt, buf, src) = (if rio_buf rp = [] then rio_refill (rio_src rp)
                             else (int (length (rio_buf rp)), rio_buf rp, rio_src rp))
      in if cnt < 0 then (-1, [], \<lparr>rio_buf = [], rio_src = src\<rparr>)
      else if cnt = 0 then (0, [], \<lparr>rio_buf = [], rio_src = src\<rparr>)
      else let c = (if nat cnt < n then nat cnt else n)
           in (int c, take c buf, \<lparr>rio_buf = drop c buf, rio_src = src\<rparr>))"

definition newline :: char where "newline = CHR 0x0A"

text \<open>
  The loop of \<open>rio_readlineb\<close>, over the function that reads one byte: \<open>m\<close> is
  \<open>maxlen - n\<close> and \<open>acc\<close> what was stored so far. The result is the return value and the bytes
  written to the user's buffer with the final NUL; \<open>None\<close> when the NUL was not written.
\<close>

fun line_loop :: "(nat \<Rightarrow> 's \<Rightarrow> int \<times> char list \<times> 's) \<Rightarrow> nat \<Rightarrow> char list \<Rightarrow> 's \<Rightarrow> int \<times> char list option \<times> 's"
where
  "line_loop rd 0 acc s = (int (length acc), Some (acc @ [CHR 0x00]), s)"
| "line_loop rd (Suc m) acc s =
     (let (rc, cs, s) = rd 1 s
      in if rc = 1 then
           (if hd cs = newline then (int (length acc + 1), Some (acc @ cs @ [CHR 0x00]), s)
            else line_loop rd m (acc @ cs) s)
         else if rc = 0 then
           (if acc = [] then (0, None, s) else (int (length acc), Some (acc @ [CHR 0x00]), s))
         else (-1, None, s))"

definition rio_readlineb :: "nat \<Rightarrow> rio \<Rightarrow> int \<times> char list option \<times> rio" where
  "rio_readlineb maxlen rp = line_loop rio_readb maxlen [] rp"

section \<open>The interface: a source of bytes\<close>

text \<open>
  A reader that returns at least one and at most \<open>n\<close> of the next bytes, and 0 only at the end of
  the stream. What is read from it by lines depends on the bytes alone.
\<close>

fun take_line :: "nat \<Rightarrow> char list \<Rightarrow> char list" where
  "take_line 0 s = []"
| "take_line (Suc m) [] = []"
| "take_line (Suc m) (c # cs) = c # (if c = newline then [] else take_line m cs)"

lemma take_line_prefix: "take (length (take_line m s)) s = take_line m s"
  by (induction m s rule: take_line.induct) auto

lemma length_take_line: "length (take_line m s) \<le> m" "length (take_line m s) \<le> length s"
  by (induction m s rule: take_line.induct) auto

locale byte_source =
  fixes stream :: "'s \<Rightarrow> char list"
    and good :: "'s \<Rightarrow> bool"
    and rd :: "nat \<Rightarrow> 's \<Rightarrow> int \<times> char list \<times> 's"
  assumes rd_end: "good s \<Longrightarrow> stream s = [] \<Longrightarrow> 0 < n \<Longrightarrow>
      \<exists>s'. rd n s = (0, [], s') \<and> good s' \<and> stream s' = []"
    and rd_some: "good s \<Longrightarrow> stream s \<noteq> [] \<Longrightarrow> 0 < n \<Longrightarrow>
      \<exists>c s'. 0 < c \<and> c \<le> n \<and> rd n s = (int c, take c (stream s), s') \<and> good s' \<and>
        c \<le> length (stream s) \<and> stream s' = drop c (stream s)"
begin

lemma rd_one:
  assumes "good s" "stream s = c # cs"
  shows "\<exists>s'. rd 1 s = (1, [c], s') \<and> good s' \<and> stream s' = cs"
proof -
  from rd_some [of s 1] assms obtain d s' where "0 < d" "d \<le> 1"
    "rd 1 s = (int d, take d (stream s), s')" "good s'" "stream s' = drop d (stream s)" by auto
  moreover from this have "d = 1" by simp
  ultimately show ?thesis using assms(2) by auto
qed

lemma line_loop_reads:
  assumes "good s" "acc \<noteq> [] \<or> stream s \<noteq> [] \<or> m = 0"
  shows "\<exists>s'. line_loop rd m acc s =
      (int (length acc + length (take_line m (stream s))), Some (acc @ take_line m (stream s) @ [CHR 0x00]), s') \<and>
    good s' \<and> stream s' = drop (length (take_line m (stream s))) (stream s)"
  using assms
proof (induction m arbitrary: acc s)
  case 0
  then show ?case by auto
next
  case (Suc m)
  show ?case
  proof (cases "stream s")
    case Nil
    from rd_end [OF Suc.prems(1) Nil, of 1] Suc.prems(2) Nil show ?thesis by auto
  next
    case (Cons c cs)
    from rd_one [OF Suc.prems(1) Cons] obtain s1 where
      s1: "rd 1 s = (1, [c], s1)" "good s1" "stream s1 = cs" by auto
    from Suc.IH [OF s1(2), of "acc @ [c]"] s1 Cons show ?thesis by auto
  qed
qed

lemma line_loop_end:
  "good s \<Longrightarrow> stream s = [] \<Longrightarrow> 0 < m \<Longrightarrow>
    \<exists>s'. line_loop rd m [] s = (0, None, s') \<and> good s' \<and> stream s' = []"
  using rd_end [of s 1] by (cases m) auto

end

definition rio_stream :: "rio \<Rightarrow> char list" where
  "rio_stream rp = rio_buf rp @ bytes_of (rio_src rp)"

definition rio_good :: "rio \<Rightarrow> bool" where
  "rio_good rp \<longleftrightarrow> healthy (rio_src rp)"

lemma rio_refill_end:
  "healthy es \<Longrightarrow> bytes_of es = [] \<Longrightarrow> \<exists>es'. rio_refill es = (0, [], es') \<and> healthy es' \<and> bytes_of es' = []"
  by (induction es rule: rio_refill.induct) auto

lemma rio_refill_some:
  "healthy es \<Longrightarrow> bytes_of es \<noteq> [] \<Longrightarrow> \<exists>buf es'. rio_refill es = (int (length buf), buf, es') \<and> buf \<noteq> [] \<and>
     healthy es' \<and> bytes_of es = buf @ bytes_of es'"
proof (induction es rule: rio_refill.induct)
  case (4 bs es)
  then show ?case by (auto simp: RIO_BUFSIZE_def)
qed auto

interpretation buffered: byte_source rio_stream rio_good rio_readb
proof unfold_locales
  fix s :: rio and n :: nat
  assume "rio_good s" "rio_stream s = []" "0 < n"
  with rio_refill_end [of "rio_src s"]
  show "\<exists>s'. rio_readb n s = (0, [], s') \<and> rio_good s' \<and> rio_stream s' = []"
    by (auto simp: rio_readb_def rio_stream_def rio_good_def)
next
  fix s :: rio and n :: nat
  assume s: "rio_good s" "rio_stream s \<noteq> []" "0 < n"
  obtain buf es where b: "(if rio_buf s = [] then rio_refill (rio_src s)
      else (int (length (rio_buf s)), rio_buf s, rio_src s)) = (int (length buf), buf, es)"
    "buf \<noteq> []" "healthy es" "rio_stream s = buf @ bytes_of es"
  proof (cases "rio_buf s = []")
    case True
    with s rio_refill_some [of "rio_src s"] that show thesis by (auto simp: rio_stream_def rio_good_def)
  next
    case False
    with s that [of "rio_buf s" "rio_src s"] show thesis by (simp add: rio_stream_def rio_good_def)
  qed
  let ?c = "if length buf < n then length buf else n"
  have "rio_readb n s = (int ?c, take ?c (rio_stream s), \<lparr>rio_buf = drop ?c buf, rio_src = es\<rparr>)"
    using b by (simp add: rio_readb_def Let_def)
  moreover have "0 < ?c" "?c \<le> n" "?c \<le> length (rio_stream s)" using b(2,4) s(3) by auto
  moreover have "rio_stream \<lparr>rio_buf = drop ?c buf, rio_src = es\<rparr> = drop ?c (rio_stream s)"
    using b(4) by (simp add: rio_stream_def)
  ultimately show "\<exists>c s'. 0 < c \<and> c \<le> n \<and> rio_readb n s = (int c, take c (rio_stream s), s') \<and> rio_good s' \<and>
      c \<le> length (rio_stream s) \<and> rio_stream s' = drop c (rio_stream s)"
    using b(3) by (intro exI [of _ ?c] exI [of _ "\<lparr>rio_buf = drop ?c buf, rio_src = es\<rparr>"])
      (simp add: rio_good_def)
qed

text \<open>Unbuffered reading collects all the bytes asked for, and is a source of bytes too.\<close>

lemma rio_read_exact:
  "healthy es \<Longrightarrow> \<exists>es'. rio_read n es = (int (min n (length (bytes_of es))), take n (bytes_of es), es') \<and>
     healthy es' \<and> bytes_of es' = drop n (bytes_of es)"
proof (induction n es rule: rio_read.induct)
  case (5 n bs es)
  show ?case
  proof (cases "Suc n < length bs")
    case True
    then show ?thesis using 5(2) by simp
  next
    case False
    with 5 obtain es' where "rio_read (Suc n - length bs) es =
        (int (min (Suc n - length bs) (length (bytes_of es))), take (Suc n - length bs) (bytes_of es), es')"
      "healthy es'" "bytes_of es' = drop (Suc n - length bs) (bytes_of es)" by auto
    with False 5(2) show ?thesis by auto
  qed
qed auto

interpretation unbuffered: byte_source bytes_of healthy rio_read
proof unfold_locales
  fix s :: "read_event list" and n :: nat
  assume "healthy s" "bytes_of s = []" "0 < n"
  with rio_read_exact [of s n] show "\<exists>s'. rio_read n s = (0, [], s') \<and> healthy s' \<and> bytes_of s' = []" by simp
next
  fix s :: "read_event list" and n :: nat
  assume s: "healthy s" "bytes_of s \<noteq> []" "0 < n"
  from rio_read_exact [OF s(1), of n] s show "\<exists>c s'. 0 < c \<and> c \<le> n \<and>
      rio_read n s = (int c, take c (bytes_of s), s') \<and> healthy s' \<and> c \<le> length (bytes_of s) \<and>
      bytes_of s' = drop c (bytes_of s)"
    by (intro exI [of _ "min n (length (bytes_of s))"]) (auto simp: min_def split: if_splits)
qed

section \<open>Writing\<close>

text \<open>\<open>rio_write\<close>: the return value, or \<open>None\<close> when \<open>write\<close> blocks (the events end), the
  bytes that reached the descriptor, and what is left of the events.\<close>

fun rio_write_loop ::
  "nat \<Rightarrow> write_event list \<Rightarrow> char list \<Rightarrow> char list \<Rightarrow> int option \<times> char list \<times> write_event list"
where
  "rio_write_loop n es [] out = (Some (int n), out, es)"
| "rio_write_loop n [] (b # bs) out = (None, out, [])"
| "rio_write_loop n (WInterrupted # es) (b # bs) out = rio_write_loop n es (b # bs) out"
| "rio_write_loop n (WFailed # es) (b # bs) out = (Some (-1), out, es)"
| "rio_write_loop n (WroteNothing eintr # es) (b # bs) out =
     (if eintr then rio_write_loop n es (b # bs) out else (Some (-1), out, es))"
| "rio_write_loop n (Wrote k # es) (b # bs) out =
     (let c = min (max 1 k) (length (b # bs))
      in rio_write_loop n es (drop c (b # bs)) (out @ take c (b # bs)))"

definition rio_write :: "write_event list \<Rightarrow> char list \<Rightarrow> int option \<times> char list \<times> write_event list" where
  "rio_write es usrbuf = rio_write_loop (length usrbuf) es usrbuf []"

lemma rio_write_loop_prefix:
  "rio_write_loop n es bs out = (r, out', es') \<Longrightarrow> \<exists>ds. out' = out @ ds \<and> take (length ds) bs = ds \<and>
     (r = Some (int n) \<longrightarrow> ds = bs)"
proof (induction n es bs out rule: rio_write_loop.induct)
  case (6 n k es b bs out)
  let ?c = "min (max 1 k) (length (b # bs))"
  from 6 obtain ds where ds: "out' = (out @ take ?c (b # bs)) @ ds"
    "take (length ds) (drop ?c (b # bs)) = ds" "r = Some (int n) \<longrightarrow> ds = drop ?c (b # bs)"
    by (auto simp: Let_def simp del: take_Suc_Cons drop_Suc_Cons length_Cons)
  have "take (length (take ?c (b # bs) @ ds)) (b # bs) = take ?c (b # bs) @ ds"
    using ds(2) by (simp add: take_add del: take_Suc_Cons drop_Suc_Cons length_Cons)
  then show ?case using ds by (intro exI [of _ "take ?c (b # bs) @ ds"]) simp
qed (auto split: if_splits)

text \<open>A descriptor that never fails and makes progress at least \<open>m\<close> times.\<close>

definition writable :: "nat \<Rightarrow> write_event list \<Rightarrow> bool" where
  "writable m es \<longleftrightarrow> WFailed \<notin> set es \<and> WroteNothing False \<notin> set es \<and>
     m \<le> length (filter (\<lambda>e. \<exists>k. e = Wrote k) es)"

lemma writable_simps [simp]:
  "writable 0 []" "\<not> writable (Suc m) []" "writable m (WInterrupted # es) \<longleftrightarrow> writable m es"
  "\<not> writable m (WFailed # es)" "writable m (WroteNothing eintr # es) \<longleftrightarrow> eintr \<and> writable m es"
  "writable (Suc m) (Wrote k # es) \<longleftrightarrow> writable m es" "writable 0 (Wrote k # es) \<longleftrightarrow> writable 0 es"
  by (auto simp: writable_def)

lemma writable_mono: "writable m es \<Longrightarrow> k \<le> m \<Longrightarrow> writable k es"
  by (auto simp: writable_def)

lemma rio_write_loop_finishes:
  "writable (length bs + m) es \<Longrightarrow> \<exists>es'. rio_write_loop n es bs out = (Some (int n), out @ bs, es') \<and> writable m es'"
proof (induction n es bs out rule: rio_write_loop.induct)
  case (6 n k es b bs out)
  let ?c = "min (max 1 k) (length (b # bs))"
  have "writable (length (drop ?c (b # bs)) + m) es"
    using 6(2) by (auto intro: writable_mono)
  from 6(1) [OF refl this] show ?case
    by (simp add: Let_def del: drop_Suc_Cons take_Suc_Cons length_Cons)
qed auto

section \<open>Properties\<close>

text \<open>C37: \<open>rio_readlineb\<close> returns the next line of the stream (up to and including the newline, at
  most \<open>maxlen\<close> bytes) with a final NUL, and 0 at the end of the stream, however \<open>read\<close> splits
  the bytes into chunks and however often it is interrupted; it consumes exactly that line.\<close>

theorem rio_readlineb_reads_lines:
  assumes "rio_good rp" "0 < maxlen"
  shows "\<exists>rp'. rio_readlineb maxlen rp =
      (int (length (take_line maxlen (rio_stream rp))),
       (if rio_stream rp = [] then None else Some (take_line maxlen (rio_stream rp) @ [CHR 0x00])), rp') \<and>
    rio_good rp' \<and> rio_stream rp' = drop (length (take_line maxlen (rio_stream rp))) (rio_stream rp)"
proof (cases "rio_stream rp = []")
  case True
  moreover have "take_line maxlen [] = []" using assms(2) by (cases maxlen) auto
  ultimately show ?thesis using buffered.line_loop_end [OF assms(1) True assms(2)]
    by (auto simp: rio_readlineb_def)
next
  case False
  from buffered.line_loop_reads [OF assms(1), of "[]" maxlen] False show ?thesis
    by (auto simp: rio_readlineb_def)
qed

theorem rio_readlineb_reads_lines_witness:
  "\<exists>rp'. rio_readlineb 5 (rio_init [Data ''a'', Interrupted, Data [CHR ''b'', newline, CHR ''c'']]) =
     (3, Some [CHR ''a'', CHR ''b'', newline, CHR 0x00], rp') \<and> rio_stream rp' = ''c''"
proof -
  let ?rp = "rio_init [Data ''a'', Interrupted, Data [CHR ''b'', newline, CHR ''c'']]"
  have "rio_good ?rp" "rio_stream ?rp = [CHR ''a'', CHR ''b'', newline, CHR ''c'']"
    by (simp_all add: rio_init_def rio_good_def rio_stream_def)
  moreover have "take_line 5 [CHR ''a'', CHR ''b'', newline, CHR ''c''] = [CHR ''a'', CHR ''b'', newline]"
    by (simp add: newline_def eval_nat_numeral)
  ultimately show ?thesis using rio_readlineb_reads_lines [of ?rp 5] by auto
qed

lemma take_line_full:
  "length (take_line m s) = m \<longleftrightarrow> m \<le> length s \<and> newline \<notin> set (take (m - 1) s)"
proof (induction m s rule: take_line.induct)
  case (3 m c cs)
  then show ?case by (cases m) auto
qed auto

text \<open>\<open>rio_readlineb\<close> writes one byte past a buffer of \<open>maxlen\<close> bytes exactly when the stream
  has \<open>maxlen\<close> bytes and none of the first \<open>maxlen - 1\<close> is a newline; every other call stays
  inside the buffer.\<close>

theorem rio_readlineb_overflow:
  assumes "rio_good rp" "0 < maxlen" "rio_readlineb maxlen rp = (n, Some buf, rp')"
  shows "length buf \<le> Suc maxlen \<and>
    (length buf = Suc maxlen \<longleftrightarrow>
       maxlen \<le> length (rio_stream rp) \<and> newline \<notin> set (take (maxlen - 1) (rio_stream rp)))"
proof -
  have "buf = take_line maxlen (rio_stream rp) @ [CHR 0x00]"
    using buffered.line_loop_reads [OF assms(1), of "[]" maxlen] buffered.line_loop_end [OF assms(1), of maxlen] assms(2,3)
    by (cases "rio_stream rp = []") (auto simp: rio_readlineb_def)
  then show ?thesis
    using length_take_line(1) [of maxlen "rio_stream rp"] take_line_full [of maxlen "rio_stream rp"] by simp
qed

theorem rio_readlineb_overflow_witness:
  "\<exists>n buf rp'. rio_readlineb 2 (rio_init [Data ''abc'']) = (n, Some buf, rp') \<and> length buf = 3"
proof -
  have r: "rio_readlineb 2 (rio_init [Data ''abc'']) =
      (2, Some [CHR ''a'', CHR ''b'', CHR 0x00], \<lparr>rio_buf = ''c'', rio_src = []\<rparr>)"
    by (simp add: rio_readlineb_def rio_init_def rio_readb_def RIO_BUFSIZE_def newline_def eval_nat_numeral)
  from rio_readlineb_overflow [OF _ _ r] r show ?thesis
    by (intro exI) (auto simp: rio_good_def rio_init_def rio_stream_def newline_def)
qed

text \<open>What \<open>rio_write\<close> puts on the descriptor is a prefix of the buffer, and all of it when it
  returns the number of bytes asked for; it does return that number if \<open>write\<close> never fails and
  makes progress as often as there are bytes, with any interruptions in between.\<close>

theorem rio_write_delivers:
  assumes "writable (length usrbuf) es"
  shows "(\<exists>es'. rio_write es usrbuf = (Some (int (length usrbuf)), usrbuf, es')) \<and>
    (\<forall>fs r out fs'. rio_write fs usrbuf = (r, out, fs') \<longrightarrow>
      take (length out) usrbuf = out \<and> (r = Some (int (length usrbuf)) \<longrightarrow> out = usrbuf))"
proof -
  have "take (length out) usrbuf = out \<and> (r = Some (int (length usrbuf)) \<longrightarrow> out = usrbuf)"
    if "rio_write fs usrbuf = (r, out, fs')" for fs r out fs'
    using rio_write_loop_prefix [of "length usrbuf" fs usrbuf "[]" r out] that by (auto simp: rio_write_def)
  moreover have "\<exists>es'. rio_write es usrbuf = (Some (int (length usrbuf)), usrbuf, es')"
    using rio_write_loop_finishes [of usrbuf 0 es "length usrbuf" "[]"] assms by (auto simp: rio_write_def)
  ultimately show ?thesis by blast
qed

theorem rio_write_delivers_witness:
  "\<exists>es'. rio_write [Wrote 1, WInterrupted, Wrote 7] ''ab'' = (Some 2, ''ab'', es')"
  using rio_write_delivers [of "''ab''" "[Wrote 1, WInterrupted, Wrote 7]"] by (simp add: eval_nat_numeral)

end
