(* ===== verification/Web_Cache.thy ===== *)
theory Web_Cache
  imports C_Strings
begin

text \<open>
  The file cache of the web server (\<open>src/webserver/server_thread.c\<close>): the hash function, the table
  of chains, lookup and insertion. The memory that \<open>malloc\<close> returns and the bytes that follow a
  buffer are parameters, because the code reads both. Each operation runs under
  \<open>locking_cache\<close>, so the workers' use of the cache is a sequence of operations.
\<close>

section \<open>The table\<close>

definition TABLE_SIZE :: nat where "TABLE_SIZE = 5381"

text \<open>\<open>char\<close> is signed, and the 32-bit \<open>hash\<close> wraps around.\<close>

definition hash_step :: "32 word \<Rightarrow> char \<Rightarrow> 32 word" where
  "hash_step h c = (push_bit 5 h + h) + scast (of_char c :: 8 word)"

definition hash_function :: "char list \<Rightarrow> int \<Rightarrow> int" where
  "hash_function key sz = c_mod (sint (foldl hash_step 5381 key)) sz"

text \<open>\<open>struct file_data\<close>: the name is a C string, the buffer a block of memory.\<close>

record file_data =
  file_name :: "char list option"
  file_buf :: "char list option"
  file_size :: int

definition file_data_init :: file_data where
  "file_data_init = \<lparr>file_name = None, file_buf = None, file_size = 0\<rparr>"

text \<open>A pointer to a \<open>struct hash_table_entry\<close>: NULL, a pointer that was never initialised, or an
  entry with its data and its \<open>next\<close>. The other fields of an entry are never used.\<close>

datatype chain = Null | Wild | Entry file_data chain

record cache_table =
  occupied_cache :: int
  maximum_bytes :: int
  hash_table :: "chain list"

text \<open>The array of pointers keeps what \<open>malloc\<close> found in memory.\<close>

definition cache_table_initialization :: "(nat \<Rightarrow> chain) \<Rightarrow> cache_table" where
  "cache_table_initialization junk =
     \<lparr>occupied_cache = 0, maximum_bytes = int TABLE_SIZE, hash_table = map junk [0..<TABLE_SIZE]\<rparr>"

fun chain_lookup :: "char list \<Rightarrow> chain \<Rightarrow> file_data option option" where
  "chain_lookup nm Null = Some None"
| "chain_lookup nm Wild = None"
| "chain_lookup nm (Entry d next) =
     (case file_name d of None \<Rightarrow> None
      | Some f \<Rightarrow> if f = nm then Some (Some d) else chain_lookup nm next)"

definition cache_lookup :: "cache_table \<Rightarrow> char list \<Rightarrow> file_data option option" where
  "cache_lookup cache file_to_look =
     (let hash_key = hash_function file_to_look (int TABLE_SIZE)
      in if 0 \<le> hash_key \<and> hash_key < int (length (hash_table cache))
         then chain_lookup file_to_look (hash_table cache ! nat hash_key)
         else None)"

definition cache_evict_helper :: "int \<Rightarrow> int \<Rightarrow> int \<Rightarrow> int" where
  "cache_evict_helper max_cache_storage file_sz occupied = s32 (s32 (file_sz + occupied) - max_cache_storage)"

text \<open>\<open>slack\<close> follows the file's buffer in memory, \<open>junk\<close> is what the new entry's \<open>next\<close> holds.\<close>

definition cache_insert ::
  "char list \<Rightarrow> chain \<Rightarrow> int \<Rightarrow> cache_table \<Rightarrow> file_data \<Rightarrow> (file_data option \<times> cache_table) option"
where
  "cache_insert slack junk max_cache_size cache d =
     (if file_size d > max_cache_size then Some (None, cache)
      else do {
        nm \<leftarrow> file_name d;
        found \<leftarrow> cache_lookup cache nm;
        if found \<noteq> None then Some (None, cache)
        else if cache_evict_helper max_cache_size (file_size d) (occupied_cache cache) \<le> 0 then do {
          let hash_map_key = nat (hash_function nm (int TABLE_SIZE));
          buf \<leftarrow> c_strdup slack (file_buf d);
          let data = file_data_init\<lparr>file_size := file_size d, file_buf := Some buf, file_name := Some nm\<rparr>;
          let old = hash_table cache ! hash_map_key;
          let next = (if old \<noteq> Null then old else junk);
          Some (Some data, cache\<lparr>hash_table := (hash_table cache)[hash_map_key := Entry data next],
                                 occupied_cache := s32 (occupied_cache cache + file_size d)\<rparr>) }
        else Some (None, cache) })"

section \<open>What the table holds\<close>

lemma hash_function_range: "\<bar>hash_function nm (int TABLE_SIZE)\<bar> < int TABLE_SIZE"
proof -
  have "\<bar>sgn a * (b mod 5381)\<bar> < 5381" for a b :: int
    using pos_mod_bound [of 5381 b] by (simp add: abs_mult sgn_if)
  then show ?thesis by (simp add: hash_function_def c_mod_def TABLE_SIZE_def)
qed

text \<open>The names whose hash is an index of the table.\<close>

definition hashable :: "char list \<Rightarrow> bool" where
  "hashable nm \<longleftrightarrow> 0 \<le> hash_function nm (int TABLE_SIZE)"

definition bucket :: "char list \<Rightarrow> nat" where
  "bucket nm = nat (hash_function nm (int TABLE_SIZE))"

lemma bucket_range: "hashable nm \<Longrightarrow> bucket nm < TABLE_SIZE"
  using hash_function_range [of nm] by (auto simp: hashable_def bucket_def)

fun chain_entries :: "chain \<Rightarrow> file_data list" where
  "chain_entries Null = []"
| "chain_entries Wild = []"
| "chain_entries (Entry d c) = d # chain_entries c"

fun tame :: "chain \<Rightarrow> bool" where
  "tame Null = True"
| "tame Wild = False"
| "tame (Entry d c) = tame c"

definition entries :: "cache_table \<Rightarrow> file_data list" where
  "entries c = concat (map chain_entries (hash_table c))"

text \<open>The well-formed tables with \<open>max\<close> bytes: no pointer is wild, every entry is in the bucket of
  its name, no name is there twice, the count of bytes is exact and within the limit.\<close>

definition in_bucket :: "nat \<Rightarrow> chain \<Rightarrow> bool" where
  "in_bucket i c \<longleftrightarrow> (\<forall>d \<in> set (chain_entries c). \<exists>nm. file_name d = Some nm \<and> hashable nm \<and> bucket nm = i \<and> 0 \<le> file_size d)"

definition cache_ok :: "int \<Rightarrow> cache_table \<Rightarrow> bool" where
  "cache_ok max_cache c \<longleftrightarrow> length (hash_table c) = TABLE_SIZE \<and>
     (\<forall>i < TABLE_SIZE. tame (hash_table c ! i) \<and> in_bucket i (hash_table c ! i) \<and>
        distinct (map file_name (chain_entries (hash_table c ! i)))) \<and>
     occupied_cache c = sum_list (map file_size (entries c)) \<and> occupied_cache c \<le> max_cache"

fun chain_find :: "char list \<Rightarrow> file_data list \<Rightarrow> file_data option" where
  "chain_find nm [] = None"
| "chain_find nm (d # ds) = (if file_name d = Some nm then Some d else chain_find nm ds)"

text \<open>The table as a map from names to file data.\<close>

definition contents :: "cache_table \<Rightarrow> char list \<Rightarrow> file_data option" where
  "contents c nm = (if hashable nm then chain_find nm (chain_entries (hash_table c ! bucket nm)) else None)"

lemma chain_lookup_tame:
  "tame c \<Longrightarrow> in_bucket i c \<Longrightarrow> chain_lookup nm c = Some (chain_find nm (chain_entries c))"
  by (induction c) (auto simp: in_bucket_def)

lemma chain_find_None: "chain_find nm ds = None \<longleftrightarrow> Some nm \<notin> file_name ` set ds"
  by (induction ds) auto

lemma chain_find_Some: "chain_find nm ds = Some d \<Longrightarrow> d \<in> set ds \<and> file_name d = Some nm"
  by (induction ds) (auto split: if_splits)

lemma cache_lookup_contents:
  assumes "cache_ok m c" "hashable nm"
  shows "cache_lookup c nm = Some (contents c nm)"
proof -
  have "bucket nm < TABLE_SIZE" using assms(2) by (rule bucket_range)
  moreover from this have "tame (hash_table c ! bucket nm)" "in_bucket (bucket nm) (hash_table c ! bucket nm)"
    using assms(1) by (auto simp: cache_ok_def)
  ultimately show ?thesis
    using assms chain_lookup_tame [of "hash_table c ! bucket nm" "bucket nm" nm]
    by (auto simp: cache_lookup_def Let_def contents_def cache_ok_def bucket_def hashable_def)
qed

lemma cache_lookup_unhashable: "\<not> hashable nm \<Longrightarrow> cache_lookup c nm = None"
  by (simp add: cache_lookup_def hashable_def)

lemma sum_entries_update:
  assumes "i < length cs" "chain_entries c' = d # chain_entries (cs ! i)"
  shows "sum_list (map file_size (concat (map chain_entries (cs[i := c'])))) =
    sum_list (map file_size (concat (map chain_entries cs))) + file_size d"
  using assms
proof (induction cs arbitrary: i)
  case (Cons x xs)
  then show ?case by (cases i) auto
qed simp

lemma sum_entries_nonneg: "cache_ok m c \<Longrightarrow> 0 \<le> occupied_cache c"
proof -
  assume c: "cache_ok m c"
  have "0 \<le> file_size d" if "d \<in> set (entries c)" for d
  proof -
    from that obtain ch where "ch \<in> set (hash_table c)" "d \<in> set (chain_entries ch)"
      by (auto simp: entries_def)
    then obtain i where "i < length (hash_table c)" "d \<in> set (chain_entries (hash_table c ! i))"
      by (metis in_set_conv_nth)
    with c show ?thesis by (auto simp: cache_ok_def in_bucket_def)
  qed
  with c show ?thesis by (auto simp: cache_ok_def intro!: sum_list_nonneg)
qed

lemma cache_evict_helper_exact:
  assumes "0 \<le> f" "f \<le> m" "0 \<le> u" "u \<le> m" "m < 2 ^ 31"
  shows "cache_evict_helper m f u = f + u - m"
proof -
  have "cache_evict_helper m f u = s32 (f + u - m)" by (simp add: cache_evict_helper_def s32_s32_diff)
  also have "... = f + u - m" using assms by (intro s32_id) auto
  finally show ?thesis .
qed

text \<open>The entry that \<open>cache_insert\<close> makes of a file.\<close>

definition stored :: "char list \<Rightarrow> file_data \<Rightarrow> file_data" where
  "stored slack d = d\<lparr>file_buf := c_strdup slack (file_buf d)\<rparr>"

lemma cache_ok_insert:
  assumes c: "cache_ok m c" and nm: "file_name d = Some nm" "hashable nm" "contents c nm = None"
    and sz: "0 \<le> file_size d" "file_size e = file_size d" "file_name e = Some nm" "occupied_cache c + file_size d \<le> m"
    and ch: "tame ch" "chain_entries ch = e # chain_entries (hash_table c ! bucket nm)"
  shows "cache_ok m (c\<lparr>hash_table := (hash_table c)[bucket nm := ch],
                       occupied_cache := occupied_cache c + file_size d\<rparr>)"
proof -
  have b: "bucket nm < TABLE_SIZE" using nm(2) by (rule bucket_range)
  have l: "length (hash_table c) = TABLE_SIZE" using c by (simp add: cache_ok_def)
  have "Some nm \<notin> file_name ` set (chain_entries (hash_table c ! bucket nm))"
    using nm by (simp add: contents_def chain_find_None)
  then have "distinct (map file_name (chain_entries ch))" using c b ch sz(3) by (simp add: cache_ok_def)
  moreover have "in_bucket (bucket nm) ch" using c b ch sz nm by (auto simp: cache_ok_def in_bucket_def)
  moreover have "sum_list (map file_size (concat (map chain_entries ((hash_table c)[bucket nm := ch])))) =
      occupied_cache c + file_size d"
    using sum_entries_update [of "bucket nm" "hash_table c" ch e] b l ch(2) c sz(2)
    by (simp add: cache_ok_def entries_def)
  ultimately show ?thesis using c b l ch(1) sz(4)
    by (simp add: cache_ok_def entries_def nth_list_update)
qed

text \<open>What an insertion does, on every branch: nothing if the file is too large for what is left or
  its name is there already, else the copy of the file is in the table under its name.\<close>

lemma contents_insert:
  assumes "length (hash_table c) = TABLE_SIZE" "hashable nm" "chain_entries ch = e # chain_entries (hash_table c ! bucket nm)"
    "file_name e = Some nm" "hash_table c' = (hash_table c)[bucket nm := ch]"
  shows "contents c' = (contents c)(nm := Some e)"
proof
  fix n
  show "contents c' n = ((contents c)(nm := Some e)) n"
    using assms bucket_range [of nm] by (auto simp: contents_def nth_list_update)
qed

lemma stored_eq:
  "file_name d = Some nm \<Longrightarrow> c_strdup slack (file_buf d) = Some b \<Longrightarrow>
   stored slack d = \<lparr>file_name = Some nm, file_buf = Some b, file_size = file_size d\<rparr>"
  by (cases d) (simp add: stored_def)

lemma cache_insert_cases:
  assumes "cache_ok m c" "m < 2 ^ 31" "file_name d = Some nm" "hashable nm" "0 \<le> file_size d"
  shows "cache_insert slack Null m c d =
    (if contents c nm \<noteq> None \<or> m < occupied_cache c + file_size d then Some (None, c)
     else case c_strdup slack (file_buf d) of None \<Rightarrow> None
       | Some b \<Rightarrow> Some (Some (stored slack d),
           c\<lparr>hash_table := (hash_table c)[bucket nm := Entry (stored slack d) (hash_table c ! bucket nm)],
             occupied_cache := occupied_cache c + file_size d\<rparr>))"
proof -
  have o: "0 \<le> occupied_cache c" "occupied_cache c \<le> m"
    using assms(1) sum_entries_nonneg [OF assms(1)] by (auto simp: cache_ok_def)
  have l: "cache_lookup c nm = Some (contents c nm)" using assms by (intro cache_lookup_contents)
  show ?thesis
  proof (cases "m < file_size d")
    case True
    then show ?thesis using o by (simp add: cache_insert_def)
  next
    case False
    then have "cache_evict_helper m (file_size d) (occupied_cache c) = file_size d + occupied_cache c - m"
      using assms o by (intro cache_evict_helper_exact) auto
    moreover have "s32 (occupied_cache c + file_size d) = occupied_cache c + file_size d"
      if "occupied_cache c + file_size d \<le> m" using that o assms by (intro s32_id) auto
    ultimately show ?thesis using False l assms(3)
      by (auto simp: cache_insert_def stored_eq file_data_init_def bucket_def Let_def split: option.splits)
  qed
qed

lemma cache_insert_ok:
  assumes "cache_ok m c" "m < 2 ^ 31" "file_name d = Some nm" "hashable nm" "0 \<le> file_size d"
    "cache_insert slack Null m c d = Some (r, c')"
  shows "cache_ok m c' \<and>
    (c' = c \<or> c_strdup slack (file_buf d) \<noteq> None \<and> contents c' = (contents c)(nm := Some (stored slack d)))"
proof (cases "contents c nm \<noteq> None \<or> m < occupied_cache c + file_size d")
  case True
  then have "cache_insert slack Null m c d = Some (None, c)" using cache_insert_cases [OF assms(1-5)] by auto
  then show ?thesis using assms by simp
next
  case False
  let ?ch = "Entry (stored slack d) (hash_table c ! bucket nm)"
  let ?c = "c\<lparr>hash_table := (hash_table c)[bucket nm := ?ch], occupied_cache := occupied_cache c + file_size d\<rparr>"
  have c': "c' = ?c" "c_strdup slack (file_buf d) \<noteq> None"
    using False cache_insert_cases [OF assms(1-5), of slack] assms(6) by (auto split: option.splits)
  have len: "length (hash_table c) = TABLE_SIZE" and tm: "tame (hash_table c ! bucket nm)"
    using assms(1) bucket_range [OF assms(4)] by (auto simp: cache_ok_def)
  have "cache_ok m ?c"
    by (rule cache_ok_insert [OF assms(1,3,4)]) (use False tm assms(3,5) in \<open>auto simp: stored_def\<close>)
  moreover have "contents ?c = (contents c)(nm := Some (stored slack d))"
    by (rule contents_insert [OF len assms(4), of ?ch]) (simp_all add: stored_def assms(3))
  ultimately show ?thesis using c' by simp
qed

lemma cache_initial_ok: "0 \<le> m \<Longrightarrow> cache_ok m (cache_table_initialization (\<lambda>_. Null))"
proof -
  assume "0 \<le> m"
  moreover have "entries (cache_table_initialization (\<lambda>_. Null)) = []"
    by (simp add: entries_def cache_table_initialization_def)
  ultimately show ?thesis
    unfolding cache_ok_def by (simp add: cache_table_initialization_def in_bucket_def)
qed

lemma contents_initial: "contents (cache_table_initialization (\<lambda>_. Null)) nm = None"
  using bucket_range [of nm] by (simp add: contents_def cache_table_initialization_def)

section \<open>The interface of the cache\<close>

text \<open>
  What the server relies on: the cache is a map from names to file data; looking up reads the
  map; inserting leaves it alone or adds the copy of the file. Whatever the order in which the
  workers hold \<open>locking_cache\<close>, everything found was inserted.
\<close>

datatype cache_action = Look "char list" | Put "char list" file_data

fun run_sections :: "('s \<Rightarrow> char list \<Rightarrow> file_data option option) \<Rightarrow>
    (char list \<Rightarrow> 's \<Rightarrow> file_data \<Rightarrow> (file_data option \<times> 's) option) \<Rightarrow> cache_action list \<Rightarrow> 's \<Rightarrow> 's option"
where
  "run_sections look put [] s = Some s"
| "run_sections look put (Look n # acts) s = Option.bind (look s n) (\<lambda>_. run_sections look put acts s)"
| "run_sections look put (Put slack d # acts) s =
     Option.bind (put slack s d) (\<lambda>(_, s'). run_sections look put acts s')"

locale file_cache =
  fixes cached :: "'s \<Rightarrow> char list \<Rightarrow> file_data option"
    and inv :: "'s \<Rightarrow> bool"
    and valid :: "char list \<Rightarrow> bool"
    and look :: "'s \<Rightarrow> char list \<Rightarrow> file_data option option"
    and put :: "char list \<Rightarrow> 's \<Rightarrow> file_data \<Rightarrow> (file_data option \<times> 's) option"
  assumes look_cached: "inv s \<Longrightarrow> valid n \<Longrightarrow> look s n = Some (cached s n)"
    and cached_valid: "inv s \<Longrightarrow> cached s n = Some d \<Longrightarrow> valid n \<and> file_name d = Some n"
    and put_ok: "inv s \<Longrightarrow> file_name d = Some n \<Longrightarrow> valid n \<Longrightarrow> 0 \<le> file_size d \<Longrightarrow> put slack s d = Some (r, s') \<Longrightarrow>
      inv s' \<and> (s' = s \<or> c_strdup slack (file_buf d) \<noteq> None \<and> cached s' = (cached s)(n := Some (stored slack d)))"
    and put_total: "inv s \<Longrightarrow> file_name d = Some n \<Longrightarrow> valid n \<Longrightarrow> 0 \<le> file_size d \<Longrightarrow>
      c_strdup slack (file_buf d) \<noteq> None \<Longrightarrow> \<exists>r s'. put slack s d = Some (r, s')"
begin

text \<open>The workers only look for valid names and insert files whose copy satisfies \<open>Q\<close>.\<close>

definition fair :: "(char list \<Rightarrow> file_data \<Rightarrow> bool) \<Rightarrow> cache_action \<Rightarrow> bool" where
  "fair Q a = (case a of Look n \<Rightarrow> valid n
     | Put slack d \<Rightarrow> (\<exists>n. file_name d = Some n \<and> valid n \<and> 0 \<le> file_size d \<and>
         c_strdup slack (file_buf d) \<noteq> None \<and> Q n (stored slack d)))"

definition holds :: "(char list \<Rightarrow> file_data \<Rightarrow> bool) \<Rightarrow> 's \<Rightarrow> bool" where
  "holds Q s \<longleftrightarrow> inv s \<and> (\<forall>n d. cached s n = Some d \<longrightarrow> Q n d)"

lemma holds_put:
  assumes "holds Q s" "fair Q (Put slack d)"
  shows "\<exists>r s'. put slack s d = Some (r, s') \<and> holds Q s'"
proof -
  from assms(2) obtain n where n: "file_name d = Some n" "valid n" "0 \<le> file_size d"
    "c_strdup slack (file_buf d) \<noteq> None" "Q n (stored slack d)" by (auto simp: fair_def)
  have i: "inv s" using assms(1) by (simp add: holds_def)
  obtain r s' where p: "put slack s d = Some (r, s')" using put_total [OF i n(1-4)] by blast
  from put_ok [OF i n(1-3) p] assms(1) n(5) have "holds Q s'"
    by (auto simp: holds_def split: if_splits)
  with p show ?thesis by blast
qed

lemma holds_run:
  "holds Q s \<Longrightarrow> \<forall>a \<in> set acts. fair Q a \<Longrightarrow> \<exists>s'. run_sections look put acts s = Some s' \<and> holds Q s'"
proof (induction acts arbitrary: s)
  case (Cons a acts)
  show ?case
  proof (cases a)
    case (Look n)
    with Cons look_cached [of s n] show ?thesis by (auto simp: holds_def fair_def)
  next
    case (Put slack d)
    with holds_put [of Q s slack d] Cons.prems obtain r s' where
      "put slack s d = Some (r, s')" "holds Q s'" by auto
    with Cons Put show ?thesis by simp
  qed
qed simp

lemma holds_look: "holds Q s \<Longrightarrow> valid n \<Longrightarrow> \<exists>r. look s n = Some r \<and> (\<forall>d. r = Some d \<longrightarrow> Q n d \<and> file_name d = Some n)"
  using look_cached [of s n] cached_valid [of s n] by (auto simp: holds_def)

end

lemma contents_valid: "contents s n = Some d \<Longrightarrow> hashable n \<and> file_name d = Some n"
  by (auto simp: contents_def dest: chain_find_Some split: if_splits)

text \<open>A limit of the cache is a 32-bit \<open>int\<close>; the value 0 stands for the others, so that the
  interpretation needs no premise.\<close>

definition limit :: "int \<Rightarrow> int" where
  "limit m = (if 0 \<le> m \<and> m < 2 ^ 31 then m else 0)"

lemma limit_simps [simp]: "0 \<le> limit m" "limit m < 2 ^ 31" "\<not> limit m < 0" "0 \<le> m \<Longrightarrow> m < 2 ^ 31 \<Longrightarrow> limit m = m"
  by (auto simp: limit_def)

interpretation disk_cache: file_cache contents "cache_ok (limit m)" hashable cache_lookup
  "\<lambda>slack. cache_insert slack Null (limit m)" for m
proof unfold_locales
  fix s n and d :: file_data and slack
  assume "cache_ok (limit m) s" "file_name d = Some n" "hashable n" "0 \<le> file_size d" "c_strdup slack (file_buf d) \<noteq> None"
  then show "\<exists>r s'. cache_insert slack Null (limit m) s d = Some (r, s')"
    using cache_insert_cases [OF _ limit_simps(2), of m s d n slack] by (auto split: if_splits)
next
  fix s and d :: file_data and n slack r s'
  assume a: "cache_ok (limit m) s" "file_name d = Some n" "hashable n" "0 \<le> file_size d"
    "cache_insert slack Null (limit m) s d = Some (r, s')"
  show "cache_ok (limit m) s' \<and> (s' = s \<or> c_strdup slack (file_buf d) \<noteq> None \<and>
      contents s' = (contents s)(n := Some (stored slack d)))"
    by (rule cache_insert_ok [OF a(1) limit_simps(2) a(2-5)])
qed (simp_all add: cache_lookup_contents contents_valid)

section \<open>Properties\<close>

lemma chain_find_member:
  "d \<in> set ds \<Longrightarrow> file_name d = Some nm \<Longrightarrow> distinct (map file_name ds) \<Longrightarrow> chain_find nm ds = Some d"
proof (induction ds)
  case (Cons e ds)
  then show ?case by (cases "e = d") (auto simp: image_iff)
qed simp

lemma entry_found:
  assumes "cache_ok m c" "e \<in> set (entries c)"
  shows "\<exists>nm. file_name e = Some nm \<and> cache_lookup c nm = Some (Some e)"
proof -
  from assms(2) obtain ch where "ch \<in> set (hash_table c)" "e \<in> set (chain_entries ch)"
    by (auto simp: entries_def)
  then obtain i where i: "i < length (hash_table c)" "e \<in> set (chain_entries (hash_table c ! i))"
    by (metis in_set_conv_nth)
  then have ok: "in_bucket i (hash_table c ! i)" "distinct (map file_name (chain_entries (hash_table c ! i)))"
    using assms(1) by (auto simp: cache_ok_def)
  with i(2) obtain nm where nm: "file_name e = Some nm" "hashable nm" "bucket nm = i"
    unfolding in_bucket_def by blast
  have "contents c nm = Some e" using chain_find_member [OF i(2) nm(1) ok(2)] nm by (simp add: contents_def)
  then show ?thesis using nm cache_lookup_contents [OF assms(1) nm(2)] by simp
qed

text \<open>C23: Whatever the workers look up and insert, in any order, no operation has a fault, the count of cached bytes is the sum of the
  sizes of the entries and within the limit, although the addition in \<open>cache_evict_helper\<close> may overflow, and every entry is what a
  lookup of its name finds. The names have a nonnegative hash, the copied buffers end in a NUL, and the pointers that are never
  set, of the table and of new entries, are NULL.\<close>

theorem cache_count_exact:
  assumes "0 \<le> m" "m < 2 ^ 31"
    "\<forall>n. Look n \<in> set acts \<longrightarrow> hashable n"
    "\<forall>slack d. Put slack d \<in> set acts \<longrightarrow> (\<exists>n. file_name d = Some n \<and> hashable n) \<and> 0 \<le> file_size d \<and>
       c_strdup slack (file_buf d) \<noteq> None"
  shows "\<exists>c. run_sections cache_lookup (\<lambda>slack. cache_insert slack Null m) acts (cache_table_initialization (\<lambda>_. Null)) = Some c \<and>
    0 \<le> occupied_cache c \<and> occupied_cache c \<le> m \<and> occupied_cache c = sum_list (map file_size (entries c)) \<and>
    (\<forall>e \<in> set (entries c). \<exists>nm. file_name e = Some nm \<and> cache_lookup c nm = Some (Some e))"
proof -
  let ?Q = "\<lambda>_ _. True"
  have l: "limit m = m" using assms(1,2) by simp
  have "disk_cache.holds m ?Q (cache_table_initialization (\<lambda>_. Null))"
    by (simp add: disk_cache.holds_def cache_initial_ok)
  moreover have "\<forall>a \<in> set acts. disk_cache.fair ?Q a"
    using assms(3,4) by (auto simp: disk_cache.fair_def split: cache_action.split)
  ultimately obtain c where
    c: "run_sections cache_lookup (\<lambda>slack. cache_insert slack Null (limit m)) acts (cache_table_initialization (\<lambda>_. Null)) = Some c"
    "disk_cache.holds m ?Q c" using disk_cache.holds_run by blast
  then have "cache_ok (limit m) c" by (simp add: disk_cache.holds_def)
  then have ok: "cache_ok m c" by (simp only: l)
  have "occupied_cache c \<le> m" "occupied_cache c = sum_list (map file_size (entries c))"
    using ok by (auto simp: cache_ok_def)
  then show ?thesis using c(1) l entry_found [OF ok] sum_entries_nonneg [OF ok] by auto
qed

theorem cache_count_exact_witness:
  "\<exists>c. run_sections cache_lookup (\<lambda>slack. cache_insert slack Null 2147483647)
      [Put [NUL] \<lparr>file_name = Some ''./a.txt'', file_buf = Some ''hi'', file_size = 2\<rparr>, Look ''./a.txt'']
      (cache_table_initialization (\<lambda>_. Null)) = Some c \<and> occupied_cache c \<le> 2147483647"
proof -
  have "hashable ''./a.txt''" by code_simp
  moreover have "c_strdup [NUL] (Some ''hi'') \<noteq> None" by (simp add: c_strdup_def)
  ultimately show ?thesis
    using cache_count_exact [of 2147483647 "[Put [NUL] \<lparr>file_name = Some ''./a.txt'', file_buf = Some ''hi'', file_size = 2\<rparr>, Look ''./a.txt'']"]
    by auto
qed

section \<open>The index of a name\<close>

text \<open>On ASCII characters the hash is computed on natural numbers, modulo the word size.\<close>

definition hash_nat :: "nat \<Rightarrow> char \<Rightarrow> nat" where
  "hash_nat h c = 33 * h + of_char c"

definition ascii :: "char list \<Rightarrow> bool" where
  "ascii cs \<longleftrightarrow> (\<forall>c \<in> set cs. of_char c < (128 :: nat))"

lemma ascii_simps [simp]: "ascii []" "ascii (c # cs) \<longleftrightarrow> of_char c < (128 :: nat) \<and> ascii cs"
  by (simp_all add: ascii_def)

lemma scast_ascii:
  assumes "n < 128"
  shows "(scast (of_nat n :: 8 word) :: 32 word) = of_nat n"
proof -
  have "uint (of_nat n :: 8 word) = int n" using assms by (simp add: unsigned_of_nat take_bit_nat_eq_self)
  then have "sint (of_nat n :: 8 word) = int n" using assms by (simp add: sint_uint signed_take_bit_int_eq_self)
  then show ?thesis by (metis scast_eq of_int_of_nat_eq)
qed

lemma hash_step_nat:
  assumes "of_char c < (128 :: nat)"
  shows "hash_step (of_nat h) c = of_nat (hash_nat h c)"
proof -
  have "push_bit 5 (of_nat h :: 32 word) + of_nat h = of_nat (33 * h)" by (simp add: push_bit_eq_mult)
  moreover have "(of_char c :: 8 word) = of_nat (of_char c)" by (simp add: of_char_def)
  ultimately show ?thesis using scast_ascii [OF assms] by (simp only: hash_step_def hash_nat_def of_nat_add)
qed

lemma foldl_hash_nat: "ascii cs \<Longrightarrow> foldl hash_step (of_nat h) cs = of_nat (foldl hash_nat h cs)"
  by (induction cs arbitrary: h) (simp_all add: hash_step_nat)

lemma hash_nat_bounds:
  assumes "ascii cs"
  shows "33 ^ length cs * h \<le> foldl hash_nat h cs \<and> foldl hash_nat h cs + 4 \<le> 33 ^ length cs * (h + 4)"
  using assms
proof (induction cs arbitrary: h)
  case (Cons c cs)
  then have "33 * h \<le> hash_nat h c" "hash_nat h c + 4 \<le> 33 * (h + 4)" by (auto simp: hash_nat_def)
  then have "33 ^ length cs * (33 * h) \<le> 33 ^ length cs * hash_nat h c"
    "33 ^ length cs * (hash_nat h c + 4) \<le> 33 ^ length cs * (33 * (h + 4))" by (metis mult_le_mono2)+
  moreover have "33 ^ length cs * hash_nat h c \<le> foldl hash_nat (hash_nat h c) cs"
    "foldl hash_nat (hash_nat h c) cs + 4 \<le> 33 ^ length cs * (hash_nat h c + 4)" using Cons.IH Cons.prems by auto
  ultimately show ?case by (simp only: foldl_Cons list.size power_Suc power_add power_0 mult_1_left mult.assoc mult.left_commute [of 33]) linarith
qed simp

text \<open>After \<open>./\<close> up to five more characters keep the hash in the lower half of the words.\<close>

lemma lower_half:
  fixes n q :: nat
  assumes "q * 2 ^ 32 \<le> n" "n < q * 2 ^ 32 + 2 ^ 31"
  shows "n mod 2 ^ 32 < 2 ^ 31"
proof -
  have "n = q * 2 ^ 32 + (n - q * 2 ^ 32)" using assms by linarith
  then have "n mod 2 ^ 32 = (n - q * 2 ^ 32) mod 2 ^ 32" by (metis mod_mult_self3)
  then show ?thesis using assms by simp
qed

lemma short_hash:
  assumes "ascii cs" "length cs \<le> 5"
  shows "foldl hash_nat 5861474 cs mod 2 ^ 32 < 2 ^ 31"
proof -
  let ?n = "foldl hash_nat 5861474 cs" and ?k = "length cs"
  have "?k = 0 \<or> ?k = 1 \<or> ?k = 2 \<or> ?k = 3 \<or> ?k = 4 \<or> ?k = 5" using assms(2) by linarith
  then have "\<exists>q. q * 2 ^ 32 \<le> 33 ^ ?k * (5861474 :: nat) \<and> 33 ^ ?k * (5861474 + 4) < q * 2 ^ 32 + 2 ^ 31"
    by (elim disjE) (intro exI [of _ "33 ^ ?k * (5861474 :: nat) div 2 ^ 32"]; simp)+
  then obtain q where "q * 2 ^ 32 \<le> 33 ^ ?k * (5861474 :: nat)" "33 ^ ?k * (5861474 + 4) < q * 2 ^ 32 + (2 :: nat) ^ 31" by blast
  with hash_nat_bounds [OF assms(1), of 5861474] show ?thesis by (intro lower_half [of q]) linarith+
qed

lemma sint_of_nat_half:
  assumes "n mod 2 ^ 32 < 2 ^ 31"
  shows "0 \<le> sint (of_nat n :: 32 word)"
proof -
  have "uint (of_nat n :: 32 word) = int (n mod 2 ^ 32)" by (simp add: unsigned_of_nat take_bit_eq_mod)
  moreover have "int (n mod 2 ^ 32) < int (2 ^ 31)" using assms by (rule iffD2 [OF of_nat_less_iff])
  moreover have "0 \<le> uint (of_nat n :: 32 word)" by simp
  ultimately show ?thesis by (simp only: sint_uint) (simp add: signed_take_bit_int_eq_self)
qed

lemma short_hashable:
  assumes "ascii nm" "length nm \<le> 5"
  shows "hashable (''./'' @ nm)"
proof -
  have "foldl hash_step (of_nat 5381) ''./'' = of_nat 5861474" by (subst foldl_hash_nat) (simp_all add: hash_nat_def)
  then have "foldl hash_step 5381 (''./'' @ nm) = of_nat (foldl hash_nat 5861474 nm)"
    using foldl_hash_nat [OF assms(1), of 5861474] by simp
  then have "0 \<le> sint (foldl hash_step 5381 (''./'' @ nm))" using sint_of_nat_half [OF short_hash [OF assms]] by simp
  then show ?thesis by (simp add: hashable_def hash_function_def c_mod_def TABLE_SIZE_def sgn_if abs_if)
qed

text \<open>C40: Which names of files are safe to look up, in every well-formed table: those with up to five ASCII characters after the \<open>./\<close> that
  \<open>request_init\<close> puts in front have an index within the table, and \<open>cache_lookup\<close> returns what is cached for them. Five cannot be
  improved: the hash of \<open>./a.html\<close> is negative, its index is -3070, and every lookup of it reads before the array.\<close>

theorem short_names_are_safe:
  assumes "cache_ok m c" "\<forall>x \<in> set nm. of_char x < (128 :: nat)" "length nm \<le> 5"
  shows "hash_function (''./'' @ nm) (int TABLE_SIZE) \<in> {0..<int TABLE_SIZE} \<and>
    cache_lookup c (''./'' @ nm) = Some (contents c (''./'' @ nm)) \<and>
    hash_function ''./a.html'' (int TABLE_SIZE) = -3070 \<and> cache_lookup c ''./a.html'' = None"
proof (intro conjI)
  have h: "hashable (''./'' @ nm)" using short_hashable assms(2,3) by (simp add: ascii_def)
  then show "hash_function (''./'' @ nm) (int TABLE_SIZE) \<in> {0..<int TABLE_SIZE}"
    using hash_function_range [of "''./'' @ nm"] by (simp add: hashable_def)
  show "cache_lookup c (''./'' @ nm) = Some (contents c (''./'' @ nm))" by (rule cache_lookup_contents [OF assms(1) h])
  show a: "hash_function ''./a.html'' (int TABLE_SIZE) = -3070" by code_simp
  then show "cache_lookup c ''./a.html'' = None" by (intro cache_lookup_unhashable) (simp add: hashable_def)
qed

theorem short_names_are_safe_witness:
  "cache_lookup (cache_table_initialization (\<lambda>_. Null)) ''./a.txt'' = Some None"
proof -
  have ok: "cache_ok 0 (cache_table_initialization (\<lambda>_. Null))" by (rule cache_initial_ok) simp
  moreover have "\<forall>x \<in> set ''a.txt''. of_char x < (128 :: nat)" by code_simp
  ultimately have "cache_lookup (cache_table_initialization (\<lambda>_. Null)) (''./'' @ ''a.txt'') =
      Some (contents (cache_table_initialization (\<lambda>_. Null)) (''./'' @ ''a.txt''))"
    using short_names_are_safe [of 0 _ "''a.txt''"] by fastforce
  then show ?thesis by (simp add: contents_initial)
qed

end
