(* ===== verification/Web_Request.thy ===== *)
theory Web_Request
  imports Web_Rio Web_Cache
begin

text \<open>
  One request of the web server, from the connection to the response: \<open>src/webserver/request.c\<close>,
  the wrappers of \<open>common.c\<close> and \<open>do_server_request\<close> of \<open>server_thread.c\<close>, with every buffer
  overflow and out-of-bounds read as a fault. The disk, the bytes behind a buffer and what the
  socket answers are parameters.
\<close>

section \<open>Outcomes\<close>

text \<open>C code here returns a value, leaves the process with \<open>exit(1)\<close> or has a fault (an invalid
  access, an overflow of a buffer). The outcome is optional: \<open>None\<close> is a call that never returns.\<close>

datatype 'a outcome = Fault | Exits | Done 'a

definition andthen :: "'a outcome option \<Rightarrow> ('a \<Rightarrow> 'b outcome option) \<Rightarrow> 'b outcome option" where
  "andthen m f = (case m of None \<Rightarrow> None | Some Fault \<Rightarrow> Some Fault | Some Exits \<Rightarrow> Some Exits | Some (Done x) \<Rightarrow> f x)"

lemma andthen_simps [simp]:
  "andthen None f = None" "andthen (Some Fault) f = Some Fault" "andthen (Some Exits) f = Some Exits"
  "andthen (Some (Done x)) f = f x"
  by (simp_all add: andthen_def)

lemma andthen_Done [simp]: "andthen m f = Some (Done y) \<longleftrightarrow> (\<exists>x. m = Some (Done x) \<and> f x = Some (Done y))"
  by (simp add: andthen_def split: option.splits outcome.splits)

definition check :: "bool \<Rightarrow> unit outcome option" where
  "check b = Some (if b then Done () else Fault)"

lemma check_simps [simp]: "check True = Some (Done ())" "check False = Some Fault"
  "check b = Some (Done u) \<longleftrightarrow> b"
  by (simp_all add: check_def)

definition demand :: "'a option \<Rightarrow> 'a outcome option" where
  "demand x = Some (case x of None \<Rightarrow> Fault | Some y \<Rightarrow> Done y)"

lemma demand_simps [simp]: "demand None = Some Fault" "demand (Some x) = Some (Done x)"
  "demand y = Some (Done x) \<longleftrightarrow> y = Some x"
  by (simp_all add: demand_def split: option.splits)

section \<open>The wrappers of common.c\<close>

definition MAXLINE :: nat where "MAXLINE = 8192"
definition MAXBUF :: nat where "MAXBUF = 8192"

text \<open>A connection: what \<open>write\<close> will answer, and the bytes written so far.\<close>

record conn =
  conn_in :: "read_event list"
  conn_out :: "write_event list"
  conn_sent :: "char list"
  conn_open :: bool

definition Rio_write :: "char list \<Rightarrow> conn \<Rightarrow> conn outcome option" where
  "Rio_write buf c =
     (case rio_write (conn_out c) buf of (r, out, es) \<Rightarrow>
        (case r of None \<Rightarrow> None
         | Some n \<Rightarrow> Some (if n \<noteq> int (length buf) then Exits
                       else Done (c\<lparr>conn_out := es, conn_sent := conn_sent c @ out\<rparr>))))"

text \<open>A buffer of \<open>maxlen\<close> bytes: what is in it, \<open>None\<close> while it is uninitialised.\<close>

definition Rio_readlineb :: "rio \<Rightarrow> char list option \<Rightarrow> nat \<Rightarrow> (nat \<times> char list option \<times> rio) outcome" where
  "Rio_readlineb rp usrbuf maxlen =
     (case rio_readlineb maxlen rp of (rc, written, rp) \<Rightarrow>
        if rc < 0 then Exits
        else (case written of None \<Rightarrow> Done (nat rc, usrbuf, rp)
              | Some b \<Rightarrow> if maxlen < length b then Fault else Done (nat rc, Some b, rp)))"

section \<open>request.c\<close>

definition crlf :: "char list" where "crlf = [CHR 0x0D, CHR 0x0A]"

text \<open>The sum of the bytes, as \<open>unsigned int\<close>.\<close>

definition csum_of :: "char list \<Rightarrow> 32 word" where
  "csum_of bs = foldl (\<lambda>s c. s + of_char c) 0 bs"

definition error_body :: "char list \<Rightarrow> char list \<Rightarrow> char list \<Rightarrow> char list \<Rightarrow> char list" where
  "error_body cause errnum shortmsg longmsg =
     ''<html><title>OS Web Server Error</title>'' @ ''<body bgcolor=fffff>'' @ crlf @
     ''<p>'' @ errnum @ '': '' @ shortmsg @ ''</p>'' @ crlf @
     ''<p>'' @ longmsg @ '': '' @ cause @ ''</p>'' @ crlf @
     ''</body></html>'' @ crlf"

definition request_error :: "char list \<Rightarrow> char list \<Rightarrow> char list \<Rightarrow> char list \<Rightarrow> conn \<Rightarrow> conn outcome option" where
  "request_error cause errnum shortmsg longmsg c =
     (let body = error_body cause errnum shortmsg longmsg
      in andthen (check (length body < MAXBUF)) (\<lambda>_.
         andthen (Rio_write (''HTTP/1.0 '' @ errnum @ '' '' @ shortmsg @ crlf) c) (\<lambda>c.
         andthen (Rio_write (''Content-Type: text/html'' @ crlf) c) (\<lambda>c.
         andthen (Rio_write (''Content-Length: '' @ dec (length body) @ crlf) c) (\<lambda>c.
         andthen (Rio_write (''Content-Csum: '' @ print_u (csum_of body) @ crlf @ crlf) c) (\<lambda>c.
         Rio_write body c))))))"

partial_function (option) read_headers_loop :: "char list option \<Rightarrow> rio \<Rightarrow> rio outcome option" where
  "read_headers_loop buf rp =
     (case buf of None \<Rightarrow> Some Fault
      | Some b \<Rightarrow>
          if c_str b = crlf then Some (Done rp)
          else (case Rio_readlineb rp buf MAXLINE of
                  Fault \<Rightarrow> Some Fault | Exits \<Rightarrow> Some Exits
                | Done (n, buf', rp') \<Rightarrow> read_headers_loop buf' rp'))"

definition request_read_headers :: "rio \<Rightarrow> rio outcome option" where
  "request_read_headers rp =
     andthen (Some (Rio_readlineb rp None MAXLINE)) (\<lambda>(n, buf, rp). read_headers_loop buf rp)"

definition request_parse_URI :: "char list \<Rightarrow> nat \<Rightarrow> char list" where
  "request_parse_URI uri max_len = take (max_len - 1) (''./'' @ uri)"

definition request_get_file_type :: "char list \<Rightarrow> char list" where
  "request_get_file_type filename =
     (if strstr filename ''.html'' \<noteq> None then ''text/html''
      else if strstr filename ''.gif'' \<noteq> None then ''image/gif''
      else if strstr filename ''.jpg'' \<noteq> None then ''image/jpeg''
      else ''text/plain'')"

definition request_destroy :: "conn \<Rightarrow> conn" where
  "request_destroy c = c\<lparr>conn_open := False\<rparr>"

text \<open>\<open>request_init\<close>: the file data with the name, or \<open>None\<close> for a NULL request, and the connection.
  The arrays \<open>buf\<close>, \<open>method\<close> and \<open>uri\<close> are not initialised, so reading one that was not filled is
  a fault.\<close>

definition request_init :: "conn \<Rightarrow> (file_data option \<times> conn) outcome option" where
  "request_init c =
     andthen (Some (Rio_readlineb (rio_init (conn_in c)) None MAXLINE)) (\<lambda>(n, buf, rp).
     andthen (demand buf) (\<lambda>b.
       (case sscanf_s 3 (c_str b) of
          [] \<Rightarrow> Some Fault
        | meth # words \<Rightarrow>
            if \<not> strcasecmp_eq meth ''GET'' then
              andthen (request_error meth ''501'' ''Not Implemented''
                         ''OS Web Server does not implement this method'' c)
                (\<lambda>c. Some (Done (None, request_destroy c)))
            else
              andthen (request_read_headers rp) (\<lambda>rp.
                (case words of
                   [] \<Rightarrow> Some Fault
                 | uri # _ \<Rightarrow>
                     Some (Done (Some (file_data_init\<lparr>file_name := Some (request_parse_URI uri MAXLINE)\<rparr>),
                                 c\<lparr>conn_in := rio_src rp\<rparr>)))))))"

text \<open>A file of the disk: what \<open>stat\<close>, \<open>open\<close> and \<open>read\<close> say of it.\<close>

record node =
  is_regular :: bool
  owner_reads :: bool
  st_size :: nat
  opens :: bool
  reads :: "read_event list"

type_synonym disk = "char list \<Rightarrow> node option"

text \<open>What C code finds in memory it did not write: the bytes behind a block, the bytes of a new
  block, a pointer field of a new entry.\<close>

record mem =
  slack :: "char list"
  stale :: "nat \<Rightarrow> char"
  junk :: chain

definition request_readfile :: "disk \<Rightarrow> mem \<Rightarrow> file_data \<Rightarrow> conn \<Rightarrow> (bool \<times> file_data \<times> conn) outcome option" where
  "request_readfile dk mm d c =
     andthen (demand (file_name d)) (\<lambda>nm.
       let refuse = (\<lambda>errnum shortmsg longmsg.
             andthen (request_error nm errnum shortmsg longmsg c) (\<lambda>c. Some (Done (False, d, c))))
       in if nm \<noteq> [] \<and> hd nm = CHR ''/'' then
            refuse ''404'' ''Not found'' ''OS Web Server doesn't serve files with absolute paths''
          else if strstr nm ''..'' \<noteq> None then
            refuse ''404'' ''Not found'' ''OS Web Server doesn't serve files with .. in the path''
          else if strrchr nm CHR ''.'' \<in> {Some ''.c'', Some ''.h''} then
            refuse ''404'' ''Not found'' ''OS Web Server doesn't serve C or header files ''
          else (case dk nm of
            None \<Rightarrow> refuse ''404'' ''Not found'' ''OS Web Server could not find this file''
          | Some f \<Rightarrow>
              if \<not> is_regular f \<or> \<not> owner_reads f then
                refuse ''403'' ''Forbidden'' ''OS Web Server could not read this file''
              else
                let n = s32 (int (st_size f)); d = d\<lparr>file_size := n\<rparr>
                in if n = 0 then Some (Done (True, d, c))
                   else if \<not> opens f \<or> n < 0 then Some Exits
                   else (case rio_read (nat n) (reads f) of (r, bs, _) \<Rightarrow>
                     if r < 0 then Some Exits
                     else Some (Done (True, d\<lparr>file_buf := Some (bs @ map (stale mm) [length bs..<nat n])\<rparr>, c)))))"

text \<open>The \<open>n\<close> bytes from the start of a block; those past its end are read behind it.\<close>

definition block_read :: "mem \<Rightarrow> char list option \<Rightarrow> nat \<Rightarrow> char list option" where
  "block_read mm b n =
     (if n = 0 then Some []
      else case b of None \<Rightarrow> None
        | Some bs \<Rightarrow> if n \<le> length (bs @ slack mm) then Some (take n (bs @ slack mm)) else None)"

definition response_header :: "char list \<Rightarrow> int \<Rightarrow> 32 word \<Rightarrow> char list" where
  "response_header filetype len csum =
     ''HTTP/1.0 200 OK'' @ crlf @ ''Server: OS Web Server'' @ crlf @
     ''Content-Type: '' @ filetype @ crlf @ ''Content-Length: '' @ print_d len @ crlf @
     ''Content-Csum: '' @ print_u csum @ crlf @ crlf"

text \<open>\<open>request_processfile\<close> reads the file's bytes again and stores nothing.\<close>

definition request_sendfile :: "mem \<Rightarrow> file_data \<Rightarrow> conn \<Rightarrow> conn outcome option" where
  "request_sendfile mm d c =
     andthen (demand (file_name d)) (\<lambda>nm.
     andthen (demand (block_read mm (file_buf d) (nat (file_size d)))) (\<lambda>bs.
     andthen (Rio_write (response_header (request_get_file_type nm) (file_size d) (csum_of bs)) c) (\<lambda>c.
       if 0 < file_size d then Rio_write bs c else Some (Done c))))"

section \<open>do\_server\_request\<close>

text \<open>The two critical sections on the cache. A name, buffer and size found are copied.\<close>

definition lookup_section :: "cache_table \<Rightarrow> file_data \<Rightarrow> file_data option outcome option" where
  "lookup_section cache d =
     andthen (demand (file_name d)) (\<lambda>nm.
     andthen (demand (cache_lookup cache nm)) (\<lambda>found.
       (case found of
          None \<Rightarrow> Some (Done None)
        | Some e \<Rightarrow> andthen (demand (c_strdup [] (file_buf e))) (\<lambda>b.
            Some (Done (Some (d\<lparr>file_buf := Some b, file_size := file_size e\<rparr>)))))))"

definition insert_section :: "mem \<Rightarrow> int \<Rightarrow> cache_table \<Rightarrow> file_data \<Rightarrow> cache_table outcome option" where
  "insert_section mm max_cache_size cache d =
     andthen (demand (cache_insert (slack mm) (junk mm) max_cache_size cache d)) (\<lambda>(_, cache). Some (Done cache))"

text \<open>Where a worker is in \<open>do_server_request\<close>, with its \<open>data\<close>: between two places another worker
  may use the cache. The flag of \<open>Loading\<close> is whether the file is inserted afterwards.\<close>

datatype place = Starting | Looking file_data | Loading bool file_data | Inserting file_data
  | Sending file_data | Closing | Finished

definition worker_step ::
  "disk \<Rightarrow> int \<Rightarrow> mem \<Rightarrow> cache_table \<times> place \<times> conn \<Rightarrow> (cache_table \<times> place \<times> conn) outcome option"
where
  "worker_step dk max_cache_size mm = (\<lambda>(cache, p, c).
     (case p of
        Starting \<Rightarrow> andthen (request_init c) (\<lambda>(rq, c). Some (Done (cache,
          (case rq of None \<Rightarrow> Finished
           | Some d \<Rightarrow> if max_cache_size < file_size d then Loading False d else Looking d), c)))
      | Looking d \<Rightarrow> andthen (lookup_section cache d) (\<lambda>r. Some (Done (cache,
          (case r of Some d \<Rightarrow> Sending d | None \<Rightarrow> Loading True d), c)))
      | Loading keep d \<Rightarrow> andthen (request_readfile dk mm d c) (\<lambda>(ret, d, c). Some (Done (cache,
          (if \<not> ret then Closing else if keep then Inserting d else Sending d), c)))
      | Inserting d \<Rightarrow> andthen (insert_section mm max_cache_size cache d) (\<lambda>cache. Some (Done (cache, Sending d, c)))
      | Sending d \<Rightarrow> andthen (request_sendfile mm d c) (\<lambda>c. Some (Done (cache, Closing, c)))
      | Closing \<Rightarrow> Some (Done (cache, Finished, request_destroy c))
      | Finished \<Rightarrow> Some (Done (cache, Finished, c))))"

fun worker_run :: "nat \<Rightarrow> disk \<Rightarrow> int \<Rightarrow> mem \<Rightarrow> cache_table \<times> place \<times> conn \<Rightarrow> (cache_table \<times> place \<times> conn) outcome option" where
  "worker_run 0 dk m mm s = Some (Done s)"
| "worker_run (Suc n) dk m mm s = andthen (worker_step dk m mm s) (worker_run n dk m mm)"

text \<open>A request that no other worker disturbs takes six steps at most.\<close>

definition do_server_request :: "disk \<Rightarrow> int \<Rightarrow> mem \<Rightarrow> cache_table \<Rightarrow> conn \<Rightarrow> (cache_table \<times> conn) outcome option" where
  "do_server_request dk max_cache_size mm cache c =
     andthen (worker_run 6 dk max_cache_size mm (cache, Starting, c)) (\<lambda>(cache, p, c). Some (Done (cache, c)))"

text \<open>All the workers: the cache and the place and connection of each.\<close>

record site =
  site_cache :: cache_table
  site_workers :: "(place \<times> conn) list"

text \<open>Any interleaving of the workers; \<open>mms\<close> is what memory may hold.\<close>

inductive serves :: "disk \<Rightarrow> int \<Rightarrow> mem set \<Rightarrow> site \<Rightarrow> site \<Rightarrow> bool" for dk max_cache_size mms s where
  serves_refl: "serves dk max_cache_size mms s s"
| serves_step: "serves dk max_cache_size mms s t \<Longrightarrow> i < length (site_workers t) \<Longrightarrow> mm \<in> mms \<Longrightarrow>
    worker_step dk max_cache_size mm (site_cache t, site_workers t ! i) = Some (Done (cache, w)) \<Longrightarrow>
    serves dk max_cache_size mms s \<lparr>site_cache = cache, site_workers = (site_workers t)[i := w]\<rparr>"

end
