(* ===== verification/Web_Sockets.thy ===== *)
theory Web_Sockets
  imports Web_Request "HOL-Library.Word"
begin

unbundle bit_operations_syntax

text \<open>
  The wrappers of \<open>src/webserver/common.c\<close> around \<open>malloc\<close>, system calls, the resolver and sockets:
  \<open>Malloc\<close>, \<open>Rio_read\<close>, \<open>Rio_init\<close>, \<open>open_clientfd\<close> and \<open>open_listenfd\<close>. What the system calls return, when \<open>malloc\<close> succeeds
  and what \<open>gethostbyname_r\<close> answers for a buffer of a given size are parameters.
\<close>

section \<open>Wrappers\<close>

text \<open>The macro \<open>SYS\<close> for a call that returned \<open>code\<close>.\<close>

definition SYS :: "int \<Rightarrow> int outcome" where
  "SYS code = (if code < 0 then Exits else Done code)"

definition Malloc :: "(64 word \<Rightarrow> bool) \<Rightarrow> 64 word \<Rightarrow> unit outcome" where
  "Malloc succeeds sz = (if succeeds sz then Done () else Exits)"

definition Rio_read :: "nat \<Rightarrow> read_event list \<Rightarrow> (int \<times> char list \<times> read_event list) outcome" where
  "Rio_read nbytes es = (let (n, out, es) = rio_read nbytes es in if n < 0 then Exits else Done (n, out, es))"

text \<open>A \<open>struct rio\<close> has 8208 bytes.\<close>

definition Rio_init :: "(64 word \<Rightarrow> bool) \<Rightarrow> read_event list \<Rightarrow> rio outcome" where
  "Rio_init succeeds es = (if succeeds 8208 then Done (rio_init es) else Exits)"

section \<open>Addresses\<close>

text \<open>The 12 bytes after the port are \<open>sin_addr\<close> and the padding.\<close>

record sockaddr_in =
  sin_family :: int
  sin_port :: "16 word"
  sin_bytes :: "8 word list"

definition AF_INET :: int where "AF_INET = 2"
definition LISTENQ :: int where "LISTENQ = 1024"
definition ERANGE :: int where "ERANGE = 34"

text \<open>\<open>htons\<close> on a little-endian machine.\<close>

definition htons :: "16 word \<Rightarrow> 16 word" where
  "htons x = push_bit 8 x OR drop_bit 8 x"

section \<open>open\_clientfd\<close>

text \<open>The loop that doubles the buffer of \<open>gethostbyname_r\<close>, until it does not return \<open>ERANGE\<close>: \<open>dns\<close> gives for a size of the
  buffer the result and the address, which is \<open>None\<close> when \<open>hp\<close> or \<open>hp->h_addr\<close> is NULL. \<open>held\<close> counts the buffers
  allocated and not freed.\<close>

partial_function (option) lookup_host ::
  "(64 word \<Rightarrow> bool) \<Rightarrow> (64 word \<Rightarrow> int \<times> 8 word list option) \<Rightarrow> 64 word \<Rightarrow> int \<Rightarrow> (8 word list \<times> int) outcome option"
where
  "lookup_host succeeds dns buf_len held =
     (if Malloc succeeds buf_len = Exits then Some Exits
      else let held = held + 1; (rc, hp) = dns buf_len
        in if rc = ERANGE then lookup_host succeeds dns (buf_len * 2) (held - 1)
           else if rc \<noteq> 0 then Some Exits
           else (case hp of None \<Rightarrow> Some Exits | Some addr \<Rightarrow> Some (Done (addr, held))))"

text \<open>The result has the descriptor, the address given to \<open>connect\<close>, and the number of buffers not freed.\<close>

definition open_clientfd ::
  "(64 word \<Rightarrow> bool) \<Rightarrow> (char list \<Rightarrow> 64 word \<Rightarrow> int \<times> 8 word list option) \<Rightarrow> int \<Rightarrow> (int \<Rightarrow> sockaddr_in \<Rightarrow> int) \<Rightarrow>
   char list \<Rightarrow> int \<Rightarrow> (int \<times> sockaddr_in \<times> int) outcome option"
where
  "open_clientfd succeeds dns sock connect hostname port =
     andthen (Some (SYS sock)) (\<lambda>clientfd.
     andthen (lookup_host succeeds (dns hostname) 1024 0) (\<lambda>(h_addr, held).
       if 12 < length h_addr then Some Fault
       else let held = held - 1;
                serveraddr = \<lparr>sin_family = AF_INET, sin_port = htons (word_of_int port),
                  sin_bytes = h_addr @ replicate (12 - length h_addr) 0\<rparr>
            in andthen (Some (SYS (connect clientfd serveraddr))) (\<lambda>_. Some (Done (clientfd, serveraddr, held)))))"

section \<open>open\_listenfd\<close>

text \<open>\<open>INADDR_ANY\<close> is 0. The result is the descriptor, the address bound and the length of the backlog.\<close>

definition open_listenfd ::
  "int \<Rightarrow> int \<Rightarrow> (int \<Rightarrow> sockaddr_in \<Rightarrow> int) \<Rightarrow> (int \<Rightarrow> int \<Rightarrow> int) \<Rightarrow> int \<Rightarrow> (int \<times> sockaddr_in \<times> int) outcome option"
where
  "open_listenfd sock setopt bnd lstn port =
     andthen (Some (SYS sock)) (\<lambda>listenfd.
     andthen (Some (SYS setopt)) (\<lambda>_.
       let serveraddr = \<lparr>sin_family = AF_INET, sin_port = htons (word_of_int port), sin_bytes = replicate 12 0\<rparr>
       in andthen (Some (SYS (bnd listenfd serveraddr))) (\<lambda>_.
          andthen (Some (SYS (lstn listenfd LISTENQ))) (\<lambda>_. Some (Done (listenfd, serveraddr, LISTENQ))))))"

section \<open>Facts\<close>

lemma SYS_simps [simp]: "SYS c = Done x \<longleftrightarrow> 0 \<le> c \<and> x = c" "SYS c = Exits \<longleftrightarrow> c < 0" "SYS c \<noteq> Fault"
  by (auto simp: SYS_def)

lemma Malloc_simps [simp]: "Malloc succeeds n = Exits \<longleftrightarrow> \<not> succeeds n"
  by (simp add: Malloc_def)

lemma htons_htons [simp]: "htons (htons x) = x"
  by (rule bit_word_eqI) (auto simp: htons_def bit_simps)

lemma htons_inject [simp]: "htons x = htons y \<longleftrightarrow> x = y"
  by (metis htons_htons)

lemma lookup_step:
  assumes "succeeds n" "fst (dns n) = ERANGE"
  shows "lookup_host succeeds dns n held = lookup_host succeeds dns (n * 2) held"
  using assms by (subst lookup_host.simps) (simp add: case_prod_unfold)

text \<open>The sizes that the loop tries.\<close>

definition buf_size :: "nat \<Rightarrow> 64 word" where
  "buf_size i = 1024 * 2 ^ i"

lemma buf_size_simps: "buf_size 0 = 1024" "buf_size i * 2 = buf_size (Suc i)"
  by (simp_all add: buf_size_def)

lemma lookup_reaches:
  assumes "\<forall>i < k. succeeds (buf_size i) \<and> fst (dns (buf_size i)) = ERANGE"
  shows "lookup_host succeeds dns (buf_size 0) held = lookup_host succeeds dns (buf_size k) held"
  using assms
proof (induction k)
  case (Suc k)
  then show ?case using lookup_step [of succeeds "buf_size k" dns held] by (simp add: buf_size_simps)
qed simp

text \<open>Every answer is the first one that is not \<open>ERANGE\<close>.\<close>

lemma lookup_first_answer:
  assumes "\<forall>i < k. succeeds (buf_size i) \<and> fst (dns (buf_size i)) = ERANGE" "succeeds (buf_size k)"
    "dns (buf_size k) = (rc, hp)" "rc \<noteq> ERANGE"
  shows "lookup_host succeeds dns 1024 held =
    Some (if rc \<noteq> 0 then Exits else case hp of None \<Rightarrow> Exits | Some addr \<Rightarrow> Done (addr, held + 1))"
proof -
  have "lookup_host succeeds dns 1024 held = lookup_host succeeds dns (buf_size k) held"
    using lookup_reaches [OF assms(1), of held] by (simp add: buf_size_simps)
  then show ?thesis using assms(2-4) by (subst (asm) (2) lookup_host.simps) (simp split: option.splits)
qed

text \<open>The loop returns exactly when some buffer cannot be allocated or is large enough; each size is tried once, so the first 54
  sizes, all below \<open>2 ^ 64\<close>, and 0 decide.\<close>

lemma lookup_endless:
  assumes "\<forall>i. succeeds (buf_size i) \<and> fst (dns (buf_size i)) = ERANGE"
  shows "lookup_host succeeds dns (buf_size k) held = None"
proof -
  have "\<forall>k. buf = buf_size k \<longrightarrow> succeeds' = succeeds \<longrightarrow> dns' = dns \<longrightarrow> False"
    if "lookup_host succeeds' dns' buf held = Some r" for succeeds' dns' buf held r
    using that
  proof (rule lookup_host.raw_induct [where P = "\<lambda>s d buf held r. \<forall>k. buf = buf_size k \<longrightarrow> s = succeeds \<longrightarrow> d = dns \<longrightarrow> False", rotated],
      goal_cases)
    case (1 f s d buf held r)
    show ?case
    proof (intro allI impI)
      fix k assume e: "buf = buf_size k" "s = succeeds" "d = dns"
      have "succeeds (buf_size k)" "fst (dns (buf_size k)) = ERANGE" using assms by simp_all
      with 1(2) e have "f succeeds dns (buf_size (Suc k)) held = Some r" by (simp add: case_prod_unfold buf_size_simps)
      with 1(1) show False by blast
    qed
  qed
  then show ?thesis by (cases "lookup_host succeeds dns (buf_size k) held") blast+
qed

lemma buf_size_periodic: "54 \<le> i \<Longrightarrow> buf_size i = buf_size 54"
proof -
  have z: "(2 :: 64 word) ^ 64 = 0" using word_exp_length_eq_0 [where 'a = 64] by simp
  have "(2 :: 64 word) ^ n = 0" if "64 \<le> n" for n
  proof -
    from that obtain k where "n = 64 + k" using le_Suc_ex by blast
    then show ?thesis by (simp only: power_add z mult_zero_left)
  qed
  moreover have "buf_size i = 2 ^ (i + 10)" for i by (simp add: buf_size_def power_add)
  ultimately show "54 \<le> i \<Longrightarrow> buf_size i = buf_size 54" by (simp only:)
qed

text \<open>The loop returns exactly when some size is large enough or cannot be allocated.\<close>

lemma lookup_returns:
  "(\<exists>res. lookup_host succeeds dns 1024 held = Some res) \<longleftrightarrow>
     (\<exists>i \<le> 54. \<not> succeeds (buf_size i) \<or> fst (dns (buf_size i)) \<noteq> ERANGE)"
proof -
  let ?go = "\<lambda>i. succeeds (buf_size i) \<and> fst (dns (buf_size i)) = ERANGE"
  have "\<exists>res. lookup_host succeeds dns 1024 held = Some res" if "i \<le> 54" "\<not> ?go i" for i
  proof -
    define k where "k = (LEAST i. \<not> ?go i)"
    have k: "\<not> ?go k" "\<forall>i < k. ?go i" unfolding k_def using that(2) LeastI [of "\<lambda>i. \<not> ?go i" i] not_less_Least [of _ "\<lambda>i. \<not> ?go i"]
      by blast+
    have "lookup_host succeeds dns 1024 held = lookup_host succeeds dns (buf_size k) held"
      using lookup_reaches [OF k(2), of held] by (simp add: buf_size_simps)
    moreover have "\<exists>res. lookup_host succeeds dns (buf_size k) held = Some res"
      using k(1) by (subst lookup_host.simps) (auto simp: case_prod_unfold Let_def split: option.splits)
    ultimately show ?thesis by simp
  qed
  moreover have "lookup_host succeeds dns 1024 held = None" if go: "\<forall>i \<le> 54. ?go i"
  proof -
    have "?go i" for i
    proof (cases "i \<le> 54")
      case False
      then have "buf_size i = buf_size 54" by (intro buf_size_periodic) simp
      then show ?thesis using go by simp
    qed (use go in simp)
    then show ?thesis using lookup_endless [of succeeds dns 0 held] by (simp add: buf_size_simps)
  qed
  ultimately show ?thesis by (metis option.distinct(1))
qed

lemma client_address:
  assumes "open_clientfd succeeds dns sock connect host port = Some (Done (fd, addr, held))"
  shows "fd = sock \<and> sin_port addr = htons (word_of_int port) \<and> sin_family addr = AF_INET \<and> connect fd addr \<ge> 0 \<and> length (sin_bytes addr) = 12"
  using assms by (auto simp: open_clientfd_def Let_def split: if_splits)

lemma listen_address:
  assumes "open_listenfd sock setopt bnd lstn port = Some (Done (fd, addr, backlog))"
  shows "fd = sock \<and> addr = \<lparr>sin_family = AF_INET, sin_port = htons (word_of_int port), sin_bytes = replicate 12 0\<rparr> \<and>
    bnd fd addr \<ge> 0 \<and> lstn fd backlog \<ge> 0 \<and> backlog = LISTENQ"
  using assms by (auto simp: open_listenfd_def Let_def)

text \<open>No buffer is lost.\<close>

lemma lookup_held:
  "lookup_host succeeds dns n held = Some res \<Longrightarrow> (\<forall>addr h. res = Done (addr, h) \<longrightarrow> h = held + 1)"
proof (erule lookup_host.raw_induct [where P = "\<lambda>s d n held res. \<forall>addr h. res = Done (addr, h) \<longrightarrow> h = held + 1", rotated], goal_cases)
  case (1 f s d n held res)
  show ?case
  proof (intro allI impI)
    fix addr h assume r: "res = Done (addr, h)"
    show "h = held + 1"
    proof (cases "fst (d n) = ERANGE")
      case True
      with 1(2) r have "f s d (n * 2) held = Some (Done (addr, h))" by (simp add: case_prod_unfold split: if_splits)
      with 1(1) show ?thesis by blast
    next
      case False
      with 1(2) r show ?thesis by (auto simp: case_prod_unfold Let_def split: if_splits option.splits)
    qed
  qed
qed

lemma client_holds_nothing:
  "open_clientfd succeeds dns sock connect host port = Some (Done (fd, addr, held)) \<Longrightarrow> held = 0"
  using lookup_held [of succeeds "dns host" 1024 0] by (auto simp: open_clientfd_def Let_def split: if_splits)

section \<open>Properties\<close>

text \<open>C12: The client reaches the server's port: whatever the resolver answers, \<open>open_clientfd\<close> connects to the port that \<open>open_listenfd\<close> binds
  exactly when the two port numbers agree modulo 65536, and a server listens on all its addresses with a backlog
  of 1024. No buffer of the resolver is lost.\<close>

theorem client_meets_server:
  assumes "open_clientfd succeeds dns csock connect host cport = Some (Done (cfd, caddr, held))"
    "open_listenfd ssock setopt bnd lstn sport = Some (Done (sfd, saddr, backlog))"
  shows "(sin_port caddr = sin_port saddr \<longleftrightarrow> cport mod 65536 = sport mod 65536) \<and>
    sin_bytes saddr = replicate 12 0 \<and> backlog = 1024 \<and> held = 0"
proof -
  have "(word_of_int cport :: 16 word) = word_of_int sport \<longleftrightarrow> cport mod 65536 = sport mod 65536"
    by (simp add: word_of_int_eq_iff take_bit_eq_mod)
  then show ?thesis
    using client_address [OF assms(1)] listen_address [OF assms(2)] client_holds_nothing [OF assms(1)] by (simp add: LISTENQ_def)
qed

theorem client_meets_server_witness:
  "\<exists>cfd caddr sfd saddr. open_clientfd (\<lambda>_. True) (\<lambda>_ n. if n < 4096 then (ERANGE, None) else (0, Some [127, 0, 0, 1])) 3 (\<lambda>_ _. 0) ''localhost'' 74112 =
      Some (Done (cfd, caddr, 0)) \<and>
    open_listenfd 4 0 (\<lambda>_ _. 0) (\<lambda>_ _. 0) 8576 = Some (Done (sfd, saddr, 1024)) \<and> sin_port caddr = sin_port saddr"
proof -
  let ?dns = "\<lambda>(_ :: char list) n. if n < (4096 :: 64 word) then (ERANGE, None) else (0, Some [127, 0, 0, 1])"
  have "lookup_host (\<lambda>_. True) (?dns ''localhost'') 1024 0 = Some (Done ([127, 0, 0, 1], 1))"
    using lookup_first_answer [of 2 "\<lambda>_. True" "?dns ''localhost''" 0 "Some [127, 0, 0, 1]" 0]
    by (auto simp: buf_size_def ERANGE_def less_2_cases_iff)
  then obtain caddr where c: "open_clientfd (\<lambda>_. True) ?dns 3 (\<lambda>_ _. 0) ''localhost'' 74112 = Some (Done (3, caddr, 0))"
    by (simp add: open_clientfd_def Let_def SYS_def)
  obtain saddr where s: "open_listenfd 4 0 (\<lambda>_ _. 0) (\<lambda>_ _. 0) 8576 = Some (Done (4, saddr, 1024))"
    by (simp add: open_listenfd_def Let_def SYS_def LISTENQ_def)
  from client_meets_server [OF c s] c s show ?thesis by auto
qed

text \<open>\<open>open_clientfd\<close> returns or exits exactly when the loop that doubles the buffer of \<open>gethostbyname_r\<close> finds a size that is large
  enough or cannot be allocated among the first 55: the doubling wraps around to 0 and stays there.\<close>

theorem open_clientfd_returns:
  "(\<exists>res. open_clientfd succeeds dns sock connect host port = Some res) \<longleftrightarrow>
     sock < 0 \<or> (\<exists>i \<le> 54. \<not> succeeds (1024 * 2 ^ i) \<or> fst (dns host (1024 * 2 ^ i)) \<noteq> ERANGE)"
proof -
  have "(\<exists>res. andthen (lookup_host succeeds (dns host) 1024 0) f = Some res) \<longleftrightarrow> (\<exists>res. lookup_host succeeds (dns host) 1024 0 = Some res)"
    if "\<And>x. \<exists>res. f x = Some res" for f :: "8 word list \<times> int \<Rightarrow> (int \<times> sockaddr_in \<times> int) outcome option"
    using that by (auto simp: andthen_def split: option.splits outcome.splits)
  then show ?thesis using lookup_returns [of succeeds "dns host" 0]
    by (cases "sock < 0") (auto simp: open_clientfd_def SYS_def buf_size_def Let_def)
qed

end
