(* ===== verification/C_Double.thy ===== *)
theory C_Double
  imports Complex_Main
begin

text \<open>
  What the programs rely on of \<open>double\<close> arithmetic. A finite double is a rational number; an operation
  rounds the exact result, by a function that is a parameter of the model.
\<close>

section \<open>Rounding\<close>

text \<open>IEEE doubles: rounding is monotone and keeps what a double can represent.\<close>

definition rounds :: "(rat \<Rightarrow> rat) \<Rightarrow> bool" where
  "rounds rnd \<longleftrightarrow> (\<forall>x y. x \<le> y \<longrightarrow> rnd x \<le> rnd y) \<and>
     (\<forall>n e. \<bar>n\<bar> \<le> 2 ^ 53 \<longrightarrow> e \<le> 1074 \<longrightarrow> rnd (of_int n / 2 ^ e) = of_int n / 2 ^ e)"

lemma rounds_exactly: "rounds rnd \<Longrightarrow> \<bar>n\<bar> \<le> 2 ^ 53 \<Longrightarrow> e \<le> 1074 \<Longrightarrow> rnd (of_int n / 2 ^ e) = of_int n / 2 ^ e"
  by (simp add: rounds_def)

lemma rounds_int: "rounds rnd \<Longrightarrow> \<bar>n\<bar> \<le> 2 ^ 53 \<Longrightarrow> rnd (of_int n) = of_int n"
  using rounds_exactly [of rnd n 0] by simp

lemma rounds_exact: "rounds (\<lambda>x. x)"
  by (simp add: rounds_def)

section \<open>Functions of the mathematics library\<close>

text \<open>\<open>pow(x, 2)\<close> is exact when the square is a double, and \<open>sqrt\<close> is correctly rounded: no double lies strictly
  between the exact root and the result.\<close>

definition squares :: "(rat \<Rightarrow> rat) \<Rightarrow> bool" where
  "squares sq \<longleftrightarrow> (\<forall>n. \<bar>n * n\<bar> \<le> 2 ^ 53 \<longrightarrow> sq (of_int n) = of_int (n * n))"

definition is_double :: "rat \<Rightarrow> bool" where
  "is_double d \<longleftrightarrow> (\<exists>n e. \<bar>n\<bar> \<le> 2 ^ 53 \<and> e \<le> 1074 \<and> d = of_int n / 2 ^ e)"

definition roots :: "(rat \<Rightarrow> rat) \<Rightarrow> bool" where
  "roots rt \<longleftrightarrow> (\<forall>x d. 0 \<le> x \<longrightarrow> 0 \<le> d \<longrightarrow> is_double d \<longrightarrow>
     (d * d \<le> x \<longrightarrow> d \<le> rt x) \<and> (x \<le> d * d \<longrightarrow> rt x \<le> d))"

lemma rootsD:
  assumes "roots rt" "0 \<le> x" "0 \<le> d" "is_double d"
  shows "d * d \<le> x \<Longrightarrow> d \<le> rt x" "x \<le> d * d \<Longrightarrow> rt x \<le> d"
  using assms unfolding roots_def by blast+

text \<open>The root rounded down is one such function.\<close>

definition root_down :: "rat \<Rightarrow> rat" where
  "root_down x = Max {d. is_double d \<and> 0 \<le> d \<and> d * d \<le> x}"

lemma finite_doubles: "finite {d. is_double d}"
proof -
  have "{d. is_double d} \<subseteq> (\<lambda>(n, e). of_int n / 2 ^ e) ` ({- (2 ^ 53) .. 2 ^ 53} \<times> {.. 1074})"
    by (force simp: is_double_def image_iff abs_le_iff)
  then show ?thesis by (rule finite_subset) simp
qed

lemma roots_down: "roots root_down"
  unfolding roots_def
proof (intro allI impI conjI)
  fix x d :: rat
  let ?S = "{d. is_double d \<and> 0 \<le> d \<and> d * d \<le> x}"
  have fin: "finite ?S" by (rule finite_subset [OF _ finite_doubles]) auto
  assume "0 \<le> x" "0 \<le> d" "is_double d"
  then show "d * d \<le> x \<Longrightarrow> d \<le> root_down x" unfolding root_down_def by (intro Max_ge fin) simp
  assume le: "x \<le> d * d"
  have "is_double 0" unfolding is_double_def by (intro exI [of _ 0] exI [of _ "0 :: nat"]) simp
  then have "?S \<noteq> {}" using \<open>0 \<le> x\<close> by auto
  moreover have "e \<le> d" if "e \<in> ?S" for e
    using that le \<open>0 \<le> d\<close> power2_le_imp_le [of e d] by (simp add: power2_eq_square)
  ultimately show "root_down x \<le> d" unfolding root_down_def using fin by (intro Max.boundedI) blast+
qed

text \<open>So integers up to \<open>2 ^ 41\<close> keep their order under \<open>sqrt\<close>: two doubles fit between the roots of two neighbours.\<close>

lemma grid_between:
  assumes "0 \<le> (n::int)" "n < m" "m \<le> 2 ^ 41"
  shows "\<exists>k. 0 \<le> k \<and> k + 1 \<le> 2 ^ 53 \<and> n * 2 ^ 60 \<le> k * k \<and> (k + 1) * (k + 1) \<le> m * 2 ^ 60"
proof -
  let ?P = "\<lambda>k::nat. n * 2 ^ 60 \<le> int k * int k"
  have "n * 2 ^ 60 \<le> (2 ^ 51) * (2 ^ 51 :: int)" using assms by simp
  then have big: "?P (2 ^ 51)" by simp
  define k where "k = (LEAST k. ?P k)"
  have k: "?P k" "k \<le> 2 ^ 51" unfolding k_def using big by (rule LeastI, rule Least_le)
  have "(int k + 1) * (int k + 1) \<le> m * 2 ^ 60"
  proof (cases k)
    case 0
    then show ?thesis using assms by simp
  next
    case (Suc j)
    then have "\<not> ?P j" unfolding k_def by (intro not_less_Least) simp
    then have "int j * int j < n * 2 ^ 60" by simp
    moreover have "(int k + 1) * (int k + 1) = int j * int j + 4 * int k" using Suc by (simp add: algebra_simps)
    moreover have "4 * int k \<le> 2 ^ 60" using k(2) by simp
    moreover have "(n + 1) * 2 ^ 60 \<le> m * 2 ^ 60" using assms(2) by simp
    ultimately show ?thesis by (simp add: algebra_simps)
  qed
  with k show ?thesis by (intro exI [of _ "int k"]) simp
qed

lemma is_double_grid: "0 \<le> k \<Longrightarrow> k \<le> 2 ^ 53 \<Longrightarrow> is_double (of_int k / 2 ^ 30)"
  unfolding is_double_def by (intro exI [of _ k] exI [of _ "30 :: nat"]) simp

lemma root_less:
  assumes "roots rt" "0 \<le> (n::int)" "n < m" "m \<le> 2 ^ 41"
  shows "rt (of_int n) < rt (of_int m)"
proof -
  from grid_between [OF assms(2-4)] obtain k where
    k: "0 \<le> k" "k + 1 \<le> 2 ^ 53" "n * 2 ^ 60 \<le> k * k" "(k + 1) * (k + 1) \<le> m * 2 ^ 60" by blast
  let ?d = "\<lambda>k. of_int k / 2 ^ 30 :: rat"
  have dbl: "is_double (?d k)" "is_double (?d (k + 1))" using k(1,2) by (intro is_double_grid; simp)+
  have sq: "?d j * ?d j = of_int (j * j) / 2 ^ 60" for j by (simp add: power_add [symmetric])
  have "(of_int (n * 2 ^ 60) :: rat) \<le> of_int (k * k)" "(of_int ((k + 1) * (k + 1)) :: rat) \<le> of_int (m * 2 ^ 60)"
    using k(3,4) by (simp_all only: of_int_le_iff)
  then have "of_int n \<le> ?d k * ?d k" "?d (k + 1) * ?d (k + 1) \<le> of_int m"
    unfolding sq by (simp_all add: le_divide_eq divide_le_eq)
  moreover have pos: "0 \<le> (of_int n :: rat)" "0 \<le> (of_int m :: rat)" "0 \<le> ?d k" "0 \<le> ?d (k + 1)" using assms(2,3) k(1) by simp_all
  ultimately have "rt (of_int n) \<le> ?d k" "?d (k + 1) \<le> rt (of_int m)"
    using rootsD(2) [OF assms(1) pos(1,3) dbl(1)] rootsD(1) [OF assms(1) pos(2,4) dbl(2)] by blast+
  moreover have "?d k < ?d (k + 1)" by (simp add: divide_strict_right_mono)
  ultimately show ?thesis by linarith
qed

end
