(* ===== verification/Web_Wire.thy ===== *)
theory Web_Wire
  imports Web_Request
begin

text \<open>
  The two ends of a connection: the client's request and its check of the response
  (\<open>src/webserver/client.c\<close>), and what \<open>request_init\<close> makes of the one and the client of the
  server's response header and file, whatever chunks the bytes arrive in.
\<close>

section \<open>client.c\<close>

definition client_request_text :: "char list \<Rightarrow> char list \<Rightarrow> char list" where
  "client_request_text host filename =
     ''GET '' @ filename @ '' HTTP/1.0'' @ crlf @ ''host: '' @ host @ crlf @ crlf"

definition client_send :: "char list \<Rightarrow> char list \<Rightarrow> conn \<Rightarrow> conn outcome option" where
  "client_send host filename c =
     andthen (check (length (client_request_text host filename) < MAXLINE)) (\<lambda>_.
       Rio_write (client_request_text host filename) c)"

text \<open>\<open>sscanf\<close> with a literal and a number, \<open>%d\<close> or \<open>%u\<close>: the sign and the digits.\<close>

definition scan_number :: "char list \<Rightarrow> (bool \<times> nat) option" where
  "scan_number s =
     (let s = dropWhile isspace s;
          neg = (s \<noteq> [] \<and> hd s = CHR ''-'');
          s = (if s \<noteq> [] \<and> hd s \<in> {CHR ''-'', CHR ''+''} then tl s else s);
          ds = takeWhile isdigit s
      in if ds = [] then None else Some (neg, digits_value ds))"

definition sscanf_number :: "char list \<Rightarrow> char list \<Rightarrow> (bool \<times> nat) option" where
  "sscanf_number literal s =
     (if take (length literal) s = literal then scan_number (drop (length literal) s) else None)"

text \<open>The number is read as a \<open>long\<close>, which saturates, and stored in 32 bits.\<close>

definition store_d :: "bool \<times> nat \<Rightarrow> int" where
  "store_d = (\<lambda>(neg, n). s32 (if neg then max (- int n) (- (2 ^ 63)) else min (int n) (2 ^ 63 - 1)))"

definition store_u :: "bool \<times> nat \<Rightarrow> 32 word" where
  "store_u = (\<lambda>(neg, n). if 2 ^ 64 \<le> n then - 1 else if neg then - of_nat n else of_nat n)"

text \<open>The loop of \<open>client_print\<close> over the header, with \<open>length\<close> and \<open>csum\<close>.\<close>

partial_function (option) client_headers ::
  "nat \<Rightarrow> char list option \<Rightarrow> int \<Rightarrow> 32 word \<Rightarrow> rio \<Rightarrow> (int \<times> 32 word \<times> rio) outcome option"
where
  "client_headers n buf len csum rp =
     (case buf of None \<Rightarrow> Some Fault
      | Some b \<Rightarrow>
          if c_str b \<noteq> crlf \<and> 0 < n then
            (case Rio_readlineb rp buf MAXBUF of
               Fault \<Rightarrow> Some Fault | Exits \<Rightarrow> Some Exits
             | Done (n, buf, rp) \<Rightarrow>
                 let s = (case buf of None \<Rightarrow> [] | Some b \<Rightarrow> c_str b);
                     len = (case sscanf_number ''Content-Length:'' s of None \<Rightarrow> len | Some v \<Rightarrow> store_d v);
                     csum = (case sscanf_number ''Content-Csum:'' s of None \<Rightarrow> csum | Some v \<Rightarrow> store_u v)
                 in client_headers n buf len csum rp)
          else Some (Done (len, csum, rp)))"

text \<open>The loop over the body, with \<open>length_received\<close> and \<open>csum_received\<close>.\<close>

partial_function (option) client_body :: "int \<Rightarrow> 32 word \<Rightarrow> rio \<Rightarrow> (int \<times> 32 word) outcome option" where
  "client_body len csum rp =
     (case Rio_readlineb rp (Some []) MAXBUF of
        Fault \<Rightarrow> Some Fault | Exits \<Rightarrow> Some Exits
      | Done (n, buf, rp) \<Rightarrow>
          if n = 0 then Some (Done (len, csum))
          else client_body (s32 (len + int n)) (csum + csum_of (take n (case buf of None \<Rightarrow> [] | Some b \<Rightarrow> b))) rp)"

text \<open>\<open>client_print\<close> up to its assertions; a failed one is a fault.\<close>

definition client_print :: "read_event list \<Rightarrow> 32 word \<Rightarrow> int \<Rightarrow> unit outcome option" where
  "client_print es orig_csum orig_length =
     andthen (Some (Rio_readlineb (rio_init es) None MAXBUF)) (\<lambda>(n, buf, rp).
     andthen (client_headers n buf 0 0 rp) (\<lambda>(len, csum, rp).
     andthen (client_body 0 0 rp) (\<lambda>(length_received, csum_received).
       check (orig_csum = csum \<and> orig_length = len \<and> len = length_received \<and> csum = csum_received))))"

section \<open>Reading lines\<close>

lemma take_line_line: "newline \<notin> set l \<Longrightarrow> length l < m \<Longrightarrow> take_line m (l @ newline # rest) = l @ [newline]"
proof (induction l arbitrary: m)
  case Nil
  then show ?case by (cases m) auto
next
  case (Cons c l)
  then show ?case by (cases m) auto
qed

lemma take_line_last: "newline \<notin> set l \<Longrightarrow> length l \<le> m \<Longrightarrow> take_line m l = l"
proof (induction l arbitrary: m)
  case Nil
  then show ?case by (cases m) auto
next
  case (Cons c l)
  then show ?case by (cases m) auto
qed

text \<open>A line that fits the buffer with its NUL, and the last line, without a newline.\<close>

lemma Rio_readlineb_take_line:
  assumes "rio_good rp" "rio_stream rp \<noteq> []" "length (take_line maxlen (rio_stream rp)) < maxlen"
  shows "\<exists>rp'. Rio_readlineb rp buf maxlen = Done (length (take_line maxlen (rio_stream rp)),
      Some (take_line maxlen (rio_stream rp) @ [NUL]), rp') \<and>
    rio_good rp' \<and> rio_stream rp' = drop (length (take_line maxlen (rio_stream rp))) (rio_stream rp)"
proof -
  from buffered.line_loop_reads [OF assms(1), of "[]" maxlen] assms(2) obtain rp' where
    "rio_readlineb maxlen rp = (int (length (take_line maxlen (rio_stream rp))),
       Some (take_line maxlen (rio_stream rp) @ [CHR 0x00]), rp')" "rio_good rp'"
    "rio_stream rp' = drop (length (take_line maxlen (rio_stream rp))) (rio_stream rp)"
    by (auto simp: rio_readlineb_def)
  then show ?thesis using assms(3) by (simp add: Rio_readlineb_def NUL_def)
qed

lemma Rio_readlineb_line:
  assumes "rio_good rp" "rio_stream rp = l @ newline # rest" "newline \<notin> set l" "Suc (length l) < maxlen"
  shows "\<exists>rp'. Rio_readlineb rp buf maxlen = Done (Suc (length l), Some (l @ [newline, NUL]), rp') \<and>
    rio_good rp' \<and> rio_stream rp' = rest"
  using Rio_readlineb_take_line [OF assms(1), of maxlen buf] take_line_line [of l maxlen rest] assms by simp

lemma Rio_readlineb_end:
  assumes "rio_good rp" "rio_stream rp = []" "0 < maxlen"
  shows "\<exists>rp'. Rio_readlineb rp buf maxlen = Done (0, buf, rp') \<and> rio_good rp' \<and> rio_stream rp' = []"
  using buffered.line_loop_end [OF assms] by (auto simp: Rio_readlineb_def rio_readlineb_def)

lemma rio_init_stream [simp]: "rio_stream (rio_init es) = bytes_of es" "rio_good (rio_init es) = healthy es"
  by (simp_all add: rio_stream_def rio_init_def rio_good_def)

lemma newline_not_NUL [simp]: "newline \<noteq> NUL" "NUL \<noteq> newline"
  by (simp_all add: newline_def NUL_def)

section \<open>The server reads a request\<close>

text \<open>\<open>request_read_headers\<close> stops after the empty line: \<open>ls\<close> are the lines before it, without
  their newlines.\<close>

definition header_line :: "nat \<Rightarrow> char list \<Rightarrow> bool" where
  "header_line maxlen l \<longleftrightarrow> newline \<notin> set l \<and> Suc (length l) < maxlen \<and> c_str (l @ [newline, NUL]) \<noteq> crlf"

definition header_text :: "char list list \<Rightarrow> char list" where
  "header_text ls = concat (map (\<lambda>l. l @ [newline]) ls) @ crlf"

lemma crlf_newline: "crlf = [CHR 0x0D] @ [newline]"
  by (simp add: crlf_def newline_def)

lemma c_str_crlf: "c_str [CHR 0x0D, newline, NUL] = crlf"
  by (simp add: c_str_def crlf_def newline_def NUL_def)

lemma Rio_readlineb_crlf:
  assumes "rio_good rp" "rio_stream rp = crlf @ rest" "maxlen = 8192"
  shows "\<exists>rp'. Rio_readlineb rp buf maxlen = Done (2, Some [CHR 0x0D, newline, NUL], rp') \<and>
    rio_good rp' \<and> rio_stream rp' = rest"
proof -
  have "rio_stream rp = [CHR 0x0D] @ newline # rest" using assms(2) by (simp add: crlf_newline)
  moreover have "newline \<notin> set [CHR 0x0D]" by (simp add: newline_def)
  moreover have "Suc (length [CHR 0x0D :: char]) < maxlen" using assms(3) by simp
  ultimately obtain rp' where
    "Rio_readlineb rp buf maxlen = Done (Suc (length [CHR 0x0D :: char]), Some ([CHR 0x0D] @ [newline, NUL]), rp')"
    "rio_good rp'" "rio_stream rp' = rest"
    using Rio_readlineb_line [OF assms(1)] by blast
  then show ?thesis by (simp add: eval_nat_numeral)
qed

lemma read_headers_loop_reads:
  assumes "\<forall>l \<in> set ls. header_line MAXLINE l" "rio_good rp" "rio_stream rp = header_text ls @ rest" "c_str b \<noteq> crlf"
  shows "\<exists>rp'. read_headers_loop (Some b) rp = Some (Done rp') \<and> rio_good rp' \<and> rio_stream rp' = rest"
  using assms
proof (induction ls arbitrary: b rp)
  case Nil
  then obtain rp' where "Rio_readlineb rp (Some b) MAXLINE = Done (2, Some [CHR 0x0D, newline, NUL], rp')"
    "rio_good rp'" "rio_stream rp' = rest"
    using Rio_readlineb_crlf [of rp rest MAXLINE "Some b"] by (auto simp: header_text_def MAXLINE_def)
  moreover from this have "read_headers_loop (Some [CHR 0x0D, newline, NUL]) rp' = Some (Done rp')"
    by (subst read_headers_loop.simps) (simp add: c_str_crlf)
  ultimately show ?case using Nil.prems(4) by (subst read_headers_loop.simps) simp
next
  case (Cons l ls)
  have l: "newline \<notin> set l" "Suc (length l) < MAXLINE" "c_str (l @ [newline, NUL]) \<noteq> crlf"
    using Cons.prems(1) by (auto simp: header_line_def)
  have "rio_stream rp = l @ newline # header_text ls @ rest" using Cons.prems(3) by (simp add: header_text_def)
  from Rio_readlineb_line [OF Cons.prems(2) this l(1,2), of "Some b"] obtain rp1 where
    rp1: "Rio_readlineb rp (Some b) MAXLINE = Done (Suc (length l), Some (l @ [newline, NUL]), rp1)"
    "rio_good rp1" "rio_stream rp1 = header_text ls @ rest" by blast
  have "read_headers_loop (Some b) rp = read_headers_loop (Some (l @ [newline, NUL])) rp1"
    using rp1(1) Cons.prems(4) by (subst read_headers_loop.simps) simp
  with Cons.IH [OF _ rp1(2,3) l(3)] Cons.prems(1) show ?case by simp
qed

lemma request_read_headers_reads:
  assumes "\<forall>l \<in> set ls. header_line MAXLINE l" "rio_good rp" "rio_stream rp = header_text ls @ rest"
  shows "\<exists>rp'. request_read_headers rp = Some (Done rp') \<and> rio_good rp' \<and> rio_stream rp' = rest"
proof (cases ls)
  case Nil
  then obtain rp' where "Rio_readlineb rp None MAXLINE = Done (2, Some [CHR 0x0D, newline, NUL], rp')"
    "rio_good rp'" "rio_stream rp' = rest"
    using Rio_readlineb_crlf [of rp rest MAXLINE None] assms by (auto simp: header_text_def MAXLINE_def)
  then show ?thesis
    by (simp add: request_read_headers_def) (subst read_headers_loop.simps, simp add: c_str_crlf)
next
  case (Cons l ls')
  have l: "newline \<notin> set l" "Suc (length l) < MAXLINE" "c_str (l @ [newline, NUL]) \<noteq> crlf"
    using assms(1) Cons by (auto simp: header_line_def)
  have "rio_stream rp = l @ newline # header_text ls' @ rest" using assms(3) Cons by (simp add: header_text_def)
  from Rio_readlineb_line [OF assms(2) this l(1,2), of None] obtain rp1 where
    "Rio_readlineb rp None MAXLINE = Done (Suc (length l), Some (l @ [newline, NUL]), rp1)"
    "rio_good rp1" "rio_stream rp1 = header_text ls' @ rest" by blast
  moreover from read_headers_loop_reads [OF _ this(2,3) l(3)] assms(1) Cons obtain rp' where
    "read_headers_loop (Some (l @ [newline, NUL])) rp1 = Some (Done rp')" "rio_good rp'" "rio_stream rp' = rest" by auto
  ultimately show ?thesis by (simp add: request_read_headers_def)
qed

text \<open>Words of a request line.\<close>

definition word :: "char list \<Rightarrow> bool" where
  "word w \<longleftrightarrow> w \<noteq> [] \<and> (\<forall>c \<in> set w. \<not> isspace c \<and> c \<noteq> NUL)"

lemma isspace_simps [simp]: "isspace CHR '' ''" "isspace newline" "isspace CHR 0x0D" "\<not> isspace NUL"
  by (simp_all add: isspace_def newline_def NUL_def)

lemma sscanf_s_word:
  assumes "word w" "isspace c"
  shows "sscanf_s (Suc k) (w @ c # s) = w # sscanf_s k (c # s)"
proof -
  from assms(1) obtain d ds where w: "w = d # ds" "\<not> isspace d" unfolding word_def by (cases w) auto
  have "takeWhile (\<lambda>c. \<not> isspace c) (w @ c # s) = w" "dropWhile (\<lambda>c. \<not> isspace c) (w @ c # s) = c # s"
    using assms by (auto simp: word_def takeWhile_append dropWhile_append)
  then show ?thesis using w by (simp add: Let_def)
qed

lemma sscanf_s_space: "isspace c \<Longrightarrow> sscanf_s k (c # s) = sscanf_s k s"
  by (cases k) (simp_all add: Let_def)

definition request_line :: "char list \<Rightarrow> char list" where
  "request_line filename = ''GET '' @ filename @ '' HTTP/1.0'' @ [CHR 0x0D]"

lemma client_request_text_lines:
  "client_request_text host filename = request_line filename @ newline # header_text [''host: '' @ host @ [CHR 0x0D]]"
  by (simp add: client_request_text_def request_line_def header_text_def crlf_newline)

lemma sscanf_request_line:
  assumes "word filename"
  shows "sscanf_s 3 (c_str (request_line filename @ [newline, NUL])) = [''GET'', filename, ''HTTP/1.0'']"
proof -
  have "NUL \<notin> set (request_line filename @ [newline])"
    using assms by (auto simp: request_line_def word_def NUL_def newline_def)
  from c_str_line [OF this, of "[]"]
  have c: "c_str (request_line filename @ [newline, NUL]) =
      ''GET'' @ CHR '' '' # filename @ CHR '' '' # ''HTTP/1.0'' @ CHR 0x0D # [newline]"
    by (simp add: request_line_def)
  have w: "word ''GET''" "word ''HTTP/1.0''" by (simp_all add: word_def isspace_def NUL_def)
  have "sscanf_s 0 s = []" for s by simp
  then show ?thesis unfolding c numeral_3_eq_3
    using sscanf_s_word [OF w(1)] sscanf_s_word [OF assms] sscanf_s_word [OF w(2)]
    by (simp only: sscanf_s_space isspace_simps)
qed

text \<open>A client request that \<open>client_send\<close> accepts.\<close>

definition sendable_request :: "char list \<Rightarrow> char list \<Rightarrow> bool" where
  "sendable_request host filename \<longleftrightarrow> word filename \<and> newline \<notin> set host \<and> NUL \<notin> set host \<and>
     length (client_request_text host filename) < MAXLINE"

lemma request_init_get:
  assumes "sendable_request host filename" "healthy (conn_in c)"
    "bytes_of (conn_in c) = client_request_text host filename @ rest"
  shows "\<exists>src. healthy src \<and> request_init c =
    Some (Done (Some \<lparr>file_name = Some (''./'' @ filename), file_buf = None, file_size = 0\<rparr>, c\<lparr>conn_in := src\<rparr>))"
proof -
  let ?l = "request_line filename" let ?h = "''host: '' @ host @ [CHR 0x0D]"
  have wf: "word filename" and host: "newline \<notin> set host" "NUL \<notin> set host"
    and len: "Suc (length ?l) < MAXLINE" "Suc (length ?h) < MAXLINE" "length (''./'' @ filename) \<le> MAXLINE - 1"
    using assms(1) by (auto simp: sendable_request_def client_request_text_def request_line_def crlf_def)
  have nl: "newline \<notin> set ?l" using wf by (auto simp: request_line_def word_def newline_def isspace_def)
  have "rio_stream (rio_init (conn_in c)) = ?l @ newline # header_text [?h] @ rest"
    using assms(3) by (simp add: client_request_text_lines)
  from Rio_readlineb_line [OF _ this nl len(1), of None] assms(2) obtain rp where
    rp: "Rio_readlineb (rio_init (conn_in c)) None MAXLINE = Done (Suc (length ?l), Some (?l @ [newline, NUL]), rp)"
    "rio_good rp" "rio_stream rp = header_text [?h] @ rest" by auto
  have "c_str (?h @ [newline, NUL]) = ?h @ [newline]"
    using c_str_line [of "?h @ [newline]" "[]"] host by (auto simp: NUL_def newline_def)
  then have "header_line MAXLINE ?h" using host len(2) by (auto simp: header_line_def newline_def crlf_def)
  with request_read_headers_reads [of "[?h]", OF _ rp(2,3)] obtain rp2 where
    rp2: "request_read_headers rp = Some (Done rp2)" "rio_good rp2" by auto
  have "request_init c = Some (Done (Some \<lparr>file_name = Some (request_parse_URI filename MAXLINE),
      file_buf = None, file_size = 0\<rparr>, c\<lparr>conn_in := rio_src rp2\<rparr>))"
    using rp(1) rp2(1) sscanf_request_line [OF wf]
    by (simp add: request_init_def strcasecmp_eq_def file_data_init_def)
  moreover have "request_parse_URI filename MAXLINE = ''./'' @ filename"
    using len(3) by (simp add: request_parse_URI_def)
  ultimately show ?thesis using rp2(2) by (auto simp: rio_good_def)
qed

section \<open>Decimal numbers\<close>

lemma scan_number_dec:
  assumes "\<not> isdigit c"
  shows "scan_number (CHR '' '' # dec n @ c # rest) = Some (False, n)"
proof -
  from dec_digits [of n] obtain d ds where d: "dec n = d # ds" "isdigit d" by (cases "dec n") auto
  have "dropWhile isspace (CHR '' '' # dec n @ c # rest) = dec n @ c # rest"
    using d isdigit_not_space [of d] by simp
  moreover have "takeWhile isdigit (dec n @ c # rest) = dec n"
    using dec_digits [of n] assms by (simp add: takeWhile_append)
  ultimately show ?thesis
    using d dec_digits [of n] isdigit_not_space [OF d(2)] by (simp add: scan_number_def Let_def)
qed

section \<open>The client reads a response\<close>

text \<open>What one header line does to \<open>length\<close> and \<open>csum\<close>.\<close>

definition scan_line :: "char list \<Rightarrow> int \<times> 32 word \<Rightarrow> int \<times> 32 word" where
  "scan_line s = (\<lambda>(len, csum).
     (case sscanf_number ''Content-Length:'' s of None \<Rightarrow> len | Some v \<Rightarrow> store_d v,
      case sscanf_number ''Content-Csum:'' s of None \<Rightarrow> csum | Some v \<Rightarrow> store_u v))"

lemma client_headers_step:
  assumes "Rio_readlineb rp (Some b) MAXBUF = Done (n', Some b', rp')" "c_str b \<noteq> crlf" "0 < n"
    "scan_line (c_str b') (len, csum) = (len', csum')"
  shows "client_headers n (Some b) len csum rp = client_headers n' (Some b') len' csum' rp'"
  using assms by (subst client_headers.simps) (simp add: scan_line_def Let_def)

lemma client_headers_stop:
  "client_headers n (Some [CHR 0x0D, newline, NUL]) len csum rp = Some (Done (len, csum, rp))"
  by (subst client_headers.simps) (simp add: c_str_crlf)

lemma scan_line_crlf: "scan_line crlf r = r"
  by (simp add: scan_line_def sscanf_number_def crlf_def split: prod.splits)

lemma client_headers_reads:
  assumes "\<forall>l \<in> set ls. header_line MAXBUF l \<and> NUL \<notin> set l" "rio_good rp" "rio_stream rp = header_text ls @ rest"
    "c_str b \<noteq> crlf" "0 < n" "fold scan_line (map (\<lambda>l. l @ [newline]) ls) (len, csum) = (len', csum')"
  shows "\<exists>rp'. client_headers n (Some b) len csum rp = Some (Done (len', csum', rp')) \<and>
    rio_good rp' \<and> rio_stream rp' = rest"
  using assms
proof (induction ls arbitrary: b rp n len csum)
  case Nil
  then obtain rp' where r: "Rio_readlineb rp (Some b) MAXBUF = Done (2, Some [CHR 0x0D, newline, NUL], rp')"
    "rio_good rp'" "rio_stream rp' = rest"
    using Rio_readlineb_crlf [of rp rest MAXBUF "Some b"] by (auto simp: header_text_def MAXBUF_def)
  from client_headers_step [OF r(1) Nil.prems(4,5)] scan_line_crlf [of "(len, csum)"] Nil.prems(6) r(2,3)
  show ?case by (simp add: c_str_crlf client_headers_stop)
next
  case (Cons l ls)
  have l: "newline \<notin> set l" "Suc (length l) < MAXBUF" "c_str (l @ [newline, NUL]) \<noteq> crlf" "NUL \<notin> set l"
    using Cons.prems(1) by (auto simp: header_line_def)
  obtain len1 csum1 where s1: "scan_line (l @ [newline]) (len, csum) = (len1, csum1)" by fastforce
  have c: "c_str (l @ [newline, NUL]) = l @ [newline]" using c_str_line [of "l @ [newline]" "[]"] l(4) by simp
  have "rio_stream rp = l @ newline # header_text ls @ rest" using Cons.prems(3) by (simp add: header_text_def)
  from Rio_readlineb_line [OF Cons.prems(2) this l(1,2), of "Some b"] obtain rp1 where
    rp1: "Rio_readlineb rp (Some b) MAXBUF = Done (Suc (length l), Some (l @ [newline, NUL]), rp1)"
    "rio_good rp1" "rio_stream rp1 = header_text ls @ rest" by blast
  have "client_headers n (Some b) len csum rp =
      client_headers (Suc (length l)) (Some (l @ [newline, NUL])) len1 csum1 rp1"
    using client_headers_step [OF rp1(1) Cons.prems(4,5)] c s1 by simp
  with Cons.IH [OF _ rp1(2,3) l(3), of "Suc (length l)" len1 csum1] Cons.prems(1,6) s1 show ?case by simp
qed

text \<open>The body by lines of at most \<open>m\<close> bytes and a newline; \<open>n\<close> of them are left in this line.\<close>

fun short_lines :: "nat \<Rightarrow> nat \<Rightarrow> char list \<Rightarrow> bool" where
  "short_lines m n [] = True"
| "short_lines m n (c # cs) =
     (if c = newline then short_lines m m cs else 0 < n \<and> short_lines m (n - 1) cs)"

lemma short_lines_take_line:
  "short_lines m n s \<Longrightarrow> Suc n < k \<Longrightarrow>
   length (take_line k s) \<le> Suc n \<and> short_lines m m (drop (length (take_line k s)) s)"
proof (induction k s arbitrary: n rule: take_line.induct)
  case (3 k c cs)
  then show ?case using "3.IH" [of "n - 1"] by (auto split: if_splits)
qed auto

lemma csum_foldl: "foldl (\<lambda>s c. s + of_char c) (z :: 32 word) bs = z + csum_of bs"
proof (induction bs rule: rev_induct)
  case (snoc c bs)
  then show ?case by (simp add: csum_of_def add.assoc)
qed (simp add: csum_of_def)

lemma csum_of_append: "csum_of (bs @ cs) = csum_of bs + csum_of cs"
  using csum_foldl [of "csum_of bs" cs] by (simp add: csum_of_def)

lemma take_line_Nil [simp]: "take_line m [] = []"
  by (cases m) auto

lemma take_line_pos: "s \<noteq> [] \<Longrightarrow> 0 < m \<Longrightarrow> take_line m s \<noteq> []"
  by (cases s; cases m) auto

lemma client_body_reads:
  assumes "rio_good rp" "short_lines (MAXBUF - 2) (MAXBUF - 2) (rio_stream rp)" "0 \<le> len"
    "len + int (length (rio_stream rp)) < 2 ^ 31"
  shows "client_body len csum rp =
    Some (Done (len + int (length (rio_stream rp)), csum + csum_of (rio_stream rp)))"
  using assms
proof (induction "length (rio_stream rp)" arbitrary: rp len csum rule: less_induct)
  case less
  show ?case
  proof (cases "rio_stream rp = []")
    case True
    with Rio_readlineb_end [OF less.prems(1) True, of MAXBUF "Some []"] show ?thesis
      by (subst client_body.simps) (auto simp: MAXBUF_def csum_of_def)
  next
    case False
    let ?l = "take_line MAXBUF (rio_stream rp)"
    have m: "Suc (MAXBUF - 2) < MAXBUF" by (simp add: MAXBUF_def)
    from short_lines_take_line [OF less.prems(2) m]
    have s: "length ?l < MAXBUF" "short_lines (MAXBUF - 2) (MAXBUF - 2) (drop (length ?l) (rio_stream rp))"
      using m by auto
    from Rio_readlineb_take_line [OF less.prems(1) False s(1), of "Some []"] obtain rp1 where
      rp1: "Rio_readlineb rp (Some []) MAXBUF = Done (length ?l, Some (?l @ [NUL]), rp1)" "rio_good rp1"
        "rio_stream rp1 = drop (length ?l) (rio_stream rp)" by blast
    have l: "0 < length ?l" "length ?l \<le> length (rio_stream rp)" "?l @ rio_stream rp1 = rio_stream rp"
      using take_line_pos [OF False, of MAXBUF] length_take_line(2) [of MAXBUF "rio_stream rp"]
        take_line_prefix [of MAXBUF "rio_stream rp"] rp1(3) append_take_drop_id [of "length ?l" "rio_stream rp"]
      by (auto simp: MAXBUF_def)
    have lt: "length (rio_stream rp1) < length (rio_stream rp)" using rp1(3) l(1,2) by (simp del: length_greater_0_conv)
    have len: "s32 (len + int (length ?l)) = len + int (length ?l)"
      using less.prems(3,4) l(2) by (intro s32_id) auto
    have "client_body len csum rp = client_body (len + int (length ?l)) (csum + csum_of ?l) rp1"
      using rp1(1) l(1) len by (subst client_body.simps) simp
    also have "... = Some (Done (len + int (length ?l) + int (length (rio_stream rp1)), csum + csum_of ?l + csum_of (rio_stream rp1)))"
      by (rule less.hyps [OF lt rp1(2)]) (use rp1(3) l(2) s(2) less.prems in auto)
    also have "... = Some (Done (len + int (length (rio_stream rp)), csum + csum_of (rio_stream rp)))"
      using l(3) csum_of_append [of ?l "rio_stream rp1"] rp1(3) l(2) by (simp add: add.assoc)
    finally show ?thesis .
  qed
qed

text \<open>The header of the server.\<close>

definition response_lines :: "char list \<Rightarrow> nat \<Rightarrow> 32 word \<Rightarrow> char list list" where
  "response_lines filetype n csum =
     [''HTTP/1.0 200 OK'' @ [CHR 0x0D], ''Server: OS Web Server'' @ [CHR 0x0D],
      ''Content-Type: '' @ filetype @ [CHR 0x0D], ''Content-Length: '' @ dec n @ [CHR 0x0D],
      ''Content-Csum: '' @ print_u csum @ [CHR 0x0D]]"

lemma response_header_lines: "response_header filetype (int n) csum = header_text (response_lines filetype n csum)"
  by (simp add: response_header_def header_text_def response_lines_def crlf_newline print_d_def)

lemma store_d_small: "n < 2 ^ 31 \<Longrightarrow> store_d (False, n) = int n"
  by (simp add: store_d_def s32_id min_def)

lemma store_u_word: "store_u (False, unat w) = w" for w :: "32 word"
proof -
  have "unat w < 2 ^ 64" using unat_32_less [of w] by simp
  then show ?thesis by (simp add: store_u_def)
qed

lemma carriage_return_simps [simp]: "\<not> isdigit CHR 0x0D" "CHR 0x0D \<noteq> newline" "CHR 0x0D \<noteq> NUL"
  by (simp_all add: isdigit_def newline_def NUL_def)

lemma scan_line_length: "n < 2 ^ 31 \<Longrightarrow>
    scan_line (''Content-Length: '' @ dec n @ [CHR 0x0D] @ [newline]) (len, csum) = (int n, csum)"
  using scan_number_dec [of "CHR 0x0D" n "[newline]"]
  by (simp add: scan_line_def sscanf_number_def store_d_small)

lemma scan_line_csum:
    "scan_line (''Content-Csum: '' @ print_u w @ [CHR 0x0D] @ [newline]) (len, csum) = (len, w)"
  using scan_number_dec [of "CHR 0x0D" "unat w" "[newline]"]
  by (simp add: scan_line_def sscanf_number_def print_u_def store_u_word)

lemma fold_response_lines:
  "n < 2 ^ 31 \<Longrightarrow> fold scan_line (map (\<lambda>l. l @ [newline]) (response_lines filetype n w)) (len, csum) = (int n, w)"
proof -
  assume n: "n < 2 ^ 31"
  have o: "scan_line (''HTTP/1.0 200 OK'' @ [CHR 0x0D] @ [newline]) r = r"
    "scan_line (''Server: OS Web Server'' @ [CHR 0x0D] @ [newline]) r = r"
    "scan_line (''Content-Type: '' @ filetype @ [CHR 0x0D] @ [newline]) r = r" for r
    by (simp_all add: scan_line_def sscanf_number_def split: prod.splits)
  show ?thesis
    unfolding response_lines_def list.map fold_simps append_assoc o scan_line_length [OF n] scan_line_csum by simp
qed

lemma dec_plain: "newline \<notin> set (dec n)" "NUL \<notin> set (dec n)"
  using dec_digits [of n] by (auto simp: isdigit_def newline_def NUL_def)

lemma header_lineI:
  assumes "newline \<notin> set l" "NUL \<notin> set l" "length l < 8000" "1 < length l"
  shows "header_line MAXBUF l"
proof -
  have "c_str (l @ [newline, NUL]) = l @ [newline]" using c_str_line [of "l @ [newline]" "[]"] assms(2) by simp
  moreover have "length (l @ [newline]) \<noteq> length crlf" using assms(4) by (simp add: crlf_def)
  ultimately have "c_str (l @ [newline, NUL]) \<noteq> crlf" by metis
  then show ?thesis using assms by (simp add: header_line_def MAXBUF_def)
qed

lemma response_lines_ok:
  assumes "n < 2 ^ 31" "newline \<notin> set filetype" "NUL \<notin> set filetype" "length filetype < 100"
  shows "\<forall>l \<in> set (response_lines filetype n w). header_line MAXBUF l \<and> NUL \<notin> set l"
proof -
  have "length (dec n) \<le> 10" using length_dec [of n 9] assms(1) by simp
  moreover have "length (print_u w) \<le> 10"
    using length_dec [of "unat w" 9] unat_32_less [of w] by (simp add: print_u_def)
  moreover have "newline \<notin> set (print_u w)" "NUL \<notin> set (print_u w)" by (simp_all add: print_u_def dec_plain)
  ultimately show ?thesis
    using assms by (auto simp: response_lines_def dec_plain [unfolded newline_def NUL_def] newline_def NUL_def intro!: header_lineI)
qed

lemma file_type_plain:
  "newline \<notin> set (request_get_file_type nm)" "NUL \<notin> set (request_get_file_type nm)"
  "length (request_get_file_type nm) < 100"
  by (simp_all add: request_get_file_type_def newline_def NUL_def)

text \<open>The client accepts what the server sends of a file.\<close>

lemma client_print_header:
  assumes "healthy es" "bytes_of es = response_header (request_get_file_type nm) (int (length bs)) (csum_of bs) @ bs"
    "length bs < 2 ^ 31"
  shows "\<exists>rp. rio_good rp \<and> rio_stream rp = bs \<and> client_print es w n = andthen (client_body 0 0 rp)
    (\<lambda>(len, csum). check (w = csum_of bs \<and> n = int (length bs) \<and> int (length bs) = len \<and> csum_of bs = csum))"
proof -
  define l where "l = ''HTTP/1.0 200 OK'' @ [CHR 0x0D :: char]"
  define ls where "ls = tl (response_lines (request_get_file_type nm) (length bs) (csum_of bs))"
  have ll: "response_lines (request_get_file_type nm) (length bs) (csum_of bs) = l # ls"
    by (simp add: l_def ls_def response_lines_def)
  have ok: "\<forall>k \<in> set (l # ls). header_line MAXBUF k \<and> NUL \<notin> set k"
    using response_lines_ok [OF assms(3) file_type_plain, of nm "csum_of bs"] ll by simp
  then have l: "newline \<notin> set l" "Suc (length l) < MAXBUF" "c_str (l @ [newline, NUL]) \<noteq> crlf"
    by (auto simp: header_line_def)
  have "scan_line (l @ [newline]) (0, 0) = (0, 0)" by (simp add: l_def scan_line_def sscanf_number_def)
  then have f: "fold scan_line (map (\<lambda>l. l @ [newline]) ls) (0, 0) = (int (length bs), csum_of bs)"
    using fold_response_lines [OF assms(3), of "request_get_file_type nm" "csum_of bs" 0 0] ll by simp
  have "rio_stream (rio_init es) = l @ newline # header_text ls @ bs"
    using assms(2) ll by (simp add: response_header_lines header_text_def)
  from Rio_readlineb_line [OF _ this l(1,2), of None] assms(1) obtain rp where
    rp: "Rio_readlineb (rio_init es) None MAXBUF = Done (Suc (length l), Some (l @ [newline, NUL]), rp)"
    "rio_good rp" "rio_stream rp = header_text ls @ bs" by auto
  from client_headers_reads [OF _ rp(2,3) l(3) _ f, of "Suc (length l)"] ok obtain rp2 where
    rp2: "client_headers (Suc (length l)) (Some (l @ [newline, NUL])) 0 0 rp =
        Some (Done (int (length bs), csum_of bs, rp2))" "rio_good rp2" "rio_stream rp2 = bs" by auto
  then show ?thesis using rp(1) by (intro exI [of _ rp2]) (simp add: client_print_def)
qed

lemma client_print_accepts:
  assumes "healthy es" "bytes_of es = response_header (request_get_file_type nm) (int (length bs)) (csum_of bs) @ bs"
    "length bs < 2 ^ 31" "short_lines (MAXBUF - 2) (MAXBUF - 2) bs"
  shows "client_print es (csum_of bs) (int (length bs)) = Some (Done ())"
proof -
  from client_print_header [OF assms(1-3), of "csum_of bs" "int (length bs)"] obtain rp where
    rp: "rio_good rp" "rio_stream rp = bs" "client_print es (csum_of bs) (int (length bs)) = andthen (client_body 0 0 rp)
      (\<lambda>(len, csum). check (csum_of bs = csum_of bs \<and> int (length bs) = int (length bs) \<and> int (length bs) = len \<and> csum_of bs = csum))"
    by blast
  have "client_body 0 0 rp = Some (Done (int (length bs), csum_of bs))"
    using client_body_reads [OF rp(1), of 0 0] rp(2) assms(3,4) by simp
  with rp(3) show ?thesis by simp
qed

text \<open>A body without a newline is one line: it fits the buffer with its NUL, or it overflows it.\<close>

lemma Rio_readlineb_overflow:
  assumes "rio_good rp" "rio_stream rp \<noteq> []" "length (take_line maxlen (rio_stream rp)) = maxlen"
  shows "Rio_readlineb rp buf maxlen = Fault"
  using buffered.line_loop_reads [OF assms(1), of "[]" maxlen] assms(2,3)
  by (auto simp: Rio_readlineb_def rio_readlineb_def)

lemma length_take_line_plain: "newline \<notin> set s \<Longrightarrow> length (take_line m s) = min m (length s)"
  by (induction m s rule: take_line.induct) auto

lemma client_body_one_line:
  assumes "rio_good rp" "newline \<notin> set (rio_stream rp)" "length (rio_stream rp) < 2 ^ 31"
  shows "client_body 0 0 rp = Some (if length (rio_stream rp) < MAXBUF
    then Done (int (length (rio_stream rp)), csum_of (rio_stream rp)) else Fault)"
proof (cases "length (rio_stream rp) < MAXBUF")
  case False
  then have "rio_stream rp \<noteq> []" "length (take_line MAXBUF (rio_stream rp)) = MAXBUF"
    using length_take_line_plain [OF assms(2)] by (auto simp: MAXBUF_def)
  from Rio_readlineb_overflow [OF assms(1) this] False show ?thesis by (subst client_body.simps) simp
next
  case True
  show ?thesis
  proof (cases "rio_stream rp = []")
    case True
    with client_body_reads [OF assms(1), of 0 0] show ?thesis by (simp add: MAXBUF_def)
  next
    case False
    let ?s = "rio_stream rp"
    have t: "take_line MAXBUF ?s = ?s" using take_line_last [OF assms(2)] True by simp
    with Rio_readlineb_take_line [OF assms(1) False, of MAXBUF "Some []"] True obtain rp1 where
      rp1: "Rio_readlineb rp (Some []) MAXBUF = Done (length ?s, Some (?s @ [NUL]), rp1)" "rio_good rp1" "rio_stream rp1 = []"
      by auto
    have "s32 (0 + int (length ?s)) = int (length ?s)" using assms(3) by (simp add: s32_id)
    then have "client_body 0 0 rp = client_body (int (length ?s)) (csum_of ?s) rp1"
      using rp1(1) False by (subst client_body.simps) simp
    also have "... = Some (Done (int (length ?s), csum_of ?s))"
      using client_body_reads [OF rp1(2), of "int (length ?s)" "csum_of ?s"] rp1(3) assms(3) by (simp add: csum_of_def)
    finally show ?thesis using True by simp
  qed
qed

section \<open>Writing on a connection\<close>

lemma Rio_write_delivers:
  assumes "writable (length buf + m) (conn_out c)"
  shows "\<exists>es. Rio_write buf c = Some (Done (c\<lparr>conn_out := es, conn_sent := conn_sent c @ buf\<rparr>)) \<and> writable m es"
  using rio_write_loop_finishes [OF assms, of "length buf" "[]"] by (auto simp: Rio_write_def rio_write_def)

lemma Rio_write_sent:
  assumes "Rio_write buf c = Some (Done c')"
  shows "\<exists>es. c' = c\<lparr>conn_out := es, conn_sent := conn_sent c @ buf\<rparr>"
proof -
  obtain r out es where r: "rio_write (conn_out c) buf = (r, out, es)" by (cases "rio_write (conn_out c) buf")
  with assms have "r = Some (int (length buf))" "c' = c\<lparr>conn_out := es, conn_sent := conn_sent c @ out\<rparr>"
    by (auto simp: Rio_write_def split: option.splits if_splits)
  moreover from rio_write_loop_prefix [of "length buf" "conn_out c" buf "[]" r out es] r this(1) have "out = buf"
    by (simp add: rio_write_def)
  ultimately show ?thesis by blast
qed

lemma conn_sent_Rio_write: "Rio_write buf c = Some (Done c') \<Longrightarrow> conn_sent c' = conn_sent c @ buf"
  by (auto dest: Rio_write_sent)

section \<open>Properties\<close>

text \<open>C29: \<open>request_init\<close> understands \<open>client_send\<close>: however the bytes that the client wrote arrive,
  the server's request is for \<open>./\<close> and the client's file name, and no byte of a response has been
  written.\<close>

theorem request_roundtrip:
  assumes "client_send host filename cl = Some (Done cl')" "conn_sent cl = []"
    "word filename" "newline \<notin> set host" "NUL \<notin> set host"
    "healthy (conn_in c)" "bytes_of (conn_in c) = conn_sent cl'"
  shows "\<exists>src. request_init c =
    Some (Done (Some \<lparr>file_name = Some (''./'' @ filename), file_buf = None, file_size = 0\<rparr>, c\<lparr>conn_in := src\<rparr>))"
proof -
  from assms(1) have "length (client_request_text host filename) < MAXLINE"
    "Rio_write (client_request_text host filename) cl = Some (Done cl')"
    by (auto simp: client_send_def)
  with Rio_write_sent [of "client_request_text host filename" cl cl'] assms(2,7) have
    "bytes_of (conn_in c) = client_request_text host filename @ []" "sendable_request host filename"
    using assms(3-5) by (auto simp: sendable_request_def)
  with request_init_get [OF _ assms(6)] show ?thesis by blast
qed

theorem request_roundtrip_witness:
  "\<exists>cl'. client_send ''h'' ''a.txt'' \<lparr>conn_in = [], conn_out = replicate 40 (Wrote 1), conn_sent = [], conn_open = True\<rparr> =
      Some (Done cl') \<and>
    (\<exists>src. request_init \<lparr>conn_in = [Interrupted, Data (conn_sent cl')], conn_out = [], conn_sent = [], conn_open = True\<rparr> =
      Some (Done (Some \<lparr>file_name = Some ''./a.txt'', file_buf = None, file_size = 0\<rparr>,
        \<lparr>conn_in = src, conn_out = [], conn_sent = [], conn_open = True\<rparr>)))"
proof -
  let ?t = "client_request_text ''h'' ''a.txt''"
  let ?cl = "\<lparr>conn_in = [], conn_out = replicate 40 (Wrote 1), conn_sent = [], conn_open = True\<rparr>"
  have t: "length ?t = 31" by (simp add: client_request_text_def crlf_def)
  have "writable (length ?t + 0) (conn_out ?cl)" unfolding t by (simp add: writable_def)
  from Rio_write_delivers [OF this] t obtain cl' where
    s: "client_send ''h'' ''a.txt'' ?cl = Some (Done cl')" "conn_sent cl' = ?t"
    by (auto simp: client_send_def MAXLINE_def)
  have w: "word ''a.txt''" by (simp add: word_def isspace_def NUL_def)
  have "?t \<noteq> []" using t by auto
  then show ?thesis
    using request_roundtrip [OF s(1) _ w, of "\<lparr>conn_in = [Interrupted, Data ?t], conn_out = [], conn_sent = [], conn_open = True\<rparr>"] s
    by (intro exI [of _ cl'] conjI) (simp_all add: newline_def NUL_def)
qed

section \<open>Requests that end early\<close>

text \<open>\<open>ended b rp\<close>: at the end of the stream with a line that is not empty in the buffer.\<close>

definition ended :: "char list option \<Rightarrow> rio \<Rightarrow> bool" where
  "ended buf rp \<longleftrightarrow> (\<exists>b. buf = Some b \<and> c_str b \<noteq> crlf) \<and> rio_good rp \<and> rio_stream rp = []"

lemma ended_step:
  assumes "ended buf rp"
  shows "\<exists>b rp'. buf = Some b \<and> c_str b \<noteq> crlf \<and> Rio_readlineb rp buf MAXLINE = Done (0, buf, rp') \<and> ended buf rp'"
proof -
  from assms obtain b where b: "buf = Some b" "c_str b \<noteq> crlf" "rio_good rp" "rio_stream rp = []"
    by (auto simp: ended_def)
  have "0 < MAXLINE" by (simp add: MAXLINE_def)
  from Rio_readlineb_end [OF b(3,4) this, of buf] b(1,2) show ?thesis by (auto simp: ended_def)
qed

lemma read_headers_loop_ended: "read_headers_loop buf rp = Some r \<Longrightarrow> \<not> ended buf rp"
proof (erule read_headers_loop.raw_induct [where P = "\<lambda>buf rp r. \<not> ended buf rp", rotated])
  fix loop :: "char list option \<Rightarrow> rio \<Rightarrow> rio outcome option" and buf rp r
  assume IH: "\<And>buf rp r. loop buf rp = Some r \<Longrightarrow> \<not> ended buf rp"
    and r: "(case buf of None \<Rightarrow> Some Fault
      | Some b \<Rightarrow> if c_str b = crlf then Some (Done rp)
          else (case Rio_readlineb rp buf MAXLINE of Fault \<Rightarrow> Some Fault | Exits \<Rightarrow> Some Exits
                | Done (n, buf', rp') \<Rightarrow> loop buf' rp')) = Some r"
  show "\<not> ended buf rp"
  proof
    assume "ended buf rp"
    from ended_step [OF this] r obtain rp' where "loop buf rp' = Some r" "ended buf rp'" by auto
    with IH show False by blast
  qed
qed

lemma read_headers_loop_truncated:
  assumes "rio_good rp" "rio_stream rp = concat (map (\<lambda>l. l @ [newline]) ls)" "\<forall>l \<in> set ls. header_line MAXLINE l"
    "c_str b \<noteq> crlf"
  shows "read_headers_loop (Some b) rp = None"
  using assms
proof (induction ls arbitrary: b rp)
  case Nil
  then have "ended (Some b) rp" by (simp add: ended_def)
  with read_headers_loop_ended show ?case by (cases "read_headers_loop (Some b) rp") auto
next
  case (Cons l ls)
  have l: "newline \<notin> set l" "Suc (length l) < MAXLINE" "c_str (l @ [newline, NUL]) \<noteq> crlf"
    using Cons.prems(3) by (auto simp: header_line_def)
  have "rio_stream rp = l @ newline # concat (map (\<lambda>l. l @ [newline]) ls)" using Cons.prems(2) by simp
  from Rio_readlineb_line [OF Cons.prems(1) this l(1,2), of "Some b"] obtain rp1 where
    rp1: "Rio_readlineb rp (Some b) MAXLINE = Done (Suc (length l), Some (l @ [newline, NUL]), rp1)"
    "rio_good rp1" "rio_stream rp1 = concat (map (\<lambda>l. l @ [newline]) ls)" by blast
  from Cons.IH [OF rp1(2,3) _ l(3)] Cons.prems(3,4) rp1(1) show ?case
    by (subst read_headers_loop.simps) simp
qed

lemma request_read_headers_truncated:
  assumes "rio_good rp" "rio_stream rp = concat (map (\<lambda>l. l @ [newline]) (l # ls))"
    "\<forall>l \<in> set (l # ls). header_line MAXLINE l"
  shows "request_read_headers rp = None"
proof -
  have l: "newline \<notin> set l" "Suc (length l) < MAXLINE" "c_str (l @ [newline, NUL]) \<noteq> crlf"
    using assms(3) by (auto simp: header_line_def)
  have "rio_stream rp = l @ newline # concat (map (\<lambda>l. l @ [newline]) ls)" using assms(2) by simp
  from Rio_readlineb_line [OF assms(1) this l(1,2), of None] obtain rp1 where
    "Rio_readlineb rp None MAXLINE = Done (Suc (length l), Some (l @ [newline, NUL]), rp1)"
    "rio_good rp1" "rio_stream rp1 = concat (map (\<lambda>l. l @ [newline]) ls)" by blast
  with read_headers_loop_truncated [OF this(2,3) _ l(3)] assms(3) show ?thesis
    by (simp add: request_read_headers_def)
qed

text \<open>A client that sends a complete \<open>GET\<close> line and at least one header line and then closes
  the connection, before the empty line that ends a request, leaves the worker in an endless loop:
  \<open>request_init\<close> never returns (\<open>None\<close>), whatever the header lines and the chunks.\<close>

theorem truncated_request_never_returns:
  assumes "word filename" "Suc (length (request_line filename)) < MAXLINE" "healthy (conn_in c)"
    "bytes_of (conn_in c) = request_line filename @ newline # concat (map (\<lambda>l. l @ [newline]) (l # ls))"
    "\<forall>l \<in> set (l # ls). header_line MAXLINE l"
  shows "request_init c = None"
proof -
  let ?l = "request_line filename"
  have nl: "newline \<notin> set ?l" using assms(1) by (auto simp: request_line_def word_def newline_def isspace_def)
  have "rio_stream (rio_init (conn_in c)) = ?l @ newline # concat (map (\<lambda>l. l @ [newline]) (l # ls))"
    using assms(4) by simp
  from Rio_readlineb_line [OF _ this nl assms(2), of None] assms(3) obtain rp where
    rp: "Rio_readlineb (rio_init (conn_in c)) None MAXLINE = Done (Suc (length ?l), Some (?l @ [newline, NUL]), rp)"
    "rio_good rp" "rio_stream rp = concat (map (\<lambda>l. l @ [newline]) (l # ls))" by auto
  have "request_read_headers rp = None" using request_read_headers_truncated [OF rp(2,3) assms(5)] .
  then show ?thesis using rp(1) sscanf_request_line [OF assms(1)]
    by (simp add: request_init_def strcasecmp_eq_def)
qed

theorem truncated_request_never_returns_witness:
  "request_init \<lparr>conn_in = [Data (''GET a HTTP/1.0'' @ [CHR 0x0D, CHR 0x0A]), Interrupted, Data (''host: h'' @ [CHR 0x0A])],
     conn_out = [], conn_sent = [], conn_open = True\<rparr> = None"
proof -
  have "c_str (''host: h'' @ [newline, NUL]) \<noteq> crlf" by (simp add: c_str_def crlf_def NUL_def newline_def)
  then have "header_line MAXLINE ''host: h''" by (simp add: header_line_def newline_def MAXLINE_def)
  moreover have "word ''a''" by (simp add: word_def isspace_def NUL_def)
  ultimately show ?thesis
    by (intro truncated_request_never_returns [of "''a''" _ "''host: h''" "[]"])
      (simp_all add: request_line_def MAXLINE_def newline_def)
qed

end
