(* ===== verification/Web_Fileset.thy ===== *)
theory Web_Fileset
  imports Web_Wire
begin

text \<open>
  The files that the client asks for: \<open>src/webserver/fileset.c\<close> makes them and their index, and
  \<open>init_fileset\<close> of \<open>src/webserver/client.c\<close> reads the index. The random numbers are parameters.
\<close>

section \<open>fileset.c\<close>

text \<open>A byte of a file, from a value of \<open>random\<close>.\<close>

definition make_byte :: "nat \<Rightarrow> char" where
  "make_byte r = char_of (r mod (0x73 - 0x20) + 0x20)"

definition pad5 :: "nat \<Rightarrow> char list" where
  "pad5 n = replicate (5 - length (dec n)) CHR ''0'' @ dec n"

definition file_path :: "char list \<Rightarrow> nat \<Rightarrow> char list" where
  "file_path dir k = dir @ ''/'' @ pad5 k"

definition index_entry :: "char list \<Rightarrow> char list \<Rightarrow> char list" where
  "index_entry path bs = path @ '' '' @ print_u (csum_of bs) @ '' '' @ print_d (int (length bs)) @ [newline]"

text \<open>The loop that makes the files: \<open>rnd k\<close> are the random values for file \<open>k\<close>, as many as its size;
  \<open>idx\<close> is the text in \<open>idx_buffer\<close>. The result is the number of files, the index and the files.
  A failed assertion is \<open>None\<close>.\<close>

partial_function (option) fileset_loop ::
  "char list \<Rightarrow> (nat \<Rightarrow> nat list) \<Rightarrow> int \<Rightarrow> nat \<Rightarrow> int \<Rightarrow> char list \<Rightarrow> (char list \<times> char list) list \<Rightarrow>
   (nat \<times> char list \<times> (char list \<times> char list) list) option"
where
  "fileset_loop dir rnd total_sz k current idx written =
     (if current < total_sz then
        let bs = map make_byte (rnd k); path = file_path dir k; idx = idx @ index_entry path bs
        in if 4096 * 256 - 1 \<le> length idx then None
           else fileset_loop dir rnd total_sz (Suc k) (s32 (current + int (length bs))) idx (written @ [(path, bs)])
      else Some (k, idx, written))"

text \<open>\<open>main\<close> after its options: the files and the text of the index file, or \<open>None\<close> when it exits
  with an error.\<close>

definition fileset_main :: "int \<Rightarrow> int \<Rightarrow> char list \<Rightarrow> (nat \<Rightarrow> nat list) \<Rightarrow> ((char list \<times> char list) list \<times> char list) option" where
  "fileset_main file_sz nr_files dir rnd =
     (if file_sz \<le> 1 \<or> nr_files < 1 \<or> 99999 < nr_files \<or> 1000 < length dir then None
      else do {
        (n, idx, written) \<leftarrow> fileset_loop dir rnd (s32 (s32 (file_sz * 4096) * nr_files)) 0 0 [] [];
        Some (written, print_d (int n) @ [newline] @ idx) })"

section \<open>init\_fileset\<close>

text \<open>\<open>struct fileinfo\<close>; a field that \<open>sscanf\<close> did not convert is not initialised.\<close>

record fileinfo =
  fi_name :: "char list option"
  fi_csum :: "32 word option"
  fi_len :: "int option"

text \<open>What is left of a text after the number that \<open>scan_number\<close> reads.\<close>

definition after_number :: "char list \<Rightarrow> char list" where
  "after_number s =
     (let s = dropWhile isspace s;
          s = (if s \<noteq> [] \<and> hd s \<in> {CHR ''-'', CHR ''+''} then tl s else s)
      in dropWhile isdigit s)"

definition sscanf_info :: "char list \<Rightarrow> fileinfo" where
  "sscanf_info s =
     (let s = dropWhile isspace s; w = takeWhile (\<lambda>c. \<not> isspace c) s; r = dropWhile (\<lambda>c. \<not> isspace c) s
      in if w = [] then \<lparr>fi_name = None, fi_csum = None, fi_len = None\<rparr>
         else (case scan_number r of
             None \<Rightarrow> \<lparr>fi_name = Some w, fi_csum = None, fi_len = None\<rparr>
           | Some u \<Rightarrow> \<lparr>fi_name = Some w, fi_csum = Some (store_u u),
                        fi_len = map_option store_d (scan_number (after_number r))\<rparr>))"

definition atoi :: "char list \<Rightarrow> int" where
  "atoi s = (case scan_number s of None \<Rightarrow> 0 | Some v \<Rightarrow> store_d v)"

text \<open>The loop over the lines of the index: \<open>nr_files\<close> is 0 until the first line is read.\<close>

partial_function (option) init_fileset_loop :: "int \<Rightarrow> fileinfo list \<Rightarrow> rio \<Rightarrow> fileinfo list outcome option" where
  "init_fileset_loop nr_files fis rp =
     (case Rio_readlineb rp (Some []) MAXLINE of
        Fault \<Rightarrow> Some Fault | Exits \<Rightarrow> Some Exits
      | Done (n, buf, rp) \<Rightarrow>
          let s = c_str (case buf of None \<Rightarrow> [] | Some b \<Rightarrow> b)
          in if n = 0 then
               (if 0 < nr_files \<and> int (length fis) = nr_files then Some (Done fis) else Some Fault)
             else if nr_files = 0 then
               (if 0 < atoi s then init_fileset_loop (atoi s) fis rp else Some Fault)
             else if int (length fis) < nr_files then
               init_fileset_loop nr_files (fis @ [sscanf_info s]) rp
             else Some Fault)"

definition init_fileset :: "read_event list \<Rightarrow> fileinfo list outcome option" where
  "init_fileset es = init_fileset_loop 0 [] (rio_init es)"

section \<open>The index\<close>

definition info_of :: "char list \<times> char list \<Rightarrow> fileinfo" where
  "info_of f = \<lparr>fi_name = Some (fst f), fi_csum = Some (csum_of (snd f)), fi_len = Some (int (length (snd f)))\<rparr>"

lemma after_number_dec:
  assumes "\<not> isdigit c"
  shows "after_number (CHR '' '' # dec n @ c # rest) = c # rest"
proof -
  from dec_digits [of n] obtain d ds where d: "dec n = d # ds" "isdigit d" by (cases "dec n") auto
  have "dropWhile isspace (CHR '' '' # dec n @ c # rest) = dec n @ c # rest"
    using d isdigit_not_space [of d] by simp
  moreover have "dropWhile isdigit (dec n @ c # rest) = c # rest"
    using dec_digits [of n] assms by (simp add: dropWhile_append)
  ultimately show ?thesis using d isdigit_not_space [OF d(2)] by (simp add: after_number_def Let_def)
qed

lemma separators [simp]: "\<not> isdigit CHR '' ''" "\<not> isdigit newline" "CHR '' '' \<noteq> newline" "CHR '' '' \<noteq> NUL"
  "newline \<noteq> CHR '' ''" "NUL \<noteq> CHR '' ''"
  by (simp_all add: isdigit_def newline_def NUL_def)

lemma sscanf_info_scan:
  assumes "dropWhile isspace s = s" "takeWhile (\<lambda>c. \<not> isspace c) s = w" "dropWhile (\<lambda>c. \<not> isspace c) s = r"
    "w \<noteq> []" "scan_number r = Some u" "scan_number (after_number r) = Some v"
  shows "sscanf_info s = \<lparr>fi_name = Some w, fi_csum = Some (store_u u), fi_len = Some (store_d v)\<rparr>"
  using assms by (simp add: sscanf_info_def Let_def)

lemma sscanf_info_entry:
  assumes "word path" "length bs < 2 ^ 31"
  shows "sscanf_info (index_entry path bs) = info_of (path, bs)"
proof -
  let ?r = "CHR '' '' # dec (unat (csum_of bs)) @ CHR '' '' # dec (length bs) @ [newline]"
  have e: "index_entry path bs = path @ ?r" by (simp add: index_entry_def print_u_def print_d_def)
  have "sscanf_info (path @ ?r) =
    \<lparr>fi_name = Some path, fi_csum = Some (store_u (False, unat (csum_of bs))), fi_len = Some (store_d (False, length bs))\<rparr>"
  proof (rule sscanf_info_scan)
    show "path \<noteq> []" using assms(1) by (simp add: word_def)
    show "dropWhile isspace (path @ ?r) = path @ ?r" using assms(1) by (cases path) (auto simp: word_def)
    show "takeWhile (\<lambda>c. \<not> isspace c) (path @ ?r) = path" "dropWhile (\<lambda>c. \<not> isspace c) (path @ ?r) = ?r"
      using assms(1) by (auto simp: word_def takeWhile_append dropWhile_append)
    show "scan_number ?r = Some (False, unat (csum_of bs))" by (rule scan_number_dec) simp
    have "after_number ?r = CHR '' '' # dec (length bs) @ [newline]" by (rule after_number_dec) simp
    then show "scan_number (after_number ?r) = Some (False, length bs)"
      using scan_number_dec [of newline "length bs" "[]"] by simp
  qed
  then show ?thesis using assms(2) by (simp add: e info_of_def store_u_word store_d_small)
qed

lemma scan_number_space: "scan_number (CHR '' '' # s) = scan_number s"
  by (simp add: scan_number_def)

lemma atoi_dec: "n < 2 ^ 31 \<Longrightarrow> atoi (print_d (int n) @ [newline]) = int n"
  using scan_number_dec [of newline n "[]"] by (simp add: atoi_def print_d_def scan_number_space store_d_small)

text \<open>A file whose line of the index the client can read.\<close>

definition indexed :: "char list \<times> char list \<Rightarrow> bool" where
  "indexed f \<longleftrightarrow> word (fst f) \<and> length (snd f) < 2 ^ 31 \<and> length (fst f) < 8000"

definition index_text :: "(char list \<times> char list) list \<Rightarrow> char list" where
  "index_text fs = concat (map (\<lambda>f. index_entry (fst f) (snd f)) fs)"

lemma index_text_simps [simp]: "index_text [] = []" "index_text (f # fs) = index_entry (fst f) (snd f) @ index_text fs"
  "index_text (fs @ gs) = index_text fs @ index_text gs"
  by (simp_all add: index_text_def)

lemma indexed_line:
  assumes "indexed f"
  shows "\<exists>l. index_entry (fst f) (snd f) = l @ [newline] \<and> newline \<notin> set l \<and> NUL \<notin> set l \<and> Suc (length l) < MAXLINE"
proof -
  let ?l = "fst f @ '' '' @ print_u (csum_of (snd f)) @ '' '' @ dec (length (snd f))"
  have w: "word (fst f)" "length (fst f) < 8000" "length (snd f) < 2 ^ 31" using assms by (auto simp: indexed_def)
  have "newline \<notin> set (fst f)" "NUL \<notin> set (fst f)" using w(1) by (auto simp: word_def)
  then have "newline \<notin> set ?l" "NUL \<notin> set ?l" by (auto simp: print_u_def dec_plain)
  moreover have "length (print_u (csum_of (snd f))) \<le> 10"
    using length_dec [of "unat (csum_of (snd f))" 9] unat_32_less [of "csum_of (snd f)"] by (simp add: print_u_def)
  moreover have "length (dec (length (snd f))) \<le> 10" using length_dec [of "length (snd f)" 9] w(3) by simp
  moreover have "index_entry (fst f) (snd f) = ?l @ [newline]" by (simp add: index_entry_def print_d_def)
  ultimately show ?thesis using w(2) by (intro exI [of _ ?l]) (simp add: MAXLINE_def)
qed

lemma init_fileset_step:
  assumes "rio_good rp" "rio_stream rp = l @ newline # rest" "newline \<notin> set l" "NUL \<notin> set l" "Suc (length l) < MAXLINE"
  shows "\<exists>rp'. rio_good rp' \<and> rio_stream rp' = rest \<and> init_fileset_loop nr fis rp =
    (if nr = 0 then (if 0 < atoi (l @ [newline]) then init_fileset_loop (atoi (l @ [newline])) fis rp' else Some Fault)
     else if int (length fis) < nr then init_fileset_loop nr (fis @ [sscanf_info (l @ [newline])]) rp' else Some Fault)"
proof -
  have c: "c_str (l @ [newline, NUL]) = l @ [newline]" using c_str_line [of "l @ [newline]" "[]"] assms(4) by simp
  from Rio_readlineb_line [OF assms(1,2,3,5), of "Some []"] obtain rp' where
    "Rio_readlineb rp (Some []) MAXLINE = Done (Suc (length l), Some (l @ [newline, NUL]), rp')"
    "rio_good rp'" "rio_stream rp' = rest" by blast
  with c show ?thesis
    by (intro exI [of _ rp']) (subst init_fileset_loop.simps, simp add: Let_def)
qed

lemma init_fileset_loop_reads:
  assumes "\<forall>f \<in> set fs. indexed f" "rio_good rp" "rio_stream rp = index_text fs" "nr = int (length fis + length fs)" "0 < nr"
  shows "init_fileset_loop nr fis rp = Some (Done (fis @ map info_of fs))"
  using assms
proof (induction fs arbitrary: fis rp)
  case Nil
  have "0 < MAXLINE" by (simp add: MAXLINE_def)
  from Rio_readlineb_end [OF Nil.prems(2) _ this, of "Some []"] Nil.prems obtain rp' where
    "Rio_readlineb rp (Some []) MAXLINE = Done (0, Some [], rp')" by auto
  with Nil.prems show ?case by (subst init_fileset_loop.simps) simp
next
  case (Cons f fs)
  have f: "indexed f" using Cons.prems(1) by simp
  obtain l where l: "index_entry (fst f) (snd f) = l @ [newline]" "newline \<notin> set l" "NUL \<notin> set l" "Suc (length l) < MAXLINE"
    using indexed_line [OF f] by blast
  have "rio_stream rp = l @ newline # index_text fs" using Cons.prems(3) l(1) by simp
  from init_fileset_step [OF Cons.prems(2) this l(2-4), of nr fis] obtain rp' where
    rp': "rio_good rp'" "rio_stream rp' = index_text fs"
    "init_fileset_loop nr fis rp = init_fileset_loop nr (fis @ [sscanf_info (l @ [newline])]) rp'"
    using Cons.prems(4,5) by auto
  have "sscanf_info (l @ [newline]) = info_of f"
    using sscanf_info_entry [of "fst f" "snd f"] f l(1) by (simp add: indexed_def)
  with Cons.IH [OF _ rp'(1,2)] rp'(3) Cons.prems(1,4,5) show ?case by simp
qed

lemma init_fileset_reads:
  assumes "healthy es" "bytes_of es = print_d (int (length fs)) @ [newline] @ index_text fs" "\<forall>f \<in> set fs. indexed f"
    "fs \<noteq> []" "length fs < 2 ^ 31"
  shows "init_fileset es = Some (Done (map info_of fs))"
proof -
  let ?l = "print_d (int (length fs))"
  have "length ?l \<le> 10" using length_dec [of "length fs" 9] assms(5) by (simp add: print_d_def)
  then have l: "newline \<notin> set ?l" "NUL \<notin> set ?l" "Suc (length ?l) < MAXLINE"
    by (simp_all add: print_d_def dec_plain MAXLINE_def)
  have "rio_stream (rio_init es) = ?l @ newline # index_text fs" using assms(2) by simp
  from init_fileset_step [OF _ this l, of 0 "[]"] assms(1) obtain rp where
    rp: "rio_good rp" "rio_stream rp = index_text fs"
    "init_fileset_loop 0 [] (rio_init es) = (if 0 < atoi (?l @ [newline]) then init_fileset_loop (atoi (?l @ [newline])) [] rp else Some Fault)"
    by auto
  from init_fileset_loop_reads [OF assms(3) rp(1,2), of "int (length fs)" "[]"] rp(3) atoi_dec [OF assms(5)] assms(4)
  show ?thesis by (simp add: init_fileset_def)
qed

section \<open>What fileset.c makes\<close>

definition made :: "char list \<Rightarrow> (nat \<Rightarrow> nat list) \<Rightarrow> nat \<Rightarrow> char list \<times> char list \<Rightarrow> bool" where
  "made dir rnd n f \<longleftrightarrow> (\<exists>j < n. f = (file_path dir j, map make_byte (rnd j)))"

lemma madeI: "j < n \<Longrightarrow> made dir rnd n (file_path dir j, map make_byte (rnd j))"
  by (auto simp: made_def)

definition makes :: "char list \<Rightarrow> (nat \<Rightarrow> nat list) \<Rightarrow> nat \<Rightarrow> char list \<Rightarrow> (char list \<times> char list) list \<Rightarrow>
    nat \<times> char list \<times> (char list \<times> char list) list \<Rightarrow> bool" where
  "makes dir rnd k idx written res = (\<exists>new. res = (k + length new, idx @ index_text new, written @ new) \<and>
     (\<forall>f \<in> set new. made dir rnd (k + length new) f) \<and>
     (new \<noteq> [] \<longrightarrow> length (idx @ index_text new) < 4096 * 256 - 1))"

lemma makes_step:
  assumes "makes dir rnd (Suc k) (idx @ index_entry (file_path dir k) (map make_byte (rnd k)))
     (written @ [(file_path dir k, map make_byte (rnd k))]) res"
    "length (idx @ index_entry (file_path dir k) (map make_byte (rnd k))) < 4096 * 256 - 1"
  shows "makes dir rnd k idx written res"
proof -
  let ?f = "(file_path dir k, map make_byte (rnd k))"
  from assms(1) obtain new where n: "res = (Suc k + length new, (idx @ index_entry (fst ?f) (snd ?f)) @ index_text new,
      (written @ [?f]) @ new)"
    "\<forall>f \<in> set new. made dir rnd (Suc k + length new) f"
    "new \<noteq> [] \<longrightarrow> length ((idx @ index_entry (fst ?f) (snd ?f)) @ index_text new) < 4096 * 256 - 1"
    unfolding makes_def by auto
  have "\<forall>f \<in> set (?f # new). made dir rnd (k + length (?f # new)) f"
    using n(2) by (auto intro: madeI)
  moreover have "length (idx @ index_text (?f # new)) < 4096 * 256 - 1"
    using n(3) assms(2) by (cases "new = []") auto
  ultimately show ?thesis using n(1) unfolding makes_def by (intro exI [of _ "?f # new"]) simp
qed

lemma fileset_loop_makes: "fileset_loop dir rnd total_sz k current idx written = Some res \<Longrightarrow> makes dir rnd k idx written res"
proof (erule fileset_loop.raw_induct [where P = "\<lambda>dir rnd total_sz k current idx written res. makes dir rnd k idx written res", rotated])
  fix loop :: "char list \<Rightarrow> (nat \<Rightarrow> nat list) \<Rightarrow> int \<Rightarrow> nat \<Rightarrow> int \<Rightarrow> char list \<Rightarrow> (char list \<times> char list) list \<Rightarrow>
      (nat \<times> char list \<times> (char list \<times> char list) list) option"
    and dir rnd total_sz k current idx written res
  assume IH: "\<And>dir rnd total_sz k current idx written res.
      loop dir rnd total_sz k current idx written = Some res \<Longrightarrow> makes dir rnd k idx written res"
    and r: "(if current < total_sz then
        let bs = map make_byte (rnd k); path = file_path dir k; idx = idx @ index_entry path bs
        in if 4096 * 256 - 1 \<le> length idx then None
           else loop dir rnd total_sz (Suc k) (s32 (current + int (length bs))) idx (written @ [(path, bs)])
      else Some (k, idx, written)) = Some res"
  show "makes dir rnd k idx written res"
  proof (cases "current < total_sz")
    case True
    let ?idx = "idx @ index_entry (file_path dir k) (map make_byte (rnd k))"
    have l: "length ?idx < 4096 * 256 - 1" using r True by (auto simp: Let_def not_le split: if_splits)
    with r True have "loop dir rnd total_sz (Suc k) (s32 (current + int (length (map make_byte (rnd k))))) ?idx
        (written @ [(file_path dir k, map make_byte (rnd k))]) = Some res" by (simp add: Let_def split: if_splits)
    from makes_step [OF IH [OF this] l] show ?thesis .
  next
    case False
    with r have "res = (k, idx, written)" by simp
    then show ?thesis unfolding makes_def by (intro exI [of _ "[]"]) simp
  qed
qed

lemma length_pad5: "length (pad5 n) = max 5 (length (dec n))"
  by (simp add: pad5_def)

lemma zero_digit: "isdigit CHR ''0''"
  by (simp add: isdigit_def)

lemma word_file_path: "word dir \<Longrightarrow> word (file_path dir k)"
proof -
  have "\<not> isspace c \<and> c \<noteq> NUL" if "c \<in> set (pad5 k)" for c
  proof -
    have "isdigit c" using that dec_digits [of k] zero_digit by (auto simp: pad5_def)
    then show ?thesis using isdigit_not_space [of c] by (auto simp: isdigit_def NUL_def)
  qed
  moreover have "\<not> isspace CHR ''/''" "CHR ''/'' \<noteq> NUL" by (simp_all add: isspace_def NUL_def)
  ultimately show "word dir \<Longrightarrow> word (file_path dir k)" by (auto simp: word_def file_path_def)
qed

lemma length_index_text: "length fs \<le> length (index_text fs)"
  by (induction fs) (auto simp: index_entry_def)

lemma make_byte_printable: "32 \<le> (of_char (make_byte r) :: nat) \<and> (of_char (make_byte r) :: nat) < 115"
proof -
  have "r mod 83 < 83" by simp
  then show ?thesis unfolding make_byte_def by (simp add: of_char_of)
qed

lemma make_byte_plain: "make_byte r \<noteq> newline" "make_byte r \<noteq> NUL"
  using make_byte_printable [of r] by (auto simp: newline_def NUL_def)

lemma fileset_main_indexed:
  assumes "fileset_main file_sz nr_files dir rnd = Some (written, index)" "word dir" "\<forall>k. length (rnd k) < 2 ^ 31"
  shows "index = print_d (int (length written)) @ [newline] @ index_text written \<and> length written < 2 ^ 31 \<and>
    (\<forall>f \<in> set written. indexed f \<and> newline \<notin> set (snd f) \<and> NUL \<notin> set (snd f))"
proof -
  from assms(1) have d: "length dir \<le> 1000" by (simp add: fileset_main_def split: if_splits)
  from assms(1) obtain n idx where l: "fileset_loop dir rnd (s32 (s32 (file_sz * 4096) * nr_files)) 0 0 [] [] = Some (n, idx, written)"
    "index = print_d (int n) @ [newline] @ idx" by (auto simp: fileset_main_def bind_eq_Some_conv split: if_splits)
  from fileset_loop_makes [OF l(1)] have m: "n = length written" "idx = index_text written"
    "\<forall>f \<in> set written. made dir rnd n f" "written \<noteq> [] \<longrightarrow> length (index_text written) < 4096 * 256 - 1"
    by (auto simp: makes_def)
  have n: "length written < 2 ^ 20" using m(4) length_index_text [of written] by (cases "written = []") auto
  have "indexed f \<and> newline \<notin> set (snd f) \<and> NUL \<notin> set (snd f)" if "f \<in> set written" for f
  proof -
    from m(3) that obtain j where j: "j < n" "f = (file_path dir j, map make_byte (rnd j))" by (auto simp: made_def)
    have "length (dec j) \<le> 7" using length_dec [of j 6] j(1) m(1) n by simp
    then have "length (file_path dir j) < 8000" using d by (simp add: file_path_def length_pad5)
    moreover have "newline \<notin> set (map make_byte (rnd j))" "NUL \<notin> set (map make_byte (rnd j))"
      using make_byte_plain by (metis (no_types, lifting) imageE list.set_map)+
    ultimately show ?thesis using j(2) word_file_path [OF assms(2)] assms(3) by (simp add: indexed_def)
  qed
  then show ?thesis using l(2) m(1,2) n by auto
qed

section \<open>An example\<close>

text \<open>One file of 9000 spaces.\<close>

definition sample_path :: "char list" where "sample_path = file_path ''d'' 0"

definition sample_file_bytes :: "char list" where "sample_file_bytes = replicate 9000 (make_byte 0)"

lemma length_index_entry:
  "length bs < 2 ^ 31 \<Longrightarrow> length (index_entry path bs) \<le> length path + 23"
  using length_dec [of "unat (csum_of bs)" 9] unat_32_less [of "csum_of bs"] length_dec [of "length bs" 9]
  by (simp add: index_entry_def print_u_def print_d_def)

lemma sample_fileset:
  "fileset_main 2 1 ''d'' (\<lambda>_. replicate 9000 0) =
    Some ([(sample_path, sample_file_bytes)], print_d (int 1) @ [newline] @ index_entry sample_path sample_file_bytes)"
proof -
  have s: "s32 (s32 (2 * 4096) * 1) = 8192" "s32 (int (length sample_file_bytes)) = 9000"
    by (simp_all add: s32_id sample_file_bytes_def)
  have "length (dec 0) \<le> 1" using length_dec [of 0 0] by simp
  then have "length sample_path \<le> 10" by (simp add: sample_path_def file_path_def length_pad5)
  moreover have "length sample_file_bytes < 2 ^ 31" by (simp add: sample_file_bytes_def)
  ultimately have l: "\<not> 4096 * 256 - 1 \<le> length ([] @ index_entry sample_path sample_file_bytes)"
    using length_index_entry [of sample_file_bytes sample_path] by simp
  have "fileset_loop ''d'' (\<lambda>_. replicate 9000 0) 8192 1 9000 (index_entry sample_path sample_file_bytes)
      [(sample_path, sample_file_bytes)] =
    Some (1, index_entry sample_path sample_file_bytes, [(sample_path, sample_file_bytes)])"
    by (subst fileset_loop.simps) simp
  then have "fileset_loop ''d'' (\<lambda>_. replicate 9000 0) 8192 0 0 [] [] =
    Some (1, index_entry sample_path sample_file_bytes, [(sample_path, sample_file_bytes)])"
    using l s(2) by (subst fileset_loop.simps)
      (simp add: Let_def sample_path_def [symmetric] sample_file_bytes_def [symmetric])
  then show ?thesis using s(1) by (simp add: fileset_main_def)
qed

lemma sample_word: "word ''d''"
  by (simp add: word_def isspace_def NUL_def)

lemma sample_rnd: "\<forall>k. length ((\<lambda>_. replicate 9000 0) k) < (2 :: nat) ^ 31"
  by simp

lemma fileset_file_response:
  assumes "fileset_main file_sz nr_files dir rnd = Some (written, index)" "word dir" "\<forall>k. length (rnd k) < 2 ^ 31"
    "(path, bs) \<in> set written" "healthy es"
    "bytes_of es = response_header (request_get_file_type nm) (int (length bs)) (csum_of bs) @ bs"
  shows "client_print es (csum_of bs) (int (length bs)) = Some (if length bs < MAXBUF then Done () else Fault)"
proof -
  have b: "newline \<notin> set bs" "length bs < 2 ^ 31"
    using fileset_main_indexed [OF assms(1-3)] assms(4) by (auto simp: indexed_def)
  from client_print_header [OF assms(5,6) b(2), of "csum_of bs" "int (length bs)"] obtain rp where
    rp: "rio_good rp" "rio_stream rp = bs" "client_print es (csum_of bs) (int (length bs)) = andthen (client_body 0 0 rp)
      (\<lambda>(len, csum). check (csum_of bs = csum_of bs \<and> int (length bs) = int (length bs) \<and> int (length bs) = len \<and> csum_of bs = csum))"
    by blast
  from client_body_one_line [OF rp(1)] rp(2,3) b show ?thesis by simp
qed

section \<open>Properties\<close>

text \<open>C30: The client's \<open>init_fileset\<close> recovers from the index file of \<open>fileset.c\<close> exactly the names,
  checksums and lengths of the files made, however \<open>read\<close> splits the index.\<close>

theorem fileset_index_roundtrip:
  assumes "fileset_main file_sz nr_files dir rnd = Some (written, index)" "word dir" "\<forall>k. length (rnd k) < 2 ^ 31"
    "written \<noteq> []" "healthy es" "bytes_of es = index"
  shows "init_fileset es = Some (Done (map (\<lambda>(path, bs).
    \<lparr>fi_name = Some path, fi_csum = Some (csum_of bs), fi_len = Some (int (length bs))\<rparr>) written))"
proof -
  have "map (\<lambda>(path, bs). \<lparr>fi_name = Some path, fi_csum = Some (csum_of bs), fi_len = Some (int (length bs))\<rparr>) written =
      map info_of written" by (simp add: info_of_def case_prod_unfold)
  moreover have "init_fileset es = Some (Done (map info_of written))"
    by (rule init_fileset_reads) (use fileset_main_indexed [OF assms(1-3)] assms(4-6) in auto)
  ultimately show ?thesis by simp
qed

theorem fileset_index_roundtrip_witness:
  "init_fileset [Data ''1'', Interrupted, Data (newline # index_entry sample_path sample_file_bytes)] =
    Some (Done [\<lparr>fi_name = Some sample_path, fi_csum = Some (csum_of sample_file_bytes), fi_len = Some 9000\<rparr>])"
proof -
  have "print_d (int 1) = ''1''" by code_simp
  then have "bytes_of [Data ''1'', Interrupted, Data (newline # index_entry sample_path sample_file_bytes)] =
      print_d (int 1) @ [newline] @ index_entry sample_path sample_file_bytes" by simp
  from fileset_index_roundtrip [OF sample_fileset sample_word sample_rnd _ _ this] show ?thesis
    by (simp add: sample_file_bytes_def)
qed

text \<open>The files of \<open>fileset.c\<close> have no newline, so \<open>client_print\<close> reads such a file as one
  line: it accepts the server's response for a file of fewer than \<open>MAXBUF\<close> bytes, and for every
  larger one it writes behind its buffer.\<close>

theorem large_fileset_file_overflows:
  assumes "fileset_main file_sz nr_files dir rnd = Some (written, index)" "word dir" "\<forall>k. length (rnd k) < 2 ^ 31"
    "(path, bs) \<in> set written" "healthy es"
    "bytes_of es = response_header (request_get_file_type nm) (int (length bs)) (csum_of bs) @ bs"
  shows "client_print es (csum_of bs) (int (length bs)) = Some (if length bs < MAXBUF then Done () else Fault)"
  using assms by (rule fileset_file_response)

theorem large_fileset_file_overflows_witness:
  "client_print [Data (response_header ''text/plain'' 9000 (csum_of sample_file_bytes)), Data sample_file_bytes]
     (csum_of sample_file_bytes) 9000 = Some Fault"
proof -
  have l: "length sample_file_bytes = 9000" by (simp add: sample_file_bytes_def)
  then have "sample_file_bytes \<noteq> []" by auto
  moreover have "response_header ''text/plain'' 9000 (csum_of sample_file_bytes) \<noteq> []" by (simp add: response_header_def)
  moreover have "request_get_file_type [] = ''text/plain''" by (simp add: request_get_file_type_def)
  ultimately show ?thesis
    using large_fileset_file_overflows [OF sample_fileset sample_word sample_rnd, of sample_path sample_file_bytes
        "[Data (response_header ''text/plain'' 9000 (csum_of sample_file_bytes)), Data sample_file_bytes]" "[]"] l
    by (simp add: MAXBUF_def)
qed

end
