(* ===== verification/Web_Buffer.thy ===== *)
theory Web_Buffer
  imports Prelude
begin

text \<open>
  The request buffer of the web server (\<open>src/webserver/server_thread.c\<close>): the ring
  \<open>conn_buf\<close> that the main thread fills in \<open>server_request\<close> and the workers empty in
  \<open>do_server_thread\<close>. The ring implements a bounded first-in first-out queue, the interface
  that the server's monitor relies on.
\<close>

section \<open>The ring\<close>

text \<open>The fields of \<open>struct server\<close> that make the ring. An empty slot holds -1.\<close>

record ring =
  conn_buf :: "int list"
  request_head :: int
  request_tail :: int
  max_requests :: int

definition ring_init :: "int \<Rightarrow> ring" where
  "ring_init max_req =
     \<lparr>conn_buf = replicate (nat (max_req + 1)) (-1), request_head = 0, request_tail = 0,
      max_requests = max_req + 1\<rparr>"

definition ring_full :: "ring \<Rightarrow> bool" where
  "ring_full r \<longleftrightarrow>
     c_mod (request_head r - request_tail r + max_requests r) (max_requests r) = max_requests r - 1"

definition ring_empty :: "ring \<Rightarrow> bool" where
  "ring_empty r \<longleftrightarrow> request_head r = request_tail r"

text \<open>An index outside \<open>conn_buf\<close> and a failed assertion are faults.\<close>

definition in_buf :: "ring \<Rightarrow> int \<Rightarrow> bool" where
  "in_buf r i \<longleftrightarrow> 0 \<le> i \<and> i < int (length (conn_buf r))"

definition ring_put :: "int \<Rightarrow> ring \<Rightarrow> ring option" where
  "ring_put connfd r = do {
     let h = request_head r;
     _ \<leftarrow> c_assert (in_buf r h);
     _ \<leftarrow> c_assert (conn_buf r ! nat h = -1);
     Some (r\<lparr>conn_buf := (conn_buf r)[nat h := connfd],
             request_head := c_mod (h + 1) (max_requests r)\<rparr>) }"

definition ring_take :: "ring \<Rightarrow> (int \<times> ring) option" where
  "ring_take r = do {
     let t = request_tail r;
     _ \<leftarrow> c_assert (in_buf r t);
     let connfd = conn_buf r ! nat t;
     Some (connfd, r\<lparr>conn_buf := (conn_buf r)[nat t := -1],
             request_tail := c_mod (t + 1) (max_requests r)\<rparr>) }"

section \<open>The ring as a list\<close>

text \<open>\<open>xs\<close> are the requests in the ring, oldest first: the slots from the tail on hold them in
  order, wrapping around, and every other slot holds -1.\<close>

definition ring_rep :: "ring \<Rightarrow> int list \<Rightarrow> bool" where
  "ring_rep r xs \<longleftrightarrow> 0 < max_requests r \<and> int (length (conn_buf r)) = max_requests r \<and>
     0 \<le> request_tail r \<and> request_tail r < max_requests r \<and> int (length xs) < max_requests r \<and>
     request_head r = (request_tail r + int (length xs)) mod max_requests r \<and>
     (\<forall>i. 0 \<le> i \<and> i < max_requests r \<longrightarrow> conn_buf r ! nat i =
        (let d = nat ((i - request_tail r) mod max_requests r) in if d < length xs then xs ! d else -1))"

lemma ring_repD:
  assumes "ring_rep r xs"
  shows "0 < max_requests r" "int (length (conn_buf r)) = max_requests r" "0 \<le> request_tail r"
    "request_tail r < max_requests r" "int (length xs) < max_requests r"
    "request_head r = (request_tail r + int (length xs)) mod max_requests r"
    "0 \<le> request_head r" "request_head r < max_requests r"
    "0 \<le> i \<Longrightarrow> i < max_requests r \<Longrightarrow> conn_buf r ! nat i =
       (if nat ((i - request_tail r) mod max_requests r) < length xs
        then xs ! nat ((i - request_tail r) mod max_requests r) else -1)"
  using assms by (auto simp: ring_rep_def Let_def)

lemma ring_init_rep: "0 \<le> m \<Longrightarrow> ring_rep (ring_init m) []"
  by (auto simp: ring_rep_def ring_init_def)

lemma offset_mod: "0 < (m::int) \<Longrightarrow> 0 \<le> d \<Longrightarrow> d < m \<Longrightarrow> ((t + d) mod m - t) mod m = d"
  by (simp add: mod_diff_left_eq)

lemma offset_inj:
  assumes "0 < (m::int)" "0 \<le> i" "i < m" "(i - t) mod m = d"
  shows "i = (t + d) mod m"
proof -
  have "(t + d) mod m = (t + (i - t) mod m) mod m" using assms(4) by simp
  also have "\<dots> = i mod m" by (simp add: mod_add_right_eq)
  finally show ?thesis using assms by simp
qed

lemma ring_full_iff: "ring_rep r xs \<Longrightarrow> ring_full r \<longleftrightarrow> int (length xs) = max_requests r - 1"
proof -
  assume r: "ring_rep r xs"
  note R = ring_repD [OF r]
  have "c_mod (request_head r - request_tail r + max_requests r) (max_requests r) =
      (request_head r - request_tail r + max_requests r) mod max_requests r"
    using R(1,4,7) by (intro c_mod_nonneg) linarith+
  also have "\<dots> = int (length xs)"
    using offset_mod [of "max_requests r" "int (length xs)" "request_tail r"] R by simp
  finally show ?thesis by (simp add: ring_full_def)
qed

lemma ring_empty_iff: "ring_rep r xs \<Longrightarrow> ring_empty r \<longleftrightarrow> xs = []"
proof -
  assume r: "ring_rep r xs"
  note R = ring_repD [OF r]
  have "(request_head r - request_tail r) mod max_requests r = int (length xs)"
    using offset_mod [of "max_requests r" "int (length xs)" "request_tail r"] R by simp
  then have "request_head r = request_tail r \<Longrightarrow> xs = []" by simp
  moreover have "xs = [] \<Longrightarrow> request_head r = request_tail r" using R by simp
  ultimately show ?thesis by (auto simp: ring_empty_def)
qed

lemma ring_put_rep:
  assumes r: "ring_rep r xs" and full: "int (length xs) < max_requests r - 1"
  shows "\<exists>r'. ring_put fd r = Some r' \<and> ring_rep r' (xs @ [fd]) \<and> max_requests r' = max_requests r"
proof -
  note R = ring_repD [OF r]
  let ?m = "max_requests r" and ?h = "request_head r" and ?t = "request_tail r"
  have off: "(?h - ?t) mod ?m = int (length xs)"
    using offset_mod [of ?m "int (length xs)" ?t] R by simp
  then have slot: "conn_buf r ! nat ?h = -1" using R(9) [of ?h] R by simp
  let ?r = "r\<lparr>conn_buf := (conn_buf r)[nat ?h := fd], request_head := c_mod (?h + 1) ?m\<rparr>"
  have "ring_put fd r = Some ?r" using R slot by (simp add: ring_put_def in_buf_def bind_c_assert Let_def)
  moreover have "ring_rep ?r (xs @ [fd])"
    unfolding ring_rep_def Let_def
  proof (intro conjI allI impI)
    show "request_head ?r = (request_tail ?r + int (length (xs @ [fd]))) mod max_requests ?r"
      using R by (simp add: c_mod_nonneg mod_add_left_eq add.assoc add.commute [of 1])
    fix i assume "0 \<le> i \<and> i < max_requests ?r"
    then have i: "0 \<le> i" "i < ?m" by simp_all
    show "conn_buf ?r ! nat i = (if nat ((i - request_tail ?r) mod max_requests ?r) < length (xs @ [fd])
        then (xs @ [fd]) ! nat ((i - request_tail ?r) mod max_requests ?r) else -1)"
    proof (cases "i = ?h")
      case True
      moreover have "nat ?h < length (conn_buf r)" using R(2,7,8) by linarith
      ultimately show ?thesis using off by simp
    next
      case False
      then have "(i - ?t) mod ?m \<noteq> int (length xs)" 
        using offset_inj [OF R(1) i, of ?t "int (length xs)"] R(6) by auto
      then have "nat ((i - ?t) mod ?m) \<noteq> length xs" using R(1) by (simp add: nat_eq_iff)
      moreover have "nat i \<noteq> nat ?h" using False i(1) R(7) by simp
      ultimately show ?thesis using R(9) [OF i] by (simp add: nth_append)
    qed
  qed (use R full in simp_all)
  ultimately show ?thesis by simp
qed

lemma ring_take_rep:
  assumes r: "ring_rep r (x # xs)"
  shows "\<exists>r'. ring_take r = Some (x, r') \<and> ring_rep r' xs \<and> max_requests r' = max_requests r"
proof -
  note R = ring_repD [OF r]
  let ?m = "max_requests r" and ?t = "request_tail r"
  let ?r = "r\<lparr>conn_buf := (conn_buf r)[nat ?t := -1], request_tail := c_mod (?t + 1) ?m\<rparr>"
  have slot: "conn_buf r ! nat ?t = x" using R(9) [of ?t] R by simp
  then have "ring_take r = Some (x, ?r)" using R by (simp add: ring_take_def in_buf_def bind_c_assert Let_def)
  moreover have t': "request_tail ?r = (?t + 1) mod ?m" using R by (simp add: c_mod_nonneg)
  have "ring_rep ?r xs"
    unfolding ring_rep_def Let_def
  proof (intro conjI allI impI)
    show "request_head ?r = (request_tail ?r + int (length xs)) mod max_requests ?r"
      unfolding t' using R by (simp add: mod_add_left_eq add.assoc)
    show "0 \<le> request_tail ?r" "request_tail ?r < max_requests ?r" unfolding t' using R by simp_all
    fix i assume "0 \<le> i \<and> i < max_requests ?r"
    then have i: "0 \<le> i" "i < ?m" by simp_all
    let ?d = "(i - ?t) mod ?m"
    have "(i - request_tail ?r) mod ?m = (?d - 1) mod ?m"
      unfolding t' by (simp add: mod_diff_left_eq mod_diff_right_eq algebra_simps)
    moreover have d: "0 \<le> ?d" "?d < ?m" using R by simp_all
    ultimately have e: "(i - request_tail ?r) mod ?m = (if ?d = 0 then ?m - 1 else ?d - 1)"
      using R(1) d by (auto simp: zmod_minus1 intro: mod_pos_pos_trivial)
    have eq: "i = ?t \<longleftrightarrow> ?d = 0"
      using offset_inj [OF R(1) i, of ?t 0] R by auto
    show "conn_buf ?r ! nat i = (if nat ((i - request_tail ?r) mod max_requests ?r) < length xs
        then xs ! nat ((i - request_tail ?r) mod max_requests ?r) else -1)"
    proof (cases "i = ?t")
      case True
      moreover have "nat ?t < length (conn_buf r)" "\<not> nat (?m - 1) < length xs" using R(2-5) by auto
      ultimately show ?thesis using eq e by simp
    next
      case False
      then have "nat ?d = Suc (nat (?d - 1))" using eq d by simp
      moreover have "nat i \<noteq> nat ?t" using False i(1) R(3) by simp
      ultimately show ?thesis using R(9) [OF i] e eq False by simp
    qed
  qed (use R in simp_all)
  ultimately show ?thesis by simp
qed

section \<open>The interface: a bounded queue\<close>

text \<open>
  What the server relies on: \<open>put\<close> succeeds unless the queue is full and adds at the back,
  \<open>take\<close> succeeds unless it is empty and removes the front, and \<open>full\<close> and \<open>empty\<close> say so.
\<close>

locale bounded_queue =
  fixes rep :: "'r \<Rightarrow> 'a list \<Rightarrow> bool"
    and cap :: "'r \<Rightarrow> int"
    and full :: "'r \<Rightarrow> bool"
    and empty :: "'r \<Rightarrow> bool"
    and put :: "'a \<Rightarrow> 'r \<Rightarrow> 'r option"
    and take_one :: "'r \<Rightarrow> ('a \<times> 'r) option"
  assumes full_iff: "rep r xs \<Longrightarrow> full r \<longleftrightarrow> int (length xs) = cap r"
    and empty_iff: "rep r xs \<Longrightarrow> empty r \<longleftrightarrow> xs = []"
    and bounded: "rep r xs \<Longrightarrow> int (length xs) \<le> cap r"
    and put_ok: "rep r xs \<Longrightarrow> \<not> full r \<Longrightarrow> \<exists>r'. put x r = Some r' \<and> rep r' (xs @ [x]) \<and> cap r' = cap r"
    and take_ok: "rep r (x # xs) \<Longrightarrow> \<exists>r'. take_one r = Some (x, r') \<and> rep r' xs \<and> cap r' = cap r"
begin

lemma put_rep:
  assumes "rep r xs" "\<not> full r" "put x r = Some r'"
  shows "rep r' (xs @ [x])" "cap r' = cap r"
  using put_ok [OF assms(1,2), of x] assms(3) by auto

lemma take_rep:
  assumes "rep r xs" "\<not> empty r" "take_one r = Some (y, r')"
  shows "\<exists>ys. xs = y # ys \<and> rep r' ys" "cap r' = cap r"
proof -
  from assms(1,2) obtain x ys where xs: "xs = x # ys" by (cases xs) (auto simp: empty_iff)
  with take_ok [of r x ys] assms show "\<exists>ys. xs = y # ys \<and> rep r' ys" "cap r' = cap r" by auto
qed

lemma not_full_and_empty: "rep r xs \<Longrightarrow> 0 < cap r \<Longrightarrow> empty r \<Longrightarrow> \<not> full r"
  by (auto simp: empty_iff full_iff)

end

definition ring_capacity :: "ring \<Rightarrow> int" where
  "ring_capacity r = max_requests r - 1"

interpretation rq: bounded_queue ring_rep ring_capacity ring_full ring_empty ring_put ring_take
proof unfold_locales
  show "ring_rep r xs \<Longrightarrow> ring_full r \<longleftrightarrow> int (length xs) = ring_capacity r" for r xs
    by (simp add: ring_full_iff ring_capacity_def)
  show "ring_rep r xs \<Longrightarrow> \<not> ring_full r \<Longrightarrow>
      \<exists>r'. ring_put x r = Some r' \<and> ring_rep r' (xs @ [x]) \<and> ring_capacity r' = ring_capacity r" for r xs x
    using ring_put_rep [of r xs x] ring_full_iff [of r xs] ring_repD(5) [of r xs]
    by (auto simp: ring_capacity_def)
  show "ring_rep r (x # xs) \<Longrightarrow>
      \<exists>r'. ring_take r = Some (x, r') \<and> ring_rep r' xs \<and> ring_capacity r' = ring_capacity r" for r x xs
    using ring_take_rep [of r x xs] by (auto simp: ring_capacity_def)
qed (use ring_repD(5) in \<open>force simp: ring_empty_iff ring_capacity_def\<close>)+

end
