(* ===== verification/Web_Server.thy ===== *)
theory Web_Server
  imports Web_Buffer "HOL-Library.Multiset"
begin

text \<open>
  The concurrency of the web server (\<open>src/webserver/server_thread.c\<close>): the main thread in
  \<open>server_request\<close> and \<open>server_exit\<close>, the worker threads in \<open>do_server_thread\<close>, the mutex and
  the two condition variables. A step is what a thread does while it holds the mutex, up to the
  point where it gives the mutex up; so the steps of different threads interleave in any order.
  Condition variables are those of POSIX: a signal wakes one waiter if there is one, a broadcast
  all of them, a waiter may also wake by itself, and a woken thread tests its condition again.
\<close>

section \<open>Threads and steps\<close>

text \<open>
  A worker is about to lock the mutex (\<open>WReady\<close>), in \<open>pthread_cond_wait\<close> on \<open>cons_cond\<close>,
  serving a connection outside the mutex, or has returned. The main thread is outside the
  server's functions, in \<open>server_request\<close> about to test whether the ring is full, waiting there
  on \<open>prod_cond\<close>, joining the workers in \<open>server_exit\<close>, or past it.
\<close>

datatype worker = WReady | WWaiting | WServing int | WExited

datatype main_pc = MIdle | MRequest int | MBlocked int | MJoining | MDone

text \<open>The last two fields are ghosts: the requests put into the ring and taken out of it so far.\<close>

record server =
  ring_of :: ring
  exiting :: bool
  workers :: "worker list"
  main :: main_pc
  accepted :: "int list"
  taken :: "int list"

text \<open>\<open>server_init\<close>, for \<open>nr_threads\<close> workers; a ring of \<open>max_req\<close> requests has one more slot.\<close>

definition server_init :: "nat \<Rightarrow> int \<Rightarrow> server" where
  "server_init nr_threads max_req =
     \<lparr>ring_of = ring_init max_req, exiting = False, workers = replicate nr_threads WReady,
      main = MIdle, accepted = [], taken = []\<rparr>"

text \<open>What a \<open>pthread_cond_signal(cons_cond)\<close> may do to the workers, and a broadcast does.\<close>

definition signal_cons :: "worker list \<Rightarrow> worker list \<Rightarrow> bool" where
  "signal_cons ws ws' \<longleftrightarrow>
     (if WWaiting \<in> set ws then \<exists>i < length ws. ws ! i = WWaiting \<and> ws' = ws[i := WReady] else ws' = ws)"

definition broadcast_cons :: "worker list \<Rightarrow> worker list" where
  "broadcast_cons ws = map (\<lambda>w. if w = WWaiting then WReady else w) ws"

text \<open>\<open>pthread_cond_signal(prod_cond)\<close>: only the main thread can be waiting for it.\<close>

definition signal_prod :: "main_pc \<Rightarrow> main_pc" where
  "signal_prod pc = (case pc of MBlocked fd \<Rightarrow> MRequest fd | _ \<Rightarrow> pc)"

inductive sstep :: "server \<Rightarrow> server \<Rightarrow> bool" where
  request: "main s = MIdle \<Longrightarrow> 0 \<le> fd \<Longrightarrow> sstep s (s\<lparr>main := MRequest fd\<rparr>)"
| put: "main s = MRequest fd \<Longrightarrow> \<not> ring_full (ring_of s) \<Longrightarrow> ring_put fd (ring_of s) = Some r \<Longrightarrow>
    signal_cons (workers s) ws \<Longrightarrow>
    sstep s (s\<lparr>ring_of := r, workers := ws, main := MIdle, accepted := accepted s @ [fd]\<rparr>)"
| block: "main s = MRequest fd \<Longrightarrow> ring_full (ring_of s) \<Longrightarrow> sstep s (s\<lparr>main := MBlocked fd\<rparr>)"
| spurious_main: "main s = MBlocked fd \<Longrightarrow> sstep s (s\<lparr>main := MRequest fd\<rparr>)"
| take_one: "i < length (workers s) \<Longrightarrow> workers s ! i = WReady \<Longrightarrow> \<not> ring_empty (ring_of s) \<Longrightarrow>
    ring_take (ring_of s) = Some (fd, r) \<Longrightarrow>
    sstep s (s\<lparr>ring_of := r, workers := (workers s)[i := WServing fd], main := signal_prod (main s),
               taken := taken s @ [fd]\<rparr>)"
| wait: "i < length (workers s) \<Longrightarrow> workers s ! i = WReady \<Longrightarrow> ring_empty (ring_of s) \<Longrightarrow> \<not> exiting s \<Longrightarrow>
    sstep s (s\<lparr>workers := (workers s)[i := WWaiting]\<rparr>)"
| leave: "i < length (workers s) \<Longrightarrow> workers s ! i = WReady \<Longrightarrow> ring_empty (ring_of s) \<Longrightarrow> exiting s \<Longrightarrow>
    sstep s (s\<lparr>workers := (workers s)[i := WExited]\<rparr>)"
| spurious: "i < length (workers s) \<Longrightarrow> workers s ! i = WWaiting \<Longrightarrow>
    sstep s (s\<lparr>workers := (workers s)[i := WReady]\<rparr>)"
| served: "i < length (workers s) \<Longrightarrow> workers s ! i = WServing fd \<Longrightarrow>
    sstep s (s\<lparr>workers := (workers s)[i := WReady]\<rparr>)"
| exit: "main s = MIdle \<Longrightarrow>
    sstep s (s\<lparr>exiting := True, workers := broadcast_cons (workers s), main := MJoining\<rparr>)"
| joined: "main s = MJoining \<Longrightarrow> set (workers s) \<subseteq> {WExited} \<Longrightarrow> sstep s (s\<lparr>main := MDone\<rparr>)"

inductive sreach :: "nat \<Rightarrow> int \<Rightarrow> server \<Rightarrow> bool" for n :: nat and m :: int where
  init: "sreach n m (server_init n m)"
| next_step: "sreach n m s \<Longrightarrow> sstep s s' \<Longrightarrow> sreach n m s'"

section \<open>Counting workers\<close>

definition num :: "worker \<Rightarrow> worker list \<Rightarrow> nat" where
  "num w ws = count (mset ws) w"

lemma num_pos: "0 < num w ws \<longleftrightarrow> w \<in> set ws"
  by (simp add: num_def count_greater_zero_iff)

lemma num_replace:
  assumes "i < length ws" "ws ! i \<noteq> v"
  shows "num v (ws[i := v]) = Suc (num v ws)"
    "w \<noteq> v \<Longrightarrow> num w (ws[i := v]) = (if ws ! i = w then num w ws - 1 else num w ws)"
  using assms by (simp_all add: num_def mset_update)

lemma broadcast_no_waiting: "WWaiting \<notin> set (broadcast_cons ws)"
  by (auto simp: broadcast_cons_def)

section \<open>The invariant\<close>

text \<open>
  The ring holds the accepted requests that were not taken yet. The main thread waits for room
  only while the ring is full. If a worker waits, at least as many workers are about to test the
  ring as it holds requests. Once a worker has returned, or the server is exiting, no worker is
  waiting and a returned worker saw the ring empty for good.
\<close>

definition queued_inv :: "int \<Rightarrow> server \<Rightarrow> int list \<Rightarrow> bool" where
  "queued_inv m s xs \<longleftrightarrow> ring_rep (ring_of s) xs \<and> accepted s = taken s @ xs \<and>
     ring_capacity (ring_of s) = m \<and>
     (\<forall>fd. main s = MBlocked fd \<longrightarrow> int (length xs) = m) \<and>
     (WWaiting \<in> set (workers s) \<longrightarrow> length xs \<le> num WReady (workers s)) \<and>
     (exiting s \<longleftrightarrow> main s = MJoining \<or> main s = MDone) \<and>
     (exiting s \<longrightarrow> WWaiting \<notin> set (workers s)) \<and>
     (WExited \<in> set (workers s) \<longrightarrow> exiting s \<and> xs = []) \<and>
     (main s = MDone \<longrightarrow> set (workers s) \<subseteq> {WExited})"

definition server_inv :: "int \<Rightarrow> server \<Rightarrow> bool" where
  "server_inv m s \<longleftrightarrow> (\<exists>xs. queued_inv m s xs)"

lemma queued_invD:
  assumes "queued_inv m s xs"
  shows "ring_rep (ring_of s) xs" "accepted s = taken s @ xs" "ring_capacity (ring_of s) = m"
    "main s = MBlocked fd \<Longrightarrow> int (length xs) = m"
    "WWaiting \<in> set (workers s) \<Longrightarrow> length xs \<le> num WReady (workers s)"
    "exiting s \<longleftrightarrow> main s = MJoining \<or> main s = MDone"
    "exiting s \<Longrightarrow> WWaiting \<notin> set (workers s)"
    "WExited \<in> set (workers s) \<Longrightarrow> exiting s \<and> xs = []"
    "main s = MDone \<Longrightarrow> set (workers s) \<subseteq> {WExited}"
  using assms unfolding queued_inv_def by metis+

lemma server_invI:
  assumes "ring_rep (ring_of s) xs" "accepted s = taken s @ xs" "ring_capacity (ring_of s) = m"
    "\<And>fd. main s = MBlocked fd \<Longrightarrow> int (length xs) = m"
    "WWaiting \<in> set (workers s) \<Longrightarrow> length xs \<le> num WReady (workers s)"
    "exiting s \<longleftrightarrow> main s = MJoining \<or> main s = MDone"
    "exiting s \<Longrightarrow> WWaiting \<notin> set (workers s)"
    "WExited \<in> set (workers s) \<Longrightarrow> exiting s \<and> xs = []"
    "main s = MDone \<Longrightarrow> set (workers s) \<subseteq> {WExited}"
  shows "server_inv m s"
  unfolding server_inv_def queued_inv_def using assms by (intro exI [of _ xs] conjI allI impI) metis+

lemma signal_cons_num:
  assumes "signal_cons ws ws'"
  shows "WExited \<in> set ws' \<Longrightarrow> WExited \<in> set ws"
    "WWaiting \<in> set ws' \<Longrightarrow> WWaiting \<in> set ws \<and> num WReady ws' = Suc (num WReady ws)"
proof -
  have sub: "set ws' \<subseteq> insert WReady (set ws)"
    using assms by (auto simp: signal_cons_def split: if_splits dest: set_update_subset_insert [THEN subsetD])
  then show "WExited \<in> set ws' \<Longrightarrow> WExited \<in> set ws" by auto
  assume "WWaiting \<in> set ws'"
  with sub have w: "WWaiting \<in> set ws" by auto
  with assms obtain i where "i < length ws" "ws ! i = WWaiting" "ws' = ws[i := WReady]"
    by (auto simp: signal_cons_def)
  with w show "WWaiting \<in> set ws \<and> num WReady ws' = Suc (num WReady ws)" by (simp add: num_replace)
qed

lemma server_init_inv: "0 \<le> m \<Longrightarrow> server_inv m (server_init n m)"
  by (rule server_invI [of _ "[]"])
    (auto simp: server_init_def ring_init_rep ring_capacity_def, simp add: ring_init_def)

lemma in_set_update: "w \<in> set (ws[i := v]) \<Longrightarrow> w = v \<or> w \<in> set ws"
  using set_update_subset_insert [of ws i v] by auto

lemma sstep_inv:
  assumes "sstep s s'" "server_inv m s"
  shows "server_inv m s'"
proof -
  from assms(2) obtain xs where q: "queued_inv m s xs" unfolding server_inv_def ..
  note I = queued_invD [OF q]
  note empty = rq.empty_iff [OF I(1)] and full = rq.full_iff [OF I(1)]
  have done_ready: "main s \<noteq> MDone" if "i < length (workers s)" "workers s ! i \<noteq> WExited" for i
    using I(9) that(2) nth_mem [OF that(1)] by blast
  show ?thesis
    using assms(1)
  proof cases
    case (request fd)
    then show ?thesis using I by (intro server_invI [of _ xs]) auto
  next
    case (put fd r ws)
    note r = rq.put_rep [OF I(1) put(3,4)]
    have ex: "\<not> exiting s" using I(6) put(2) by simp
    show ?thesis unfolding put(1)
    proof (rule server_invI [of _ "xs @ [fd]"])
      let ?s = "s\<lparr>ring_of := r, workers := ws, main := MIdle, accepted := accepted s @ [fd]\<rparr>"
      show "ring_rep (ring_of ?s) (xs @ [fd])" "ring_capacity (ring_of ?s) = m" using r I(3) by simp_all
      show "WWaiting \<in> set (workers ?s) \<Longrightarrow> length (xs @ [fd]) \<le> num WReady (workers ?s)"
        using signal_cons_num(2) [OF put(5)] I(5) by simp
      show "WExited \<in> set (workers ?s) \<Longrightarrow> exiting ?s \<and> xs @ [fd] = []"
        using signal_cons_num(1) [OF put(5)] I(8) ex by simp
    qed (use I ex in auto)
  next
    case (block fd)
    then show ?thesis using I full by (intro server_invI [of _ xs]) auto
  next
    case (spurious_main fd)
    then show ?thesis using I by (intro server_invI [of _ xs]) auto
  next
    case (take_one i fd r)
    from rq.take_rep(1) [OF I(1) take_one(4,5)] obtain ys where xs: "xs = fd # ys" "ring_rep r ys" by auto
    have ne: "WExited \<notin> set (workers s)" using I(8) xs by auto
    have sp: "signal_prod (main s) = MBlocked fd' \<Longrightarrow> False" "signal_prod (main s) = MDone \<longleftrightarrow> main s = MDone"
      "signal_prod (main s) = MJoining \<longleftrightarrow> main s = MJoining" for fd'
      by (auto simp: signal_prod_def split: main_pc.splits)
    have nd: "main s \<noteq> MDone" using done_ready [of i] take_one(2,3) by simp
    show ?thesis unfolding take_one(1)
    proof (rule server_invI [of _ ys])
      let ?s = "s\<lparr>ring_of := r, workers := (workers s)[i := WServing fd], main := signal_prod (main s),
               taken := taken s @ [fd]\<rparr>"
      have w: "WWaiting \<in> set (workers ?s) \<Longrightarrow> WWaiting \<in> set (workers s)"
        by (auto dest: in_set_update)
      show "WWaiting \<in> set (workers ?s) \<Longrightarrow> length ys \<le> num WReady (workers ?s)"
        using w I(5) xs take_one(2,3) by (simp add: num_replace)
      show "exiting ?s \<Longrightarrow> WWaiting \<notin> set (workers ?s)" using w I(7) by auto
      show "WExited \<in> set (workers ?s) \<Longrightarrow> exiting ?s \<and> ys = []" using ne by (auto dest: in_set_update)
    qed (use I xs sp nd rq.take_rep(2) [OF I(1) take_one(4,5)] in \<open>auto\<close>)
  next
    case (wait i)
    then have "xs = []" using empty by simp
    then show ?thesis using I wait done_ready [of i] unfolding wait(1)
      by (intro server_invI [of _ xs]) (auto dest: in_set_update)
  next
    case (leave i)
    then have "xs = []" using empty by simp
    then show ?thesis using I leave done_ready [of i] unfolding leave(1)
      by (intro server_invI [of _ xs]) (auto dest: in_set_update)
  next
    case (spurious i)
    then have "WWaiting \<in> set (workers s)" by (metis nth_mem)
    then show ?thesis using I spurious done_ready [of i] unfolding spurious(1)
      by (intro server_invI [of _ xs]) (auto simp: num_replace dest: in_set_update)
  next
    case (served i fd)
    then show ?thesis using I done_ready [of i] unfolding served(1)
      by (intro server_invI [of _ xs]) (auto simp: num_replace dest: in_set_update)
  next
    case exit
    then show ?thesis using I unfolding exit(1)
      by (intro server_invI [of _ xs]) (auto simp: broadcast_cons_def split: if_splits)
  next
    case joined
    then show ?thesis using I unfolding joined(1)
      by (intro server_invI [of _ xs]) auto
  qed
qed

lemma sreach_inv: "0 \<le> m \<Longrightarrow> sreach n m s \<Longrightarrow> server_inv m s"
  by (rotate_tac, induction rule: sreach.induct) (auto simp: server_init_inv intro: sstep_inv)

lemma sreach_length: "sreach n m s \<Longrightarrow> length (workers s) = n"
proof (induction rule: sreach.induct)
  case init
  then show ?case by (simp add: server_init_def)
next
  case (next_step s s')
  from next_step.hyps(2) next_step.IH show ?case
    by cases (auto simp: signal_cons_def broadcast_cons_def split: if_splits)
qed

lemma awake_worker:
  assumes "0 \<le> m" "sreach n m s" "0 < n" "\<not> ring_empty (ring_of s)"
  shows "\<exists>i < length (workers s). workers s ! i = WReady \<or> (\<exists>fd. workers s ! i = WServing fd)"
proof -
  from sreach_inv [OF assms(1,2)] obtain xs where q: "queued_inv m s xs" unfolding server_inv_def ..
  note I = queued_invD [OF q]
  have "xs \<noteq> []" using assms(4) rq.empty_iff [OF I(1)] by simp
  show ?thesis
  proof (cases "WWaiting \<in> set (workers s)")
    case True
    then have "0 < num WReady (workers s)" using I(5) \<open>xs \<noteq> []\<close> by (cases xs) auto
    then show ?thesis by (simp add: num_pos in_set_conv_nth) blast
  next
    case False
    have "WExited \<notin> set (workers s)" using I(8) \<open>xs \<noteq> []\<close> by blast
    moreover have "workers s ! 0 \<in> set (workers s)" using assms(2,3) sreach_length by simp
    ultimately have "workers s ! 0 = WReady \<or> (\<exists>fd. workers s ! 0 = WServing fd)"
      using False by (cases "workers s ! 0") auto
    with assms(3) sreach_length [OF assms(2)] show ?thesis by auto
  qed
qed

lemma blocked_full:
  assumes "0 \<le> m" "sreach n m s" "main s = MBlocked fd"
  shows "ring_full (ring_of s)"
proof -
  from sreach_inv [OF assms(1,2)] obtain xs where q: "queued_inv m s xs" unfolding server_inv_def ..
  note I = queued_invD [OF q]
  show ?thesis using rq.full_iff [OF I(1)] I(3) I(4) [OF assms(3)] by simp
qed

lemma drained:
  assumes "0 \<le> m" "sreach n m s" "0 < n" "main s = MDone"
  shows "taken s = accepted s \<and> ring_empty (ring_of s) \<and> set (workers s) = {WExited}"
proof -
  from sreach_inv [OF assms(1,2)] obtain xs where q: "queued_inv m s xs" unfolding server_inv_def ..
  note I = queued_invD [OF q]
  have "workers s \<noteq> []" using sreach_length [OF assms(2)] assms(3) by auto
  with I(9) [OF assms(4)] have w: "set (workers s) = {WExited}" by (cases "workers s") auto
  then have "xs = []" using I(8) by simp
  with w I(2) rq.empty_iff [OF I(1)] show ?thesis by simp
qed

section \<open>Properties\<close>

text \<open>The ring implements a bounded queue. Its full and empty tests are exact; putting into a
  ring that is not full never fails the assertion and appends the request; taking from a
  non-empty ring returns the oldest one; the indices stay inside \<open>conn_buf\<close>, with wrap-around.\<close>

theorem ring_refines_queue:
  assumes "ring_rep r xs"
  shows "(ring_full r \<longleftrightarrow> int (length xs) = max_requests r - 1) \<and> (ring_empty r \<longleftrightarrow> xs = []) \<and>
    (\<not> ring_full r \<longrightarrow> (\<exists>r'. ring_put fd r = Some r' \<and> ring_rep r' (xs @ [fd]))) \<and>
    (xs \<noteq> [] \<longrightarrow> (\<exists>r'. ring_take r = Some (hd xs, r') \<and> ring_rep r' (tl xs)))"
  using rq.full_iff [OF assms] rq.empty_iff [OF assms] rq.put_ok [OF assms, of fd] rq.take_ok [of r "hd xs" "tl xs"] assms
  by (auto simp: ring_capacity_def)

theorem ring_refines_queue_witness:
  "\<exists>r'. ring_put 7 (ring_init 2) = Some r' \<and> ring_rep r' [7]"
  using ring_refines_queue [OF ring_init_rep [of 2], of 7] by (simp add: ring_full_def ring_init_def c_mod_def)

text \<open>C15: No request is lost, duplicated or reordered: at every moment the requests accepted by
  \<open>server_request\<close> are those taken by the workers, in the order they were taken, followed by
  those in the ring, at most \<open>max_requests\<close> of them.\<close>

theorem requests_taken_in_order:
  assumes "0 \<le> m" "sreach n m s"
  shows "\<exists>xs. ring_rep (ring_of s) xs \<and> accepted s = taken s @ xs \<and> int (length xs) \<le> m"
proof -
  from sreach_inv [OF assms] obtain xs where q: "queued_inv m s xs" unfolding server_inv_def ..
  note I = queued_invD [OF q]
  with rq.bounded [OF I(1)] show ?thesis by auto
qed

text \<open>C21: No wakeup is lost. While requests wait in the ring some worker is awake: about to take
  one, or serving a connection after which it looks again. The main thread waits for room only
  while the ring really is full.\<close>

theorem no_lost_wakeup:
  assumes "0 \<le> m" "sreach n m s" "0 < n"
  shows "(\<not> ring_empty (ring_of s) \<longrightarrow>
      (\<exists>i < length (workers s). workers s ! i = WReady \<or> (\<exists>fd. workers s ! i = WServing fd))) \<and>
    (\<forall>fd. main s = MBlocked fd \<longrightarrow> ring_full (ring_of s))"
  using awake_worker [OF assms] blocked_full [OF assms(1,2)] by blast

text \<open>With worker threads and \<open>max_requests\<close> 0 the ring has one slot and counts as full when
  it is empty: no request is ever accepted, and a call of \<open>server_request\<close> can only wait.\<close>

theorem zero_requests_blocks_forever:
  assumes "sreach n 0 s"
  shows "accepted s = [] \<and> (main s = MRequest fd \<longrightarrow> ring_full (ring_of s))"
proof -
  have full: "ring_full (ring_of s)" if "sreach n 0 s" for s
  proof -
    from sreach_inv [OF _ that] obtain xs where q: "queued_inv 0 s xs" unfolding server_inv_def by auto
    note I = queued_invD [OF q]
    from rq.bounded [OF I(1)] I(3) rq.full_iff [OF I(1)] show ?thesis by simp
  qed
  have "accepted s = []"
    using assms
  proof (induction rule: sreach.induct)
    case init
    then show ?case by (simp add: server_init_def)
  next
    case (next_step s s')
    from next_step.hyps(2) next_step.IH full [OF next_step.hyps(1)] show ?case by cases auto
  qed
  with full [OF assms] show ?thesis by simp
qed

text \<open>A run with one worker: the main thread queues connection 7.\<close>

definition run1 :: server where
  "run1 = (server_init 1 2)\<lparr>main := MRequest 7\<rparr>"

definition run2 :: server where
  "run2 = run1\<lparr>ring_of := \<lparr>conn_buf = [7, -1, -1], request_head = 1, request_tail = 0, max_requests = 3\<rparr>,
     main := MIdle, accepted := [7]\<rparr>"

lemmas run_defs = run1_def run2_def server_init_def ring_init_def

lemma init_buf [simp]: "replicate 3 (-1 :: int) = [-1, -1, -1]"
  by (simp add: numeral_3_eq_3)

lemma reach_run2: "sreach 1 2 run2"
proof -
  have "sreach 1 2 run1"
    unfolding run1_def by (rule sreach.next_step [OF sreach.init sstep.request]) (simp_all add: server_init_def)
  then have "sreach 1 2 (run1\<lparr>ring_of := ring_of run2, workers := workers run1, main := MIdle,
      accepted := accepted run1 @ [7]\<rparr>)"
    by (rule sreach.next_step [OF _ sstep.put])
      (simp_all add: run_defs init_buf ring_full_def ring_put_def in_buf_def c_mod_def signal_cons_def bind_c_assert Let_def)
  then show ?thesis by (simp add: run_defs)
qed

theorem requests_taken_in_order_witness: "\<exists>xs. ring_rep (ring_of run2) xs \<and> [7] = [] @ xs"
  using requests_taken_in_order [OF _ reach_run2] by (simp add: run_defs)

theorem no_lost_wakeup_witness: "\<exists>i < 1. workers run2 ! i = WReady \<or> (\<exists>fd. workers run2 ! i = WServing fd)"
  using no_lost_wakeup [OF _ reach_run2] by (simp add: run_defs ring_empty_def)

theorem zero_requests_blocks_forever_witness:
  "ring_full (ring_of ((server_init 1 0)\<lparr>main := MRequest 7\<rparr>))"
proof -
  have "sreach 1 0 ((server_init 1 0)\<lparr>main := MRequest 7\<rparr>)"
    by (rule sreach.next_step [OF sreach.init sstep.request]) (simp_all add: server_init_def)
  from zero_requests_blocks_forever [OF this, of 7] show ?thesis by simp
qed

end
