(* ===== verification/Web_Site.thy ===== *)
theory Web_Site
  imports Web_Wire
begin

text \<open>
  The workers of the web server with their shared cache: which files a response may contain, and
  that the cache cannot be observed: under every interleaving each client gets what a server
  without a cache sends it.
\<close>

section \<open>The invariant of the workers\<close>

text \<open>\<open>Q nm d\<close> is what holds of data for the name \<open>nm\<close> that is ready to be sent. It survives the
  copies into and out of the cache.\<close>

definition sendable :: "disk \<Rightarrow> mem set \<Rightarrow> (char list \<Rightarrow> file_data \<Rightarrow> bool) \<Rightarrow> bool" where
  "sendable dk mms Q \<longleftrightarrow>
     (\<forall>nm d. Q nm d \<longrightarrow> file_name d = Some nm \<and> 0 \<le> file_size d) \<and>
     (\<forall>mm \<in> mms. \<forall>nm d c d' c'. file_name d = Some nm \<longrightarrow>
        request_readfile dk mm d c = Some (Done (True, d', c')) \<longrightarrow> c' = c \<and> Q nm d') \<and>
     (\<forall>sl nm d. Q nm d \<longrightarrow> c_strdup sl (file_buf d) \<noteq> None \<longrightarrow> Q nm (stored sl d)) \<and>
     (\<forall>nm e d b. Q nm e \<longrightarrow> c_strdup [] (file_buf e) = Some b \<longrightarrow> file_name d = Some nm \<longrightarrow>
        Q nm (d\<lparr>file_buf := Some b, file_size := file_size e\<rparr>))"

lemma sendableD:
  assumes "sendable dk mms Q"
  shows "Q nm d \<Longrightarrow> file_name d = Some nm" "Q nm d \<Longrightarrow> 0 \<le> file_size d"
    "mm \<in> mms \<Longrightarrow> file_name d = Some nm \<Longrightarrow> request_readfile dk mm d c = Some (Done (True, d', c')) \<Longrightarrow> c' = c \<and> Q nm d'"
    "Q nm d \<Longrightarrow> c_strdup sl (file_buf d) \<noteq> None \<Longrightarrow> Q nm (stored sl d)"
    "Q nm e \<Longrightarrow> c_strdup [] (file_buf e) = Some b \<Longrightarrow> file_name d = Some nm \<Longrightarrow>
       Q nm (d\<lparr>file_buf := Some b, file_size := file_size e\<rparr>)"
  using assms unfolding sendable_def by blast+

text \<open>What a worker has done with the connection \<open>c0\<close> it was given.\<close>

definition opened :: "conn \<Rightarrow> char list \<Rightarrow> file_data \<Rightarrow> conn \<Rightarrow> bool" where
  "opened c0 nm d0 c1 \<longleftrightarrow> request_init c0 = Some (Done (Some d0, c1)) \<and> file_name d0 = Some nm"

definition sent_file :: "mem set \<Rightarrow> (char list \<Rightarrow> file_data \<Rightarrow> bool) \<Rightarrow> conn \<Rightarrow> conn \<Rightarrow> bool" where
  "sent_file mms Q c0 c \<longleftrightarrow> (\<exists>nm d0 c1 mm d. opened c0 nm d0 c1 \<and> Q nm d \<and> mm \<in> mms \<and>
     request_sendfile mm d c1 = Some (Done c))"

definition refused :: "disk \<Rightarrow> mem set \<Rightarrow> conn \<Rightarrow> conn \<Rightarrow> bool" where
  "refused dk mms c0 c \<longleftrightarrow> (\<exists>nm d0 c1 mm d. opened c0 nm d0 c1 \<and> mm \<in> mms \<and>
     request_readfile dk mm d0 c1 = Some (Done (False, d, c)))"

fun track :: "disk \<Rightarrow> mem set \<Rightarrow> (char list \<Rightarrow> file_data \<Rightarrow> bool) \<Rightarrow> conn \<Rightarrow> place \<times> conn \<Rightarrow> bool" where
  "track dk mms Q c0 (Starting, c) \<longleftrightarrow> c = c0"
| "track dk mms Q c0 (Looking d, c) \<longleftrightarrow> (\<exists>nm. opened c0 nm d c)"
| "track dk mms Q c0 (Loading keep d, c) \<longleftrightarrow> (\<exists>nm. opened c0 nm d c \<and> (keep \<longrightarrow> hashable nm))"
| "track dk mms Q c0 (Inserting d, c) \<longleftrightarrow> (\<exists>nm d0. opened c0 nm d0 c \<and> Q nm d \<and> hashable nm)"
| "track dk mms Q c0 (Sending d, c) \<longleftrightarrow> (\<exists>nm d0. opened c0 nm d0 c \<and> Q nm d)"
| "track dk mms Q c0 (Closing, c) \<longleftrightarrow> sent_file mms Q c0 c \<or> refused dk mms c0 c"
| "track dk mms Q c0 (Finished, c) \<longleftrightarrow> request_init c0 = Some (Done (None, c)) \<or>
     (\<exists>c1. (sent_file mms Q c0 c1 \<or> refused dk mms c0 c1) \<and> c = request_destroy c1)"

lemma request_init_SomeD:
  assumes "request_init c0 = Some (Done (Some d, c))"
  shows "\<exists>uri. d = file_data_init\<lparr>file_name := Some (request_parse_URI uri MAXLINE)\<rparr>"
proof -
  from assms obtain n b rp where
    l: "(case sscanf_s 3 (c_str b) of [] \<Rightarrow> Some Fault
        | meth # words \<Rightarrow>
            if \<not> strcasecmp_eq meth ''GET'' then
              andthen (request_error meth ''501'' ''Not Implemented''
                         ''OS Web Server does not implement this method'' c0)
                (\<lambda>c. Some (Done (None, request_destroy c)))
            else
              andthen (request_read_headers rp) (\<lambda>rp.
                (case words of [] \<Rightarrow> Some Fault
                 | uri # _ \<Rightarrow>
                     Some (Done (Some (file_data_init\<lparr>file_name := Some (request_parse_URI uri MAXLINE)\<rparr>),
                                 c0\<lparr>conn_in := rio_src rp\<rparr>))))) = Some (Done (Some d, c))"
    unfolding request_init_def andthen_Done by auto
  then obtain meth words where w: "sscanf_s 3 (c_str b) = meth # words"
    by (cases "sscanf_s 3 (c_str b)") auto
  with l obtain uri ws where "words = uri # ws" by (cases words) (auto split: if_splits)
  with l w show ?thesis by (auto split: if_splits)
qed

lemma request_init_opened:
  "request_init c0 = Some (Done (Some d, c)) \<Longrightarrow> \<exists>nm. opened c0 nm d c"
  using request_init_SomeD [of c0 d c] by (auto simp: opened_def)

lemma lookup_section_hit:
  assumes "lookup_section cache d = Some (Done (Some d'))" "file_name d = Some nm"
  shows "\<exists>e b. cache_lookup cache nm = Some (Some e) \<and> c_strdup [] (file_buf e) = Some b \<and>
    d' = d\<lparr>file_buf := Some b, file_size := file_size e\<rparr>"
  using assms by (auto simp: lookup_section_def split: option.splits)

lemma lookup_section_hashable:
  "lookup_section cache d = Some (Done r) \<Longrightarrow> file_name d = Some nm \<Longrightarrow> hashable nm"
  using cache_lookup_unhashable [of nm cache] by (cases "hashable nm") (simp_all add: lookup_section_def)

text \<open>One lemma per place.\<close>

lemma step_Starting:
  assumes "worker_step dk m mm (cache, Starting, c) = Some (Done (cache', w))"
  shows "cache' = cache \<and> track dk mms Q c w"
proof -
  from assms obtain rq c' where r: "request_init c = Some (Done (rq, c'))" "cache' = cache"
    "w = (case rq of None \<Rightarrow> Finished | Some d \<Rightarrow> if m < file_size d then Loading False d else Looking d, c')"
    by (auto simp: worker_step_def)
  show ?thesis
  proof (cases rq)
    case None
    then show ?thesis using r by simp
  next
    case (Some d)
    with r request_init_opened [of c d c'] show ?thesis by auto
  qed
qed

lemma step_Looking:
  assumes "worker_step dk m' mm (cache, Looking d, c) = Some (Done (cache', w))" "opened c0 nm d c"
    "sendable dk mms Q" "disk_cache.holds m Q cache"
  shows "cache' = cache \<and> track dk mms Q c0 w"
proof -
  have nm: "file_name d = Some nm" using assms(2) by (simp add: opened_def)
  from assms(1) obtain r where r: "lookup_section cache d = Some (Done r)" "cache' = cache"
    "w = (case r of Some d \<Rightarrow> Sending d | None \<Rightarrow> Loading True d, c)"
    by (auto simp: worker_step_def)
  have h: "hashable nm" using lookup_section_hashable [OF r(1) nm] .
  show ?thesis
  proof (cases r)
    case None
    then show ?thesis using r h assms(2) by auto
  next
    case (Some d')
    with r lookup_section_hit [of cache d d' nm] nm obtain e b where
      e: "cache_lookup cache nm = Some (Some e)" "c_strdup [] (file_buf e) = Some b"
        "d' = d\<lparr>file_buf := Some b, file_size := file_size e\<rparr>" by auto
    have "Q nm e" using disk_cache.holds_look [OF assms(4) h] e(1) by auto
    then have "Q nm d'" using sendableD(5) [OF assms(3) _ e(2) nm] e(3) by simp
    then show ?thesis using r Some assms(2) by auto
  qed
qed

lemma step_Loading:
  assumes "worker_step dk m mm (cache, Loading keep d, c) = Some (Done (cache', w))" "opened c0 nm d c"
    "sendable dk mms Q" "mm \<in> mms" "keep \<Longrightarrow> hashable nm"
  shows "cache' = cache \<and> track dk mms Q c0 w"
proof -
  have nm: "file_name d = Some nm" using assms(2) by (simp add: opened_def)
  from assms(1) obtain ret d' c' where r: "request_readfile dk mm d c = Some (Done (ret, d', c'))"
    "cache' = cache" "w = (if \<not> ret then Closing else if keep then Inserting d' else Sending d', c')"
    by (auto simp: worker_step_def)
  show ?thesis
  proof (cases ret)
    case True
    with r sendableD(3) [OF assms(3,4) nm, of c d' c'] have "c' = c" "Q nm d'" by auto
    then show ?thesis using r True assms(2,5) by auto
  next
    case False
    with r have "request_readfile dk mm d c = Some (Done (False, d', c'))" by simp
    then have "refused dk mms c0 c'" using assms(2,4) unfolding refused_def by blast
    then show ?thesis using r False by simp
  qed
qed

lemma step_Inserting:
  assumes "worker_step dk (limit m) mm (cache, Inserting d, c) = Some (Done (cache', w))" "opened c0 nm d0 c"
    "Q nm d" "hashable nm" "sendable dk mms Q" "junk mm = Null" "disk_cache.holds m Q cache"
  shows "disk_cache.holds m Q cache' \<and> track dk mms Q c0 w"
proof -
  from assms(1) obtain r where r: "cache_insert (slack mm) Null (limit m) cache d = Some (r, cache')"
    "w = (Sending d, c)" using assms(6) by (auto simp: worker_step_def insert_section_def)
  have d: "file_name d = Some nm" "0 \<le> file_size d" using sendableD(1,2) [OF assms(5,3)] by auto
  have c: "cache_ok (limit m) cache" using assms(7) by (simp add: disk_cache.holds_def)
  from cache_insert_ok [OF c limit_simps(2) d(1) assms(4) d(2) r(1)] sendableD(4) [OF assms(5,3), of "slack mm"] assms(7)
  have "disk_cache.holds m Q cache'" by (auto simp: disk_cache.holds_def split: if_splits)
  then show ?thesis using r assms(2,3) by auto
qed

lemma step_Sending:
  assumes "worker_step dk m mm (cache, Sending d, c) = Some (Done (cache', w))" "opened c0 nm d0 c" "Q nm d" "mm \<in> mms"
  shows "cache' = cache \<and> track dk mms Q c0 w"
proof -
  from assms(1) obtain c' where "request_sendfile mm d c = Some (Done c')" "cache' = cache" "w = (Closing, c')"
    by (auto simp: worker_step_def)
  moreover from this assms have "sent_file mms Q c0 c'" unfolding sent_file_def by blast
  ultimately show ?thesis by simp
qed

lemma step_track:
  assumes "worker_step dk (limit m) mm (cache, w) = Some (Done (cache', w'))" "track dk mms Q c0 w"
    "sendable dk mms Q" "mm \<in> mms" "junk mm = Null" "disk_cache.holds m Q cache"
  shows "disk_cache.holds m Q cache' \<and> track dk mms Q c0 w'"
proof -
  obtain p c where w: "w = (p, c)" by (cases w)
  show ?thesis
  proof (cases p)
    case Starting
    then show ?thesis using assms w step_Starting [of dk "limit m" mm cache c cache' w' mms Q] by auto
  next
    case (Looking d)
    with assms w obtain nm where "opened c0 nm d c" by auto
    moreover have "worker_step dk (limit m) mm (cache, Looking d, c) = Some (Done (cache', w'))"
      using assms(1) w Looking by simp
    ultimately show ?thesis using step_Looking [OF _ _ assms(3,6)] assms(6) by blast
  next
    case (Loading keep d)
    with assms w obtain nm where nm: "opened c0 nm d c" "keep \<longrightarrow> hashable nm" by auto
    from step_Loading [OF _ nm(1) assms(3,4)] nm(2) Loading assms w show ?thesis by blast
  next
    case (Inserting d)
    with assms w obtain nm d0 where nm: "opened c0 nm d0 c" "Q nm d" "hashable nm" by auto
    from step_Inserting [OF _ nm assms(3,5,6)] Inserting assms w show ?thesis by blast
  next
    case (Sending d)
    with assms w obtain nm d0 where nm: "opened c0 nm d0 c" "Q nm d" by auto
    from step_Sending [where Q = Q, OF _ nm assms(4)] Sending assms w show ?thesis by blast
  next
    case Closing
    then show ?thesis using assms w by (auto simp: worker_step_def)
  next
    case Finished
    then show ?thesis using assms w by (simp add: worker_step_def)
  qed
qed

lemma initial_holds: "disk_cache.holds m Q (cache_table_initialization (\<lambda>_. Null))"
  by (simp add: disk_cache.holds_def cache_initial_ok contents_initial)

definition site_init :: "(nat \<Rightarrow> chain) \<Rightarrow> conn list \<Rightarrow> site" where
  "site_init array cs = \<lparr>site_cache = cache_table_initialization array, site_workers = map (\<lambda>c. (Starting, c)) cs\<rparr>"

abbreviation site_start :: "conn list \<Rightarrow> site" where
  "site_start \<equiv> site_init (\<lambda>_. Null)"

definition site_inv :: "disk \<Rightarrow> int \<Rightarrow> mem set \<Rightarrow> (char list \<Rightarrow> file_data \<Rightarrow> bool) \<Rightarrow> conn list \<Rightarrow> site \<Rightarrow> bool" where
  "site_inv dk m mms Q cs s \<longleftrightarrow> disk_cache.holds m Q (site_cache s) \<and> length (site_workers s) = length cs \<and>
     (\<forall>i < length cs. track dk mms Q (cs ! i) (site_workers s ! i))"

lemma serves_inv:
  assumes "serves dk (limit m) mms (site_start cs) s" "sendable dk mms Q" "\<forall>mm \<in> mms. junk mm = Null"
  shows "site_inv dk m mms Q cs s"
  using assms(1)
proof (induction s rule: serves.induct)
  case serves_refl
  then show ?case
    by (simp add: site_inv_def site_init_def initial_holds)
next
  case (serves_step t i mm cache w)
  then have t: "disk_cache.holds m Q (site_cache t)" "length (site_workers t) = length cs"
    "\<forall>j < length cs. track dk mms Q (cs ! j) (site_workers t ! j)" by (auto simp: site_inv_def)
  from step_track [OF serves_step.hyps(4) _ assms(2) serves_step.hyps(3) _ t(1)] t serves_step.hyps assms(3)
  have "disk_cache.holds m Q cache \<and> track dk mms Q (cs ! i) w" by auto
  with t serves_step.hyps(2) show ?case by (auto simp: site_inv_def nth_list_update)
qed

section \<open>What the disk serves\<close>

definition servable :: "disk \<Rightarrow> char list \<Rightarrow> bool" where
  "servable dk nm \<longleftrightarrow> \<not> (nm \<noteq> [] \<and> hd nm = CHR ''/'') \<and> strstr nm ''..'' = None \<and>
     strrchr nm CHR ''.'' \<notin> {Some ''.c'', Some ''.h''} \<and>
     (\<exists>f. dk nm = Some f \<and> is_regular f \<and> owner_reads f)"

lemma request_readfile_TrueD:
  assumes "request_readfile dk mm d c = Some (Done (True, d', c'))" "file_name d = Some nm"
  shows "c' = c \<and> servable dk nm \<and> file_name d' = Some nm \<and> 0 \<le> file_size d'"
proof -
  from assms obtain f where f: "dk nm = Some f" "is_regular f" "owner_reads f" "servable dk nm"
    by (auto simp: request_readfile_def servable_def Let_def split: if_splits option.splits)
  with assms show ?thesis
    by (auto simp: request_readfile_def servable_def Let_def split: if_splits prod.splits)
qed

lemma stored_fields [simp]: "file_name (stored sl d) = file_name d" "file_size (stored sl d) = file_size d"
  "file_buf (stored sl d) = c_strdup sl (file_buf d)"
  by (simp_all add: stored_def)

lemma sendable_servable:
  "sendable dk mms (\<lambda>nm d. file_name d = Some nm \<and> 0 \<le> file_size d \<and> servable dk nm)"
  unfolding sendable_def by (auto dest: request_readfile_TrueD)

section \<open>Disks of text files\<close>

text \<open>A file that can be read completely, is not empty, fits a 32-bit size and has no NUL.\<close>

definition text_file :: "node \<Rightarrow> bool" where
  "text_file f \<longleftrightarrow> opens f \<and> 0 < st_size f \<and> st_size f < 2 ^ 31 \<and> healthy (reads f) \<and>
     st_size f \<le> length (bytes_of (reads f)) \<and> NUL \<notin> set (bytes_of (reads f))"

definition file_bytes :: "node \<Rightarrow> char list" where
  "file_bytes f = take (st_size f) (bytes_of (reads f))"

lemma length_file_bytes: "text_file f \<Longrightarrow> length (file_bytes f) = st_size f"
  by (simp add: text_file_def file_bytes_def)

lemma request_readfile_text:
  assumes "servable dk nm" "dk nm = Some f" "text_file f" "file_name d = Some nm"
  shows "request_readfile dk mm d c =
    Some (Done (True, d\<lparr>file_size := int (st_size f), file_buf := Some (file_bytes f)\<rparr>, c))"
proof -
  have "s32 (int (st_size f)) = int (st_size f)" using assms(3) by (intro s32_id) (auto simp: text_file_def)
  moreover obtain es where "rio_read (st_size f) (reads f) = (int (st_size f), file_bytes f, es)"
    using rio_read_exact [of "reads f" "st_size f"] assms(3) by (auto simp: text_file_def file_bytes_def)
  moreover have "map (stale mm) [length (file_bytes f)..<st_size f] = []"
    using length_file_bytes [OF assms(3)] by simp
  ultimately show ?thesis using assms
    by (auto simp: request_readfile_def servable_def text_file_def Let_def)
qed

text \<open>Data that will be sent as the file's bytes, also when its buffer is a copy.\<close>

definition carries :: "disk \<Rightarrow> char list \<Rightarrow> file_data \<Rightarrow> bool" where
  "carries dk nm d \<longleftrightarrow> file_name d = Some nm \<and> servable dk nm \<and>
     (\<exists>f rest. dk nm = Some f \<and> file_size d = int (st_size f) \<and> file_buf d = Some (file_bytes f @ rest))"

lemma takeWhile_prefix: "NUL \<notin> set bs \<Longrightarrow> c_str (bs @ rest) = bs @ c_str rest"
  unfolding c_str_def by (rule takeWhile_append2) auto

lemma c_strdup_prefix:
  assumes "NUL \<notin> set bs" "c_strdup sl (Some (bs @ rest)) = Some b"
  shows "\<exists>rest'. b = bs @ rest'"
  using assms by (auto simp: c_strdup_def takeWhile_prefix split: if_splits)

lemma carries_copy:
  assumes "carries dk nm e" "\<forall>nm f. dk nm = Some f \<longrightarrow> text_file f" "c_strdup sl (file_buf e) = Some b"
    "file_name d = Some nm"
  shows "carries dk nm (d\<lparr>file_buf := Some b, file_size := file_size e\<rparr>)"
proof -
  from assms(1) obtain f rest where f: "servable dk nm" "dk nm = Some f" "file_size e = int (st_size f)"
    "file_buf e = Some (file_bytes f @ rest)" unfolding carries_def by blast
  have "NUL \<notin> set (file_bytes f)"
    using assms(2) f(2) by (auto simp: text_file_def file_bytes_def dest: in_set_takeD)
  moreover have "c_strdup sl (Some (file_bytes f @ rest)) = Some b" using assms(3) f(4) by simp
  ultimately obtain rest' where "b = file_bytes f @ rest'" using c_strdup_prefix by blast
  with f assms(4) show ?thesis by (simp add: carries_def)
qed

lemma carries_name: "carries dk nm d \<Longrightarrow> file_name d = Some nm"
  by (simp add: carries_def)

lemma sendable_carries:
  assumes "\<forall>nm f. dk nm = Some f \<longrightarrow> text_file f"
  shows "sendable dk mms (carries dk)"
  unfolding sendable_def
proof (intro conjI allI impI ballI)
  fix mm nm d c d' c'
  assume a: "file_name d = Some nm" "request_readfile dk mm d c = Some (Done (True, d', c'))"
  from request_readfile_TrueD [OF a(2,1)] obtain f where f: "servable dk nm" "dk nm = Some f"
    by (auto simp: servable_def)
  with request_readfile_text [OF f(1,2) _ a(1), of mm c] assms a
  show "carries dk nm d'" "c' = c" by (auto simp: carries_def)
next
  fix sl nm and d :: file_data
  assume a: "carries dk nm d" "c_strdup sl (file_buf d) \<noteq> None"
  then obtain b where b: "c_strdup sl (file_buf d) = Some b" by blast
  have "stored sl d = d\<lparr>file_buf := Some b, file_size := file_size d\<rparr>" using b by (simp add: stored_def)
  with carries_copy [OF a(1) assms b carries_name [OF a(1)]] show "carries dk nm (stored sl d)" by simp
next
  fix nm e b and d :: file_data
  assume "carries dk nm e" "c_strdup [] (file_buf e) = Some b" "file_name d = Some nm"
  then show "carries dk nm (d\<lparr>file_buf := Some b, file_size := file_size e\<rparr>)"
    using carries_copy assms by blast
qed (auto simp: carries_def)

text \<open>Sending such data, from whatever buffer, is sending the file's bytes.\<close>

definition send_file :: "char list \<Rightarrow> char list \<Rightarrow> conn \<Rightarrow> conn outcome option" where
  "send_file nm bs c =
     andthen (Rio_write (response_header (request_get_file_type nm) (int (length bs)) (csum_of bs)) c) (\<lambda>c.
       if bs \<noteq> [] then Rio_write bs c else Some (Done c))"

lemma request_sendfile_prefix:
  assumes "file_name d = Some nm" "file_size d = int (length bs)" "file_buf d = Some (bs @ rest)"
  shows "request_sendfile mm d c = send_file nm bs c"
proof -
  have "block_read mm (file_buf d) (nat (file_size d)) = Some bs"
    using assms(2,3) by (simp add: block_read_def)
  moreover have "0 < file_size d \<longleftrightarrow> bs \<noteq> []" using assms(2) by simp
  ultimately show ?thesis using assms(1,2) by (auto simp: request_sendfile_def send_file_def)
qed

lemma request_sendfile_carries:
  assumes "carries dk nm d" "\<forall>nm f. dk nm = Some f \<longrightarrow> text_file f"
  shows "\<exists>f. servable dk nm \<and> dk nm = Some f \<and> request_sendfile mm d c = send_file nm (file_bytes f) c"
proof -
  from assms(1) obtain f rest where f: "servable dk nm" "dk nm = Some f" "file_name d = Some nm"
    "file_size d = int (st_size f)" "file_buf d = Some (file_bytes f @ rest)" unfolding carries_def by blast
  have "file_size d = int (length (file_bytes f))" using f assms(2) length_file_bytes [of f] by simp
  from request_sendfile_prefix [OF f(3) this f(5)] f(1,2) show ?thesis by auto
qed

text \<open>A refusal does not depend on the memory.\<close>

lemma request_readfile_unservable:
  assumes "file_name d = Some nm" "\<not> servable dk nm"
  shows "request_readfile dk mm d c = request_readfile dk mm' d c"
proof (cases "dk nm")
  case None
  then show ?thesis using assms(1) by (cases "nm = []") (simp_all add: request_readfile_def Let_def)
next
  case (Some f)
  show ?thesis
  proof (cases "is_regular f \<and> owner_reads f")
    case True
    with assms Some have "(nm \<noteq> [] \<and> hd nm = CHR ''/'') \<or> strstr nm ''..'' \<noteq> None \<or>
        strrchr nm CHR ''.'' \<in> {Some ''.c'', Some ''.h''}" by (simp add: servable_def)
    then show ?thesis using assms(1) by (cases "nm = []"; elim disjE) (simp_all add: request_readfile_def Let_def)
  next
    case False
    then have "\<not> is_regular f \<or> \<not> owner_reads f" by blast
    then show ?thesis using assms(1) Some by (cases "nm = []") (simp_all add: request_readfile_def Let_def)
  qed
qed

lemma request_readfile_servable:
  assumes "file_name d = Some nm" "servable dk nm" "request_readfile dk mm d c = Some (Done (ret, d', c'))"
  shows "ret"
proof -
  from assms(2) obtain f where "dk nm = Some f" "is_regular f" "owner_reads f" by (auto simp: servable_def)
  with assms show ?thesis
    by (simp add: request_readfile_def servable_def Let_def split: if_splits prod.splits)
qed

lemma request_readfile_refused:
  assumes "request_readfile dk mm d c = Some (Done (False, d', c'))"
  shows "request_readfile dk mm' d c = Some (Done (False, d', c'))"
proof -
  from assms obtain nm where nm: "file_name d = Some nm" by (auto simp: request_readfile_def)
  with assms request_readfile_servable have "\<not> servable dk nm" by blast
  from request_readfile_unservable [OF nm this] assms show ?thesis by metis
qed

text \<open>What \<open>do_server_request\<close> does without a cache.\<close>

lemma request_init_size: "request_init c0 = Some (Done (Some d, c)) \<Longrightarrow> file_size d = 0"
  using request_init_SomeD [of c0 d c] by (auto simp: file_data_init_def)

lemma worker_run_Suc: "worker_run n dk m mm s = Some (Done t) \<Longrightarrow> worker_step dk m mm s' = Some (Done s) \<Longrightarrow>
    worker_run (Suc n) dk m mm s' = Some (Done t)"
  by simp

lemma worker_run_Finished: "worker_run n dk m mm (cache, Finished, c) = Some (Done (cache, Finished, c))"
  by (induction n) (simp_all add: worker_step_def)

lemma uncached_null:
  "request_init c0 = Some (Done (None, c)) \<Longrightarrow> do_server_request dk (-1) mm cache c0 = Some (Done (cache, c))"
  using worker_run_Finished [of 5 dk "-1" mm cache c]
  by (simp add: do_server_request_def eval_nat_numeral worker_step_def)

lemma uncached_sent:
  assumes "opened c0 nm d0 c1" "request_readfile dk mm d0 c1 = Some (Done (True, d, c2))"
    "request_sendfile mm d c2 = Some (Done c)"
  shows "do_server_request dk (-1) mm cache c0 = Some (Done (cache, request_destroy c))"
  using assms request_init_size [of c0 d0 c1] worker_run_Finished [of 2 dk "-1" mm cache "request_destroy c"]
  by (simp add: do_server_request_def eval_nat_numeral worker_step_def opened_def)

lemma uncached_refused:
  assumes "opened c0 nm d0 c1" "request_readfile dk mm d0 c1 = Some (Done (False, d, c))"
  shows "do_server_request dk (-1) mm cache c0 = Some (Done (cache, request_destroy c))"
  using assms request_init_size [of c0 d0 c1] worker_run_Finished [of 3 dk "-1" mm cache "request_destroy c"]
  by (simp add: do_server_request_def eval_nat_numeral worker_step_def opened_def)

section \<open>A request for a file runs to its end\<close>

lemma serves_trans_step:
  assumes "serves dk m mms s \<lparr>site_cache = cache, site_workers = ws[i := w]\<rparr>" "i < length ws" "mm \<in> mms"
    "worker_step dk m mm (cache, w) = Some (Done (cache', w'))"
  shows "serves dk m mms s \<lparr>site_cache = cache', site_workers = ws[i := w']\<rparr>"
  using serves_step [OF assms(1) _ assms(3), of i cache' w'] assms(2,4) by simp

lemma send_file_sent:
  assumes "send_file nm bs c = Some (Done c')"
  shows "conn_sent c' = conn_sent c @ response_header (request_get_file_type nm) (int (length bs)) (csum_of bs) @ bs"
  using assms by (auto simp: send_file_def dest!: conn_sent_Rio_write split: if_splits)

lemma send_file_delivers:
  assumes "writable (length (response_header (request_get_file_type nm) (int (length bs)) (csum_of bs)) + length bs) (conn_out c)"
  shows "\<exists>c'. send_file nm bs c = Some (Done c')"
proof -
  from Rio_write_delivers [OF assms] obtain es where
    w: "Rio_write (response_header (request_get_file_type nm) (int (length bs)) (csum_of bs)) c =
      Some (Done (c\<lparr>conn_out := es, conn_sent := conn_sent c @ response_header (request_get_file_type nm) (int (length bs)) (csum_of bs)\<rparr>))"
    "writable (length bs) es" by blast
  let ?c = "c\<lparr>conn_out := es, conn_sent := conn_sent c @ response_header (request_get_file_type nm) (int (length bs)) (csum_of bs)\<rparr>"
  have "writable (length bs + 0) (conn_out ?c)" using w(2) by simp
  from Rio_write_delivers [OF this] w(1) show ?thesis by (auto simp: send_file_def)
qed

text \<open>A client's \<open>GET\<close> request for the file \<open>f\<close>, on a connection that takes the response.\<close>

definition gets :: "disk \<Rightarrow> char list \<Rightarrow> char list \<Rightarrow> node \<Rightarrow> conn \<Rightarrow> bool" where
  "gets dk host filename f c \<longleftrightarrow> sendable_request host filename \<and> healthy (conn_in c) \<and>
     bytes_of (conn_in c) = client_request_text host filename \<and> conn_sent c = [] \<and>
     servable dk (''./'' @ filename) \<and> dk (''./'' @ filename) = Some f"

definition accepts_response :: "char list \<Rightarrow> node \<Rightarrow> conn \<Rightarrow> bool" where
  "accepts_response nm f c \<longleftrightarrow>
     writable (length (response_header (request_get_file_type nm) (int (st_size f)) (csum_of (file_bytes f))) + st_size f) (conn_out c)"

lemma gets_opened:
  assumes "gets dk host filename f c"
  shows "\<exists>src d. opened c (''./'' @ filename) d (c\<lparr>conn_in := src\<rparr>) \<and> file_size d = 0"
proof -
  from assms request_init_get [of host filename c "[]"] obtain src where
    "request_init c = Some (Done (Some \<lparr>file_name = Some (''./'' @ filename), file_buf = None, file_size = 0\<rparr>,
       c\<lparr>conn_in := src\<rparr>))" by (auto simp: gets_def)
  then show ?thesis unfolding opened_def
    by (intro exI [of _ src] exI [of _ "\<lparr>file_name = Some (''./'' @ filename), file_buf = None, file_size = 0\<rparr>"]) simp
qed

lemma opened_unique: "opened c nm d c1 \<Longrightarrow> opened c nm' d' c2 \<Longrightarrow> nm' = nm \<and> d' = d \<and> c2 = c1"
  by (auto simp: opened_def)

text \<open>Worker \<open>i\<close> at a place, the others as they are in \<open>ws\<close>.\<close>

definition stands :: "disk \<Rightarrow> int \<Rightarrow> mem set \<Rightarrow> site \<Rightarrow> (place \<times> conn) list \<Rightarrow> nat \<Rightarrow> cache_table \<Rightarrow> place \<Rightarrow> conn \<Rightarrow> bool" where
  "stands dk m mms s0 ws i cache p c \<longleftrightarrow> i < length ws \<and>
     serves dk m mms s0 \<lparr>site_cache = cache, site_workers = ws[i := (p, c)]\<rparr>"

lemma stands_step:
  assumes "stands dk m mms s0 ws i cache p c" "mm \<in> mms"
    "worker_step dk m mm (cache, p, c) = Some (Done (cache', p', c'))"
  shows "stands dk m mms s0 ws i cache' p' c'"
  using assms serves_trans_step unfolding stands_def by blast

text \<open>What the cache keeps: copies that carry a file and end in a NUL.\<close>

definition kept :: "disk \<Rightarrow> char list \<Rightarrow> file_data \<Rightarrow> bool" where
  "kept dk nm e \<longleftrightarrow> carries dk nm e \<and> (\<exists>b. file_buf e = Some b \<and> NUL \<in> set b)"

lemma kept_stored:
  assumes "carries dk nm d" "\<forall>nm f. dk nm = Some f \<longrightarrow> text_file f" "c_strdup sl (file_buf d) \<noteq> None"
  shows "kept dk nm (stored sl d)"
proof -
  from assms(3) obtain b where b: "c_strdup sl (file_buf d) = Some b" by blast
  then have "NUL \<in> set b" by (auto simp: c_strdup_def split: option.splits if_splits)
  moreover have "carries dk nm (stored sl d)"
    using sendableD(4) [OF sendable_carries [OF assms(2)] assms(1,3)] .
  ultimately show ?thesis using b by (simp add: kept_def)
qed

lemma stands_hit:
  assumes "stands dk (limit m) mms s0 ws i cache (Looking d) c" "cache_lookup cache nm = Some (Some e)"
    "kept dk nm e" "file_name d = Some nm" "\<forall>nm f. dk nm = Some f \<longrightarrow> text_file f" "mm \<in> mms"
  shows "\<exists>d'. stands dk (limit m) mms s0 ws i cache (Sending d') c \<and> carries dk nm d'"
proof -
  from assms(3) obtain b where "file_buf e = Some b" "NUL \<in> set b" by (auto simp: kept_def)
  then obtain b' where b: "c_strdup [] (file_buf e) = Some b'" by (simp add: c_strdup_def)
  let ?d = "d\<lparr>file_buf := Some b', file_size := file_size e\<rparr>"
  have "worker_step dk (limit m) mm (cache, Looking d, c) = Some (Done (cache, Sending ?d, c))"
    using assms(2,4) b by (simp add: worker_step_def lookup_section_def)
  from stands_step [OF assms(1,6) this] have "stands dk (limit m) mms s0 ws i cache (Sending ?d) c" .
  moreover have "carries dk nm ?d"
    using sendableD(5) [OF sendable_carries [OF assms(5), of mms] _ b assms(4)] assms(3) by (simp add: kept_def)
  ultimately show ?thesis by blast
qed

lemma stands_miss:
  assumes "stands dk (limit m) mms s0 ws i cache (Looking d) c" "cache_lookup cache nm = Some None"
    "disk_cache.holds m (kept dk) cache" "file_name d = Some nm" "servable dk nm" "dk nm = Some f"
    "\<forall>nm f. dk nm = Some f \<longrightarrow> text_file f" "hashable nm" "mm \<in> mms" "junk mm = Null" "NUL \<in> set (slack mm)"
  shows "\<exists>cache' d'. stands dk (limit m) mms s0 ws i cache' (Sending d') c \<and> carries dk nm d' \<and>
    disk_cache.holds m (kept dk) cache'"
proof -
  have "worker_step dk (limit m) mm (cache, Looking d, c) = Some (Done (cache, Loading True d, c))"
    using assms(2,4) by (simp add: worker_step_def lookup_section_def)
  from stands_step [OF assms(1,9) this] have s1: "stands dk (limit m) mms s0 ws i cache (Loading True d) c" .
  let ?d = "d\<lparr>file_size := int (st_size f), file_buf := Some (file_bytes f)\<rparr>"
  have tf: "text_file f" using assms(6,7) by blast
  have "worker_step dk (limit m) mm (cache, Loading True d, c) = Some (Done (cache, Inserting ?d, c))"
    using request_readfile_text [OF assms(5,6) tf assms(4), of mm c] by (simp add: worker_step_def)
  from stands_step [OF s1 assms(9) this] have s2: "stands dk (limit m) mms s0 ws i cache (Inserting ?d) c" .
  have d: "carries dk nm ?d" using assms(4-6) by (simp add: carries_def)
  have sl: "c_strdup (slack mm) (file_buf ?d) \<noteq> None" using assms(11) by (simp add: c_strdup_def)
  have "disk_cache.fair (kept dk) (Put (slack mm) ?d)"
    using kept_stored [OF d assms(7) sl] sl assms(4,8) by (simp add: disk_cache.fair_def)
  from disk_cache.holds_put [OF assms(3) this] obtain r cache' where
    p: "cache_insert (slack mm) Null (limit m) cache ?d = Some (r, cache')" "disk_cache.holds m (kept dk) cache'" by blast
  then have "worker_step dk (limit m) mm (cache, Inserting ?d, c) = Some (Done (cache', Sending ?d, c))"
    using assms(10) by (simp add: worker_step_def insert_section_def)
  from stands_step [OF s2 assms(9) this] d p(2) show ?thesis by blast
qed

lemma stands_finished:
  assumes "stands dk (limit m) mms s0 ws i cache (Starting) c0" "disk_cache.holds m (kept dk) cache"
    "gets dk host filename f c0" "accepts_response (''./'' @ filename) f c0"
    "\<forall>nm f. dk nm = Some f \<longrightarrow> text_file f" "hashable (''./'' @ filename)" "mm \<in> mms" "junk mm = Null" "NUL \<in> set (slack mm)"
  shows "\<exists>cache' c. stands dk (limit m) mms s0 ws i cache' Finished c \<and> disk_cache.holds m (kept dk) cache'"
proof -
  let ?nm = "''./'' @ filename"
  have f: "servable dk ?nm" "dk ?nm = Some f" "text_file f" using assms(3,5) by (auto simp: gets_def)
  obtain src d where o: "opened c0 ?nm d (c0\<lparr>conn_in := src\<rparr>)" "file_size d = 0"
    using gets_opened [OF assms(3)] by blast
  let ?c = "c0\<lparr>conn_in := src\<rparr>"
  have d: "file_name d = Some ?nm" using o(1) by (simp add: opened_def)
  have "worker_step dk (limit m) mm (cache, Starting, c0) = Some (Done (cache, Looking d, ?c))"
    using o limit_simps(1) [of m] by (simp add: worker_step_def opened_def not_less)
  from stands_step [OF assms(1,7) this] have s1: "stands dk (limit m) mms s0 ws i cache (Looking d) ?c" .
  obtain r where r: "cache_lookup cache ?nm = Some r" "\<forall>e. r = Some e \<longrightarrow> kept dk ?nm e"
    using disk_cache.holds_look [OF assms(2,6)] by blast
  have "\<exists>cache' d'. stands dk (limit m) mms s0 ws i cache' (Sending d') ?c \<and> carries dk ?nm d' \<and>
      disk_cache.holds m (kept dk) cache'"
  proof (cases r)
    case None
    with stands_miss [OF s1 _ assms(2) d f(1,2) assms(5-9)] r(1) show ?thesis by simp
  next
    case (Some e)
    with stands_hit [OF s1 _ _ d assms(5,7)] r assms(2) show ?thesis by blast
  qed
  then obtain cache' d' where s2: "stands dk (limit m) mms s0 ws i cache' (Sending d') ?c" "carries dk ?nm d'"
    "disk_cache.holds m (kept dk) cache'" by blast
  have "writable (length (response_header (request_get_file_type ?nm) (int (length (file_bytes f))) (csum_of (file_bytes f))) +
      length (file_bytes f)) (conn_out ?c)"
    using assms(4) length_file_bytes [OF f(3)] by (simp add: accepts_response_def)
  from send_file_delivers [OF this] obtain c' where "send_file ?nm (file_bytes f) ?c = Some (Done c')" by blast
  with request_sendfile_carries [OF s2(2) assms(5), of mm ?c] f(2) have
    "request_sendfile mm d' ?c = Some (Done c')" by auto
  then have "worker_step dk (limit m) mm (cache', Sending d', ?c) = Some (Done (cache', Closing, c'))"
    by (simp add: worker_step_def)
  from stands_step [OF s2(1) assms(7) this] have s3: "stands dk (limit m) mms s0 ws i cache' Closing c'" .
  have "worker_step dk (limit m) mm (cache', Closing, c') = Some (Done (cache', Finished, request_destroy c'))"
    by (simp add: worker_step_def)
  from stands_step [OF s3 assms(7) this] s2(3) show ?thesis by blast
qed

section \<open>An example\<close>

text \<open>A disk with one file, a memory with a NUL behind each block, and a client that gets the file.\<close>

definition sample_file :: node where
  "sample_file = \<lparr>is_regular = True, owner_reads = True, st_size = 3, opens = True,
     reads = [Data [CHR ''h'', CHR ''i'', CHR 0x0A]]\<rparr>"

definition sample_disk :: disk where
  "sample_disk nm = (if nm = ''./a.txt'' then Some sample_file else None)"

definition sample_mem :: mem where
  "sample_mem = \<lparr>slack = [NUL], stale = (\<lambda>_. NUL), junk = Null\<rparr>"

definition sample_conn :: conn where
  "sample_conn = \<lparr>conn_in = [Data (client_request_text ''h'' ''a.txt'')], conn_out = replicate 200 (Wrote 1),
     conn_sent = [], conn_open = True\<rparr>"

lemma sample_text: "\<forall>nm f. sample_disk nm = Some f \<longrightarrow> text_file f"
  by (simp add: sample_disk_def sample_file_def text_file_def NUL_def)

lemma sample_bytes: "file_bytes sample_file = [CHR ''h'', CHR ''i'', CHR 0x0A]"
  by (simp add: file_bytes_def sample_file_def)

lemma sample_mem_ok: "junk sample_mem = Null" "NUL \<in> set (slack sample_mem)"
  by (simp_all add: sample_mem_def)

lemma sample_hashable: "hashable ''./a.txt''"
  by code_simp

lemma sample_gets: "gets sample_disk ''h'' ''a.txt'' sample_file sample_conn"
proof -
  have "sendable_request ''h'' ''a.txt''"
    by (simp add: sendable_request_def word_def isspace_def NUL_def newline_def client_request_text_def crlf_def MAXLINE_def)
  moreover have "servable sample_disk ''./a.txt''"
    by (simp add: servable_def sample_disk_def sample_file_def)
  ultimately show ?thesis by (simp add: gets_def sample_conn_def sample_disk_def client_request_text_def)
qed

lemma sample_accepts: "accepts_response ''./a.txt'' sample_file sample_conn"
proof -
  have "length (response_header (request_get_file_type ''./a.txt'') 3 (csum_of [CHR ''h'', CHR ''i'', CHR 0x0A])) + 3 \<le> 200"
    by code_simp
  then show ?thesis
    by (simp add: accepts_response_def sample_bytes) (simp add: sample_conn_def sample_file_def writable_def)
qed

section \<open>Properties\<close>

text \<open>C17: Whatever the disk holds and however the workers interleave, the data a worker is about to
  send under the header \<open>200 OK\<close>, from the disk or from the cache, is of a regular file that its owner
  may read, whose name is relative, has no \<open>..\<close> and does not end in \<open>.c\<close> or \<open>.h\<close>.\<close>

theorem only_servable_files_sent:
  assumes "serves dk (limit m) mms (site_start cs) s" "\<forall>mm \<in> mms. junk mm = Null"
    "i < length cs" "site_workers s ! i = (Sending d, c)"
  shows "\<exists>nm f. file_name d = Some nm \<and> dk nm = Some f \<and> is_regular f \<and> owner_reads f \<and>
    \<not> (nm \<noteq> [] \<and> hd nm = CHR ''/'') \<and> strstr nm ''..'' = None \<and>
    strrchr nm CHR ''.'' \<notin> {Some ''.c'', Some ''.h''}"
proof -
  let ?Q = "\<lambda>nm d. file_name d = Some nm \<and> 0 \<le> file_size d \<and> servable dk nm"
  have "site_inv dk m mms ?Q cs s" using assms(1) sendable_servable assms(2) by (rule serves_inv)
  then have "track dk mms ?Q (cs ! i) (site_workers s ! i)" using assms(3) by (simp add: site_inv_def)
  then obtain nm where "file_name d = Some nm" "servable dk nm" using assms(4) by auto
  then show ?thesis unfolding servable_def by blast
qed

text \<open>C13: The cache cannot be observed, on a disk of text files (readable, not empty, without NUL) and with NULL in the pointers that
  are never set: in every interleaving of the workers, each request that is finished has left on its connection exactly what
  \<open>do_server_request\<close> leaves there when it runs alone and uses no cache.\<close>

theorem cache_is_transparent:
  assumes "serves dk (limit m) mms (site_start cs) s" "\<forall>mm \<in> mms. junk mm = Null"
    "\<forall>nm f. dk nm = Some f \<longrightarrow> text_file f" "i < length cs" "site_workers s ! i = (Finished, c)"
  shows "do_server_request dk (-1) mm cache (cs ! i) = Some (Done (cache, c))"
proof -
  have "site_inv dk m mms (carries dk) cs s"
    using assms(1) sendable_carries [OF assms(3)] assms(2) by (rule serves_inv)
  then have "track dk mms (carries dk) (cs ! i) (site_workers s ! i)" using assms(4) by (simp add: site_inv_def)
  then consider "request_init (cs ! i) = Some (Done (None, c))"
    | c1 where "sent_file mms (carries dk) (cs ! i) c1" "c = request_destroy c1"
    | c1 where "refused dk mms (cs ! i) c1" "c = request_destroy c1"
    using assms(5) by auto
  then show ?thesis
  proof cases
    case 1
    then show ?thesis by (rule uncached_null)
  next
    case 2
    then obtain nm d0 c2 mm' d where o: "opened (cs ! i) nm d0 c2" "carries dk nm d"
      "request_sendfile mm' d c2 = Some (Done c1)" unfolding sent_file_def by blast
    have nm: "file_name d0 = Some nm" using o(1) by (simp add: opened_def)
    obtain f where f: "servable dk nm" "dk nm = Some f" "request_sendfile mm' d c2 = send_file nm (file_bytes f) c2"
      using request_sendfile_carries [OF o(2) assms(3)] by blast
    have tf: "text_file f" using assms(3) f(2) by blast
    let ?d = "d0\<lparr>file_size := int (st_size f), file_buf := Some (file_bytes f)\<rparr>"
    have "request_sendfile mm ?d c2 = send_file nm (file_bytes f) c2"
      using request_sendfile_prefix [of ?d nm "file_bytes f" "[]"] nm length_file_bytes [OF tf] by simp
    then show ?thesis
      using uncached_sent [OF o(1) request_readfile_text [OF f(1,2) tf nm]] f(3) o(3) 2(2) by simp
  next
    case 3
    then obtain nm d0 c2 mm' d where o: "opened (cs ! i) nm d0 c2"
      "request_readfile dk mm' d0 c2 = Some (Done (False, d, c1))" unfolding refused_def by blast
    show ?thesis using uncached_refused [OF o(1) request_readfile_refused [OF o(2)]] 3(2) by simp
  qed
qed

lemma all_requests_finish:
  assumes "\<forall>nm f. dk nm = Some f \<longrightarrow> text_file f" "mm \<in> mms" "junk mm = Null" "NUL \<in> set (slack mm)"
    "\<forall>i < length cs. gets dk (host i) (name i) (doc i) (cs ! i) \<and>
       accepts_response (''./'' @ name i) (doc i) (cs ! i) \<and> hashable (''./'' @ name i)"
    "k \<le> length cs"
  shows "\<exists>cache ws. serves dk (limit m) mms (site_start cs) \<lparr>site_cache = cache, site_workers = ws\<rparr> \<and>
    disk_cache.holds m (kept dk) cache \<and> length ws = length cs \<and>
    (\<forall>j < k. \<exists>c. ws ! j = (Finished, c)) \<and> (\<forall>j < length cs. k \<le> j \<longrightarrow> ws ! j = (Starting, cs ! j))"
  using assms(6)
proof (induction k)
  case 0
  have "disk_cache.holds m (kept dk) (site_cache (site_start cs))"
    by (simp add: site_init_def initial_holds)
  then show ?case
    using serves_refl [of dk "limit m" mms "site_start cs"]
    by (intro exI [of _ "site_cache (site_start cs)"] exI [of _ "site_workers (site_start cs)"])
      (simp add: site_init_def)
next
  case (Suc k)
  then obtain cache ws where k: "serves dk (limit m) mms (site_start cs) \<lparr>site_cache = cache, site_workers = ws\<rparr>"
    "disk_cache.holds m (kept dk) cache" "length ws = length cs" "\<forall>j < k. \<exists>c. ws ! j = (Finished, c)"
    "\<forall>j < length cs. k \<le> j \<longrightarrow> ws ! j = (Starting, cs ! j)" by auto
  have kk: "k < length cs" using Suc.prems by simp
  then have "ws[k := (Starting, cs ! k)] = ws" using k(5) list_update_id [of ws k] by simp
  then have st: "stands dk (limit m) mms (site_start cs) ws k cache Starting (cs ! k)"
    using k(1,3) kk by (simp add: stands_def)
  from assms(5) kk have g: "gets dk (host k) (name k) (doc k) (cs ! k)"
    "accepts_response (''./'' @ name k) (doc k) (cs ! k)" "hashable (''./'' @ name k)" by auto
  from stands_finished [OF st k(2) g(1,2) assms(1) g(3) assms(2-4)] obtain cache' c where
    f: "stands dk (limit m) mms (site_start cs) ws k cache' Finished c" "disk_cache.holds m (kept dk) cache'" by blast
  have "\<forall>j < Suc k. \<exists>d. ws[k := (Finished, c)] ! j = (Finished, d)"
    using k(3,4) kk by (auto simp: nth_list_update less_Suc_eq)
  moreover have "\<forall>j < length cs. Suc k \<le> j \<longrightarrow> ws[k := (Finished, c)] ! j = (Starting, cs ! j)"
    using k(5) by simp
  ultimately show ?case using f k(3) unfolding stands_def
    by (intro exI [of _ cache'] exI [of _ "ws[k := (Finished, c)]"]) simp
qed

lemma track_finished_sent:
  assumes t: "track dk mms (carries dk) c0 (Finished, c)"
    and disk: "\<forall>nm f. dk nm = Some f \<longrightarrow> text_file f" and g: "gets dk host filename f c0"
  shows "conn_sent c = response_header (request_get_file_type (''./'' @ filename)) (int (st_size f)) (csum_of (file_bytes f)) @
    file_bytes f"
proof -
  let ?nm = "''./'' @ filename"
  obtain src d0 where o: "opened c0 ?nm d0 (c0\<lparr>conn_in := src\<rparr>)"
    using gets_opened [OF g] by blast
  have f: "servable dk ?nm" "dk ?nm = Some f" "text_file f" "conn_sent c0 = []"
    using disk g by (auto simp: gets_def)
  have "\<not> refused dk mms c0 c1" for c1
  proof
    assume "refused dk mms c0 c1"
    then obtain nm d1 c2 mm d where r: "opened c0 nm d1 c2"
      "request_readfile dk mm d1 c2 = Some (Done (False, d, c1))" unfolding refused_def by blast
    with opened_unique [OF o r(1)] request_readfile_servable [OF _ f(1) r(2)] show False
      by (auto simp: opened_def)
  qed
  with t o obtain c1 where c1: "sent_file mms (carries dk) c0 c1" "c = request_destroy c1"
    by (auto simp: opened_def)
  then obtain nm d1 c2 mm d where r: "opened c0 nm d1 c2" "carries dk nm d"
    "request_sendfile mm d c2 = Some (Done c1)" unfolding sent_file_def by blast
  have u: "nm = ?nm" "c2 = c0\<lparr>conn_in := src\<rparr>" using opened_unique [OF o r(1)] by auto
  from request_sendfile_carries [OF r(2) disk, of mm c2] r(3) u f(2)
  have "send_file ?nm (file_bytes f) c2 = Some (Done c1)" by auto
  from send_file_sent [OF this] u f(4) c1(2) length_file_bytes [OF f(3)] show ?thesis
    by (simp add: request_destroy_def)
qed

lemma finished_sent:
  assumes "serves dk (limit m) mms (site_start cs) s" "\<forall>mm \<in> mms. junk mm = Null"
    "\<forall>nm f. dk nm = Some f \<longrightarrow> text_file f" "i < length cs" "site_workers s ! i = (Finished, c)"
    "gets dk host filename f (cs ! i)"
  shows "conn_sent c = response_header (request_get_file_type (''./'' @ filename)) (int (st_size f)) (csum_of (file_bytes f)) @
    file_bytes f"
proof -
  have "site_inv dk m mms (carries dk) cs s"
    using assms(1) sendable_carries [OF assms(3)] assms(2) by (rule serves_inv)
  then have "track dk mms (carries dk) (cs ! i) (Finished, c)" using assms(4,5) by (metis site_inv_def)
  then show ?thesis using assms(3,6) by (rule track_finished_sent)
qed

lemma finished_satisfied:
  assumes "serves dk (limit m) mms (site_start cs) s" "\<forall>mm \<in> mms. junk mm = Null"
    "\<forall>nm f. dk nm = Some f \<longrightarrow> text_file f" "i < length cs" "site_workers s ! i = (Finished, c)"
    "gets dk host filename f (cs ! i)" "short_lines (MAXBUF - 2) (MAXBUF - 2) (file_bytes f)"
    "healthy es" "bytes_of es = conn_sent c"
  shows "client_print es (csum_of (file_bytes f)) (int (st_size f)) = Some (Done ())"
proof -
  have tf: "text_file f" using assms(3,6) by (auto simp: gets_def)
  have l: "length (file_bytes f) = st_size f" using length_file_bytes [OF tf] .
  from finished_sent [OF assms(1-6)] assms(9) l have
    "bytes_of es = response_header (request_get_file_type (''./'' @ filename)) (int (length (file_bytes f)))
       (csum_of (file_bytes f)) @ file_bytes f" by simp
  from client_print_accepts [OF assms(8) this _ assms(7)] tf l show ?thesis by (simp add: text_file_def)
qed

text \<open>C8: End to end, with the client's code on both sides: each client sends \<open>client_send\<close>'s request for a file that may be served, with a name whose
  hash is not negative and with lines shorter than MAXBUF - 2, from a disk of text files, and pointers that are never set are
  NULL. The workers can finish all requests, and in every interleaving, with hits and misses of the cache, whatever chunks the
  bytes arrive in, each client whose request is finished passes all assertions of \<open>client_print\<close> for its file's length and checksum.\<close>

theorem every_client_is_satisfied:
  assumes "\<forall>nm f. dk nm = Some f \<longrightarrow> text_file f" "mms \<noteq> {}" "\<forall>mm \<in> mms. junk mm = Null \<and> NUL \<in> set (slack mm)"
    "\<forall>i < length cs. gets dk (host i) (name i) (doc i) (cs ! i) \<and>
       accepts_response (''./'' @ name i) (doc i) (cs ! i) \<and> hashable (''./'' @ name i) \<and>
       short_lines (MAXBUF - 2) (MAXBUF - 2) (file_bytes (doc i))"
  shows "(\<exists>s. serves dk (limit m) mms (site_start cs) s \<and>
      (\<forall>i < length cs. \<exists>c. site_workers s ! i = (Finished, c))) \<and>
    (\<forall>s i c es. serves dk (limit m) mms (site_start cs) s \<longrightarrow> i < length cs \<longrightarrow>
      site_workers s ! i = (Finished, c) \<longrightarrow> healthy es \<longrightarrow> bytes_of es = conn_sent c \<longrightarrow>
      client_print es (csum_of (file_bytes (doc i))) (int (st_size (doc i))) = Some (Done ()))"
proof (intro conjI allI impI)
  obtain mm where "mm \<in> mms" using assms(2) by blast
  with all_requests_finish [of dk mm mms cs host name doc "length cs" m] assms
  obtain cache ws where "serves dk (limit m) mms (site_start cs) \<lparr>site_cache = cache, site_workers = ws\<rparr>"
    "\<forall>j < length cs. \<exists>c. ws ! j = (Finished, c)" by blast
  then show "\<exists>s. serves dk (limit m) mms (site_start cs) s \<and> (\<forall>i < length cs. \<exists>c. site_workers s ! i = (Finished, c))"
    by (intro exI [of _ "\<lparr>site_cache = cache, site_workers = ws\<rparr>"]) simp
next
  fix s i c es
  assume a: "serves dk (limit m) mms (site_start cs) s" "i < length cs" "site_workers s ! i = (Finished, c)"
    "healthy es" "bytes_of es = conn_sent c"
  show "client_print es (csum_of (file_bytes (doc i))) (int (st_size (doc i))) = Some (Done ())"
    using finished_satisfied [OF a(1) _ assms(1) a(2,3) _ _ a(4,5)] assms(3,4) a(2) by blast
qed

theorem every_client_is_satisfied_witness:
  "\<exists>s. serves sample_disk (limit 100) {sample_mem} (site_start [sample_conn, sample_conn]) s \<and>
    (\<exists>c. site_workers s ! 1 = (Finished, c) \<and> client_print [Data (conn_sent c)] 219 3 = Some (Done ()))"
proof -
  have sl: "short_lines (MAXBUF - 2) (MAXBUF - 2) (file_bytes sample_file)"
    by (simp add: sample_bytes MAXBUF_def newline_def)
  have cs: "csum_of (file_bytes sample_file) = 219" "st_size sample_file = 3"
    unfolding sample_bytes by (simp_all add: csum_of_def sample_file_def)
  have "\<forall>i < length [sample_conn, sample_conn]. gets sample_disk ''h'' ''a.txt'' sample_file ([sample_conn, sample_conn] ! i) \<and>
      accepts_response (''./'' @ ''a.txt'') sample_file ([sample_conn, sample_conn] ! i) \<and> hashable (''./'' @ ''a.txt'') \<and>
      short_lines (MAXBUF - 2) (MAXBUF - 2) (file_bytes sample_file)"
    using sample_gets sample_accepts sample_hashable sl by (auto simp: less_Suc_eq)
  from every_client_is_satisfied [OF sample_text _ _ this, of "{sample_mem}" 100] sample_mem_ok
  have a: "\<exists>s. serves sample_disk (limit 100) {sample_mem} (site_start [sample_conn, sample_conn]) s \<and>
      (\<forall>i < length [sample_conn, sample_conn]. \<exists>c. site_workers s ! i = (Finished, c))"
    and b: "\<And>s i c es. serves sample_disk (limit 100) {sample_mem} (site_start [sample_conn, sample_conn]) s \<Longrightarrow>
      i < length [sample_conn, sample_conn] \<Longrightarrow> site_workers s ! i = (Finished, c) \<Longrightarrow> healthy es \<Longrightarrow>
      bytes_of es = conn_sent c \<Longrightarrow> client_print es (csum_of (file_bytes sample_file)) (int (st_size sample_file)) = Some (Done ())"
    by blast+
  from a obtain s where s: "serves sample_disk (limit 100) {sample_mem} (site_start [sample_conn, sample_conn]) s"
    "\<forall>i < length [sample_conn, sample_conn]. \<exists>c. site_workers s ! i = (Finished, c)" by blast
  then obtain c where c: "site_workers s ! 1 = (Finished, c)" by (auto simp: less_Suc_eq)
  have j: "\<forall>mm \<in> {sample_mem}. junk mm = Null" using sample_mem_ok by simp
  have "conn_sent c \<noteq> []"
    using finished_sent [OF s(1) j sample_text, of 1 c "''h''" "''a.txt''" sample_file] c sample_gets sample_bytes by simp
  with b [OF s(1) _ c, of "[Data (conn_sent c)]"] cs s(1) c show ?thesis by auto
qed

text \<open>The witnesses of the two properties above: one worker.\<close>

theorem cache_is_transparent_witness:
  "\<exists>s c. serves sample_disk (limit 100) {sample_mem} (site_start [sample_conn]) s \<and> site_workers s ! 0 = (Finished, c) \<and>
     do_server_request sample_disk (-1) sample_mem (cache_table_initialization (\<lambda>_. Null)) sample_conn =
       Some (Done (cache_table_initialization (\<lambda>_. Null), c))"
proof -
  have "\<forall>i < length [sample_conn]. gets sample_disk ''h'' ''a.txt'' sample_file ([sample_conn] ! i) \<and>
      accepts_response (''./'' @ ''a.txt'') sample_file ([sample_conn] ! i) \<and> hashable (''./'' @ ''a.txt'')"
    using sample_gets sample_accepts sample_hashable by simp
  from all_requests_finish [OF sample_text _ sample_mem_ok this, of "{sample_mem}" 1 100] obtain cache ws c where
    s: "serves sample_disk (limit 100) {sample_mem} (site_start [sample_conn]) \<lparr>site_cache = cache, site_workers = ws\<rparr>"
    "ws ! 0 = (Finished, c)" by auto
  from cache_is_transparent [OF s(1) _ sample_text, of 0 c] s sample_mem_ok show ?thesis
    by (intro exI [of _ "\<lparr>site_cache = cache, site_workers = ws\<rparr>"] exI [of _ c]) auto
qed

theorem only_servable_files_sent_witness:
  "\<exists>s d c. serves sample_disk (limit 100) {sample_mem} (site_start [sample_conn]) s \<and> site_workers s ! 0 = (Sending d, c) \<and>
     (\<exists>nm f. file_name d = Some nm \<and> sample_disk nm = Some f \<and> strstr nm ''..'' = None)"
proof -
  let ?cache = "cache_table_initialization (\<lambda>_. Null)"
  obtain src d where o: "opened sample_conn ''./a.txt'' d (sample_conn\<lparr>conn_in := src\<rparr>)" "file_size d = 0"
    using gets_opened [OF sample_gets] by auto
  let ?c = "sample_conn\<lparr>conn_in := src\<rparr>"
  have d: "file_name d = Some ''./a.txt''" using o(1) by (simp add: opened_def)
  have st: "stands sample_disk (limit 100) {sample_mem} (site_start [sample_conn]) [(Starting, sample_conn)] 0 ?cache Starting sample_conn"
    using serves_refl [of sample_disk "limit 100" "{sample_mem}" "site_start [sample_conn]"]
    by (simp add: stands_def site_init_def)
  have "worker_step sample_disk (limit 100) sample_mem (?cache, Starting, sample_conn) = Some (Done (?cache, Looking d, ?c))"
    using o by (simp add: worker_step_def opened_def)
  from stands_step [OF st _ this] have s1: "stands sample_disk (limit 100) {sample_mem} (site_start [sample_conn])
    [(Starting, sample_conn)] 0 ?cache (Looking d) ?c" by simp
  have h: "disk_cache.holds 100 (kept sample_disk) ?cache" by (rule initial_holds)
  have "cache_ok 100 ?cache" by (rule cache_initial_ok) simp
  then have l: "cache_lookup ?cache ''./a.txt'' = Some None"
    using cache_lookup_contents sample_hashable by (simp add: contents_initial)
  have sv: "servable sample_disk ''./a.txt''" "sample_disk ''./a.txt'' = Some sample_file"
    using sample_gets by (simp_all add: gets_def)
  from stands_miss [OF s1 l h d sv sample_text sample_hashable _ sample_mem_ok] obtain cache' d' where
    "stands sample_disk (limit 100) {sample_mem} (site_start [sample_conn]) [(Starting, sample_conn)] 0 cache' (Sending d') ?c"
    by blast
  then have s: "serves sample_disk (limit 100) {sample_mem} (site_start [sample_conn])
      \<lparr>site_cache = cache', site_workers = [(Sending d', ?c)]\<rparr>" by (simp add: stands_def)
  from only_servable_files_sent [OF s, of 0 d' ?c] sample_mem_ok s show ?thesis
    by (intro exI [of _ "\<lparr>site_cache = cache', site_workers = [(Sending d', ?c)]\<rparr>"] exI [of _ d'] exI [of _ ?c]) auto
qed

text \<open>A request for an empty file is fatal: unless the file's name is in the table already,
  which no request for it brings about, \<open>do_server_request\<close> copies its NULL buffer with \<open>strdup\<close>
  and the process has a fault, whatever the limit of the cache.\<close>

theorem empty_file_is_fatal:
  assumes "gets dk host filename f c" "st_size f = 0" "cache_ok (limit m) cache" "hashable (''./'' @ filename)"
    "contents cache (''./'' @ filename) = None" "junk mm = Null"
  shows "do_server_request dk (limit m) mm cache c = Some Fault"
proof -
  let ?nm = "''./'' @ filename"
  from assms(1) request_init_get [of host filename c "[]"] obtain src where
    i: "request_init c = Some (Done (Some \<lparr>file_name = Some ?nm, file_buf = None, file_size = 0\<rparr>, c\<lparr>conn_in := src\<rparr>))"
    by (auto simp: gets_def)
  let ?d = "\<lparr>file_name = Some ?nm, file_buf = None, file_size = 0\<rparr>" and ?c = "c\<lparr>conn_in := src\<rparr>"
  have sv: "servable dk ?nm" "dk ?nm = Some f" using assms(1) by (simp_all add: gets_def)
  have l: "lookup_section cache ?d = Some (Done None)"
    using cache_lookup_contents [OF assms(3,4)] assms(5) by (simp add: lookup_section_def)
  have r: "request_readfile dk mm ?d ?c = Some (Done (True, ?d, ?c))"
    using sv assms(2) by (auto simp: request_readfile_def servable_def s32_id Let_def)
  have "cache_insert (slack mm) Null (limit m) cache ?d = None"
    using cache_insert_cases [OF assms(3) limit_simps(2), of ?d ?nm "slack mm"] assms(3-5)
    by (simp add: c_strdup_def cache_ok_def)
  then have n: "insert_section mm (limit m) cache ?d = Some Fault" using assms(6) by (simp add: insert_section_def)
  show ?thesis using i l r n limit_simps(1) [of m]
    by (simp add: do_server_request_def eval_nat_numeral worker_step_def not_less)
qed

theorem empty_file_is_fatal_witness:
  "do_server_request (\<lambda>_. Some (sample_file\<lparr>st_size := 0\<rparr>)) 0 sample_mem (cache_table_initialization (\<lambda>_. Null)) sample_conn = Some Fault"
proof -
  have "gets (\<lambda>_. Some (sample_file\<lparr>st_size := 0\<rparr>)) ''h'' ''a.txt'' (sample_file\<lparr>st_size := 0\<rparr>) sample_conn"
    using sample_gets by (auto simp: gets_def servable_def sample_file_def)
  moreover have "cache_ok (limit 0) (cache_table_initialization (\<lambda>_. Null))" by (rule cache_initial_ok) simp
  ultimately show ?thesis
    using empty_file_is_fatal [of "\<lambda>_. Some (sample_file\<lparr>st_size := 0\<rparr>)" "''h''" "''a.txt''" "sample_file\<lparr>st_size := 0\<rparr>"
        sample_conn 0 "cache_table_initialization (\<lambda>_. Null)" sample_mem] sample_hashable sample_mem_ok
    by (simp add: contents_initial)
qed

end
