(* ===== verification/Web_Whole.thy ===== *)
theory Web_Whole
  imports Web_Server Web_Site
begin

text \<open>
  The whole web server (\<open>main\<close> of \<open>src/webserver/server.c\<close> and \<open>server_thread.c\<close>): the monitor around
  the ring and the requests that the workers serve, as one machine. The loop of \<open>main\<close> accepts
  connections until it is told to exit; a worker that has taken a connection from the ring runs
  \<open>do_server_request\<close> for it and comes back to the ring when that has returned.
\<close>

section \<open>The machine\<close>

text \<open>The connections are numbered in the order in which they are accepted, and \<open>cs\<close> lists them: the
  number stands for the descriptor. A step is one of the monitor or one of a request that a worker
  is serving.\<close>

record web =
  monitor :: server
  web_site :: site

definition web_init :: "conn list \<Rightarrow> nat \<Rightarrow> int \<Rightarrow> web" where
  "web_init cs nr_threads max_req =
     \<lparr>monitor = server_init nr_threads max_req, web_site = site_start cs\<rparr>"

text \<open>What \<open>accept\<close> returns is the next connection.\<close>

definition accepts :: "conn list \<Rightarrow> server \<Rightarrow> server \<Rightarrow> bool" where
  "accepts cs s s' \<longleftrightarrow>
     (case (main s, main s') of
        (MIdle, MRequest fd) \<Rightarrow> length (accepted s) < length cs \<and> fd = int (length (accepted s))
      | _ \<Rightarrow> True)"

text \<open>A worker stops serving when its request is finished.\<close>

definition returns :: "site \<Rightarrow> server \<Rightarrow> server \<Rightarrow> bool" where
  "returns st s s' \<longleftrightarrow> (\<forall>i < length (workers s). \<forall>fd.
     workers s ! i = WServing fd \<longrightarrow> workers s' ! i \<noteq> WServing fd \<longrightarrow> fst (site_workers st ! nat fd) = Finished)"

inductive wstep :: "disk \<Rightarrow> int \<Rightarrow> mem set \<Rightarrow> conn list \<Rightarrow> web \<Rightarrow> web \<Rightarrow> bool" for dk max_cache_size mms cs where
  monitor_step: "sstep (monitor w) s' \<Longrightarrow> accepts cs (monitor w) s' \<Longrightarrow> returns (web_site w) (monitor w) s' \<Longrightarrow>
    wstep dk max_cache_size mms cs w (w\<lparr>monitor := s'\<rparr>)"
| request_step: "WServing (int i) \<in> set (workers (monitor w)) \<Longrightarrow> mm \<in> mms \<Longrightarrow>
    worker_step dk max_cache_size mm (site_cache (web_site w), site_workers (web_site w) ! i) = Some (Done (cache, p)) \<Longrightarrow>
    wstep dk max_cache_size mms cs w
      (w\<lparr>web_site := \<lparr>site_cache = cache, site_workers = (site_workers (web_site w))[i := p]\<rparr>\<rparr>)"

inductive wreach :: "disk \<Rightarrow> int \<Rightarrow> mem set \<Rightarrow> conn list \<Rightarrow> nat \<Rightarrow> int \<Rightarrow> web \<Rightarrow> bool" for dk max_cache_size mms cs n max_req where
  web_start: "wreach dk max_cache_size mms cs n max_req (web_init cs n max_req)"
| web_next: "wreach dk max_cache_size mms cs n max_req w \<Longrightarrow> wstep dk max_cache_size mms cs w w' \<Longrightarrow>
    wreach dk max_cache_size mms cs n max_req w'"

section \<open>The invariant\<close>

text \<open>Steps of the monitor, and the requests that are taken and served.\<close>

lemma serving_in_set:
  "i < length ws \<Longrightarrow> WServing fd \<in> set (ws[i := w]) \<Longrightarrow> w = WServing fd \<or> WServing fd \<in> set ws"
  using set_update_subset_insert [of ws i w] by auto

lemma broadcast_nth [simp]:
  "length (broadcast_cons ws) = length ws"
  "i < length ws \<Longrightarrow> broadcast_cons ws ! i = (if ws ! i = WWaiting then WReady else ws ! i)"
  "WServing fd \<in> set (broadcast_cons ws) \<longleftrightarrow> WServing fd \<in> set ws"
  by (auto simp: broadcast_cons_def split: if_splits)

lemma sstep_taken:
  assumes "sstep s s'"
  shows "taken s' = taken s \<or> (\<exists>fd. taken s' = taken s @ [fd] \<and> WServing fd \<in> set (workers s'))"
  using assms by cases (auto simp: set_update_memI)

lemma signal_cons_serving:
  assumes "signal_cons ws ws'"
  shows "length ws' = length ws" "WServing fd \<in> set ws' \<Longrightarrow> WServing fd \<in> set ws"
  using assms by (auto simp: signal_cons_def split: if_splits dest!: serving_in_set)

lemma sstep_serving:
  assumes "sstep s s'"
  shows "length (workers s') = length (workers s) \<and>
    (\<forall>fd. WServing fd \<in> set (workers s') \<longrightarrow> WServing fd \<in> set (workers s) \<or> fd \<in> set (taken s'))"
  using assms by cases (auto simp: signal_cons_serving dest!: serving_in_set)

lemma sstep_accepted:
  assumes "sstep s s'"
  shows "accepted s' = accepted s \<and> (\<forall>fd. main s' \<in> {MRequest fd, MBlocked fd} \<longrightarrow>
      main s \<in> {MRequest fd, MBlocked fd} \<or> main s = MIdle \<and> main s' = MRequest fd) \<or>
    (\<exists>fd. main s = MRequest fd \<and> accepted s' = accepted s @ [fd] \<and> main s' = MIdle)"
  using assms by cases (auto simp: signal_prod_def split: main_pc.splits)

text \<open>The requests accepted so far are the first ones, and the main thread holds the next one.\<close>

definition numbered :: "conn list \<Rightarrow> server \<Rightarrow> bool" where
  "numbered cs s \<longleftrightarrow> accepted s = map int [0..<length (accepted s)] \<and> length (accepted s) \<le> length cs \<and>
     (\<forall>fd. main s \<in> {MRequest fd, MBlocked fd} \<longrightarrow> length (accepted s) < length cs \<and> fd = int (length (accepted s)))"

lemma numbered_step:
  assumes "sstep s s'" "accepts cs s s'" "numbered cs s"
  shows "numbered cs s'"
  using sstep_accepted [OF assms(1)]
proof (elim disjE exE conjE)
  fix fd assume a: "main s = MRequest fd" "accepted s' = accepted s @ [fd]" "main s' = MIdle"
  then have "length (accepted s) < length cs" "fd = int (length (accepted s))" "accepted s = map int [0..<length (accepted s)]"
    using assms(3) by (auto simp: numbered_def)
  then have "accepted s' = map int [0..<Suc (length (accepted s))]" using a(2) by simp
  then show ?thesis using a \<open>length (accepted s) < length cs\<close> by (simp add: numbered_def)
next
  assume a: "accepted s' = accepted s" "\<forall>fd. main s' \<in> {MRequest fd, MBlocked fd} \<longrightarrow>
      main s \<in> {MRequest fd, MBlocked fd} \<or> main s = MIdle \<and> main s' = MRequest fd"
  have "length (accepted s) < length cs \<and> fd = int (length (accepted s))" if m: "main s' \<in> {MRequest fd, MBlocked fd}" for fd
    using a(2) m assms(2,3) by (auto simp: numbered_def accepts_def)
  with assms(3) a(1) show ?thesis by (simp add: numbered_def)
qed

text \<open>A request that was not taken is untouched; one that was taken is being served or finished.\<close>

definition settled :: "conn list \<Rightarrow> web \<Rightarrow> bool" where
  "settled cs w \<longleftrightarrow>
     (\<forall>fd. WServing fd \<in> set (workers (monitor w)) \<longrightarrow> fd \<in> set (taken (monitor w))) \<and>
     (\<forall>j < length cs. if int j \<in> set (taken (monitor w))
        then WServing (int j) \<in> set (workers (monitor w)) \<or> fst (site_workers (web_site w) ! j) = Finished
        else site_workers (web_site w) ! j = (Starting, cs ! j))"

lemma settled_monitor_step:
  assumes "settled cs w" "sstep (monitor w) s'" "returns (web_site w) (monitor w) s'"
  shows "settled cs (w\<lparr>monitor := s'\<rparr>)"
  unfolding settled_def
proof (intro conjI allI impI)
  let ?s = "monitor w"
  have t: "set (taken ?s) \<subseteq> set (taken s')" using sstep_taken [OF assms(2)] by auto
  show "fd \<in> set (taken (monitor (w\<lparr>monitor := s'\<rparr>)))" if "WServing fd \<in> set (workers (monitor (w\<lparr>monitor := s'\<rparr>)))" for fd
    using that sstep_serving [OF assms(2)] assms(1) t by (auto simp: settled_def)
  fix j assume j: "j < length cs"
  have serving: "WServing (int j) \<in> set (workers s') \<or> fst (site_workers (web_site w) ! j) = Finished"
    if "int j \<in> set (taken s')"
  proof (cases "int j \<in> set (taken ?s)")
    case False
    then show ?thesis using that sstep_taken [OF assms(2)] by auto
  next
    case True
    have "WServing (int j) \<in> set (workers s') \<or> fst (site_workers (web_site w) ! j) = Finished"
      if "WServing (int j) \<in> set (workers ?s)"
    proof -
      from that obtain i where i: "i < length (workers ?s)" "workers ?s ! i = WServing (int j)"
        by (auto simp: in_set_conv_nth)
      show ?thesis
      proof (cases "workers s' ! i = WServing (int j)")
        case True
        then show ?thesis using i(1) sstep_serving [OF assms(2)] by (auto simp: in_set_conv_nth)
      next
        case False
        then have "fst (site_workers (web_site w) ! nat (int j)) = Finished"
          using assms(3) i unfolding returns_def by blast
        then show ?thesis by simp
      qed
    qed
    then show ?thesis using assms(1) j True by (auto simp: settled_def)
  qed
  have "site_workers (web_site w) ! j = (Starting, cs ! j)" if "int j \<notin> set (taken s')"
    using that t j assms(1) unfolding settled_def by (metis subsetD)
  with serving show "if int j \<in> set (taken (monitor (w\<lparr>monitor := s'\<rparr>)))
      then WServing (int j) \<in> set (workers (monitor (w\<lparr>monitor := s'\<rparr>))) \<or>
        fst (site_workers (web_site (w\<lparr>monitor := s'\<rparr>)) ! j) = Finished
      else site_workers (web_site (w\<lparr>monitor := s'\<rparr>)) ! j = (Starting, cs ! j)" by simp
qed

lemma settled_request_step:
  assumes "settled cs w" "WServing (int i) \<in> set (workers (monitor w))"
  shows "settled cs (w\<lparr>web_site := \<lparr>site_cache = cache, site_workers = (site_workers (web_site w))[i := p]\<rparr>\<rparr>)"
  unfolding settled_def
proof (intro conjI allI impI)
  let ?ws = "site_workers (web_site w)"
  fix j assume j: "j < length cs"
  have "?ws[i := p] ! j = ?ws ! j \<or> WServing (int j) \<in> set (workers (monitor w)) \<and> int j \<in> set (taken (monitor w))"
    using assms by (cases "j = i") (auto simp: settled_def)
  with assms(1) j show "if int j \<in> set (taken (monitor (w\<lparr>web_site := \<lparr>site_cache = cache, site_workers = ?ws[i := p]\<rparr>\<rparr>)))
      then WServing (int j) \<in> set (workers (monitor (w\<lparr>web_site := \<lparr>site_cache = cache, site_workers = ?ws[i := p]\<rparr>\<rparr>))) \<or>
        fst (site_workers (web_site (w\<lparr>web_site := \<lparr>site_cache = cache, site_workers = ?ws[i := p]\<rparr>\<rparr>)) ! j) = Finished
      else site_workers (web_site (w\<lparr>web_site := \<lparr>site_cache = cache, site_workers = ?ws[i := p]\<rparr>\<rparr>)) ! j = (Starting, cs ! j)"
    by (auto simp: settled_def)
qed (use assms(1) in \<open>simp add: settled_def\<close>)

definition web_inv :: "disk \<Rightarrow> int \<Rightarrow> mem set \<Rightarrow> conn list \<Rightarrow> nat \<Rightarrow> int \<Rightarrow> web \<Rightarrow> bool" where
  "web_inv dk max_cache_size mms cs n max_req w \<longleftrightarrow>
     sreach n max_req (monitor w) \<and> serves dk max_cache_size mms (site_start cs) (web_site w) \<and>
     length (site_workers (web_site w)) = length cs \<and> numbered cs (monitor w) \<and> settled cs w"

lemma taken_bound:
  assumes "0 \<le> max_req" "sreach n max_req s" "numbered cs s" "int i \<in> set (taken s)"
  shows "i < length (accepted s) \<and> i < length cs"
proof -
  from sreach_inv [OF assms(1,2)] obtain xs where "queued_inv max_req s xs" unfolding server_inv_def ..
  then have "int i \<in> set (accepted s)" using queued_invD(2) assms(4) by fastforce
  then have "int i \<in> set (map int [0..<length (accepted s)])" using assms(3) unfolding numbered_def by metis
  then show ?thesis using assms(3) by (auto simp: numbered_def)
qed

lemma web_reach_inv:
  assumes "wreach dk m mms cs n max_req w" "0 \<le> max_req"
  shows "web_inv dk m mms cs n max_req w"
  using assms(1)
proof (induction rule: wreach.induct)
  case web_start
  have "numbered cs (server_init n max_req)" "settled cs (web_init cs n max_req)"
    by (auto simp: numbered_def settled_def web_init_def server_init_def site_init_def)
  moreover have "length (site_workers (site_start cs)) = length cs" by (simp add: site_init_def)
  ultimately show ?case using sreach.init serves_refl by (simp add: web_inv_def web_init_def)
next
  case (web_next w w')
  then have I: "sreach n max_req (monitor w)" "serves dk m mms (site_start cs) (web_site w)"
    "length (site_workers (web_site w)) = length cs" "numbered cs (monitor w)" "settled cs w"
    by (auto simp: web_inv_def)
  from web_next.hyps(2) show ?case
  proof cases
    case (monitor_step s')
    then show ?thesis using I sreach.next_step [OF I(1)] numbered_step settled_monitor_step
      by (simp add: web_inv_def)
  next
    case (request_step i mm cache p)
    have "int i \<in> set (taken (monitor w))" using I(5) request_step(2) by (auto simp: settled_def)
    then have "i < length cs" using taken_bound [OF assms(2) I(1,4)] by simp
    then show ?thesis using I request_step settled_request_step [OF I(5) request_step(2)] serves_step [OF I(2) _ request_step(3,4)]
      by (simp add: web_inv_def)
  qed
qed

section \<open>Requests make progress\<close>

text \<open>How many steps a request still takes at most.\<close>

fun steps_left :: "place \<Rightarrow> nat" where
  "steps_left Starting = 6"
| "steps_left (Looking d) = 5"
| "steps_left (Loading keep d) = 4"
| "steps_left (Inserting d) = 3"
| "steps_left (Sending d) = 2"
| "steps_left Closing = 1"
| "steps_left Finished = 0"

text \<open>What a client and the memory owe the server: \<open>name i\<close> is the file that the request on connection
  \<open>i\<close> asks for.\<close>

definition clients_ok :: "disk \<Rightarrow> mem set \<Rightarrow> conn list \<Rightarrow> (nat \<Rightarrow> char list) \<Rightarrow> (nat \<Rightarrow> char list) \<Rightarrow> (nat \<Rightarrow> node) \<Rightarrow> bool" where
  "clients_ok dk mms cs host name doc \<longleftrightarrow>
     (\<forall>nm f. dk nm = Some f \<longrightarrow> text_file f) \<and> mms \<noteq> {} \<and> (\<forall>mm \<in> mms. junk mm = Null \<and> NUL \<in> set (slack mm)) \<and>
     (\<forall>i < length cs. gets dk (host i) (name i) (doc i) (cs ! i) \<and>
        accepts_response (''./'' @ name i) (doc i) (cs ! i) \<and> hashable (''./'' @ name i))"

lemma insert_total:
  assumes "disk_cache.holds m (kept dk) cache" "carries dk nm d" "hashable nm" "junk mm = Null" "NUL \<in> set (slack mm)"
    "\<forall>nm f. dk nm = Some f \<longrightarrow> text_file f"
  shows "\<exists>cache'. insert_section mm (limit m) cache d = Some (Done cache') \<and> disk_cache.holds m (kept dk) cache'"
proof -
  from assms(2) obtain f rest where f: "file_name d = Some nm" "file_size d = int (st_size f)" "file_buf d = Some (file_bytes f @ rest)"
    unfolding carries_def by blast
  have sl: "c_strdup (slack mm) (file_buf d) \<noteq> None" using f(3) assms(5) by (simp add: c_strdup_def)
  have "disk_cache.fair (kept dk) (Put (slack mm) d)"
    using kept_stored [OF assms(2,6) sl] sl f assms(3) by (simp add: disk_cache.fair_def)
  from disk_cache.holds_put [OF assms(1) this] assms(4) show ?thesis by (auto simp: insert_section_def)
qed

lemma worker_step_cache:
  assumes "\<nexists>d. p = Inserting d" "worker_step dk m mm (cache, q) = Some (Done (cache', w))" "q = (p, c)"
  shows "cache' = cache"
  using assms by (cases p) (auto simp: worker_step_def)

lemma step_kept:
  assumes "worker_step dk (limit m) mm (cache, p, c) = Some (Done (cache', w))" "track dk mms (carries dk) c0 (p, c)"
    "disk_cache.holds m (kept dk) cache" "junk mm = Null" "NUL \<in> set (slack mm)"
    "\<forall>nm f. dk nm = Some f \<longrightarrow> text_file f"
  shows "disk_cache.holds m (kept dk) cache'"
proof (cases "\<exists>d. p = Inserting d")
  case True
  then obtain d where d: "p = Inserting d" ..
  with assms(2) obtain nm where "carries dk nm d" "hashable nm" by auto
  from insert_total [OF assms(3) this assms(4-6)] assms(1) d show ?thesis by (auto simp: worker_step_def)
next
  case False
  then have "cache' = cache" using worker_step_cache [OF _ assms(1)] by blast
  then show ?thesis using assms(3) by simp
qed

lemma serves_kept:
  assumes "serves dk (limit m) mms (site_start cs) s" "\<forall>mm \<in> mms. junk mm = Null \<and> NUL \<in> set (slack mm)"
    "\<forall>nm f. dk nm = Some f \<longrightarrow> text_file f"
  shows "disk_cache.holds m (kept dk) (site_cache s) \<and> site_inv dk m mms (carries dk) cs s"
proof -
  have j: "\<forall>mm \<in> mms. junk mm = Null" using assms(2) by blast
  from assms(1) show ?thesis
  proof (induction s rule: serves.induct)
    case serves_refl
    then show ?case using serves_inv [OF serves.serves_refl sendable_carries [OF assms(3)] j]
      by (simp add: site_init_def initial_holds)
  next
    case (serves_step t i mm cache w)
    have I: "site_inv dk m mms (carries dk) cs \<lparr>site_cache = cache, site_workers = (site_workers t)[i := w]\<rparr>"
      using serves_inv [OF serves.serves_step [OF serves_step.hyps] sendable_carries [OF assms(3)] j] .
    obtain p c where p: "site_workers t ! i = (p, c)" by (cases "site_workers t ! i")
    have "i < length cs" "site_inv dk m mms (carries dk) cs t"
      using serves_step.hyps(2) serves_step.IH by (auto simp: site_inv_def)
    then have "track dk mms (carries dk) (cs ! i) (p, c)" using p by (metis site_inv_def)
    then have "disk_cache.holds m (kept dk) cache"
      using step_kept [of dk m mm "site_cache t" p c cache w] serves_step.hyps(3,4) serves_step.IH p assms(2,3) by simp
    with I show ?case by simp
  qed
qed

text \<open>One lemma per place where something has to be shown.\<close>

lemma progress_Looking:
  assumes "disk_cache.holds m (kept dk) cache" "file_name d = Some nm" "hashable nm"
  shows "\<exists>p. worker_step dk (limit m) mm (cache, Looking d, c) = Some (Done (cache, p, c)) \<and> steps_left p < 5"
proof -
  obtain r where r: "cache_lookup cache nm = Some r" "\<forall>e. r = Some e \<longrightarrow> kept dk nm e"
    using disk_cache.holds_look [OF assms(1,3)] by blast
  show ?thesis
  proof (cases r)
    case None
    then show ?thesis using r assms(2) by (simp add: worker_step_def lookup_section_def)
  next
    case (Some e)
    then obtain b where "file_buf e = Some b" "NUL \<in> set b" using r(2) by (auto simp: kept_def)
    then show ?thesis using r Some assms(2) by (simp add: worker_step_def lookup_section_def c_strdup_def)
  qed
qed

lemma progress_Sending:
  assumes "carries dk nm d" "\<forall>nm f. dk nm = Some f \<longrightarrow> text_file f" "dk nm = Some f" "accepts_response nm f c"
  shows "\<exists>c'. worker_step dk m mm (cache, Sending d, c) = Some (Done (cache, Closing, c'))"
proof -
  from request_sendfile_carries [OF assms(1,2), of mm c] assms(3) have
    s: "request_sendfile mm d c = send_file nm (file_bytes f) c" by auto
  have "length (file_bytes f) = st_size f" using assms(2,3) length_file_bytes by blast
  then have "\<exists>c'. send_file nm (file_bytes f) c = Some (Done c')"
    using send_file_delivers [of nm "file_bytes f" c] assms(4) by (simp add: accepts_response_def)
  with s show ?thesis by (auto simp: worker_step_def)
qed

lemma request_progress:
  assumes "clients_ok dk mms cs host name doc" "i < length cs" "mm \<in> mms"
    "disk_cache.holds m (kept dk) cache" "track dk mms (carries dk) (cs ! i) (p, c)" "p \<noteq> Finished"
  shows "\<exists>cache' p' c'. worker_step dk (limit m) mm (cache, p, c) = Some (Done (cache', p', c')) \<and>
    steps_left p' < steps_left p"
proof -
  let ?nm = "''./'' @ name i"
  have A: "\<forall>nm f. dk nm = Some f \<longrightarrow> text_file f" "junk mm = Null" "NUL \<in> set (slack mm)"
    "gets dk (host i) (name i) (doc i) (cs ! i)" "accepts_response ?nm (doc i) (cs ! i)" "hashable ?nm"
    using assms(1-3) by (auto simp: clients_ok_def)
  have f: "servable dk ?nm" "dk ?nm = Some (doc i)" "text_file (doc i)" using A(1,4) by (auto simp: gets_def)
  obtain src d0 where o: "opened (cs ! i) ?nm d0 ((cs ! i)\<lparr>conn_in := src\<rparr>)" "file_size d0 = 0"
    using gets_opened [OF A(4)] by blast
  have opened: "nm = ?nm \<and> d = d0 \<and> c' = (cs ! i)\<lparr>conn_in := src\<rparr>" if "opened (cs ! i) nm d c'" for nm d c'
    using opened_unique [OF o(1) that] by simp
  have name: "file_name d0 = Some ?nm" using o(1) by (simp add: opened_def)
  have out: "accepts_response ?nm (doc i) ((cs ! i)\<lparr>conn_in := src\<rparr>)" using A(5) by (simp add: accepts_response_def)
  show ?thesis
  proof (cases p)
    case Starting
    then show ?thesis using assms(5) o limit_simps(1) [of m]
      by (simp add: worker_step_def opened_def not_less)
  next
    case (Looking d)
    then have "d = d0" using assms(5) opened by auto
    with progress_Looking [OF assms(4) name A(6), of mm c] Looking show ?thesis by auto
  next
    case (Loading keep d)
    then have "d = d0" using assms(5) opened by auto
    with request_readfile_text [OF f name, of mm c] Loading show ?thesis by (simp add: worker_step_def)
  next
    case (Inserting d)
    then obtain nm where "carries dk nm d" "hashable nm" using assms(5) by auto
    from insert_total [OF assms(4) this A(2,3,1)] Inserting show ?thesis by (auto simp: worker_step_def)
  next
    case (Sending d)
    then obtain nm d1 where "opened (cs ! i) nm d1 c" "carries dk nm d" using assms(5) by auto
    with opened [of nm d1 c] have "carries dk ?nm d" "accepts_response ?nm (doc i) c" using out by auto
    from progress_Sending [OF this(1) A(1) f(2) this(2), of "limit m" mm cache] Sending show ?thesis by auto
  qed (use assms(6) in \<open>simp_all add: worker_step_def\<close>)
qed

text \<open>So \<open>do_server_request\<close> returns, with fuel for the steps that are left.\<close>

lemma kept_holds: "disk_cache.holds m (kept dk) cache \<Longrightarrow> disk_cache.holds m (carries dk) cache"
  by (simp add: disk_cache.holds_def kept_def)

lemma worker_run_finishes:
  assumes "clients_ok dk mms cs host name doc" "i < length cs" "mm \<in> mms"
    "disk_cache.holds m (kept dk) cache" "track dk mms (carries dk) (cs ! i) (p, c)" "steps_left p \<le> n"
  shows "\<exists>cache' c'. worker_run n dk (limit m) mm (cache, p, c) = Some (Done (cache', Finished, c')) \<and>
    disk_cache.holds m (kept dk) cache' \<and> track dk mms (carries dk) (cs ! i) (Finished, c')"
  using assms(4-6)
proof (induction n arbitrary: cache p c)
  case 0
  then have "p = Finished" by (cases p) simp_all
  with 0 show ?case by simp
next
  case (Suc n)
  show ?case
  proof (cases "p = Finished")
    case True
    then show ?thesis using worker_run_Finished [of "Suc n" dk "limit m" mm cache c] Suc.prems by auto
  next
    case False
    have A: "\<forall>nm f. dk nm = Some f \<longrightarrow> text_file f" "junk mm = Null" "NUL \<in> set (slack mm)"
      using assms(1,3) by (auto simp: clients_ok_def)
    from request_progress [OF assms(1-3) Suc.prems(1,2) False] obtain cache1 p1 c1 where
      s: "worker_step dk (limit m) mm (cache, p, c) = Some (Done (cache1, p1, c1))" "steps_left p1 < steps_left p" by blast
    from step_track [OF s(1) Suc.prems(2) sendable_carries [OF A(1)] assms(3) A(2) kept_holds [OF Suc.prems(1)]]
    have t: "track dk mms (carries dk) (cs ! i) (p1, c1)" by simp
    from step_kept [OF s(1) Suc.prems(2,1) A(2,3,1)] have k: "disk_cache.holds m (kept dk) cache1" .
    from Suc.IH [OF k t] s Suc.prems(3) show ?thesis by auto
  qed
qed

lemma do_server_request_serves:
  assumes "clients_ok dk mms cs host name doc" "i < length cs" "mm \<in> mms" "disk_cache.holds m (kept dk) cache"
  shows "\<exists>cache' c. do_server_request dk (limit m) mm cache (cs ! i) = Some (Done (cache', c)) \<and>
    disk_cache.holds m (kept dk) cache' \<and>
    conn_sent c = response_header (request_get_file_type (''./'' @ name i)) (int (st_size (doc i))) (csum_of (file_bytes (doc i))) @
      file_bytes (doc i)"
proof -
  from worker_run_finishes [OF assms, of Starting "cs ! i" 6] obtain cache' c where
    r: "worker_run 6 dk (limit m) mm (cache, Starting, cs ! i) = Some (Done (cache', Finished, c))"
    "disk_cache.holds m (kept dk) cache'" "track dk mms (carries dk) (cs ! i) (Finished, c)" by auto
  have "\<forall>nm f. dk nm = Some f \<longrightarrow> text_file f" "gets dk (host i) (name i) (doc i) (cs ! i)"
    using assms(1,2) by (auto simp: clients_ok_def)
  from track_finished_sent [OF r(3) this] r(1,2) show ?thesis by (simp add: do_server_request_def)
qed

section \<open>The server makes progress\<close>

text \<open>What is left to do, in the order of importance: the phases of the main thread, the steps of the
  requests, the requests in the ring, and the workers that have not returned.\<close>

fun phase :: "main_pc \<Rightarrow> nat" where
  "phase (MBlocked fd) = 4"
| "phase (MRequest fd) = 3"
| "phase MIdle = 2"
| "phase MJoining = 1"
| "phase MDone = 0"

fun worker_weight :: "worker \<Rightarrow> nat" where
  "worker_weight (WServing fd) = 2"
| "worker_weight WReady = 1"
| "worker_weight WWaiting = 0"
| "worker_weight WExited = 0"

definition work_left :: "(web \<times> web) set" where
  "work_left = measures [\<lambda>w. phase (main (monitor w)),
     \<lambda>w. sum_list (map (steps_left \<circ> fst) (site_workers (web_site w))),
     \<lambda>w. length (accepted (monitor w)) - length (taken (monitor w)),
     \<lambda>w. sum_list (map worker_weight (workers (monitor w)))]"

lemma wf_work_left: "wf work_left"
  by (simp add: work_left_def)

lemma work_left_simps:
  "phase (main (monitor w')) < phase (main (monitor w)) \<Longrightarrow> (w', w) \<in> work_left"
  "main (monitor w') = main (monitor w) \<Longrightarrow>
     sum_list (map (steps_left \<circ> fst) (site_workers (web_site w'))) < sum_list (map (steps_left \<circ> fst) (site_workers (web_site w))) \<Longrightarrow>
     (w', w) \<in> work_left"
  "phase (main (monitor w')) \<le> phase (main (monitor w)) \<Longrightarrow> web_site w' = web_site w \<Longrightarrow>
     length (accepted (monitor w')) - length (taken (monitor w')) < length (accepted (monitor w)) - length (taken (monitor w)) \<Longrightarrow>
     (w', w) \<in> work_left"
  "main (monitor w') = main (monitor w) \<Longrightarrow> web_site w' = web_site w \<Longrightarrow> accepted (monitor w') = accepted (monitor w) \<Longrightarrow>
     taken (monitor w') = taken (monitor w) \<Longrightarrow>
     sum_list (map worker_weight (workers (monitor w'))) < sum_list (map worker_weight (workers (monitor w))) \<Longrightarrow>
     (w', w) \<in> work_left"
  by (auto simp: work_left_def)

lemma signal_prod_phase: "phase (signal_prod pc) \<le> phase pc"
  by (cases pc) (simp_all add: signal_prod_def)

lemma signal_prod_accepts: "main s' = signal_prod (main s) \<Longrightarrow> accepts cs s s'"
  by (auto simp: accepts_def signal_prod_def split: main_pc.splits)

lemma same_main_accepts: "main s' = main s \<Longrightarrow> accepts cs s s'"
  by (auto simp: accepts_def split: main_pc.splits)

lemma not_serving_returns:
  "\<forall>fd. WServing fd \<notin> set (workers s) \<Longrightarrow> returns st s s'"
  by (auto simp: returns_def in_set_conv_nth)

lemma signal_cons_exists: "\<exists>ws'. signal_cons ws ws'"
  by (auto simp: signal_cons_def in_set_conv_nth)

text \<open>A worker that is serving can go on.\<close>

lemma progress_serving:
  assumes "web_inv dk (limit m) mms cs n max_req w" "0 \<le> max_req" "clients_ok dk mms cs host name doc"
    "WServing fd \<in> set (workers (monitor w))"
  shows "\<exists>w'. wstep dk (limit m) mms cs w w' \<and> (w', w) \<in> work_left"
proof -
  let ?s = "monitor w" and ?st = "web_site w"
  have I: "sreach n max_req ?s" "serves dk (limit m) mms (site_start cs) ?st"
    "length (site_workers ?st) = length cs" "numbered cs ?s" "settled cs w"
    using assms(1) by (auto simp: web_inv_def)
  obtain mm where mm: "mm \<in> mms" using assms(3) by (auto simp: clients_ok_def)
  obtain xs where q: "queued_inv max_req ?s xs" using sreach_inv [OF assms(2) I(1)] unfolding server_inv_def ..
  have ft: "fd \<in> set (taken ?s)" using I(5) assms(4) by (auto simp: settled_def)
  then have "fd \<in> set (accepted ?s)" using queued_invD(2) [OF q] by simp
  then obtain j where fd: "fd = int j" using I(4) unfolding numbered_def by (metis imageE set_map)
  have j: "j < length cs" using taken_bound [OF assms(2) I(1,4)] ft fd by blast
  obtain p c where p: "site_workers ?st ! j = (p, c)" by (cases "site_workers ?st ! j")
  show ?thesis
  proof (cases "p = Finished")
    case False
    have K: "disk_cache.holds m (kept dk) (site_cache ?st)" "site_inv dk m mms (carries dk) cs ?st"
      using serves_kept [OF I(2)] assms(3) by (auto simp: clients_ok_def)
    then have "track dk mms (carries dk) (cs ! j) (p, c)" using j p by (metis site_inv_def)
    from request_progress [OF assms(3) j mm K(1) this False] obtain cache' p' c' where
      s: "worker_step dk (limit m) mm (site_cache ?st, p, c) = Some (Done (cache', p', c'))" "steps_left p' < steps_left p" by blast
    let ?w = "w\<lparr>web_site := \<lparr>site_cache = cache', site_workers = (site_workers ?st)[j := (p', c')]\<rparr>\<rparr>"
    have "wstep dk (limit m) mms cs w ?w" using assms(4) fd mm s(1) p by (intro wstep.request_step) auto
    moreover have "sum_list (map (steps_left \<circ> fst) ((site_workers ?st)[j := (p', c')])) <
        sum_list (map (steps_left \<circ> fst) (site_workers ?st))"
      using sum_list_update_less [of j "site_workers ?st" "steps_left \<circ> fst" "(p', c')"] p s(2) j I(3) by simp
    then have "(?w, w) \<in> work_left" by (intro work_left_simps(2)) simp_all
    ultimately show ?thesis by blast
  next
    case True
    from assms(4) obtain i where i: "i < length (workers ?s)" "workers ?s ! i = WServing fd" by (auto simp: in_set_conv_nth)
    let ?s' = "?s\<lparr>workers := (workers ?s)[i := WReady]\<rparr>"
    have "returns ?st ?s ?s'" using i p fd True by (auto simp: returns_def nth_list_update split: if_splits)
    moreover have "sstep ?s ?s'" using i by (rule sstep.served)
    moreover have "accepts cs ?s ?s'" by (rule same_main_accepts) simp
    ultimately have "wstep dk (limit m) mms cs w (w\<lparr>monitor := ?s'\<rparr>)" by (intro wstep.monitor_step)
    moreover have "(w\<lparr>monitor := ?s'\<rparr>, w) \<in> work_left"
      using sum_list_update_less [of i "workers ?s" worker_weight WReady] i by (intro work_left_simps(4)) simp_all
    ultimately show ?thesis by blast
  qed
qed

text \<open>When no worker is serving, either a request can be taken or the main thread can go on.\<close>

lemma progress_taking:
  assumes "0 \<le> max_req" "sreach n max_req (monitor w)" "\<forall>fd. WServing fd \<notin> set (workers (monitor w))"
    "0 < n" "\<not> ring_empty (ring_of (monitor w))"
  shows "\<exists>w'. wstep dk m mms cs w w' \<and> (w', w) \<in> work_left"
proof -
  let ?s = "monitor w"
  obtain xs where q: "queued_inv max_req ?s xs" using sreach_inv [OF assms(1,2)] unfolding server_inv_def ..
  note I = queued_invD [OF q]
  obtain i where i: "i < length (workers ?s)" "workers ?s ! i = WReady"
    using awake_worker [OF assms(1,2,4,5)] assms(3) by (metis nth_mem)
  obtain x ys where xs: "xs = x # ys" using rq.empty_iff [OF I(1)] assms(5) by (cases xs) auto
  from rq.take_ok [of "ring_of ?s" x ys] I(1) xs obtain r where r: "ring_take (ring_of ?s) = Some (x, r)" by auto
  let ?s' = "?s\<lparr>ring_of := r, workers := (workers ?s)[i := WServing x], main := signal_prod (main ?s), taken := taken ?s @ [x]\<rparr>"
  have "sstep ?s ?s'" using i assms(5) r by (rule sstep.take_one)
  moreover have "accepts cs ?s ?s'" by (rule signal_prod_accepts) simp
  ultimately have "wstep dk m mms cs w (w\<lparr>monitor := ?s'\<rparr>)"
    using not_serving_returns [OF assms(3)] by (intro wstep.monitor_step)
  moreover have "length (accepted ?s) = length (taken ?s) + length xs" using I(2) by simp
  then have "(w\<lparr>monitor := ?s'\<rparr>, w) \<in> work_left"
    using signal_prod_phase xs by (intro work_left_simps(3)) simp_all
  ultimately show ?thesis by blast
qed

lemma progress_main:
  assumes "0 < max_req" "sreach n max_req (monitor w)" "\<forall>fd. WServing fd \<notin> set (workers (monitor w))"
    "ring_empty (ring_of (monitor w))" "main (monitor w) \<noteq> MDone"
  shows "\<exists>w'. wstep dk m mms cs w w' \<and> (w', w) \<in> work_left"
proof -
  let ?s = "monitor w"
  have m: "0 \<le> max_req" using assms(1) by simp
  obtain xs where q: "queued_inv max_req ?s xs" using sreach_inv [OF m assms(2)] unfolding server_inv_def ..
  note I = queued_invD [OF q]
  have nf: "\<not> ring_full (ring_of ?s)" using rq.not_full_and_empty [OF I(1)] I(3) assms(1,4) by simp
  have step: "wstep dk m mms cs w (w\<lparr>monitor := s'\<rparr>)" if "sstep ?s s'" "accepts cs ?s s'" for s'
    using that not_serving_returns [OF assms(3)] by (intro wstep.monitor_step)
  show ?thesis
  proof (cases "main ?s")
    case MIdle
    let ?s' = "?s\<lparr>exiting := True, workers := broadcast_cons (workers ?s), main := MJoining\<rparr>"
    have "wstep dk m mms cs w (w\<lparr>monitor := ?s'\<rparr>)" using MIdle by (intro step sstep.exit) (simp_all add: accepts_def)
    moreover have "(w\<lparr>monitor := ?s'\<rparr>, w) \<in> work_left" using MIdle by (intro work_left_simps(1)) simp
    ultimately show ?thesis by blast
  next
    case (MRequest fd)
    from rq.put_ok [OF I(1) nf, of fd] obtain r where r: "ring_put fd (ring_of ?s) = Some r" by blast
    obtain ws where ws: "signal_cons (workers ?s) ws" using signal_cons_exists by blast
    let ?s' = "?s\<lparr>ring_of := r, workers := ws, main := MIdle, accepted := accepted ?s @ [fd]\<rparr>"
    have "accepts cs ?s ?s'" using MRequest by (simp add: accepts_def)
    with sstep.put [OF MRequest nf r ws] have "wstep dk m mms cs w (w\<lparr>monitor := ?s'\<rparr>)" by (rule step)
    moreover have "(w\<lparr>monitor := ?s'\<rparr>, w) \<in> work_left" using MRequest by (intro work_left_simps(1)) simp
    ultimately show ?thesis by blast
  next
    case (MBlocked fd)
    with blocked_full [OF m assms(2)] nf show ?thesis by blast
  next
    case MJoining
    then have ex: "exiting ?s" "WWaiting \<notin> set (workers ?s)" using I(6,7) by auto
    show ?thesis
    proof (cases "WReady \<in> set (workers ?s)")
      case True
      then obtain i where i: "i < length (workers ?s)" "workers ?s ! i = WReady" by (auto simp: in_set_conv_nth)
      let ?s' = "?s\<lparr>workers := (workers ?s)[i := WExited]\<rparr>"
      have "wstep dk m mms cs w (w\<lparr>monitor := ?s'\<rparr>)"
        using i assms(4) ex(1) by (intro step sstep.leave same_main_accepts) simp_all
      moreover have "(w\<lparr>monitor := ?s'\<rparr>, w) \<in> work_left"
        using sum_list_update_less [of i "workers ?s" worker_weight WExited] i by (intro work_left_simps(4)) simp_all
      ultimately show ?thesis by blast
    next
      case False
      have "x = WExited" if "x \<in> set (workers ?s)" for x using that ex(2) False assms(3) by (metis worker.exhaust)
      then have "set (workers ?s) \<subseteq> {WExited}" by blast
      then have "wstep dk m mms cs w (w\<lparr>monitor := ?s\<lparr>main := MDone\<rparr>\<rparr>)"
        using MJoining by (intro step sstep.joined) (simp_all add: accepts_def)
      moreover have "(w\<lparr>monitor := ?s\<lparr>main := MDone\<rparr>\<rparr>, w) \<in> work_left" using MJoining by (intro work_left_simps(1)) simp
      ultimately show ?thesis by blast
    qed
  qed (use assms(5) in simp)
qed

lemma web_progress:
  assumes "wreach dk (limit m) mms cs n max_req w" "0 < max_req" "0 < n" "clients_ok dk mms cs host name doc"
    "main (monitor w) \<noteq> MDone"
  shows "\<exists>w'. wstep dk (limit m) mms cs w w' \<and> (w', w) \<in> work_left"
proof -
  have m: "0 \<le> max_req" using assms(2) by simp
  have I: "web_inv dk (limit m) mms cs n max_req w" using assms(1) m by (rule web_reach_inv)
  then have s: "sreach n max_req (monitor w)" by (simp add: web_inv_def)
  show ?thesis
  proof (cases "\<exists>fd. WServing fd \<in> set (workers (monitor w))")
    case True
    then show ?thesis using progress_serving [OF I m assms(4)] by blast
  next
    case False
    then show ?thesis using progress_taking [OF m s _ assms(3)] progress_main [OF assms(2) s _ _ assms(5)] by blast
  qed
qed

lemma wstep_accepted: "wstep dk m mms cs w w' \<Longrightarrow> \<exists>ys. accepted (monitor w') = accepted (monitor w) @ ys"
  by (erule wstep.cases) (auto dest!: sstep_accepted)

lemma can_exit:
  assumes "wreach dk (limit m) mms cs n max_req w" "0 < max_req" "0 < n" "clients_ok dk mms cs host name doc"
  shows "\<exists>w' ys. (wstep dk (limit m) mms cs)\<^sup>*\<^sup>* w w' \<and> wreach dk (limit m) mms cs n max_req w' \<and>
    main (monitor w') = MDone \<and> accepted (monitor w') = accepted (monitor w) @ ys"
  using wf_work_left assms(1)
proof (induction w rule: wf_induct_rule)
  case (less w)
  show ?case
  proof (cases "main (monitor w) = MDone")
    case True
    with less show ?thesis by blast
  next
    case False
    from web_progress [OF less(2) assms(2-4) False] obtain w1 where
      s: "wstep dk (limit m) mms cs w w1" "(w1, w) \<in> work_left" by blast
    from less(1) [OF s(2) web_next [OF less(2) s(1)]] obtain w' ys where w': "(wstep dk (limit m) mms cs)\<^sup>*\<^sup>* w1 w'"
      "wreach dk (limit m) mms cs n max_req w'" "main (monitor w') = MDone" "accepted (monitor w') = accepted (monitor w1) @ ys"
      by blast
    moreover obtain zs where "accepted (monitor w1) = accepted (monitor w) @ zs" using wstep_accepted [OF s(1)] ..
    ultimately have "(wstep dk (limit m) mms cs)\<^sup>*\<^sup>* w w'" "accepted (monitor w') = accepted (monitor w) @ zs @ ys"
      using s(1) by (auto intro: converse_rtranclp_into_rtranclp)
    with w'(2,3) show ?thesis by blast
  qed
qed

lemma exited_finished:
  assumes "wreach dk (limit m) mms cs n max_req w" "0 \<le> max_req" "0 < n" "main (monitor w) = MDone"
    "i < length (accepted (monitor w))"
  shows "i < length cs \<and> fst (site_workers (web_site w) ! i) = Finished"
proof -
  have I: "sreach n max_req (monitor w)" "numbered cs (monitor w)" "settled cs w"
    using web_reach_inv [OF assms(1,2)] by (auto simp: web_inv_def)
  have "taken (monitor w) = accepted (monitor w)" "set (workers (monitor w)) = {WExited}"
    using drained [OF assms(2) I(1) assms(3,4)] by auto
  moreover have "int i \<in> set (accepted (monitor w))"
    using I(2) assms(5) unfolding numbered_def by (metis atLeastLessThan_upt imageI lessThan_atLeast0 lessThan_iff set_map)
  moreover have "i < length cs" using I(2) assms(5) by (simp add: numbered_def)
  ultimately show ?thesis using I(3) by (auto simp: settled_def)
qed

section \<open>An example\<close>

text \<open>Two clients, one worker; the first connection is in the ring.\<close>

definition two_conns :: "conn list" where "two_conns = [sample_conn, sample_conn]"

lemma two_clients_ok: "clients_ok sample_disk {sample_mem} two_conns (\<lambda>_. ''h'') (\<lambda>_. ''a.txt'') (\<lambda>_. sample_file)"
  using sample_text sample_mem_ok sample_gets sample_accepts sample_hashable
  by (auto simp: clients_ok_def two_conns_def less_Suc_eq)

definition web_queued :: web where
  "web_queued = \<lparr>monitor = (server_init 1 1)\<lparr>ring_of := \<lparr>conn_buf = [0, -1], request_head = 1, request_tail = 0, max_requests = 2\<rparr>,
     accepted := [0]\<rparr>, web_site = site_start two_conns\<rparr>"

lemma reach_web_queued: "wreach sample_disk (limit 100) {sample_mem} two_conns 1 1 web_queued"
proof -
  let ?reach = "wreach sample_disk (limit 100) {sample_mem} two_conns 1 1"
  let ?s0 = "server_init 1 1" let ?w0 = "web_init two_conns 1 1"
  let ?s1 = "?s0\<lparr>main := MRequest 0\<rparr>" let ?w1 = "?w0\<lparr>monitor := ?s1\<rparr>"
  have ns: "\<forall>fd. WServing fd \<notin> set (workers ?s0)" "\<forall>fd. WServing fd \<notin> set (workers ?s1)" by (auto simp: server_init_def)
  have "sstep ?s0 ?s1" by (rule sstep.request) (simp_all add: server_init_def)
  moreover have "accepts two_conns ?s0 ?s1" by (simp add: accepts_def server_init_def two_conns_def)
  moreover have "returns (site_start two_conns) ?s0 ?s1" using ns(1) by (rule not_serving_returns)
  ultimately have "wstep sample_disk (limit 100) {sample_mem} two_conns ?w0 ?w1"
    using wstep.monitor_step [of ?w0 ?s1] by (simp add: web_init_def)
  with web_start have r: "?reach ?w1" by (rule web_next)
  let ?r = "\<lparr>conn_buf = [0, -1], request_head = 1, request_tail = 0, max_requests = 2\<rparr> :: ring"
  let ?s2 = "?s1\<lparr>ring_of := ?r, workers := workers ?s1, main := MIdle, accepted := accepted ?s1 @ [0]\<rparr>"
  have "replicate (nat (1 + 1)) (-1 :: int) = [-1, -1]" by (simp add: eval_nat_numeral)
  then have "sstep ?s1 ?s2"
    by (intro sstep.put)
      (simp_all add: server_init_def ring_init_def ring_full_def ring_put_def in_buf_def c_mod_def signal_cons_def bind_c_assert Let_def)
  moreover have "accepts two_conns ?s1 ?s2" by (simp add: accepts_def)
  moreover have "returns (site_start two_conns) ?s1 ?s2" using ns(2) by (rule not_serving_returns)
  ultimately have "wstep sample_disk (limit 100) {sample_mem} two_conns ?w1 (?w1\<lparr>monitor := ?s2\<rparr>)"
    using wstep.monitor_step [of ?w1 ?s2] by (simp add: web_init_def)
  with r have "?reach (?w1\<lparr>monitor := ?s2\<rparr>)" by (rule web_next)
  then show ?thesis by (simp add: web_queued_def web_init_def server_init_def)
qed

section \<open>Properties\<close>

text \<open>C2: The whole server serves everyone it accepted, on good input (\<open>clients_ok\<close>: every file of the disk can be read, is not empty and has no NUL;
  every connection carries a request of \<open>client_send\<close> for a file that is served and whose name has a nonnegative hash, and takes the
  response; pointers that are never set are NULL, and a NUL follows the buffers in memory) and with at least one worker: when \<open>server_exit\<close> has returned,
  then in every interleaving of the main thread, the workers and their requests, each accepted connection whose file has
  lines shorter than MAXBUF - 2 has its complete response, which passes all assertions of its client's \<open>client_print\<close>.\<close>

theorem whole_server_serves:
  assumes "wreach dk (limit m) mms cs n max_req w" "0 \<le> max_req" "0 < n" "main (monitor w) = MDone"
    "clients_ok dk mms cs host name doc" "i < length (accepted (monitor w))"
    "short_lines (MAXBUF - 2) (MAXBUF - 2) (file_bytes (doc i))"
  shows "\<exists>c. site_workers (web_site w) ! i = (Finished, c) \<and>
    (\<forall>es. healthy es \<longrightarrow> bytes_of es = conn_sent c \<longrightarrow>
      client_print es (csum_of (file_bytes (doc i))) (int (st_size (doc i))) = Some (Done ()))"
proof -
  have i: "i < length cs" "fst (site_workers (web_site w) ! i) = Finished"
    using exited_finished [OF assms(1-4,6)] by auto
  then obtain c where c: "site_workers (web_site w) ! i = (Finished, c)" by (metis prod.collapse)
  have s: "serves dk (limit m) mms (site_start cs) (web_site w)"
    using web_reach_inv [OF assms(1,2)] by (simp add: web_inv_def)
  have "\<forall>mm \<in> mms. junk mm = Null" "\<forall>nm f. dk nm = Some f \<longrightarrow> text_file f" "gets dk (host i) (name i) (doc i) (cs ! i)"
    using assms(5) i(1) by (auto simp: clients_ok_def)
  with finished_satisfied [OF s _ _ i(1) c] assms(7) c show ?thesis by blast
qed

theorem whole_server_serves_witness:
  "\<exists>w c. wreach sample_disk (limit 100) {sample_mem} two_conns 1 1 w \<and> site_workers (web_site w) ! 0 = (Finished, c) \<and>
     client_print [Data (conn_sent c)] (csum_of (file_bytes sample_file)) 3 = Some (Done ())"
proof -
  from can_exit [OF reach_web_queued _ _ two_clients_ok] obtain w ys where
    w: "wreach sample_disk (limit 100) {sample_mem} two_conns 1 1 w" "main (monitor w) = MDone"
      "accepted (monitor w) = accepted (monitor web_queued) @ ys" by auto
  have l: "0 < length (accepted (monitor w))" using w(3) by (simp add: web_queued_def)
  have sl: "short_lines (MAXBUF - 2) (MAXBUF - 2) (file_bytes sample_file)"
    by (simp add: sample_bytes MAXBUF_def newline_def)
  from whole_server_serves [OF w(1) _ _ w(2) two_clients_ok l sl] obtain c where
    c: "site_workers (web_site w) ! 0 = (Finished, c)"
      "\<forall>es. healthy es \<longrightarrow> bytes_of es = conn_sent c \<longrightarrow>
         client_print es (csum_of (file_bytes sample_file)) (int (st_size sample_file)) = Some (Done ())" by auto
  have s: "serves sample_disk (limit 100) {sample_mem} (site_start two_conns) (web_site w)"
    using web_reach_inv [OF w(1)] by (simp add: web_inv_def)
  have "conn_sent c \<noteq> []"
    using finished_sent [OF s _ sample_text _ c(1), of "''h''" "''a.txt''" sample_file] sample_gets sample_bytes sample_mem_ok
    by (simp add: two_conns_def)
  then have "client_print [Data (conn_sent c)] (csum_of (file_bytes sample_file)) (int (st_size sample_file)) = Some (Done ())"
    using c(2) by simp
  then show ?thesis using w(1) c(1) by (auto simp: sample_file_def)
qed

text \<open>C5: The server can never get stuck, on good input (\<open>clients_ok\<close>) with a worker and room for a request: from every state it can
  reach, whatever the main thread, the workers and the requests have done so far, some continuation brings \<open>server_exit\<close> to its
  end with every accepted request finished. So there is no deadlock, and no fault or endless loop blocks the way.\<close>

theorem server_can_always_exit:
  assumes "wreach dk (limit m) mms cs n max_req w" "0 < max_req" "0 < n" "clients_ok dk mms cs host name doc"
  shows "\<exists>w' ys. (wstep dk (limit m) mms cs)\<^sup>*\<^sup>* w w' \<and> main (monitor w') = MDone \<and>
    accepted (monitor w') = accepted (monitor w) @ ys \<and>
    (\<forall>i < length (accepted (monitor w')). fst (site_workers (web_site w') ! i) = Finished)"
proof -
  from can_exit [OF assms] obtain w' ys where w: "(wstep dk (limit m) mms cs)\<^sup>*\<^sup>* w w'"
    "wreach dk (limit m) mms cs n max_req w'" "main (monitor w') = MDone" "accepted (monitor w') = accepted (monitor w) @ ys" by blast
  then show ?thesis using exited_finished [OF w(2) _ assms(3) w(3)] assms(2) by (intro exI [of _ w'] exI [of _ ys]) simp
qed

theorem server_can_always_exit_witness:
  "\<exists>w'. (wstep sample_disk (limit 100) {sample_mem} two_conns)\<^sup>*\<^sup>* web_queued w' \<and> main (monitor w') = MDone \<and>
    fst (site_workers (web_site w') ! 0) = Finished"
proof -
  from server_can_always_exit [OF reach_web_queued _ _ two_clients_ok] obtain w' ys where
    "(wstep sample_disk (limit 100) {sample_mem} two_conns)\<^sup>*\<^sup>* web_queued w'" "main (monitor w') = MDone"
    "accepted (monitor w') = accepted (monitor web_queued) @ ys"
    "\<forall>i < length (accepted (monitor w')). fst (site_workers (web_site w') ! i) = Finished" by auto
  then show ?thesis by (auto simp: web_queued_def)
qed

text \<open>C35: On good input (\<open>clients_ok\<close>) no request faults, hangs or takes more than six steps: in every interleaving of the workers,
  the next step of every request that is not finished returns and brings it strictly closer to its end.\<close>

theorem requests_never_fault:
  assumes "serves dk (limit m) mms (site_start cs) s" "clients_ok dk mms cs host name doc" "i < length cs" "mm \<in> mms"
    "site_workers s ! i = (p, c)" "p \<noteq> Finished"
  shows "\<exists>cache' p' c'. worker_step dk (limit m) mm (site_cache s, p, c) = Some (Done (cache', p', c')) \<and>
    steps_left p' < steps_left p \<and> steps_left p \<le> 6"
proof -
  have "disk_cache.holds m (kept dk) (site_cache s)" "site_inv dk m mms (carries dk) cs s"
    using serves_kept [OF assms(1)] assms(2) by (auto simp: clients_ok_def)
  moreover from this have "track dk mms (carries dk) (cs ! i) (p, c)" using assms(3,5) by (metis site_inv_def)
  moreover have "steps_left p \<le> 6" by (cases p) simp_all
  ultimately show ?thesis using request_progress [OF assms(2-4) _ _ assms(6)] by blast
qed

theorem requests_never_fault_witness:
  "\<exists>w'. worker_step sample_disk (limit 100) sample_mem (cache_table_initialization (\<lambda>_. Null), Starting, sample_conn) = Some (Done w')"
  using requests_never_fault [OF serves_refl two_clients_ok, of 0 sample_mem Starting sample_conn 100]
  by (auto simp: two_conns_def site_init_def)

end
