(* ===== verification/Web_Client.thy ===== *)
theory Web_Client
  imports C_Double Web_Fileset Web_Whole
begin

text \<open>
  The client's session (\<open>src/webserver/client.c\<close>): the command line, the random choice of a file with
  \<open>rand_int\<close> of \<open>common.c\<close>, and the loop of \<open>client_request\<close>, against the server's own code and the files
  and the index that \<open>fileset.c\<close> makes. The checks of the server's command line (\<open>server.c\<close>) are here too.
\<close>

section \<open>Command lines\<close>

text \<open>\<open>argv\<close> with the program's name. \<open>None\<close> is the call of \<open>usage\<close>, which exits.\<close>

definition server_args :: "char list list \<Rightarrow> (int \<times> int \<times> int \<times> int) option" where
  "server_args argv =
     (if length argv \<noteq> 5 then None
      else let port = atoi (argv ! 1); nr_threads = atoi (argv ! 2);
               max_requests = atoi (argv ! 3); max_cache_size = atoi (argv ! 4)
           in if port < 1024 then None
              else if nr_threads < 0 \<or> max_requests < 0 \<or> max_cache_size < 0 then None
              else Some (port, nr_threads, max_requests, max_cache_size))"

record client =
  cl_host :: "char list"
  cl_port :: int
  nr_times :: int
  cl_nr_threads :: int
  timing_mode :: bool

text \<open>With \<open>argc\<close> 7 and no \<open>-t\<close> the last argument is ignored; with \<open>argc\<close> 6 and \<open>-t\<close> the file name is
  \<open>argv[argc]\<close>, which is NULL: the second component is \<open>None\<close>.\<close>

definition client_args :: "char list list \<Rightarrow> (client \<times> char list option) option" where
  "client_args argv =
     (if length argv \<noteq> 6 \<and> length argv \<noteq> 7 then None
      else let t = (argv ! 1 = ''-t''); i = (if t then 2 else 1);
               cl = \<lparr>cl_host = argv ! i, cl_port = atoi (argv ! (i + 1)), nr_times = atoi (argv ! (i + 2)),
                     cl_nr_threads = atoi (argv ! (i + 3)), timing_mode = t\<rparr>;
               filename = (if i + 4 < length argv then Some (argv ! (i + 4)) else None)
           in if cl_port cl < 1024 \<or> nr_times cl \<le> 0 \<or> cl_nr_threads cl \<le> 0 then None
              else Some (cl, filename))"

section \<open>rand\_int\<close>

text \<open>\<open>rnd\<close> is the rounding of \<open>double\<close> arithmetic (the theory \<open>C_Double\<close>), and \<open>r\<close> the value that \<open>random\<close> returns. A failed
  assertion is \<open>None\<close>.\<close>

definition RAND_MAX :: int where "RAND_MAX = 2147483647"

text \<open>The macro \<open>RAND\<close> for a value of \<open>random\<close>.\<close>

definition RAND :: "(rat \<Rightarrow> rat) \<Rightarrow> int \<Rightarrow> rat" where
  "RAND rnd r = rnd (of_int r / of_int RAND_MAX)"

definition rand_int :: "(rat \<Rightarrow> rat) \<Rightarrow> int \<Rightarrow> int \<Rightarrow> int option" where
  "rand_int rnd random high =
     (let r = RAND rnd random; ret = \<lceil>rnd (of_int high * r)\<rceil>
      in if 1 \<le> ret \<and> ret \<le> high then Some ret else None)"

lemma rounds_mono: "rounds rnd \<Longrightarrow> x \<le> y \<Longrightarrow> rnd x \<le> rnd y"
  by (simp add: rounds_def)

lemma rounds_01: "rounds rnd \<Longrightarrow> rnd 0 = 0" "rounds rnd \<Longrightarrow> rnd 1 = 1"
  using rounds_int [of rnd 0] rounds_int [of rnd 1] by simp_all

lemma RAND_range:
  assumes "rounds rnd" "0 \<le> r" "r \<le> RAND_MAX"
  shows "r = 0 \<Longrightarrow> RAND rnd r = 0" "r \<noteq> 0 \<Longrightarrow> 1 / 2 ^ 31 \<le> RAND rnd r" "RAND rnd r \<le> 1"
proof -
  show "r = 0 \<Longrightarrow> RAND rnd r = 0" using rounds_01 [OF assms(1)] by (simp add: RAND_def)
  let ?x = "of_int r / of_int RAND_MAX :: rat"
  have "?x \<le> 1" using assms(2,3) by (simp add: RAND_MAX_def divide_le_eq)
  from rounds_mono [OF assms(1) this] show "RAND rnd r \<le> 1" using rounds_01 [OF assms(1)] by (simp add: RAND_def)
  assume "r \<noteq> 0"
  then have "1 / 2 ^ 31 \<le> ?x" using assms(2,3) by (simp add: RAND_MAX_def le_divide_eq)
  from rounds_mono [OF assms(1) this] show "1 / 2 ^ 31 \<le> RAND rnd r"
    using rounds_exactly [OF assms(1), of 1 31] by (simp add: RAND_def)
qed

text \<open>The uniform choice: scaling a double between \<open>1 / 2 ^ 1074\<close> and 1 and rounding it up.\<close>

lemma scaled_in_range:
  assumes "rounds rnd" "1 / 2 ^ 1074 \<le> x" "x \<le> 1" "1 \<le> high" "high < 2 ^ 31"
  shows "1 \<le> \<lceil>rnd (of_int high * x)\<rceil> \<and> \<lceil>rnd (of_int high * x)\<rceil> \<le> high"
proof -
  define tiny :: rat where "tiny = 1 / 2 ^ 1074"
  have "rnd (of_int 1 / 2 ^ 1074) = of_int 1 / 2 ^ 1074" by (intro rounds_exactly [OF assms(1)]) simp_all
  then have tiny: "rnd tiny = tiny" "0 < tiny" "tiny \<le> x" using assms(2) by (simp_all only: tiny_def of_int_1) simp
  have h: "1 \<le> (of_int high :: rat)" using assms(4) by simp
  have "1 * x \<le> of_int high * x" using h tiny by (intro mult_right_mono) simp_all
  then have z: "tiny \<le> of_int high * x" using tiny(3) by linarith
  have z': "of_int high * x \<le> of_int high" using assms(3) h by (simp add: mult_left_le)
  have "rnd (of_int high) = of_int high" using assms(4,5) by (intro rounds_int [OF assms(1)]) simp
  then have "0 < rnd (of_int high * x)" "rnd (of_int high * x) \<le> of_int high"
    using rounds_mono [OF assms(1) z] rounds_mono [OF assms(1) z'] tiny by linarith+
  then show ?thesis by (simp add: ceiling_le_iff)
qed

lemma rand_int_in_range:
  assumes "rounds rnd" "0 \<le> r" "r \<le> RAND_MAX" "1 \<le> high" "high < 2 ^ 31"
  shows "if r = 0 then rand_int rnd r high = None else \<exists>k. rand_int rnd r high = Some k \<and> 1 \<le> k \<and> k \<le> high"
proof (cases "r = 0")
  case True
  then show ?thesis using RAND_range(1) [OF assms(1-3)] rounds_01 [OF assms(1)] by (simp add: rand_int_def)
next
  case False
  have "1 / 2 ^ 1074 \<le> (1 / 2 ^ 31 :: rat)" by (intro divide_left_mono power_increasing) simp_all
  then have "1 / 2 ^ 1074 \<le> RAND rnd r" using RAND_range(2) [OF assms(1-3) False] by linarith
  from scaled_in_range [OF assms(1) this RAND_range(3) [OF assms(1-3)] assms(4,5)] False
  show ?thesis by (simp add: rand_int_def Let_def)
qed

section \<open>client\_request\<close>

text \<open>One iteration of the loop. \<open>server\<close> is the other end of the connection: from its state and the bytes sent to
  it, its new state and what arrives at the client. \<open>room\<close> is what the socket answers to \<open>write\<close>. A field of \<open>fi\<close>
  that was never stored counts as a fault.\<close>

definition client_connect ::
  "('s \<Rightarrow> char list \<Rightarrow> ('s \<times> read_event list) outcome option) \<Rightarrow> write_event list \<Rightarrow> char list \<Rightarrow> fileinfo \<Rightarrow> 's \<Rightarrow> 's outcome option"
where
  "client_connect server room host fi s =
     andthen (demand (fi_name fi)) (\<lambda>nm. andthen (demand (fi_csum fi)) (\<lambda>csum. andthen (demand (fi_len fi)) (\<lambda>len.
     andthen (client_send host nm \<lparr>conn_in = [], conn_out = room, conn_sent = [], conn_open = True\<rparr>) (\<lambda>c.
     andthen (server s (conn_sent c)) (\<lambda>(s, es).
     andthen (client_print es csum len) (\<lambda>_. Some (Done s)))))))"

text \<open>The loop, with the value of \<open>random\<close> for each iteration.\<close>

fun client_request ::
  "(rat \<Rightarrow> rat) \<Rightarrow> ('s \<Rightarrow> char list \<Rightarrow> ('s \<times> read_event list) outcome option) \<Rightarrow> write_event list \<Rightarrow> char list \<Rightarrow>
   fileinfo list \<Rightarrow> int list \<Rightarrow> 's \<Rightarrow> 's outcome option"
where
  "client_request rnd server room host fileset [] s = Some (Done s)"
| "client_request rnd server room host fileset (r # rs) s =
     andthen (demand (rand_int rnd r (int (length fileset)))) (\<lambda>fnr.
     andthen (client_connect server room host (fileset ! nat (fnr - 1)) s)
       (client_request rnd server room host fileset rs))"

text \<open>The server without worker threads, on a network that splits the bytes in any way \<open>chunks\<close>.\<close>

definition web_server ::
  "disk \<Rightarrow> int \<Rightarrow> mem \<Rightarrow> (char list \<Rightarrow> read_event list) \<Rightarrow> write_event list \<Rightarrow> cache_table \<Rightarrow> char list \<Rightarrow>
   (cache_table \<times> read_event list) outcome option"
where
  "web_server dk max_cache_size mm chunks room cache bs =
     andthen (do_server_request dk max_cache_size mm cache \<lparr>conn_in = chunks bs, conn_out = room, conn_sent = [], conn_open = True\<rparr>)
       (\<lambda>(cache, c). Some (Done (cache, chunks (conn_sent c))))"

section \<open>A session\<close>

definition faithful :: "(char list \<Rightarrow> read_event list) \<Rightarrow> bool" where
  "faithful chunks \<longleftrightarrow> (\<forall>bs. healthy (chunks bs) \<and> bytes_of (chunks bs) = bs)"

text \<open>The disk of the server has the files of the file set, each small enough for the client, and both ends
  take what is written for them.\<close>

definition served_file :: "disk \<Rightarrow> write_event list \<Rightarrow> char list \<Rightarrow> char list \<Rightarrow> char list \<Rightarrow> bool" where
  "served_file dk room host path bs \<longleftrightarrow> length bs < MAXBUF \<and> sendable_request host path \<and>
     servable dk (''./'' @ path) \<and> hashable (''./'' @ path) \<and> (\<exists>f. dk (''./'' @ path) = Some f \<and> file_bytes f = bs) \<and>
     writable (length (client_request_text host path) +
       length (response_header (request_get_file_type (''./'' @ path)) (int (length bs)) (csum_of bs)) + length bs) room"

definition serves_files :: "disk \<Rightarrow> mem \<Rightarrow> write_event list \<Rightarrow> char list \<Rightarrow> (char list \<times> char list) list \<Rightarrow> bool" where
  "serves_files dk mm room host written \<longleftrightarrow>
     (\<forall>nm f. dk nm = Some f \<longrightarrow> text_file f) \<and> junk mm = Null \<and> NUL \<in> set (slack mm) \<and>
     (\<forall>f \<in> set written. served_file dk room host (fst f) (snd f))"

lemma writable_less: "writable m es \<Longrightarrow> k \<le> m \<Longrightarrow> writable k es"
  by (simp add: writable_def)

text \<open>One exchange in its three parts: the request is sent, the server answers, the response passes every check.\<close>

lemma served_exchange:
  assumes "serves_files dk mm room host written" "faithful chunks" "(path, bs) \<in> set written"
    "fileset_main file_sz nr_files dir rand = Some (written, index)" "word dir" "\<forall>k. length (rand k) < 2 ^ 31"
  shows "\<exists>c. client_send host path \<lparr>conn_in = [], conn_out = room, conn_sent = [], conn_open = True\<rparr> = Some (Done c) \<and>
      conn_sent c = client_request_text host path"
    "disk_cache.holds m (kept dk) cache \<Longrightarrow> \<exists>cache' es. disk_cache.holds m (kept dk) cache' \<and>
      web_server dk (limit m) mm chunks room cache (client_request_text host path) = Some (Done (cache', es)) \<and>
      client_print es (csum_of bs) (int (length bs)) = Some (Done ())"
proof -
  let ?nm = "''./'' @ path" let ?t = "client_request_text host path"
  let ?h = "response_header (request_get_file_type ?nm) (int (length bs)) (csum_of bs)"
  have d: "\<forall>nm f. dk nm = Some f \<longrightarrow> text_file f" "junk mm = Null" "NUL \<in> set (slack mm)"
    and "served_file dk room host path bs" using assms(1,3) by (auto simp: serves_files_def)
  then obtain f where f: "length bs < MAXBUF" "sendable_request host path" "servable dk ?nm" "hashable ?nm"
    "dk ?nm = Some f" "file_bytes f = bs" "writable (length ?t + length ?h + length bs) room"
    unfolding served_file_def by blast
  have len: "st_size f = length bs" using length_file_bytes d(1) f(5,6) by metis
  let ?cl = "\<lparr>conn_in = [], conn_out = room, conn_sent = [], conn_open = True\<rparr>"
  let ?c0 = "\<lparr>conn_in = chunks ?t, conn_out = room, conn_sent = [], conn_open = True\<rparr>"
  have chunks: "healthy (chunks bs')" "bytes_of (chunks bs') = bs'" for bs' using assms(2) by (simp_all add: faithful_def)
  have w: "writable (length ?t + 0) (conn_out ?cl)" using writable_less [OF f(7)] by simp
  have "length ?t < MAXLINE" using f(2) by (simp add: sendable_request_def)
  with Rio_write_delivers [OF w] show "\<exists>c. client_send host path ?cl = Some (Done c) \<and> conn_sent c = ?t"
    by (auto simp: client_send_def)
  assume holds: "disk_cache.holds m (kept dk) cache"
  have g: "gets dk host path f ?c0" using f(2,3,5) chunks by (simp add: gets_def)
  have "accepts_response ?nm f ?c0" using writable_less [OF f(7)] f(6) len by (simp add: accepts_response_def)
  with g d f(4) have ok: "clients_ok dk {mm} [?c0] (\<lambda>_. host) (\<lambda>_. path) (\<lambda>_. f)" by (simp add: clients_ok_def)
  from do_server_request_serves [OF ok, of 0 mm m cache] holds obtain cache' c where
    s: "do_server_request dk (limit m) mm cache ?c0 = Some (Done (cache', c))" "disk_cache.holds m (kept dk) cache'"
    "conn_sent c = ?h @ bs" using f(6) len by auto
  have "client_print (chunks (?h @ bs)) (csum_of bs) (int (length bs)) = Some (Done ())"
    using fileset_file_response [OF assms(4-6,3) chunks] f(1) by simp
  then show "\<exists>cache' es. disk_cache.holds m (kept dk) cache' \<and>
      web_server dk (limit m) mm chunks room cache ?t = Some (Done (cache', es)) \<and>
      client_print es (csum_of bs) (int (length bs)) = Some (Done ())"
    using s by (intro exI [of _ cache'] exI [of _ "chunks (?h @ bs)"]) (simp add: web_server_def)
qed

lemma client_connect_serves:
  assumes "serves_files dk mm room host written" "faithful chunks" "(path, bs) \<in> set written"
    "disk_cache.holds m (kept dk) cache" "fileset_main file_sz nr_files dir rand = Some (written, index)" "word dir"
    "\<forall>k. length (rand k) < 2 ^ 31"
  shows "\<exists>cache'. client_connect (web_server dk (limit m) mm chunks room) room host (info_of (path, bs)) cache = Some (Done cache') \<and>
    disk_cache.holds m (kept dk) cache'"
  using served_exchange(1) [OF assms(1-3,5-7)] served_exchange(2) [OF assms(1-3,5-7,4)]
  by (fastforce simp: client_connect_def info_of_def)

lemma client_request_serves:
  assumes "serves_files dk mm room host written" "faithful chunks" "rounds rnd" "written \<noteq> []" "length written < 2 ^ 31"
    "fileset_main file_sz nr_files dir rand = Some (written, index)" "word dir" "\<forall>k. length (rand k) < 2 ^ 31"
    "\<forall>r \<in> set rs. 0 < r \<and> r \<le> RAND_MAX" "disk_cache.holds m (kept dk) cache"
  shows "\<exists>cache'. client_request rnd (web_server dk (limit m) mm chunks room) room host (map info_of written) rs cache = Some (Done cache')"
  using assms(9,10)
proof (induction rs arbitrary: cache)
  case (Cons r rs)
  have "1 \<le> int (length written)" using assms(4) by (cases written) auto
  with rand_int_in_range [OF assms(3), of r "int (length written)"] Cons.prems(1) assms(5) obtain k where
    k: "rand_int rnd r (int (length written)) = Some k" "1 \<le> k" "k \<le> int (length written)" by (auto split: if_splits)
  then have i: "nat (k - 1) < length written" by linarith
  obtain path bs where f: "written ! nat (k - 1) = (path, bs)" by (cases "written ! nat (k - 1)")
  then have "(path, bs) \<in> set written" using i by (metis nth_mem)
  from client_connect_serves [OF assms(1,2) this Cons.prems(2) assms(6-8)] obtain cache' where
    c: "client_connect (web_server dk (limit m) mm chunks room) room host (info_of (path, bs)) cache = Some (Done cache')"
    "disk_cache.holds m (kept dk) cache'" by blast
  from Cons.IH [OF _ c(2)] Cons.prems(1) c(1) k(1) i f show ?case by simp
qed simp

section \<open>An example\<close>

text \<open>A file set of two files of 5000 blanks, and a server that has them.\<close>

definition small_bytes :: "char list" where "small_bytes = replicate 5000 (make_byte 0)"

definition small_files :: "(char list \<times> char list) list" where
  "small_files = [(file_path ''e'' 0, small_bytes), (file_path ''e'' 1, small_bytes)]"

definition small_node :: node where
  "small_node = \<lparr>is_regular = True, owner_reads = True, st_size = 5000, opens = True, reads = [Data small_bytes]\<rparr>"

definition small_disk :: disk where
  "small_disk nm = (if nm \<in> {''./e/00000'', ''./e/00001''} then Some small_node else None)"

definition small_room :: "write_event list" where
  "small_room = concat (map (\<lambda>(path, bs). replicate (length (client_request_text ''h'' path) +
       length (response_header (request_get_file_type (''./'' @ path)) (int (length bs)) (csum_of bs)) + length bs) (Wrote 1)) small_files)"

lemma small_paths: "file_path ''e'' 0 = ''e/00000''" "file_path ''e'' 1 = ''e/00001''"
  by code_simp+

lemma small_length: "length small_bytes = 5000"
  by (simp add: small_bytes_def)

lemma small_fileset:
  "fileset_main 2 1 ''e'' (\<lambda>_. replicate 5000 0) = Some (small_files, print_d 2 @ [newline] @ index_text small_files)"
proof -
  let ?rnd = "\<lambda>_::nat. replicate 5000 (0::nat)"
  let ?e0 = "index_entry (file_path ''e'' 0) small_bytes" and ?e1 = "index_entry (file_path ''e'' 1) small_bytes"
  have s: "s32 (s32 (2 * 4096) * 1) = 8192" "s32 (int (length small_bytes)) = 5000" "s32 (5000 + int (length small_bytes)) = 10000"
    by (simp_all add: s32_id small_length)
  have e: "length ?e0 \<le> 30" "length ?e1 \<le> 30"
    using length_index_entry [of small_bytes "file_path ''e'' 0"] length_index_entry [of small_bytes "file_path ''e'' 1"]
    by (simp_all add: small_length small_paths [unfolded One_nat_def])
  have "fileset_loop ''e'' ?rnd 8192 2 10000 (?e0 @ ?e1) small_files = Some (2, ?e0 @ ?e1, small_files)"
    by (subst fileset_loop.simps) simp
  then have "fileset_loop ''e'' ?rnd 8192 1 5000 ?e0 [(file_path ''e'' 0, small_bytes)] = Some (2, ?e0 @ ?e1, small_files)"
    using e s(3) by (subst fileset_loop.simps) (simp add: Let_def small_bytes_def [symmetric] small_files_def numeral_2_eq_2)
  then have "fileset_loop ''e'' ?rnd 8192 0 0 [] [] = Some (2, ?e0 @ ?e1, small_files)"
    using e s(2) by (subst fileset_loop.simps) (simp add: Let_def small_bytes_def [symmetric])
  then show ?thesis using s(1) by (simp add: fileset_main_def small_files_def)
qed

lemma small_serves: "serves_files small_disk sample_mem small_room ''h'' small_files"
  unfolding serves_files_def
proof (intro conjI allI impI ballI)
  have ch: "make_byte 0 \<noteq> NUL" by (rule make_byte_plain)
  fix nm f assume "small_disk nm = Some f"
  then show "text_file f"
    using ch by (auto simp: small_disk_def small_node_def text_file_def small_bytes_def split: if_splits)
next
  fix f assume f: "f \<in> set small_files"
  have b: "file_bytes small_node = small_bytes" by (simp add: file_bytes_def small_node_def small_length)
  have w: "writable (length (client_request_text ''h'' (fst f)) +
      length (response_header (request_get_file_type (''./'' @ fst f)) (int (length (snd f))) (csum_of (snd f))) + length (snd f)) small_room"
    using f by (auto simp: writable_def small_room_def small_files_def)
  have p: "fst f = ''e/00000'' \<or> fst f = ''e/00001''" "snd f = small_bytes"
    using f small_paths by (auto simp: small_files_def)
  have h: "hashable ''./e/00000''" "hashable ''./e/00001''" by code_simp+
  have "sendable_request ''h'' (fst f)"
    using p(1) by (auto simp: sendable_request_def word_def isspace_def NUL_def newline_def client_request_text_def crlf_def MAXLINE_def)
  moreover have "servable small_disk (''./'' @ fst f)"
    using p(1) by (auto simp: servable_def small_disk_def small_node_def)
  moreover have "hashable (''./'' @ fst f)" using p(1) h by auto
  moreover have "small_disk (''./'' @ fst f) = Some small_node" using p(1) by (auto simp: small_disk_def)
  ultimately show "served_file small_disk small_room ''h'' (fst f) (snd f)"
    using w p(2) b by (auto simp: served_file_def small_length MAXBUF_def)
qed (simp_all add: sample_mem_ok)

section \<open>Properties\<close>

text \<open>\<open>rand_int\<close> stays between 1 and its argument, for every rounding of the floating-point
  operations that is monotone and exact on doubles, except that \<open>random\<close> may return 0, and then
  its assertion fails.\<close>

theorem rand_int_range:
  assumes "rounds rnd" "0 \<le> r" "r \<le> RAND_MAX" "1 \<le> high" "high < 2 ^ 31"
  shows "if r = 0 then rand_int rnd r high = None else \<exists>k. rand_int rnd r high = Some k \<and> 1 \<le> k \<and> k \<le> high"
  using assms by (rule rand_int_in_range)

theorem rand_int_range_witness:
  "rand_int (\<lambda>x. x) 0 5 = None \<and> (\<exists>k. rand_int (\<lambda>x. x) RAND_MAX 5 = Some k \<and> 1 \<le> k \<and> k \<le> 5)"
  using rand_int_range [OF rounds_exact, of 0 5] rand_int_range [OF rounds_exact, of RAND_MAX 5]
  by (simp add: RAND_MAX_def)

text \<open>A whole session: \<open>fileset.c\<close> makes files and an index, the client reads the index and asks \<open>n\<close> times
  for a random file, and the server answers from the disk or from its cache, on a network that splits
  the bytes in any way. No assertion of the client fails, and the server has no fault, when the
  files fit the client's buffer and \<open>random\<close> does not return 0.\<close>

theorem session_succeeds:
  assumes "fileset_main file_sz nr_files dir rand = Some (written, index)" "word dir" "\<forall>k. length (rand k) < 2 ^ 31"
    "written \<noteq> []" "healthy es" "bytes_of es = index" "serves_files dk mm room host written" "faithful chunks" "rounds rnd"
    "\<forall>r \<in> set rs. 0 < r \<and> r \<le> RAND_MAX"
  shows "\<exists>cache. andthen (init_fileset es) (\<lambda>fileset. client_request rnd (web_server dk (limit m) mm chunks room) room host fileset rs
    (cache_table_initialization (\<lambda>_. Null))) = Some (Done cache)"
proof -
  have F: "index = print_d (int (length written)) @ [newline] @ index_text written" "length written < 2 ^ 31"
    "\<forall>f \<in> set written. indexed f" using fileset_main_indexed [OF assms(1-3)] by auto
  have "init_fileset es = Some (Done (map info_of written))"
    by (rule init_fileset_reads) (use F assms(4-6) in auto)
  with client_request_serves [OF assms(7-9,4) F(2) assms(1-3,10) initial_holds] show ?thesis by simp
qed

theorem session_succeeds_witness:
  "\<exists>cache. andthen (init_fileset [Data (print_d 2 @ [newline] @ index_text small_files)])
    (\<lambda>fileset. client_request (\<lambda>x. x) (web_server small_disk (limit 100) sample_mem (\<lambda>bs. if bs = [] then [] else [Data bs]) small_room)
      small_room ''h'' fileset [1, RAND_MAX, 1] (cache_table_initialization (\<lambda>_. Null))) = Some (Done cache)"
proof -
  have w: "word ''e''" by (simp add: word_def isspace_def NUL_def)
  have f: "faithful (\<lambda>bs. if bs = [] then [] else [Data bs])" by (simp add: faithful_def)
  have "small_files \<noteq> []" by (simp add: small_files_def)
  from session_succeeds [OF small_fileset w _ this _ _ small_serves f rounds_exact,
      of "[Data (print_d 2 @ [newline] @ index_text small_files)]" "[1, RAND_MAX, 1]" 100]
  show ?thesis by (simp add: RAND_MAX_def)
qed

end
