(* ===== verification/Web_Random.thy ===== *)
theory Web_Random
  imports Web_Client
begin

text \<open>
  The random distributions of \<open>src/webserver/common.c\<close> and the whole \<open>main\<close> of
  \<open>src/webserver/fileset.c\<close>: its options, the clearing of the directory and the sizes of the files, which follow
  a Pareto distribution. The values of \<open>random\<close>, the rounding of \<open>double\<close> arithmetic, \<open>pow\<close> and \<open>log\<close>,
  what popt finds and what is in the directory are parameters.
\<close>

section \<open>Random distributions\<close>

text \<open>\<open>rs\<close> are all the values that \<open>random\<close> will return, and \<open>n\<close> counts the calls so far. A loop draws until
  the value is good; it never returns when no good value comes.\<close>

partial_function (option) draw :: "(rat \<Rightarrow> bool) \<Rightarrow> (rat \<Rightarrow> rat) \<Rightarrow> (nat \<Rightarrow> int) \<Rightarrow> nat \<Rightarrow> (rat \<times> nat) option" where
  "draw bad rnd rs n =
     (let r = RAND rnd (rs n) in if bad r then draw bad rnd rs (Suc n) else Some (r, Suc n))"

definition rand_pareto ::
  "(rat \<Rightarrow> rat) \<Rightarrow> (rat \<Rightarrow> rat \<Rightarrow> rat) \<Rightarrow> (nat \<Rightarrow> int) \<Rightarrow> nat \<Rightarrow> rat \<Rightarrow> rat \<Rightarrow> (rat \<times> nat) option" where
  "rand_pareto rnd pow rs n m a = do {
     (r, n) \<leftarrow> draw (\<lambda>r. r \<le> 0 \<or> 1 \<le> r) rnd rs n;
     Some (rnd (m * pow r (rnd (- 1 / a))), n) }"

text \<open>The conversion of a \<open>double\<close> to \<open>int\<close> cuts off the fraction; a value that does not fit is undefined behaviour.
  \<open>round\<close> goes to the nearest integer, halves away from zero.\<close>

definition double_to_int :: "rat \<Rightarrow> int outcome" where
  "double_to_int x = (let i = (if 0 \<le> x then \<lfloor>x\<rfloor> else \<lceil>x\<rceil>)
     in if - (2 ^ 31) \<le> i \<and> i < 2 ^ 31 then Done i else Fault)"

definition c_round :: "rat \<Rightarrow> rat" where
  "c_round x = (if 0 \<le> x then of_int \<lfloor>x + 1 / 2\<rfloor> else of_int \<lceil>x - 1 / 2\<rceil>)"

definition rand_pareto_int ::
  "(rat \<Rightarrow> rat) \<Rightarrow> (rat \<Rightarrow> rat \<Rightarrow> rat) \<Rightarrow> (nat \<Rightarrow> int) \<Rightarrow> nat \<Rightarrow> rat \<Rightarrow> rat \<Rightarrow> (int \<times> nat) outcome option" where
  "rand_pareto_int rnd pow rs n m a =
     (case rand_pareto rnd pow rs n m a of
        None \<Rightarrow> None
      | Some (x, n) \<Rightarrow> andthen (Some (double_to_int (c_round x))) (\<lambda>ret. Some (Done (ret, n))))"

definition rand_self_similar ::
  "(rat \<Rightarrow> rat) \<Rightarrow> (rat \<Rightarrow> rat \<Rightarrow> rat) \<Rightarrow> (rat \<Rightarrow> rat) \<Rightarrow> (nat \<Rightarrow> int) \<Rightarrow> nat \<Rightarrow> rat \<Rightarrow> (rat \<times> nat) outcome option" where
  "rand_self_similar rnd pow lg rs n a =
     andthen (check (0 < a \<and> a < 1)) (\<lambda>_.
       case draw (\<lambda>r. r \<le> 0) rnd rs n of
         None \<Rightarrow> None
       | Some (r, n) \<Rightarrow>
           let ex = rnd (lg a / lg (rnd (1 - a))); ret = pow r ex
           in andthen (check (0 < ret \<and> ret \<le> 1)) (\<lambda>_. Some (Done (ret, n))))"

definition rand_self_similar_int ::
  "(rat \<Rightarrow> rat) \<Rightarrow> (rat \<Rightarrow> rat \<Rightarrow> rat) \<Rightarrow> (rat \<Rightarrow> rat) \<Rightarrow> (nat \<Rightarrow> int) \<Rightarrow> nat \<Rightarrow> rat \<Rightarrow> int \<Rightarrow> (int \<times> nat) outcome option" where
  "rand_self_similar_int rnd pow lg rs n a high =
     andthen (rand_self_similar rnd pow lg rs n a) (\<lambda>(x, n).
     andthen (Some (double_to_int (of_int \<lceil>rnd (of_int high * x)\<rceil>))) (\<lambda>ret.
     andthen (check (1 \<le> ret \<and> ret \<le> high)) (\<lambda>_. Some (Done (ret, n)))))"

text \<open>\<open>init_random\<close>: \<open>got\<close> is what \<open>read\<close> returns, 4 or less bytes or -1, and \<open>seed\<close> the contents of the variable
  after it. \<open>read(...) < sizeof(int)\<close> compares unsigned numbers. The result is the argument of \<open>srandom\<close>.\<close>

definition init_random :: "int \<Rightarrow> int \<Rightarrow> int \<Rightarrow> int outcome" where
  "init_random fd got seed =
     (if fd < 0 then Exits
      else if (word_of_int got :: 64 word) < 4 then Exits
      else Done seed)"

section \<open>fileset.c\<close>

text \<open>What \<open>poptGetNextOpt\<close> returns goes through a \<open>char\<close>; the loop ends with the first negative one.\<close>

fun next_options :: "int list \<Rightarrow> int option" where
  "next_options [] = None"
| "next_options (x # xs) = (let c = signed_take_bit 7 x in if 0 \<le> c then next_options xs else Some c)"

text \<open>The files of a file system, and whether \<open>stat\<close> says they are regular.\<close>

type_synonym listing = "char list \<Rightarrow> bool option"

text \<open>The loop over the entries of the directory, which removes the regular files; \<open>unl\<close> says which of them the
  process may remove. \<open>buf\<close> has 4096 bytes.\<close>

fun clear_loop :: "(char list \<Rightarrow> bool) \<Rightarrow> char list \<Rightarrow> char list list \<Rightarrow> listing \<Rightarrow> listing outcome" where
  "clear_loop unl dir [] fs = Done fs"
| "clear_loop unl dir (p # ps) fs =
     (let buf = dir @ ''/'' @ p
      in if 4096 \<le> length buf then Fault
         else if fs buf = Some True then clear_loop unl dir ps (if unl buf then fs(buf := None) else fs)
         else clear_loop unl dir ps fs)"

text \<open>\<open>listed\<close> is \<open>None\<close> when \<open>opendir\<close> fails; then \<open>mkdir\<close> answers \<open>mkdir_ret\<close>.\<close>

definition prepare_dir :: "(char list \<Rightarrow> bool) \<Rightarrow> char list \<Rightarrow> char list list option \<Rightarrow> int \<Rightarrow> listing \<Rightarrow> listing outcome" where
  "prepare_dir unl dir listed mkdir_ret fs =
     (case listed of
        Some ps \<Rightarrow> clear_loop unl dir ps fs
      | None \<Rightarrow> if mkdir_ret < 0 then Exits else Done fs)"

text \<open>The bytes of a file of \<open>sz\<close> bytes, made from the values of \<open>random\<close> after the first \<open>n\<close>.\<close>

definition file_values :: "(nat \<Rightarrow> int) \<Rightarrow> nat \<Rightarrow> nat \<Rightarrow> nat list" where
  "file_values rs n sz = map (\<lambda>i. nat (rs i)) [n..<n + sz]"

text \<open>The loop that makes the files. \<open>name\<close> has 10 bytes. A failed assertion is a fault here.\<close>

partial_function (option) fileset_run ::
  "(rat \<Rightarrow> rat) \<Rightarrow> (rat \<Rightarrow> rat \<Rightarrow> rat) \<Rightarrow> (nat \<Rightarrow> int) \<Rightarrow> int \<Rightarrow> char list \<Rightarrow> int \<Rightarrow> nat \<Rightarrow> int \<Rightarrow> nat \<Rightarrow> char list \<Rightarrow>
   (char list \<times> char list) list \<Rightarrow> (nat \<times> char list \<times> (char list \<times> char list) list) outcome option"
where
  "fileset_run rnd pow rs default_file_sz dir total_fileset_sz nr_files current_fileset_sz n idx written =
     (if current_fileset_sz < total_fileset_sz then
        (let ms = of_int default_file_sz; name = ''/'' @ pad5 nr_files; filename = dir @ name
         in if 10 \<le> length name then Some Fault
            else (case rand_pareto rnd pow rs n 4096 (rnd (ms / rnd (ms - 1))) of
              None \<Rightarrow> None
            | Some (x, n) \<Rightarrow> (case double_to_int x of
                Fault \<Rightarrow> Some Fault
              | Exits \<Rightarrow> Some Exits
              | Done file_sz \<Rightarrow>
                  let bs = map make_byte (file_values rs n (nat file_sz)); idx = idx @ index_entry filename bs
                  in if 4096 * 256 - 1 \<le> length idx then Some Fault
                     else fileset_run rnd pow rs default_file_sz dir total_fileset_sz (Suc nr_files)
                            (s32 (current_fileset_sz + file_sz)) (n + nat file_sz) idx (written @ [(filename, bs)]))))
      else Some (Done (nr_files, idx, written)))"

text \<open>\<open>main\<close>: \<open>opts\<close> are the answers of popt, which has stored the other three arguments. The result is the
  listing after clearing, the files written and the text of the index.\<close>

definition fileset_program ::
  "(rat \<Rightarrow> rat) \<Rightarrow> (rat \<Rightarrow> rat \<Rightarrow> rat) \<Rightarrow> (nat \<Rightarrow> int) \<Rightarrow> int list \<Rightarrow> int \<Rightarrow> int \<Rightarrow> (char list \<Rightarrow> bool) \<Rightarrow> char list \<Rightarrow>
   char list list option \<Rightarrow> int \<Rightarrow> listing \<Rightarrow> (listing \<times> (char list \<times> char list) list \<times> char list) outcome option"
where
  "fileset_program rnd pow rs opts default_file_sz default_nr_files unl dir listed mkdir_ret fs =
     andthen (case next_options opts of None \<Rightarrow> None | Some c \<Rightarrow> Some (if c < -1 then Exits else Done ())) (\<lambda>_.
     if default_file_sz \<le> 1 then Some Exits
     else if default_nr_files < 1 \<or> 99999 < default_nr_files then Some Exits
     else if 1000 < length dir then Some Exits
     else andthen (Some (prepare_dir unl dir listed mkdir_ret fs)) (\<lambda>fs.
       andthen (fileset_run rnd pow rs default_file_sz dir (s32 (s32 (default_file_sz * 4096) * default_nr_files)) 0 0 0 [] [])
         (\<lambda>(nr_files, idx, written). Some (Done (fs, written, print_d (int nr_files) @ [newline] @ idx)))))"

section \<open>The distributions stay in their ranges\<close>

text \<open>What is relied on of \<open>pow\<close> and \<open>log\<close>: the sign of the result and no underflow for moderate exponents.\<close>

definition powers :: "(rat \<Rightarrow> rat \<Rightarrow> rat) \<Rightarrow> bool" where
  "powers pow \<longleftrightarrow> (\<forall>x y. 0 < x \<and> x < 1 \<and> y \<le> 0 \<longrightarrow> 1 \<le> pow x y) \<and>
     (\<forall>x y. 1 / 2 ^ 31 \<le> x \<and> x \<le> 1 \<and> 0 \<le> y \<and> y \<le> 30 \<longrightarrow> 1 / 2 ^ 1074 \<le> pow x y \<and> pow x y \<le> 1)"

definition logs :: "(rat \<Rightarrow> rat) \<Rightarrow> bool" where
  "logs lg \<longleftrightarrow> (\<forall>x. 0 < x \<and> x < 1 \<longrightarrow> lg x < 0)"

lemma double_to_int_of_int: "- (2 ^ 31) \<le> i \<Longrightarrow> i < 2 ^ 31 \<Longrightarrow> double_to_int (of_int i) = Done i"
  by (simp add: double_to_int_def)

lemma double_to_int_least:
  assumes "double_to_int x = Done i" "of_int m \<le> x" "0 \<le> m"
  shows "m \<le> i \<and> i < 2 ^ 31"
proof -
  have "0 \<le> x" using assms(2,3) by (meson of_int_0_le_iff order_trans)
  then show ?thesis using assms by (auto simp: double_to_int_def Let_def le_floor_iff split: if_splits)
qed

lemma draw_returns:
  assumes "n \<le> i" "\<not> bad (RAND rnd (rs i))"
  shows "\<exists>j. n \<le> j \<and> draw bad rnd rs n = Some (RAND rnd (rs j), Suc j) \<and> \<not> bad (RAND rnd (rs j))"
  using assms(1)
proof (induction "i - n" arbitrary: n)
  case 0
  then have "n = i" by simp
  then show ?case using assms(2) by (subst draw.simps) (auto simp: Let_def)
next
  case (Suc k)
  show ?case
  proof (cases "bad (RAND rnd (rs n))")
    case True
    have "k = i - Suc n" "Suc n \<le> i" using Suc.hyps(2) Suc.prems by linarith+
    from Suc.hyps(1) [OF this] obtain j where
      "Suc n \<le> j" "draw bad rnd rs (Suc n) = Some (RAND rnd (rs j), Suc j)" "\<not> bad (RAND rnd (rs j))" by auto
    with True show ?thesis by (subst draw.simps) (auto simp: Let_def)
  next
    case False
    then show ?thesis by (subst draw.simps) (auto simp: Let_def)
  qed
qed

lemma draw_good: "draw bad rnd rs n = Some res \<Longrightarrow> \<not> bad (fst res) \<and> (\<exists>i \<ge> n. fst res = RAND rnd (rs i))"
proof (erule draw.raw_induct [where P = "\<lambda>bad rnd rs n res. \<not> bad (fst res) \<and> (\<exists>i \<ge> n. fst res = RAND rnd (rs i))", rotated])
  fix f bad rnd rs n res
  assume IH: "\<And>bad rnd rs n res. f bad rnd rs n = Some res \<Longrightarrow> \<not> bad (fst res) \<and> (\<exists>i \<ge> n. fst res = RAND rnd (rs i))"
    and r: "(let r = RAND rnd (rs n) in if bad r then f bad rnd rs (Suc n) else Some (r, Suc n)) = Some res"
  show "\<not> bad (fst res) \<and> (\<exists>i \<ge> n. fst res = RAND rnd (rs i))"
  proof (cases "bad (RAND rnd (rs n))")
    case True
    with r IH [of bad rnd rs "Suc n" res] show ?thesis by (auto intro: Suc_leD)
  next
    case False
    with r show ?thesis by (auto simp: Let_def)
  qed
qed

lemma RAND_open:
  assumes "rounds rnd" "0 < r" "r < RAND_MAX"
  shows "0 < RAND rnd r" "RAND rnd r < 1"
proof -
  have "r \<noteq> 0" "0 \<le> r" "r \<le> RAND_MAX" using assms by auto
  from RAND_range(2) [OF assms(1) this(2,3,1)] show "0 < RAND rnd r" by (rule less_le_trans [rotated]) simp
  have "of_int r / of_int RAND_MAX \<le> (of_int (2 ^ 31 - 1) / 2 ^ 31 :: rat)"
    using assms(2,3) by (simp add: RAND_MAX_def divide_le_eq)
  from rounds_mono [OF assms(1) this] have "RAND rnd r \<le> of_int (2 ^ 31 - 1) / 2 ^ 31"
    using rounds_exactly [OF assms(1), of "2 ^ 31 - 1" 31] by (simp add: RAND_def)
  then show "RAND rnd r < 1" by (rule le_less_trans) simp
qed

lemma rand_pareto_least:
  assumes "rounds rnd" "powers pow" "rand_pareto rnd pow rs n (of_int m) a = Some (x, n')" "0 < a" "0 \<le> m" "m \<le> 2 ^ 53"
  shows "of_int m \<le> x"
proof -
  from assms(3) obtain r where r: "draw (\<lambda>r. r \<le> 0 \<or> 1 \<le> r) rnd rs n = Some (r, n')" "x = rnd (of_int m * pow r (rnd (- 1 / a)))"
    by (auto simp: rand_pareto_def bind_eq_Some_conv)
  have "0 < r" "r < 1" using draw_good [OF r(1)] by auto
  moreover have "rnd (- 1 / a) \<le> 0"
    using rounds_mono [OF assms(1), of "- 1 / a" 0] rounds_01 [OF assms(1)] assms(4) by (simp add: divide_le_0_iff)
  ultimately have "1 \<le> pow r (rnd (- 1 / a))" using assms(2) by (auto simp: powers_def)
  then have "of_int m * 1 \<le> of_int m * pow r (rnd (- 1 / a))" using assms(5) by (intro mult_left_mono) simp_all
  from rounds_mono [OF assms(1) this] show ?thesis using rounds_int [OF assms(1), of m] assms(5,6) r(2) by simp
qed

text \<open>\<open>rand_self_similar_int\<close> stays between 1 and its argument, and no assertion fails, when the exponent is moderate;
  it returns as soon as \<open>random\<close> is not 0.\<close>

lemma rand_self_similar_in_range:
  assumes "rounds rnd" "powers pow" "logs lg" "1 / 2 ^ 53 \<le> a" "a \<le> 1 - 1 / 2 ^ 53" "lg a / lg (rnd (1 - a)) \<le> 30"
    "\<forall>i. 0 \<le> rs i \<and> rs i \<le> RAND_MAX" "n \<le> i" "0 < rs i" "1 \<le> high" "high < 2 ^ 31"
  shows "\<exists>k n'. rand_self_similar_int rnd pow lg rs n a high = Some (Done (k, n')) \<and> 1 \<le> k \<and> k \<le> high"
proof -
  note M = rounds_mono [OF assms(1)]
  have b: "1 / 2 ^ 53 \<le> 1 - a" "1 - a \<le> of_int (2 ^ 53 - 1) / 2 ^ 53" using assms(4,5) by simp_all
  have "rnd (of_int 1 / 2 ^ 53) = of_int 1 / 2 ^ 53" "rnd (of_int (2 ^ 53 - 1) / 2 ^ 53) = of_int (2 ^ 53 - 1) / 2 ^ 53"
    by (intro rounds_exactly [OF assms(1)]; simp)+
  with M [OF b(1)] M [OF b(2)] have "0 < rnd (1 - a)" "rnd (1 - a) < 1" by simp_all
  then have "lg (rnd (1 - a)) < 0" "lg a < 0" using assms(3-5) by (auto simp: logs_def)
  then have e: "0 \<le> lg a / lg (rnd (1 - a))" by (simp add: divide_nonpos_neg)
  let ?e = "rnd (lg a / lg (rnd (1 - a)))"
  have "0 \<le> ?e" "?e \<le> 30"
    using M [OF e] M [OF assms(6)] rounds_01 [OF assms(1)] rounds_int [OF assms(1), of 30] by simp_all
  moreover have "\<not> RAND rnd (rs i) \<le> 0"
  proof -
    have "(0 :: rat) < 1 / 2 ^ 31" by simp
    then show ?thesis using RAND_range(2) [OF assms(1), of "rs i"] assms(7,9) by (metis less_le_not_le less_le_trans not_le)
  qed
  from draw_returns [where bad = "\<lambda>r. r \<le> 0" and rnd = rnd and rs = rs and n = n and i = i, OF assms(8) this] obtain j where
    d: "draw (\<lambda>r. r \<le> 0) rnd rs n = Some (RAND rnd (rs j), Suc j)" "0 < RAND rnd (rs j)" by auto
  have "1 / 2 ^ 31 \<le> RAND rnd (rs j)" "RAND rnd (rs j) \<le> 1"
    using RAND_range [OF assms(1), of "rs j"] assms(7) d(2) by (metis less_irrefl)+
  ultimately have p: "1 / 2 ^ 1074 \<le> pow (RAND rnd (rs j)) ?e" "pow (RAND rnd (rs j)) ?e \<le> 1"
    using assms(2) unfolding powers_def by blast+
  have "(0 :: rat) < 1 / 2 ^ 1074" by simp
  then have p0: "0 < pow (RAND rnd (rs j)) ?e" using p(1) by (rule less_le_trans)
  have a: "0 < a" "a < 1" using assms(4,5) by (simp_all add: less_le_trans [of 0 "1 / 2 ^ 53"])
  let ?k = "\<lceil>rnd (of_int high * pow (RAND rnd (rs j)) ?e)\<rceil>"
  have k: "1 \<le> ?k" "?k \<le> high" using scaled_in_range [OF assms(1) p assms(10,11)] by simp_all
  then have "double_to_int (of_int ?k) = Done ?k" using assms(11) by (intro double_to_int_of_int) linarith+
  then show ?thesis using k d(1) p(2) p0 a
    by (simp add: rand_self_similar_int_def rand_self_similar_def Let_def)
qed

section \<open>What the program makes\<close>

lemma pareto_shape:
  assumes "rounds rnd" "2 \<le> sz" "sz < 2 ^ 31"
  shows "0 < rnd (of_int sz / rnd (of_int sz - 1))"
proof -
  have e: "rnd (of_int sz - 1) = of_int sz - 1" using rounds_int [OF assms(1), of "sz - 1"] assms(2,3) by simp
  have "1 \<le> of_int sz / (of_int sz - 1 :: rat)" using assms(2) by (simp add: le_divide_eq)
  from rounds_mono [OF assms(1) this] show ?thesis using rounds_01 [OF assms(1)] e by simp
qed

definition all_sized :: "nat list list \<Rightarrow> bool" where
  "all_sized vals \<longleftrightarrow> (\<forall>v \<in> set vals. 4096 \<le> length v \<and> length v < 2 ^ 31)"

text \<open>A run of the loop, as the loop of \<open>Web_Fileset\<close> on the random values \<open>vals\<close> of the files from \<open>k\<close> on.\<close>

definition loop_makes ::
  "char list \<Rightarrow> int \<Rightarrow> nat \<Rightarrow> int \<Rightarrow> char list \<Rightarrow> (char list \<times> char list) list \<Rightarrow>
   nat \<times> char list \<times> (char list \<times> char list) list \<Rightarrow> bool"
where
  "loop_makes dir tot k cur idx written res = (\<exists>vals. all_sized vals \<and> fst res = k + length vals \<and>
     (\<forall>rand. (\<forall>i < length vals. rand (k + i) = vals ! i) \<longrightarrow> fileset_loop dir rand tot k cur idx written = Some res))"

lemma loop_makes_end: "\<not> cur < tot \<Longrightarrow> loop_makes dir tot k cur idx written (k, idx, written)"
  unfolding loop_makes_def by (intro exI [of _ "[]"]) (auto simp: all_sized_def fileset_loop.simps)

lemma loop_makes_step:
  assumes "cur < tot" "4096 \<le> length v" "length v < 2 ^ 31"
    "length (idx @ index_entry (file_path dir k) (map make_byte v)) < 4096 * 256 - 1"
    "loop_makes dir tot (Suc k) (s32 (cur + int (length v))) (idx @ index_entry (file_path dir k) (map make_byte v))
       (written @ [(file_path dir k, map make_byte v)]) res"
  shows "loop_makes dir tot k cur idx written res"
proof -
  from assms(5) obtain vals where vals: "all_sized vals" "fst res = Suc k + length vals"
    "\<And>rand. (\<forall>i < length vals. rand (Suc k + i) = vals ! i) \<Longrightarrow>
      fileset_loop dir rand tot (Suc k) (s32 (cur + int (length v))) (idx @ index_entry (file_path dir k) (map make_byte v))
       (written @ [(file_path dir k, map make_byte v)]) = Some res" unfolding loop_makes_def by blast
  have "fileset_loop dir rand tot k cur idx written = Some res" if "\<forall>i < length (v # vals). rand (k + i) = (v # vals) ! i" for rand
  proof -
    have "rand k = v" using that [rule_format, of 0] by simp
    moreover have "\<forall>i < length vals. rand (Suc k + i) = vals ! i"
      using that by (metis Suc_less_eq add_Suc add_Suc_right length_Cons nth_Cons_Suc)
    ultimately show ?thesis using vals(3) [of rand] assms(1,4) by (subst fileset_loop.simps) (simp add: Let_def)
  qed
  moreover have "all_sized (v # vals)" using vals(1) assms(2,3) by (simp add: all_sized_def)
  ultimately show ?thesis using vals(2) unfolding loop_makes_def by (intro exI [of _ "v # vals"]) simp
qed

lemma file_name: "dir @ CHR ''/'' # pad5 k = file_path dir k"
  by (simp add: file_path_def)

lemma file_values_length [simp]: "length (file_values rs n sz) = sz"
  by (simp add: file_values_def)

lemma fileset_run_makes:
  assumes R: "rounds rnd" and P: "powers pow" and "fileset_run rnd pow rs sz dir tot k cur n idx written = Some (Done res)"
    "2 \<le> sz" "sz < 2 ^ 31"
  shows "loop_makes dir tot k cur idx written res"
proof -
  let ?Q = "\<lambda>rnd' pow' rs sz dir tot k cur n idx written out.
    rnd' = rnd \<longrightarrow> pow' = pow \<longrightarrow> 2 \<le> sz \<longrightarrow> sz < 2 ^ 31 \<longrightarrow> (\<forall>res. out = Done res \<longrightarrow> loop_makes dir tot k cur idx written res)"
  have "?Q rnd pow rs sz dir tot k cur n idx written (Done res)"
    using assms(3)
  proof (rule fileset_run.raw_induct [where P = ?Q, rotated], goal_cases)
    case (1 f rnd' pow' rs sz dir tot k cur n idx written out)
    show ?case
    proof (intro impI allI)
      fix res assume E: "rnd' = rnd" "pow' = pow" and sz: "2 \<le> sz" "sz < 2 ^ 31" and o: "out = Done res"
      show "loop_makes dir tot k cur idx written res"
      proof (cases "cur < tot")
        case False
        with 1(2) o show ?thesis by (auto intro: loop_makes_end)
      next
        case True
        let ?a = "rnd (of_int sz / rnd (of_int sz - 1))"
        from 1(2) True o E obtain x n' i where x: "rand_pareto rnd pow rs n 4096 ?a = Some (x, n')" "double_to_int x = Done i"
          and l: "length (idx @ index_entry (file_path dir k) (map make_byte (file_values rs n' (nat i)))) < 4096 * 256 - 1"
          and r: "f rnd pow rs sz dir tot (Suc k) (s32 (cur + i)) (n' + nat i)
             (idx @ index_entry (file_path dir k) (map make_byte (file_values rs n' (nat i))))
             (written @ [(file_path dir k, map make_byte (file_values rs n' (nat i)))]) = Some (Done res)"
          by (auto simp: Let_def file_name not_le split: if_splits option.splits outcome.splits prod.splits)
        have "of_int 4096 \<le> x"
          by (rule rand_pareto_least [OF R P, of rs n 4096 ?a x n']) (use x(1) pareto_shape [OF R sz] in simp_all)
        with double_to_int_least [OF x(2), of 4096] have i: "4096 \<le> i" "i < 2 ^ 31" by simp_all
        from 1(1) [OF r] sz have "loop_makes dir tot (Suc k) (s32 (cur + i))
             (idx @ index_entry (file_path dir k) (map make_byte (file_values rs n' (nat i))))
             (written @ [(file_path dir k, map make_byte (file_values rs n' (nat i)))]) res" by blast
        moreover have v: "4096 \<le> nat i" "nat i < 2 ^ 31" "int (nat i) = i" using i by auto
        ultimately show ?thesis using loop_makes_step [OF True _ _ l] by (simp only: file_values_length v)
      qed
    qed
  qed
  then show ?thesis using assms(4,5) by blast
qed

lemma fileset_main_values:
  assumes "loop_makes dir (s32 (s32 (sz * 4096) * nr)) 0 0 [] [] (k, idx, written)"
    "2 \<le> sz" "1 \<le> nr" "nr \<le> 99999" "length dir \<le> 1000"
  shows "\<exists>rand. (\<forall>k. length (rand k) < 2 ^ 31) \<and> fileset_main sz nr dir rand = Some (written, print_d (int k) @ [newline] @ idx) \<and>
    (\<forall>f \<in> set written. 4096 \<le> length (snd f))"
proof -
  from assms(1) obtain vals where vals: "all_sized vals" "k = length vals"
    "\<And>rand. (\<forall>i < length vals. rand i = vals ! i) \<Longrightarrow>
      fileset_loop dir rand (s32 (s32 (sz * 4096) * nr)) 0 0 [] [] = Some (k, idx, written)" unfolding loop_makes_def by auto
  define rand where "rand i = (if i < length vals then vals ! i else [])" for i
  have l: "fileset_loop dir rand (s32 (s32 (sz * 4096) * nr)) 0 0 [] [] = Some (k, idx, written)"
    by (rule vals(3)) (simp add: rand_def)
  have m: "\<forall>f \<in> set written. made dir rand k f" using fileset_loop_makes [OF l] by (auto simp: makes_def)
  have s: "4096 \<le> length (rand i) \<and> length (rand i) < 2 ^ 31" if "i < k" for i
    using vals(1,2) that by (simp add: all_sized_def rand_def)
  have "length (rand i) < 2 ^ 31" for i using s [of i] vals(2) by (cases "i < k") (simp_all add: rand_def)
  moreover have "4096 \<le> length (snd f)" if "f \<in> set written" for f using m s that by (fastforce simp: made_def)
  ultimately show ?thesis using l assms(2-5) by (intro exI [of _ rand]) (simp add: fileset_main_def)
qed

lemma fileset_program_cases:
  assumes "fileset_program rnd pow rs opts sz nr unl dir listed mk fs = Some (Done (fs', written, index))"
  obtains k idx where "1 < sz" "1 \<le> nr" "nr \<le> 99999" "length dir \<le> 1000" "prepare_dir unl dir listed mk fs = Done fs'"
    "fileset_run rnd pow rs sz dir (s32 (s32 (sz * 4096) * nr)) 0 0 0 [] [] = Some (Done (k, idx, written))"
    "index = print_d (int k) @ [newline] @ idx"
proof -
  from assms have a: "1 < sz" "1 \<le> nr" "nr \<le> 99999" "length dir \<le> 1000"
    by (auto simp: fileset_program_def split: if_splits)
  from assms a have "andthen (Some (prepare_dir unl dir listed mk fs)) (\<lambda>fs.
       andthen (fileset_run rnd pow rs sz dir (s32 (s32 (sz * 4096) * nr)) 0 0 0 [] [])
         (\<lambda>(nr_files, idx, written). Some (Done (fs, written, print_d (int nr_files) @ [newline] @ idx)))) = Some (Done (fs', written, index))"
    by (auto simp: fileset_program_def split: if_splits)
  then show thesis using a by (auto simp: intro: that)
qed

text \<open>Clearing the directory removes the regular files listed that may be removed, and nothing else.\<close>

lemma clear_loop_removes:
  assumes "\<forall>p \<in> set ps. length (dir @ ''/'' @ p) < 4096"
  shows "clear_loop unl dir ps fs = Done (\<lambda>path. if fs path = Some True \<and> unl path \<and> (\<exists>p \<in> set ps. path = dir @ ''/'' @ p)
    then None else fs path)"
  using assms
proof (induction ps arbitrary: fs)
  case (Cons p ps)
  let ?b = "dir @ ''/'' @ p"
  let ?fs = "if fs ?b = Some True \<and> unl ?b then fs(?b := None) else fs"
  have "clear_loop unl dir (p # ps) fs = clear_loop unl dir ps ?fs" using Cons.prems by (cases "fs ?b = Some True"; cases "unl ?b"; simp add: Let_def)
  also have "... = Done (\<lambda>path. if ?fs path = Some True \<and> unl path \<and> (\<exists>p \<in> set ps. path = dir @ ''/'' @ p) then None else ?fs path)"
    by (rule Cons.IH) (use Cons.prems in simp)
  also have "... = Done (\<lambda>path. if fs path = Some True \<and> unl path \<and> (\<exists>p \<in> set (p # ps). path = dir @ ''/'' @ p) then None else fs path)"
    by (rule arg_cong [where f = Done], rule ext, case_tac "path = ?b"; simp)
  finally show ?case .
qed simp

text \<open>The loop ends: each file adds a line to the index, whose buffer is checked.\<close>

lemma fileset_run_ends:
  assumes "rounds rnd" "\<forall>n. \<exists>i \<ge> n. 0 < rs i \<and> rs i < RAND_MAX"
  shows "fileset_run rnd pow rs sz dir tot k cur n idx written \<noteq> None"
proof (induction "4096 * 256 - length idx" arbitrary: k cur n idx written rule: less_induct)
  case less
  obtain i where i: "n \<le> i" "0 < rs i" "rs i < RAND_MAX" using assms(2) by blast
  have "\<not> (RAND rnd (rs i) \<le> 0 \<or> 1 \<le> RAND rnd (rs i))" using RAND_open [OF assms(1) i(2,3)] by auto
  from draw_returns [where bad = "\<lambda>r. r \<le> 0 \<or> 1 \<le> r" and rnd = rnd and rs = rs and n = n and i = i, OF i(1) this]
  obtain x n' where x: "rand_pareto rnd pow rs n 4096 (rnd (of_int sz / rnd (of_int sz - 1))) = Some (x, n')"
    by (auto simp: rand_pareto_def)
  have step: "fileset_run rnd pow rs sz dir tot k' cur' m (idx @ index_entry p bs) w \<noteq> None"
    if "length (idx @ index_entry p bs) < 4096 * 256 - 1" for k' cur' m p bs w
  proof (rule less)
    have "length idx < length (idx @ index_entry p bs)" by (simp add: index_entry_def)
    then show "4096 * 256 - length (idx @ index_entry p bs) < 4096 * 256 - length idx" using that by linarith
  qed
  show ?case
  proof (cases "double_to_int x")
    case (Done sz')
    then show ?thesis using x step by (subst fileset_run.simps) (simp add: Let_def not_le)
  qed (use x in \<open>subst fileset_run.simps, simp add: Let_def\<close>)+
qed

section \<open>An example\<close>

text \<open>Exact arithmetic, the power 1 and a \<open>random\<close> that returns 1 forever: files of 4096 bytes.\<close>

definition sample_pow :: "rat \<Rightarrow> rat \<Rightarrow> rat" where "sample_pow x y = (if y \<le> 0 then 1 else x)"

lemma sample_powers: "powers sample_pow"
proof -
  have "1 / 2 ^ 1074 \<le> (1 / 2 ^ 31 :: rat)" by (intro divide_left_mono power_increasing) simp_all
  moreover have "1 / 2 ^ 1074 \<le> (1 :: rat)" by (simp add: divide_le_eq)
  ultimately show ?thesis unfolding powers_def sample_pow_def by (auto intro: order_trans)
qed

lemma sample_logs: "logs (\<lambda>x. x - 1)"
  by (simp add: logs_def)

definition sample_bytes1 :: "char list" where "sample_bytes1 = replicate 4096 (make_byte 1)"

lemma sample_draw: "draw (\<lambda>r. r \<le> 0 \<or> 1 \<le> r) (\<lambda>x. x) (\<lambda>_. 1) n = Some (1 / of_int RAND_MAX, Suc n)"
  by (subst draw.simps) (simp add: RAND_def RAND_MAX_def)

lemma sample_run:
  "fileset_run (\<lambda>x. x) sample_pow (\<lambda>_. 1) 2 dir tot k cur n idx written =
     (if cur < tot then
        (if 10 \<le> Suc (length (pad5 k)) then Some Fault
         else let idx = idx @ index_entry (file_path dir k) sample_bytes1
           in if 4096 * 256 - 1 \<le> length idx then Some Fault
              else fileset_run (\<lambda>x. x) sample_pow (\<lambda>_. 1) 2 dir tot (Suc k) (s32 (cur + 4096)) (Suc n + 4096) idx
                (written @ [(file_path dir k, sample_bytes1)]))
      else Some (Done (k, idx, written)))"
proof -
  have "rand_pareto (\<lambda>x. x) sample_pow (\<lambda>_. 1) n 4096 2 = Some (of_int 4096, Suc n)"
    by (simp add: rand_pareto_def sample_draw sample_pow_def)
  moreover have "double_to_int (of_int 4096) = Done 4096" by (intro double_to_int_of_int) simp_all
  moreover have "map make_byte (file_values (\<lambda>_. 1) m 4096) = sample_bytes1" for m
    by (simp add: file_values_def sample_bytes1_def map_replicate_const)
  ultimately show ?thesis by (subst fileset_run.simps) (simp add: Let_def file_name)
qed

lemma sample_entries:
  "length (index_entry (file_path ''e'' 0) sample_bytes1) \<le> 30" "length (index_entry (file_path ''e'' (Suc 0)) sample_bytes1) \<le> 30"
  using length_index_entry [of sample_bytes1 "file_path ''e'' 0"] length_index_entry [of sample_bytes1 "file_path ''e'' (Suc 0)"]
  by (simp_all add: sample_bytes1_def small_paths [unfolded One_nat_def])

lemma sample_program:
  "fileset_program (\<lambda>x. x) sample_pow (\<lambda>_. 1) [-1] 2 1 (\<lambda>_. True) ''e'' (Some [''x'']) 0 [''e/x'' \<mapsto> True] =
     Some (Done (Map.empty, [(file_path ''e'' 0, sample_bytes1), (file_path ''e'' (Suc 0), sample_bytes1)],
       print_d (int 2) @ [newline] @ index_entry (file_path ''e'' 0) sample_bytes1 @ index_entry (file_path ''e'' (Suc 0)) sample_bytes1))"
proof -
  let ?e0 = "index_entry (file_path ''e'' 0) sample_bytes1" and ?e1 = "index_entry (file_path ''e'' (Suc 0)) sample_bytes1"
  have "length (dec 0) \<le> 1" "length (dec (Suc 0)) \<le> 1" using length_dec [of 0 0] length_dec [of "Suc 0" 0] by simp_all
  then have d: "length (pad5 0) = 5" "length (pad5 (Suc 0)) = 5" by (simp_all add: length_pad5)
  have s: "s32 (s32 (2 * 4096) * 1) = 8192" "s32 4096 = 4096" "s32 8192 = 8192" by (simp_all add: s32_id)
  have "fileset_run (\<lambda>x. x) sample_pow (\<lambda>_. 1) 2 ''e'' 8192 2 8192 n (?e0 @ ?e1) w = Some (Done (2, ?e0 @ ?e1, w))" for n w
    by (subst sample_run) simp
  then have "fileset_run (\<lambda>x. x) sample_pow (\<lambda>_. 1) 2 ''e'' 8192 1 4096 n ?e0 [(file_path ''e'' 0, sample_bytes1)] =
     Some (Done (2, ?e0 @ ?e1, [(file_path ''e'' 0, sample_bytes1), (file_path ''e'' (Suc 0), sample_bytes1)]))" for n
    using sample_entries s d by (subst sample_run) (simp add: Let_def numeral_2_eq_2)
  then have "fileset_run (\<lambda>x. x) sample_pow (\<lambda>_. 1) 2 ''e'' 8192 0 0 0 [] [] =
     Some (Done (2, ?e0 @ ?e1, [(file_path ''e'' 0, sample_bytes1), (file_path ''e'' (Suc 0), sample_bytes1)]))"
    using sample_entries s d by (subst sample_run) (simp add: Let_def)
  then show ?thesis using s by (simp add: fileset_program_def prepare_dir_def)
qed

section \<open>Properties\<close>

text \<open>C31: What the whole program of \<open>fileset.c\<close> does when it succeeds, with sizes and bytes drawn from \<open>random\<close>: it
  has removed the regular files of the directory that it may remove and nothing else, and made a file set and an index as the
  model of its loop does for some bytes, each file of at least 4096 and less than 2 to the 31 bytes.\<close>

theorem fileset_program_makes:
  assumes "rounds rnd" "powers pow" "sz < 2 ^ 31" "\<forall>p \<in> set ps. length (dir @ ''/'' @ p) < 4096"
    "fileset_program rnd pow rs opts sz nr unl dir (Some ps) mk fs = Some (Done (fs', written, index))"
  shows "(\<forall>path. fs' path = (if fs path = Some True \<and> unl path \<and> (\<exists>p \<in> set ps. path = dir @ ''/'' @ p) then None else fs path)) \<and>
    (\<exists>rand. (\<forall>k. length (rand k) < 2 ^ 31) \<and> fileset_main sz nr dir rand = Some (written, index) \<and>
      (\<forall>f \<in> set written. 4096 \<le> length (snd f)))"
proof -
  from fileset_program_cases [OF assms(5)] obtain k idx where
    a: "1 < sz" "1 \<le> nr" "nr \<le> 99999" "length dir \<le> 1000" "prepare_dir unl dir (Some ps) mk fs = Done fs'"
    "fileset_run rnd pow rs sz dir (s32 (s32 (sz * 4096) * nr)) 0 0 0 [] [] = Some (Done (k, idx, written))"
    "index = print_d (int k) @ [newline] @ idx" by metis
  have sz: "2 \<le> sz" using a(1) by simp
  from fileset_main_values [OF fileset_run_makes [OF assms(1,2) a(6) sz assms(3)] sz a(2-4)] a(5,7)
    clear_loop_removes [OF assms(4), of unl fs]
  show ?thesis by (auto simp: prepare_dir_def)
qed

theorem fileset_program_makes_witness:
  "\<exists>rand. (\<forall>k. length (rand k) < 2 ^ 31) \<and> fileset_main 2 1 ''e'' rand =
      Some ([(file_path ''e'' 0, sample_bytes1), (file_path ''e'' (Suc 0), sample_bytes1)],
        print_d (int 2) @ [newline] @ index_entry (file_path ''e'' 0) sample_bytes1 @ index_entry (file_path ''e'' (Suc 0)) sample_bytes1)"
proof -
  have "\<forall>p \<in> set [''x'']. length (''e'' @ ''/'' @ p) < 4096" by simp
  from fileset_program_makes [OF rounds_exact sample_powers _ this sample_program] show ?thesis by auto
qed

text \<open>C32: The program of \<open>fileset.c\<close> ends, for every rounding, \<open>pow\<close>, directory and arguments, when \<open>random\<close> does not
  from some call on return only 0 or \<open>RAND_MAX\<close>: each file makes the index longer, and an assertion bounds the index.\<close>

theorem fileset_program_ends:
  assumes "rounds rnd" "\<forall>n. \<exists>i \<ge> n. 0 < rs i \<and> rs i < RAND_MAX" "\<exists>x \<in> set opts. signed_take_bit 7 x < 0"
  shows "\<exists>res. fileset_program rnd pow rs opts sz nr unl dir listed mk fs = Some res"
proof -
  have o: "\<exists>c. next_options opts = Some c" using assms(3) by (induction opts) (auto simp: Let_def)
  have "andthen (fileset_run rnd pow rs sz dir tot 0 0 0 [] []) (\<lambda>(k, idx, w). Some (Done (g k idx w))) \<noteq> None"
    for tot and g :: "nat \<Rightarrow> char list \<Rightarrow> (char list \<times> char list) list \<Rightarrow> listing \<times> (char list \<times> char list) list \<times> char list"
    using fileset_run_ends [OF assms(1,2), of pow sz dir tot 0 0 0 "[]" "[]"]
    by (auto simp: andthen_def split: outcome.splits)
  then show ?thesis using o by (auto simp: fileset_program_def andthen_def split: outcome.splits option.splits)
qed

theorem fileset_program_ends_witness:
  "\<exists>res. fileset_program (\<lambda>x. x) sample_pow (\<lambda>_. 1) [-1] 3 256 (\<lambda>_. True) ''fileset_dir'' None 0 Map.empty = Some res"
  by (rule fileset_program_ends [OF rounds_exact]) (auto simp: RAND_MAX_def)

text \<open>\<open>rand_self_similar_int\<close> stays between 1 and its argument and none of its assertions fails, for every correct rounding,
  when \<open>pow\<close> and \<open>log\<close> have the right signs and the exponent is at most 30; it returns as soon as \<open>random\<close>
  returns something other than 0.\<close>

theorem rand_self_similar_int_range:
  assumes "rounds rnd" "powers pow" "logs lg" "1 / 2 ^ 53 \<le> a" "a \<le> 1 - 1 / 2 ^ 53" "lg a / lg (rnd (1 - a)) \<le> 30"
    "\<forall>i. 0 \<le> rs i \<and> rs i \<le> RAND_MAX" "n \<le> i" "0 < rs i" "1 \<le> high" "high < 2 ^ 31"
  shows "\<exists>k n'. rand_self_similar_int rnd pow lg rs n a high = Some (Done (k, n')) \<and> 1 \<le> k \<and> k \<le> high"
  using assms by (rule rand_self_similar_in_range)

theorem rand_self_similar_int_range_witness:
  "\<exists>k n'. rand_self_similar_int (\<lambda>x. x) sample_pow (\<lambda>x. x - 1) (\<lambda>i. if i = 0 then 0 else 1) 0 (1 / 2) 10 = Some (Done (k, n')) \<and>
    1 \<le> k \<and> k \<le> 10"
  by (rule rand_self_similar_int_range [OF rounds_exact sample_powers sample_logs, where i = 1]) (simp_all add: RAND_MAX_def)

text \<open>\<open>read(fd, &seed, sizeof(int)) < sizeof(int)\<close> compares unsigned numbers: a read that fails with -1 is not noticed, and the
  seed is whatever the variable held.\<close>

theorem init_random_misses_error: "0 \<le> fd \<Longrightarrow> init_random fd (-1) seed = Done seed"
  by (simp add: init_random_def)

theorem init_random_notices_short: "0 \<le> fd \<Longrightarrow> 0 \<le> got \<Longrightarrow> got < 4 \<Longrightarrow> init_random fd got seed = Exits"
  by (simp add: init_random_def word_less_def uint_word_of_int)

text \<open>The size of the file set is computed in an \<open>int\<close>: when it overflows, no file is made and the index says 0.\<close>

theorem large_fileset_is_empty:
  "length dir \<le> 1000 \<Longrightarrow> fileset_main 6 99999 dir rand = Some ([], print_d 0 @ [newline])"
proof -
  have "s32 (s32 (6 * 4096) * 99999) < 0" by code_simp
  then show "length dir \<le> 1000 \<Longrightarrow> ?thesis" by (simp add: fileset_main_def fileset_loop.simps [of _ _ _ 0])
qed

end
