(* ===== verification/Web_Main.thy ===== *)
theory Web_Main
  imports Web_Sockets Web_Random
begin

text \<open>
  The \<open>main\<close> functions of \<open>src/webserver/server.c\<close> and \<open>src/webserver/client.c\<close>: the server from its arguments through the FIFO that asks
  it to exit and the loop around \<open>poll\<close>, and the client with its threads, which share the stream of random
  numbers and the server. What \<open>poll\<close>, \<open>accept\<close> and the other system calls answer are parameters.
\<close>

section \<open>The server's main\<close>

text \<open>The files of the working directory are a \<open>listing\<close>: a FIFO is not regular.\<close>

definition fifo :: "char list" where "fifo = ''./server_exit''"

text \<open>\<open>unl\<close> says whether \<open>unlink\<close> succeeds; its result is not looked at.\<close>

definition close_fifo :: "bool \<Rightarrow> listing \<Rightarrow> listing" where
  "close_fifo unl fs = (if unl then fs(fifo := None) else fs)"

definition open_fifo :: "bool \<Rightarrow> int \<Rightarrow> int \<Rightarrow> listing \<Rightarrow> (int \<times> listing) outcome" where
  "open_fifo unl ret fd fs =
     (let fs = (if unl then fs(fifo := None) else fs)
      in if ret < 0 then Exits
         else let fs = fs(fifo := Some False) in if SYS fd = Exits then Exits else Done (fd, fs))"

text \<open>What \<open>poll\<close> answers: its result, whether the FIFO and the listening socket are readable, and what \<open>accept\<close> then returns,
  with the connection.\<close>

record poll_answer =
  poll_ret :: int
  exit_ready :: bool
  conn_ready :: bool
  accept_ret :: int
  arrives :: conn

text \<open>The loop. \<open>request\<close> is \<open>server_request\<close> on the state of the server; without another answer \<open>poll\<close> does not return.\<close>

fun main_loop :: "(conn \<Rightarrow> 's \<Rightarrow> 's outcome option) \<Rightarrow> poll_answer list \<Rightarrow> 's \<Rightarrow> 's outcome option" where
  "main_loop request [] sv = None"
| "main_loop request (p # ps) sv =
     andthen (Some (SYS (poll_ret p))) (\<lambda>_.
       if exit_ready p then Some (Done sv)
       else andthen (check (conn_ready p)) (\<lambda>_.
            andthen (Some (SYS (accept_ret p))) (\<lambda>connfd.
            andthen (request (arrives p) sv) (main_loop request ps))))"

text \<open>\<open>server_request\<close> without worker threads: the cache and the connections served so far.\<close>

definition server_request_alone :: "disk \<Rightarrow> int \<Rightarrow> mem \<Rightarrow> conn \<Rightarrow> cache_table \<times> conn list \<Rightarrow> (cache_table \<times> conn list) outcome option" where
  "server_request_alone dk max_cache_size mm c sv =
     andthen (do_server_request dk max_cache_size mm (fst sv) c) (\<lambda>(cache, c). Some (Done (cache, snd sv @ [c])))"

text \<open>\<open>main\<close>, for the server's \<open>init\<close>, \<open>request\<close> and \<open>finish\<close> as functions of its arguments. \<open>listenfd\<close> is the result of \<open>open_listenfd\<close> for a port,
  \<open>open_ff\<close> and \<open>close_ff\<close> open and close the FIFO.\<close>

definition server_main ::
  "(int \<Rightarrow> int \<Rightarrow> int \<Rightarrow> 's) \<Rightarrow> (int \<Rightarrow> int \<Rightarrow> int \<Rightarrow> conn \<Rightarrow> 's \<Rightarrow> 's outcome option) \<Rightarrow> ('s \<Rightarrow> 's outcome option) \<Rightarrow>
   (int \<Rightarrow> (int \<times> sockaddr_in \<times> int) outcome option) \<Rightarrow> (listing \<Rightarrow> (int \<times> listing) outcome) \<Rightarrow> (listing \<Rightarrow> listing) \<Rightarrow>
   char list list \<Rightarrow> poll_answer list \<Rightarrow> listing \<Rightarrow> (listing \<times> 's) outcome option"
where
  "server_main init request finish listenfd open_ff close_ff argv polls fs =
     (case server_args argv of
        None \<Rightarrow> Some Exits
      | Some (port, nr_threads, max_req, max_cache_size) \<Rightarrow>
          let sv = init nr_threads max_req max_cache_size
          in andthen (listenfd port) (\<lambda>_.
             andthen (Some (open_ff fs)) (\<lambda>(exitfd, fs).
             andthen (main_loop (request nr_threads max_req max_cache_size) polls sv) (\<lambda>sv.
               let fs = close_ff fs in andthen (finish sv) (\<lambda>sv. Some (Done (fs, sv)))))))"

text \<open>The program for \<open>nr_threads\<close> 0, where \<open>server_exit\<close> has no thread to join. For other numbers \<open>None\<close>: that server is the machine of
  the theory \<open>Web_Whole\<close>.\<close>

definition server_alone ::
  "disk \<Rightarrow> mem \<Rightarrow> (int \<Rightarrow> (int \<times> sockaddr_in \<times> int) outcome option) \<Rightarrow> bool \<Rightarrow> int \<Rightarrow> int \<Rightarrow> bool \<Rightarrow>
   char list list \<Rightarrow> poll_answer list \<Rightarrow> listing \<Rightarrow> (listing \<times> cache_table \<times> conn list) outcome option"
where
  "server_alone dk mm listenfd unl mkfifo_ret fd unl' argv polls fs =
     server_main (\<lambda>_ _ _. (cache_table_initialization (\<lambda>_. Null), []))
       (\<lambda>nr_threads max_req max_cache_size c sv. if nr_threads = 0 then server_request_alone dk max_cache_size mm c sv else None)
       (\<lambda>sv. Some (Done sv)) listenfd (open_fifo unl mkfifo_ret fd) (close_fifo unl') argv polls fs"

text \<open>An answer of \<open>poll\<close> that brings the connection \<open>c\<close>, and one that asks for the exit.\<close>

definition brings :: "poll_answer \<Rightarrow> conn \<Rightarrow> bool" where
  "brings p c \<longleftrightarrow> 0 \<le> poll_ret p \<and> \<not> exit_ready p \<and> conn_ready p \<and> 0 \<le> accept_ret p \<and> arrives p = c"

definition asks_exit :: "poll_answer \<Rightarrow> bool" where
  "asks_exit p \<longleftrightarrow> 0 \<le> poll_ret p \<and> exit_ready p"

lemma main_loop_serves:
  assumes "clients_ok dk {mm} cs host name doc" "k \<le> length cs" "list_all2 brings ps (drop k cs)" "asks_exit p"
    "disk_cache.holds m (kept dk) cache" "length served = k"
    "\<forall>i < k. conn_sent (served ! i) =
       response_header (request_get_file_type (''./'' @ name i)) (int (st_size (doc i))) (csum_of (file_bytes (doc i))) @ file_bytes (doc i)"
  shows "\<exists>cache' served'. main_loop (server_request_alone dk (limit m) mm) (ps @ p # qs) (cache, served) = Some (Done (cache', served')) \<and>
    length served' = length cs \<and> (\<forall>i < length cs. conn_sent (served' ! i) =
       response_header (request_get_file_type (''./'' @ name i)) (int (st_size (doc i))) (csum_of (file_bytes (doc i))) @ file_bytes (doc i))"
  using assms(2,3,5-7)
proof (induction ps arbitrary: k cache served)
  case Nil
  then have "k = length cs" by simp
  then show ?case using Nil assms(4) by (simp add: asks_exit_def SYS_def)
next
  case (Cons q ps)
  then have k: "k < length cs" by (cases "k = length cs") auto
  then have d: "drop k cs = cs ! k # drop (Suc k) cs" by (simp add: Cons_nth_drop_Suc)
  with Cons.prems(2) have q: "brings q (cs ! k)" "list_all2 brings ps (drop (Suc k) cs)" by simp_all
  from do_server_request_serves [OF assms(1) k _ Cons.prems(3)] obtain cache1 c where
    c: "do_server_request dk (limit m) mm cache (cs ! k) = Some (Done (cache1, c))" "disk_cache.holds m (kept dk) cache1"
    "conn_sent c = response_header (request_get_file_type (''./'' @ name k)) (int (st_size (doc k))) (csum_of (file_bytes (doc k))) @
       file_bytes (doc k)" by auto
  have "\<forall>i < Suc k. conn_sent ((served @ [c]) ! i) =
       response_header (request_get_file_type (''./'' @ name i)) (int (st_size (doc i))) (csum_of (file_bytes (doc i))) @ file_bytes (doc i)"
    using Cons.prems(4,5) c(3) by (auto simp: nth_append less_Suc_eq)
  from Cons.IH [OF _ q(2) c(2) _ this] k Cons.prems(4) q(1) c(1) show ?case
    by (simp add: brings_def SYS_def server_request_alone_def)
qed

section \<open>Properties of the server\<close>

text \<open>C10: The whole server program without worker threads: for valid arguments, when the listening socket and the FIFO can be opened and for good
  connections (\<open>clients_ok\<close>), it answers those that \<open>poll\<close> brings before the request to exit, each completely and in order, none after it, even
  when a connection and the exit are ready together, and it leaves no FIFO behind.\<close>

theorem server_alone_serves:
  assumes "server_args argv = Some (port, 0, max_req, limit m)" "listenfd port = Some (Done l)" "0 \<le> mkfifo_ret" "0 \<le> fd"
    "clients_ok dk {mm} cs host name doc" "list_all2 brings ps cs" "asks_exit p"
  shows "\<exists>cache served. server_alone dk mm listenfd unl mkfifo_ret fd True argv (ps @ p # qs) fs =
      Some (Done (fs(fifo := None), cache, served)) \<and> length served = length cs \<and>
    (\<forall>i < length cs. conn_sent (served ! i) = response_header (request_get_file_type (''./'' @ name i)) (int (st_size (doc i)))
       (csum_of (file_bytes (doc i))) @ file_bytes (doc i))"
proof -
  from main_loop_serves [OF assms(5) _ _ assms(7) initial_holds, of 0 ps "[]" m qs] assms(6) obtain cache served where
    r: "main_loop (server_request_alone dk (limit m) mm) (ps @ p # qs) (cache_table_initialization (\<lambda>_. Null), []) =
      Some (Done (cache, served))" "length served = length cs"
    "\<forall>i < length cs. conn_sent (served ! i) = response_header (request_get_file_type (''./'' @ name i)) (int (st_size (doc i)))
       (csum_of (file_bytes (doc i))) @ file_bytes (doc i)" by auto
  have "open_fifo unl mkfifo_ret fd fs = Done (fd, (if unl then fs(fifo := None) else fs)(fifo := Some False))"
    using assms(3,4) by (simp add: open_fifo_def Let_def)
  with r assms(1,2) show ?thesis
    by (intro exI [of _ cache] exI [of _ served]) (auto simp: server_alone_def server_main_def Let_def close_fifo_def)
qed

theorem server_alone_serves_witness:
  "\<exists>cache served. server_alone sample_disk sample_mem (open_listenfd 3 0 (\<lambda>_ _. 0) (\<lambda>_ _. 0)) True 0 4 True
      [''server'', ''8080'', ''0'', ''1'', ''100'']
      [\<lparr>poll_ret = 1, exit_ready = False, conn_ready = True, accept_ret = 5, arrives = sample_conn\<rparr>,
       \<lparr>poll_ret = 2, exit_ready = True, conn_ready = True, accept_ret = 5, arrives = sample_conn\<rparr>] Map.empty =
    Some (Done (Map.empty, cache, served)) \<and> length served = 1"
proof -
  have a: "server_args [''server'', ''8080'', ''0'', ''1'', ''100''] = Some (8080, 0, 1, limit 100)" by code_simp
  have c: "clients_ok sample_disk {sample_mem} [sample_conn] (\<lambda>_. ''h'') (\<lambda>_. ''a.txt'') (\<lambda>_. sample_file)"
    using two_clients_ok by (auto simp: clients_ok_def two_conns_def)
  obtain l where l: "open_listenfd 3 0 (\<lambda>_ _. 0) (\<lambda>_ _. 0) 8080 = Some (Done l)" by (simp add: open_listenfd_def SYS_def Let_def)
  let ?p = "\<lparr>poll_ret = 1, exit_ready = False, conn_ready = True, accept_ret = 5, arrives = sample_conn\<rparr>"
  let ?q = "\<lparr>poll_ret = 2, exit_ready = True, conn_ready = True, accept_ret = 5, arrives = sample_conn\<rparr>"
  have p: "list_all2 brings [?p] [sample_conn]" "asks_exit ?q" by (simp_all add: brings_def asks_exit_def)
  from server_alone_serves [where listenfd = "open_listenfd 3 0 (\<lambda>_ _. 0) (\<lambda>_ _. 0)" and host = "\<lambda>_. ''h''" and name = "\<lambda>_. ''a.txt''" and
      doc = "\<lambda>_. sample_file" and qs = "[]" and unl = True and fs = Map.empty and mkfifo_ret = 0 and fd = 4, OF a l _ _ c p]
  show ?thesis by auto
qed

text \<open>When \<open>poll\<close> returns although nothing is to be read, as after a writer has closed the FIFO without writing (\<open>POLLHUP\<close>),
  the assertion fails.\<close>

theorem poll_hangup_is_fatal:
  "0 \<le> poll_ret p \<Longrightarrow> \<not> exit_ready p \<Longrightarrow> \<not> conn_ready p \<Longrightarrow> main_loop request (p # ps) sv = Some Fault"
  by (simp add: SYS_def)

section \<open>The client's threads\<close>

text \<open>A thread in the loop of \<open>client_request\<close>, with the requests that are left after the current one: about to connect; it has sent its request
  for a file; the server has answered. A thread that has no request left has returned.\<close>

datatype cl_phase = Asking nat | Sent nat fileinfo "char list" | Answered nat fileinfo "read_event list"

text \<open>One step for a thread, on the server's state and the number of calls of \<open>random\<close> so far: the thread opens a connection, draws a file and sends; the server
  serves it; the thread reads and checks the response. A server without worker threads serves one connection at a time.\<close>

definition phase_step ::
  "(rat \<Rightarrow> rat) \<Rightarrow> (nat \<Rightarrow> int) \<Rightarrow> ((int \<times> sockaddr_in \<times> int) outcome option) \<Rightarrow>
   ('s \<Rightarrow> char list \<Rightarrow> ('s \<times> read_event list) outcome option) \<Rightarrow> write_event list \<Rightarrow> char list \<Rightarrow> fileinfo list \<Rightarrow>
   's \<times> nat \<Rightarrow> cl_phase \<Rightarrow> (('s \<times> nat) \<times> cl_phase) outcome option"
where
  "phase_step rnd rs clientfd server room host fileset st p =
     (case p of
        Asking 0 \<Rightarrow> Some Fault
      | Asking (Suc k) \<Rightarrow>
          andthen clientfd (\<lambda>_.
          andthen (demand (rand_int rnd (rs (snd st)) (int (length fileset)))) (\<lambda>fnr.
            let fi = fileset ! nat (fnr - 1)
            in andthen (demand (fi_name fi)) (\<lambda>nm.
               andthen (client_send host nm \<lparr>conn_in = [], conn_out = room, conn_sent = [], conn_open = True\<rparr>) (\<lambda>c.
                 Some (Done ((fst st, Suc (snd st)), Sent k fi (conn_sent c)))))))
      | Sent k fi bs \<Rightarrow> andthen (server (fst st) bs) (\<lambda>(s, es). Some (Done ((s, snd st), Answered k fi es)))
      | Answered k fi es \<Rightarrow>
          andthen (demand (fi_csum fi)) (\<lambda>csum. andthen (demand (fi_len fi)) (\<lambda>len.
          andthen (client_print es csum len) (\<lambda>_. Some (Done (st, Asking k))))))"

text \<open>The main thread is creating the thread \<open>i\<close>, joining it, or has left the process with \<open>exit(0)\<close>.\<close>

datatype cl_main = Creating nat | Joining nat | Left

record 's session =
  shared :: "'s \<times> nat"
  cl_threads :: "cl_phase list"
  cl_pc :: cl_main

inductive cstep ::
  "('s \<times> nat \<Rightarrow> cl_phase \<Rightarrow> (('s \<times> nat) \<times> cl_phase) outcome option) \<Rightarrow> client \<Rightarrow> 's session \<Rightarrow> 's session \<Rightarrow> bool" for stp cl
where
  create: "cl_pc w = Creating i \<Longrightarrow> int i < cl_nr_threads cl \<Longrightarrow>
    cstep stp cl w (w\<lparr>cl_threads := cl_threads w @ [Asking (nat (nr_times cl))], cl_pc := Creating (Suc i)\<rparr>)"
| created: "cl_pc w = Creating i \<Longrightarrow> \<not> int i < cl_nr_threads cl \<Longrightarrow> cstep stp cl w (w\<lparr>cl_pc := Joining 0\<rparr>)"
| join: "cl_pc w = Joining i \<Longrightarrow> int i < cl_nr_threads cl \<Longrightarrow> cl_threads w ! i = Asking 0 \<Longrightarrow>
    cstep stp cl w (w\<lparr>cl_pc := Joining (Suc i)\<rparr>)"
| leave: "cl_pc w = Joining i \<Longrightarrow> \<not> int i < cl_nr_threads cl \<Longrightarrow> cstep stp cl w (w\<lparr>cl_pc := Left\<rparr>)"
| thread: "i < length (cl_threads w) \<Longrightarrow> cl_threads w ! i \<noteq> Asking 0 \<Longrightarrow>
    stp (shared w) (cl_threads w ! i) = Some (Done (st, p)) \<Longrightarrow>
    cstep stp cl w (w\<lparr>shared := st, cl_threads := (cl_threads w)[i := p]\<rparr>)"

text \<open>\<open>main\<close> up to the threads: the arguments, \<open>init_fileset\<close> (\<open>open_ret\<close> is the result of \<open>open\<close> for a name that is not NULL) and
  \<open>init_random\<close>.\<close>

definition client_main ::
  "int \<Rightarrow> read_event list \<Rightarrow> int \<Rightarrow> int \<Rightarrow> int \<Rightarrow> 's \<Rightarrow> char list list \<Rightarrow> (client \<times> fileinfo list \<times> 's session) outcome option"
where
  "client_main open_ret es rfd got seed s argv =
     (case client_args argv of
        None \<Rightarrow> Some Exits
      | Some (cl, filename) \<Rightarrow>
          andthen (Some (case filename of None \<Rightarrow> Exits | Some nm \<Rightarrow> SYS open_ret)) (\<lambda>fd.
          andthen (init_fileset es) (\<lambda>fileset.
          andthen (Some (init_random rfd got seed)) (\<lambda>_.
            Some (Done (cl, fileset, \<lparr>shared = (s, 0), cl_threads = [], cl_pc = Creating 0\<rparr>))))))"

section \<open>The invariant of a session\<close>

fun left_of :: "cl_phase \<Rightarrow> nat" where
  "left_of (Asking k) = k" | "left_of (Sent k fi bs) = k" | "left_of (Answered k fi es) = k"

fun work_of :: "cl_phase \<Rightarrow> nat" where
  "work_of (Asking k) = 3 * k" | "work_of (Sent k fi bs) = 3 * k + 2" | "work_of (Answered k fi es) = 3 * k + 1"

definition work :: "client \<Rightarrow> 's session \<Rightarrow> nat" where
  "work cl w = sum_list (map work_of (cl_threads w)) +
     (case cl_pc w of
        Creating i \<Rightarrow> (nat (cl_nr_threads cl) - i) * (3 * nat (nr_times cl) + 1) + nat (cl_nr_threads cl) + 2
      | Joining i \<Rightarrow> nat (cl_nr_threads cl) - i + 1
      | Left \<Rightarrow> 0)"

definition created_now :: "client \<Rightarrow> cl_main \<Rightarrow> nat" where
  "created_now cl pc = (case pc of Creating i \<Rightarrow> i | _ \<Rightarrow> nat (cl_nr_threads cl))"

definition session_inv :: "(cl_phase \<Rightarrow> bool) \<Rightarrow> ('s \<Rightarrow> bool) \<Rightarrow> client \<Rightarrow> 's session \<Rightarrow> bool" where
  "session_inv ok good cl w \<longleftrightarrow>
     good (fst (shared w)) \<and> (\<forall>p \<in> set (cl_threads w). ok p) \<and>
     length (cl_threads w) = created_now cl (cl_pc w) \<and> length (cl_threads w) \<le> nat (cl_nr_threads cl) \<and>
     snd (shared w) + sum_list (map left_of (cl_threads w)) = length (cl_threads w) * nat (nr_times cl) \<and>
     (case cl_pc w of Creating i \<Rightarrow> True
      | Joining i \<Rightarrow> i \<le> nat (cl_nr_threads cl) \<and> (\<forall>j < i. cl_threads w ! j = Asking 0)
      | Left \<Rightarrow> (\<forall>j < nat (cl_nr_threads cl). cl_threads w ! j = Asking 0))"

text \<open>A step for a thread that can be taken: it returns, keeps what the other threads rely on, and does a part of the work.\<close>

definition phase_serves :: "(cl_phase \<Rightarrow> bool) \<Rightarrow> ('s \<Rightarrow> bool) \<Rightarrow> ('s \<times> nat \<Rightarrow> cl_phase \<Rightarrow> (('s \<times> nat) \<times> cl_phase) outcome option) \<Rightarrow> bool" where
  "phase_serves ok good stp \<longleftrightarrow> (\<forall>s n p. good s \<longrightarrow> ok p \<longrightarrow> p \<noteq> Asking 0 \<longrightarrow>
     (\<exists>s' n' p'. stp (s, n) p = Some (Done ((s', n'), p')) \<and> good s' \<and> ok p' \<and> work_of p' < work_of p \<and> n' + left_of p' = n + left_of p))"

lemma sum_list_update_add:
  fixes f :: "'a \<Rightarrow> nat"
  assumes "i < length xs"
  shows "sum_list (map f (xs[i := y])) + f (xs ! i) = sum_list (map f xs) + f y"
  using assms by (induction xs arbitrary: i) (auto split: nat.splits)

lemma cstep_inv:
  assumes "cstep stp cl w w'" "session_inv ok good cl w" "phase_serves ok good stp" "\<forall>k. ok (Asking k)"
  shows "session_inv ok good cl w' \<and> work cl w' < work cl w"
  using assms(1)
proof cases
  case (create i)
  have "i < nat (cl_nr_threads cl)" using create(3) by linarith
  then obtain k where k: "nat (cl_nr_threads cl) = Suc (i + k)" using less_imp_Suc_add by blast
  then have "work cl w' < work cl w" using create(1,2) by (simp add: work_def)
  then show ?thesis using create assms(2,4) by (auto simp: session_inv_def created_now_def)
next
  case (created i)
  then show ?thesis using assms(2) by (auto simp: session_inv_def work_def created_now_def)
next
  case (join i)
  then show ?thesis using assms(2) by (auto simp: session_inv_def work_def created_now_def less_Suc_eq)
next
  case (leave i)
  then show ?thesis using assms(2) by (auto simp: session_inv_def work_def created_now_def)
next
  case (thread i st p)
  obtain s n where sh: "shared w = (s, n)" by (cases "shared w")
  have I: "good s" "ok (cl_threads w ! i)" using assms(2) thread(2) sh by (auto simp: session_inv_def)
  from assms(3) [unfolded phase_serves_def, rule_format, OF this thread(3), of n] thread(4) sh obtain s' n' where
    st: "st = (s', n')" "good s'" "ok p" "work_of p < work_of (cl_threads w ! i)" "n' + left_of p = n + left_of (cl_threads w ! i)"
    by auto
  note U = sum_list_update_add [OF thread(2)]
  have "(cl_threads w)[i := p] ! j = Asking 0" if "cl_threads w ! j = Asking 0" for j
    using that thread(3) by (cases "j = i") auto
  moreover have "\<forall>q \<in> set ((cl_threads w)[i := p]). ok q"
    using assms(2) st(3) set_update_subset_insert [of "cl_threads w" i p] by (auto simp: session_inv_def)
  moreover have "n' + sum_list (map left_of ((cl_threads w)[i := p])) = length (cl_threads w) * nat (nr_times cl)"
  proof -
    have "n + sum_list (map left_of (cl_threads w)) = length (cl_threads w) * nat (nr_times cl)"
      using assms(2) sh by (simp add: session_inv_def)
    then show ?thesis using st(5) U [of left_of p] by linarith
  qed
  ultimately have "session_inv ok good cl w'"
    using assms(2) st(1,2) unfolding thread(1) by (auto simp: session_inv_def created_now_def split: cl_main.splits)
  moreover have "work cl w' < work cl w" unfolding thread(1) using st(4) U [of work_of p] by (simp add: work_def)
  ultimately show ?thesis ..
qed

lemma session_progress:
  assumes "session_inv ok good cl w" "phase_serves ok good stp" "cl_pc w \<noteq> Left"
  shows "\<exists>w'. cstep stp cl w w'"
proof (cases "cl_pc w")
  case (Creating i)
  then show ?thesis using cstep.create [OF Creating] cstep.created [OF Creating] by (cases "int i < cl_nr_threads cl") blast+
next
  case (Joining i)
  show ?thesis
  proof (cases "int i < cl_nr_threads cl \<and> cl_threads w ! i \<noteq> Asking 0")
    case False
    then show ?thesis using cstep.join [OF Joining] cstep.leave [OF Joining] by blast
  next
    case True
    obtain s n where sh: "shared w = (s, n)" by (cases "shared w")
    have "i < nat (cl_nr_threads cl)" using True by linarith
    then have l: "i < length (cl_threads w)" using assms(1) Joining by (simp add: session_inv_def created_now_def)
    have "good s" "ok (cl_threads w ! i)" using assms(1) l sh by (auto simp: session_inv_def)
    with assms(2) True obtain st p where "stp (s, n) (cl_threads w ! i) = Some (Done (st, p))"
      unfolding phase_serves_def by blast
    then have "stp (shared w) (cl_threads w ! i) = Some (Done (st, p))" using sh by simp
    with l True show ?thesis by (blast intro: cstep.thread)
  qed
qed (use assms(3) in simp)

lemma session_runs:
  assumes "(cstep stp cl)\<^sup>*\<^sup>* w w'" "session_inv ok good cl w" "phase_serves ok good stp" "\<forall>k. ok (Asking k)"
  shows "session_inv ok good cl w'"
  using assms by (induction rule: rtranclp_induct) (auto dest: cstep_inv)

text \<open>What the threads of a client of this web server are doing.\<close>

fun phase_ok :: "mem \<Rightarrow> disk \<Rightarrow> char list \<Rightarrow> (char list \<times> char list) list \<Rightarrow> cl_phase \<Rightarrow> bool" where
  "phase_ok mm dk host written (Asking k) \<longleftrightarrow> True"
| "phase_ok mm dk host written (Sent k fi bs) \<longleftrightarrow>
     (\<exists>f \<in> set written. fi = info_of f \<and> bs = client_request_text host (fst f))"
| "phase_ok mm dk host written (Answered k fi es) \<longleftrightarrow>
     (\<exists>f \<in> set written. fi = info_of f \<and> client_print es (csum_of (snd f)) (int (length (snd f))) = Some (Done ()))"

lemma phase_step_serves:
  assumes "serves_files dk mm room host written" "faithful chunks" "rounds rnd" "written \<noteq> []" "length written < 2 ^ 31"
    "fileset_main file_sz nr_files dir rand = Some (written, index)" "word dir" "\<forall>k. length (rand k) < 2 ^ 31"
    "\<forall>i. 0 < rs i \<and> rs i \<le> RAND_MAX" "clientfd = Some (Done c)"
  shows "phase_serves (phase_ok mm dk host written) (disk_cache.holds m (kept dk))
    (phase_step rnd rs clientfd (web_server dk (limit m) mm chunks room) room host (map info_of written))"
  unfolding phase_serves_def
proof (intro allI impI)
  fix s n p
  assume I: "disk_cache.holds m (kept dk) s" "phase_ok mm dk host written p" "p \<noteq> Asking 0"
  let ?stp = "phase_step rnd rs clientfd (web_server dk (limit m) mm chunks room) room host (map info_of written) (s, n) p"
  note X = served_exchange [OF assms(1,2) _ assms(6-8)]
  show "\<exists>s' n' p'. ?stp = Some (Done ((s', n'), p')) \<and> disk_cache.holds m (kept dk) s' \<and> phase_ok mm dk host written p' \<and>
      work_of p' < work_of p \<and> n' + left_of p' = n + left_of p"
  proof (cases p)
    case (Asking j)
    with I(3) obtain k where p: "p = Asking (Suc k)" by (cases j) auto
    have "1 \<le> int (length written)" using assms(4) by (cases written) auto
    moreover have r: "0 \<le> rs n" "rs n \<le> RAND_MAX" "rs n \<noteq> 0" using assms(9) [rule_format, of n] by simp_all
    ultimately obtain i where
      i: "rand_int rnd (rs n) (int (length written)) = Some i" "1 \<le> i" "i \<le> int (length written)"
      using rand_int_in_range [OF assms(3) r(1,2), of "int (length written)"] r(3) assms(5) by auto
    then have l: "nat (i - 1) < length written" by linarith
    let ?f = "written ! nat (i - 1)"
    have f: "(fst ?f, snd ?f) \<in> set written" using l by simp
    from X(1) [OF f] obtain c' where "client_send host (fst ?f) \<lparr>conn_in = [], conn_out = room, conn_sent = [], conn_open = True\<rparr> = Some (Done c')"
      "conn_sent c' = client_request_text host (fst ?f)" by blast
    then show ?thesis using p i(1) l f I(1) assms(10) by (auto simp: phase_step_def info_of_def Let_def)
  next
    case (Sent k fi bs)
    with I(2) obtain f where f: "f \<in> set written" "fi = info_of f" "bs = client_request_text host (fst f)" by auto
    from X(2) [of "fst f" "snd f" m s] f(1) I(1) obtain s' es where "disk_cache.holds m (kept dk) s'"
      "web_server dk (limit m) mm chunks room s bs = Some (Done (s', es))"
      "client_print es (csum_of (snd f)) (int (length (snd f))) = Some (Done ())" using f(3) by auto
    then show ?thesis using Sent f(1,2) by (auto simp: phase_step_def)
  next
    case (Answered k fi es)
    with I(2) obtain f where "f \<in> set written" "fi = info_of f" "client_print es (csum_of (snd f)) (int (length (snd f))) = Some (Done ())"
      by auto
    then show ?thesis using Answered I(1) by (auto simp: phase_step_def info_of_def)
  qed
qed

section \<open>Properties of the client\<close>

text \<open>C9: The whole client program with its threads, for valid arguments and an index that \<open>fileset.c\<close> made, with \<open>random\<close> never 0 and a server
  that has the files of the set (\<open>serves_files\<close>: text files shorter than MAXBUF, servable names with nonnegative hashes, room in the
  sockets, NULL in pointers that are never set): \<open>main\<close> gets to the threads, and however the main thread, the client's threads and the server
  interleave, every thread that has not returned can take its next step without a fault or an endless loop, some step is possible until the process
  has exited, every step does a part of a finite amount of work, and at the exit each thread has made its \<open>nr_times\<close> requests.\<close>

theorem client_threads_succeed:
  assumes "fileset_main file_sz nr_files dir rand = Some (written, index)" "word dir" "\<forall>k. length (rand k) < 2 ^ 31"
    "written \<noteq> []" "healthy es" "bytes_of es = index" "serves_files dk mm room host written" "faithful chunks" "rounds rnd"
    "\<forall>i. 0 < rs i \<and> rs i \<le> RAND_MAX" "client_args argv = Some (cl, Some nm)" "0 \<le> fd" "0 \<le> rfd" "got = 4"
    "open_clientfd succeeds dns sock connect (cl_host cl) (cl_port cl) = Some (Done c)"
    "stp = phase_step rnd rs (open_clientfd succeeds dns sock connect (cl_host cl) (cl_port cl))
    (web_server dk (limit m) mm chunks room) room host (map info_of written)"
  shows "\<exists>w0. client_main fd es rfd got seed (cache_table_initialization (\<lambda>_. Null)) argv = Some (Done (cl, map info_of written, w0)) \<and>
    (\<forall>w. (cstep stp cl)\<^sup>*\<^sup>* w0 w \<longrightarrow>
      (\<forall>p \<in> set (cl_threads w). p = Asking 0 \<or> (\<exists>st p'. stp (shared w) p = Some (Done (st, p')))) \<and>
      (cl_pc w \<noteq> Left \<longrightarrow> (\<exists>w'. cstep stp cl w w')) \<and> (\<forall>w'. cstep stp cl w w' \<longrightarrow> work cl w' < work cl w) \<and>
      (cl_pc w = Left \<longrightarrow> snd (shared w) = nat (cl_nr_threads cl) * nat (nr_times cl)))"
proof -
  let ?w0 = "\<lparr>shared = (cache_table_initialization (\<lambda>_. Null), 0), cl_threads = [], cl_pc = Creating 0\<rparr>"
  have F: "index = print_d (int (length written)) @ [newline] @ index_text written" "length written < 2 ^ 31"
    "\<forall>f \<in> set written. indexed f" using fileset_main_indexed [OF assms(1-3)] by auto
  have "init_fileset es = Some (Done (map info_of written))"
    by (rule init_fileset_reads) (use F assms(4-6) in auto)
  moreover have "init_random rfd got seed = Done seed" using assms(13,14) by (simp add: init_random_def word_less_def)
  ultimately have start: "client_main fd es rfd got seed (cache_table_initialization (\<lambda>_. Null)) argv = Some (Done (cl, map info_of written, ?w0))"
    using assms(11,12) by (simp add: client_main_def SYS_def)
  let ?ok = "phase_ok mm dk host written" and ?good = "disk_cache.holds m (kept dk)"
  have S: "phase_serves ?ok ?good stp"
    unfolding assms(16) by (rule phase_step_serves [OF assms(7-9,4) F(2) assms(1-3,10,15)])
  have I: "session_inv ?ok ?good cl w" if "(cstep stp cl)\<^sup>*\<^sup>* ?w0 w" for w
    by (rule session_runs [OF that _ S]) (simp_all add: session_inv_def created_now_def initial_holds)
  have "p = Asking 0 \<or> (\<exists>st p'. stp (shared w) p = Some (Done (st, p')))" if "(cstep stp cl)\<^sup>*\<^sup>* ?w0 w" "p \<in> set (cl_threads w)" for w p
  proof -
    obtain s n where sh: "shared w = (s, n)" by (cases "shared w")
    have "?good s" "?ok p" using I [OF that(1)] that(2) sh by (simp_all add: session_inv_def)
    then show ?thesis using S sh unfolding phase_serves_def by (metis (no_types, lifting))
  qed
  moreover have "snd (shared w) = nat (cl_nr_threads cl) * nat (nr_times cl)" if "(cstep stp cl)\<^sup>*\<^sup>* ?w0 w" "cl_pc w = Left" for w
  proof -
    have l: "length (cl_threads w) = nat (cl_nr_threads cl)" "\<forall>j < length (cl_threads w). cl_threads w ! j = Asking 0"
      using I [OF that(1)] that(2) by (simp_all add: session_inv_def created_now_def)
    then have "cl_threads w = replicate (nat (cl_nr_threads cl)) (Asking 0)" by (intro nth_equalityI) simp_all
    then show ?thesis using I [OF that(1)] that(2) by (simp add: session_inv_def created_now_def sum_list_replicate)
  qed
  ultimately show ?thesis using start session_progress [OF I S] cstep_inv [OF _ I S] by (intro exI [of _ ?w0]) simp
qed

theorem client_threads_succeed_witness:
  "\<exists>cl w0. client_main 3 [Data (print_d 2 @ [newline] @ index_text small_files)] 3 4 7 (cache_table_initialization (\<lambda>_. Null))
      [''client'', ''h'', ''8080'', ''10'', ''3'', ''e.idx''] = Some (Done (cl, map info_of small_files, w0)) \<and>
    (\<exists>w'. cstep (phase_step (\<lambda>x. x) (\<lambda>_. 1) (open_clientfd (\<lambda>_. True) (\<lambda>_ _. (0, Some [127, 0, 0, 1])) 3 (\<lambda>_ _. 0) (cl_host cl) (cl_port cl))
      (web_server small_disk (limit 100) sample_mem (\<lambda>bs. if bs = [] then [] else [Data bs]) small_room) small_room ''h'' (map info_of small_files)) cl w0 w')"
proof -
  let ?cl = "\<lparr>cl_host = ''h'', cl_port = 8080, nr_times = 10, cl_nr_threads = 3, timing_mode = False\<rparr>"
  have w: "word ''e''" by (simp add: word_def isspace_def NUL_def)
  have f: "faithful (\<lambda>bs. if bs = [] then [] else [Data bs])" by (simp add: faithful_def)
  have a: "client_args [''client'', ''h'', ''8080'', ''10'', ''3'', ''e.idx''] = Some (?cl, Some ''e.idx'')" by code_simp
  have "lookup_host (\<lambda>_. True) (\<lambda>_. (0, Some [127, 0, 0, 1])) 1024 0 = Some (Done ([127, 0, 0, 1], 1))"
    by (subst lookup_host.simps) (simp add: ERANGE_def)
  then obtain c where c: "open_clientfd (\<lambda>_. True) (\<lambda>_ _. (0, Some [127, 0, 0, 1])) 3 (\<lambda>_ _. 0) (cl_host ?cl) (cl_port ?cl) = Some (Done c)"
    by (simp add: open_clientfd_def Let_def SYS_def)
  have n: "small_files \<noteq> []" by (simp add: small_files_def)
  let ?es = "[Data (print_d 2 @ [newline] @ index_text small_files)]"
  have h: "healthy ?es" "bytes_of ?es = print_d 2 @ [newline] @ index_text small_files" "\<forall>i :: nat. 0 < (1 :: int) \<and> 1 \<le> RAND_MAX"
    "(0 :: int) \<le> 3" "(4 :: int) = 4" "\<forall>k :: nat. length (replicate 5000 (0 :: nat)) < 2 ^ 31" by (simp_all add: RAND_MAX_def)
  note T = client_threads_succeed [where m = 100 and seed = 7, OF small_fileset w h(6) n h(1,2) small_serves f rounds_exact h(3) a h(4,4,5) c refl]
  from T obtain w0 where w0: "client_main 3 ?es 3 4 7 (cache_table_initialization (\<lambda>_. Null))
      [''client'', ''h'', ''8080'', ''10'', ''3'', ''e.idx''] = Some (Done (?cl, map info_of small_files, w0))"
    and p: "cl_pc w0 \<noteq> Left \<longrightarrow> (\<exists>w'. cstep (phase_step (\<lambda>x. x) (\<lambda>_. 1) (open_clientfd (\<lambda>_. True) (\<lambda>_ _. (0, Some [127, 0, 0, 1])) 3 (\<lambda>_ _. 0) (cl_host ?cl) (cl_port ?cl))
      (web_server small_disk (limit 100) sample_mem (\<lambda>bs. if bs = [] then [] else [Data bs]) small_room) small_room ''h'' (map info_of small_files)) ?cl w0 w')"
    by blast
  have "cl_pc w0 = Creating 0" using w0 a by (auto simp: client_main_def)
  then have "cl_pc w0 \<noteq> Left" by simp
  with p have p: "\<exists>w'. cstep (phase_step (\<lambda>x. x) (\<lambda>_. 1) (open_clientfd (\<lambda>_. True) (\<lambda>_ _. (0, Some [127, 0, 0, 1])) 3 (\<lambda>_ _. 0) (cl_host ?cl) (cl_port ?cl))
      (web_server small_disk (limit 100) sample_mem (\<lambda>bs. if bs = [] then [] else [Data bs]) small_room) small_room ''h'' (map info_of small_files)) ?cl w0 w'"
    by (rule mp)
  show ?thesis by (rule exI [of _ ?cl], rule exI [of _ w0], rule conjI [OF w0 p])
qed

end
