(* ===== verification/Web_Simple.thy ===== *)
theory Web_Simple
  imports Web_Main
begin

text \<open>
  The simple client \<open>src/webserver/client_simple.c\<close>, which prints the response of one request, against the server; and
  \<open>request_processfile\<close> of \<open>src/webserver/request.c\<close>, the extra work of the server on a file.
\<close>

section \<open>client\_simple.c\<close>

text \<open>The loop of \<open>client_print\<close> over the header: \<open>length\<close>, and \<open>out\<close> for what was printed. \<open>client_send\<close> is the one of \<open>client.c\<close>.\<close>

partial_function (option) simple_headers ::
  "nat \<Rightarrow> char list option \<Rightarrow> int \<Rightarrow> char list \<Rightarrow> rio \<Rightarrow> (int \<times> char list \<times> rio) outcome option"
where
  "simple_headers n buf len out rp =
     (case buf of None \<Rightarrow> Some Fault
      | Some b \<Rightarrow>
          if c_str b \<noteq> crlf \<and> 0 < n then
            let out = out @ ''Header: '' @ c_str b
            in (case Rio_readlineb rp buf MAXBUF of
                  Fault \<Rightarrow> Some Fault | Exits \<Rightarrow> Some Exits
                | Done (n, buf, rp) \<Rightarrow>
                    let s = (case buf of None \<Rightarrow> [] | Some b \<Rightarrow> c_str b);
                        len = (case sscanf_number ''Content-Length:'' s of None \<Rightarrow> len | Some v \<Rightarrow> store_d v)
                    in simple_headers n buf len out rp)
          else Some (Done (len, out, rp)))"

text \<open>The loop over the body; the standard output takes every byte.\<close>

partial_function (option) simple_body :: "int \<Rightarrow> char list \<Rightarrow> rio \<Rightarrow> (int \<times> char list) outcome option" where
  "simple_body length_received out rp =
     (case Rio_readlineb rp (Some []) MAXBUF of
        Fault \<Rightarrow> Some Fault | Exits \<Rightarrow> Some Exits
      | Done (n, buf, rp) \<Rightarrow>
          let out = out @ take n (case buf of None \<Rightarrow> [] | Some b \<Rightarrow> b); length_received = s32 (length_received + int n)
          in if n = 0 then Some (Done (length_received, out)) else simple_body length_received out rp)"

definition simple_print :: "read_event list \<Rightarrow> char list outcome option" where
  "simple_print es =
     andthen (Some (Rio_readlineb (rio_init es) None MAXBUF)) (\<lambda>(n, buf, rp).
     andthen (simple_headers n buf 0 [] rp) (\<lambda>(len, out, rp).
     andthen (simple_body 0 out rp) (\<lambda>(length_received, out).
     andthen (check (len \<noteq> 0 \<longrightarrow> len = length_received)) (\<lambda>_. Some (Done out)))))"

text \<open>\<open>main\<close>: \<open>clientfd\<close> is the result of \<open>open_clientfd\<close> for a host and a port; \<open>server\<close> answers what is sent to it.\<close>

definition client_simple ::
  "(char list \<Rightarrow> int \<Rightarrow> (int \<times> sockaddr_in \<times> int) outcome option) \<Rightarrow> ('s \<Rightarrow> char list \<Rightarrow> ('s \<times> read_event list) outcome option) \<Rightarrow>
   write_event list \<Rightarrow> int \<Rightarrow> char list list \<Rightarrow> 's \<Rightarrow> ('s \<times> char list) outcome option"
where
  "client_simple clientfd server room close_ret argv s =
     (if length argv \<noteq> 4 then Some Exits
      else let host = argv ! 1; port = atoi (argv ! 2); filename = argv ! 3
        in andthen (clientfd host port) (\<lambda>_.
           andthen (client_send host filename \<lparr>conn_in = [], conn_out = room, conn_sent = [], conn_open = True\<rparr>) (\<lambda>c.
           andthen (server s (conn_sent c)) (\<lambda>(s, es).
           andthen (simple_print es) (\<lambda>out.
           andthen (Some (SYS close_ret)) (\<lambda>_. Some (Done (s, out))))))))"

section \<open>request\_processfile\<close>

text \<open>The value of \<open>dummy\<close> after the loops; a read behind the end of the buffer's block that faults is a fault.\<close>

definition request_processfile :: "mem \<Rightarrow> file_data \<Rightarrow> int outcome option" where
  "request_processfile mm d =
     andthen (demand (block_read mm (file_buf d) (nat (file_size d)))) (\<lambda>bs.
       Some (Done (fold (\<lambda>c dummy. s32 (dummy + of_char c)) (concat (replicate 8 bs)) 0)))"

section \<open>What the client prints\<close>

definition printed_header :: "char list list \<Rightarrow> char list" where
  "printed_header ls = concat (map (\<lambda>l. ''Header: '' @ l @ [newline]) ls)"

lemma printed_header_simps [simp]: "printed_header [] = []" "printed_header (l # ls) = ''Header: '' @ l @ [newline] @ printed_header ls"
  by (simp_all add: printed_header_def)

lemma simple_headers_step:
  assumes "Rio_readlineb rp (Some b) MAXBUF = Done (n', Some b', rp')" "c_str b \<noteq> crlf" "0 < n"
  shows "simple_headers n (Some b) len out rp =
    simple_headers n' (Some b') (fst (scan_line (c_str b') (len, csum))) (out @ ''Header: '' @ c_str b) rp'"
  using assms by (subst simple_headers.simps) (simp add: scan_line_def Let_def)

lemma simple_headers_stop: "simple_headers n (Some [CHR 0x0D, newline, NUL]) len out rp = Some (Done (len, out, rp))"
  by (subst simple_headers.simps) (simp add: c_str_crlf)

lemma simple_headers_reads:
  assumes "\<forall>l \<in> set ls. header_line MAXBUF l \<and> NUL \<notin> set l" "rio_good rp" "rio_stream rp = header_text ls @ rest"
    "c_str b \<noteq> crlf" "0 < n" "fold scan_line (map (\<lambda>l. l @ [newline]) ls) (len, csum) = (len', csum')"
  shows "\<exists>rp'. simple_headers n (Some b) len out rp = Some (Done (len', out @ ''Header: '' @ c_str b @ printed_header ls, rp')) \<and>
    rio_good rp' \<and> rio_stream rp' = rest"
  using assms
proof (induction ls arbitrary: b rp n len csum out)
  case Nil
  then obtain rp' where r: "Rio_readlineb rp (Some b) MAXBUF = Done (2, Some [CHR 0x0D, newline, NUL], rp')"
    "rio_good rp'" "rio_stream rp' = rest"
    using Rio_readlineb_crlf [of rp rest MAXBUF "Some b"] by (auto simp: header_text_def MAXBUF_def)
  from simple_headers_step [OF r(1) Nil.prems(4,5), where csum = csum] scan_line_crlf [of "(len, csum)"] Nil.prems(6) r(2,3)
  show ?case by (simp add: c_str_crlf simple_headers_stop)
next
  case (Cons l ls)
  have l: "newline \<notin> set l" "Suc (length l) < MAXBUF" "c_str (l @ [newline, NUL]) \<noteq> crlf" "NUL \<notin> set l"
    using Cons.prems(1) by (auto simp: header_line_def)
  obtain len1 csum1 where s1: "scan_line (l @ [newline]) (len, csum) = (len1, csum1)" by fastforce
  have c: "c_str (l @ [newline, NUL]) = l @ [newline]" using c_str_line [of "l @ [newline]" "[]"] l(4) by simp
  have "rio_stream rp = l @ newline # header_text ls @ rest" using Cons.prems(3) by (simp add: header_text_def)
  from Rio_readlineb_line [OF Cons.prems(2) this l(1,2), of "Some b"] obtain rp1 where
    rp1: "Rio_readlineb rp (Some b) MAXBUF = Done (Suc (length l), Some (l @ [newline, NUL]), rp1)"
    "rio_good rp1" "rio_stream rp1 = header_text ls @ rest" by blast
  have "simple_headers n (Some b) len out rp =
      simple_headers (Suc (length l)) (Some (l @ [newline, NUL])) len1 (out @ ''Header: '' @ c_str b) rp1"
    using simple_headers_step [OF rp1(1) Cons.prems(4,5), where csum = csum] c s1 by simp
  with Cons.IH [OF _ rp1(2,3) l(3), of "Suc (length l)" len1 csum1 "out @ ''Header: '' @ c_str b"] Cons.prems(1,6) s1 c show ?case
    by simp
qed

lemma simple_body_reads:
  assumes "rio_good rp" "short_lines (MAXBUF - 2) (MAXBUF - 2) (rio_stream rp)" "0 \<le> len"
    "len + int (length (rio_stream rp)) < 2 ^ 31"
  shows "simple_body len out rp = Some (Done (len + int (length (rio_stream rp)), out @ rio_stream rp))"
  using assms
proof (induction "length (rio_stream rp)" arbitrary: rp len out rule: less_induct)
  case less
  show ?case
  proof (cases "rio_stream rp = []")
    case True
    with Rio_readlineb_end [OF less.prems(1) True, of MAXBUF "Some []"] show ?thesis
      using less.prems(3,4) by (subst simple_body.simps) (auto simp: MAXBUF_def s32_id Let_def)
  next
    case False
    let ?l = "take_line MAXBUF (rio_stream rp)"
    have m: "Suc (MAXBUF - 2) < MAXBUF" by (simp add: MAXBUF_def)
    from short_lines_take_line [OF less.prems(2) m]
    have s: "length ?l < MAXBUF" "short_lines (MAXBUF - 2) (MAXBUF - 2) (drop (length ?l) (rio_stream rp))"
      using m by auto
    from Rio_readlineb_take_line [OF less.prems(1) False s(1), of "Some []"] obtain rp1 where
      rp1: "Rio_readlineb rp (Some []) MAXBUF = Done (length ?l, Some (?l @ [NUL]), rp1)" "rio_good rp1"
        "rio_stream rp1 = drop (length ?l) (rio_stream rp)" by blast
    have l: "0 < length ?l" "length ?l \<le> length (rio_stream rp)" "?l @ rio_stream rp1 = rio_stream rp"
      using take_line_pos [OF False, of MAXBUF] length_take_line(2) [of MAXBUF "rio_stream rp"]
        take_line_prefix [of MAXBUF "rio_stream rp"] rp1(3) append_take_drop_id [of "length ?l" "rio_stream rp"]
      by (auto simp: MAXBUF_def)
    have lt: "length (rio_stream rp1) < length (rio_stream rp)" using rp1(3) l(1,2) by (simp del: length_greater_0_conv)
    have len: "s32 (len + int (length ?l)) = len + int (length ?l)" using less.prems(3,4) l(2) by (intro s32_id) auto
    have "simple_body len out rp = simple_body (len + int (length ?l)) (out @ ?l) rp1"
      using rp1(1) l(1) len by (subst simple_body.simps) (simp add: Let_def)
    also have "... = Some (Done (len + int (length ?l) + int (length (rio_stream rp1)), (out @ ?l) @ rio_stream rp1))"
      by (rule less.hyps [OF lt rp1(2)]) (use rp1(3) l(2) s(2) less.prems in auto)
    also have "... = Some (Done (len + int (length (rio_stream rp)), out @ rio_stream rp))"
      using l(3) rp1(3) l(2) by simp
    finally show ?thesis .
  qed
qed

lemma simple_print_response:
  assumes "healthy es" "bytes_of es = response_header (request_get_file_type nm) (int (length bs)) (csum_of bs) @ bs"
    "length bs < 2 ^ 31" "short_lines (MAXBUF - 2) (MAXBUF - 2) bs"
  shows "simple_print es = Some (Done (printed_header (response_lines (request_get_file_type nm) (length bs) (csum_of bs)) @ bs))"
proof -
  define l where "l = ''HTTP/1.0 200 OK'' @ [CHR 0x0D :: char]"
  define ls where "ls = tl (response_lines (request_get_file_type nm) (length bs) (csum_of bs))"
  have ll: "response_lines (request_get_file_type nm) (length bs) (csum_of bs) = l # ls"
    by (simp add: l_def ls_def response_lines_def)
  have ok: "\<forall>k \<in> set (l # ls). header_line MAXBUF k \<and> NUL \<notin> set k"
    using response_lines_ok [OF assms(3) file_type_plain, of nm "csum_of bs"] ll by simp
  then have l: "newline \<notin> set l" "Suc (length l) < MAXBUF" "c_str (l @ [newline, NUL]) \<noteq> crlf" "NUL \<notin> set l"
    by (auto simp: header_line_def)
  have c: "c_str (l @ [newline, NUL]) = l @ [newline]" using c_str_line [of "l @ [newline]" "[]"] l(4) by simp
  have "scan_line (l @ [newline]) (0, 0) = (0, 0)" by (simp add: l_def scan_line_def sscanf_number_def)
  then have f: "fold scan_line (map (\<lambda>l. l @ [newline]) ls) (0, 0) = (int (length bs), csum_of bs)"
    using fold_response_lines [OF assms(3), of "request_get_file_type nm" "csum_of bs" 0 0] ll by simp
  have "rio_stream (rio_init es) = l @ newline # header_text ls @ bs"
    using assms(2) ll by (simp add: response_header_lines header_text_def)
  from Rio_readlineb_line [OF _ this l(1,2), of None] assms(1) obtain rp where
    rp: "Rio_readlineb (rio_init es) None MAXBUF = Done (Suc (length l), Some (l @ [newline, NUL]), rp)"
    "rio_good rp" "rio_stream rp = header_text ls @ bs" by auto
  from simple_headers_reads [OF _ rp(2,3) l(3) _ f, of "Suc (length l)" "[]"] ok c obtain rp2 where
    rp2: "simple_headers (Suc (length l)) (Some (l @ [newline, NUL])) 0 [] rp =
        Some (Done (int (length bs), printed_header (l # ls), rp2))" "rio_good rp2" "rio_stream rp2 = bs" by auto
  from simple_body_reads [OF rp2(2), of 0 "printed_header (l # ls)"] rp2(3) assms(3,4) have
    "simple_body 0 (printed_header (l # ls)) rp2 = Some (Done (int (length bs), printed_header (l # ls) @ bs))" by simp
  then show ?thesis using rp(1) rp2(1) ll by (simp add: simple_print_def)
qed

section \<open>Properties\<close>

text \<open>C11: The simple client and the server together, on good input (\<open>clients_ok\<close>, and lines shorter than MAXBUF - 2): for a file that the server serves, \<open>client_simple\<close> prints
  the five lines of the header, each after \<open>Header:\<close>, and then exactly the bytes of the file, however the network splits them.\<close>

theorem client_simple_shows_file:
  assumes "clientfd host (atoi port) = Some (Done c)" "0 \<le> close_ret" "sendable_request host name" "faithful chunks"
    "clients_ok dk {mm} [\<lparr>conn_in = chunks (client_request_text host name), conn_out = room, conn_sent = [], conn_open = True\<rparr>]
       (\<lambda>_. host) (\<lambda>_. name) (\<lambda>_. f)"
    "writable (length (client_request_text host name)) room" "disk_cache.holds m (kept dk) cache"
    "st_size f < 2 ^ 31" "short_lines (MAXBUF - 2) (MAXBUF - 2) (file_bytes f)" "dk (''./'' @ name) = Some f"
  shows "\<exists>cache'. client_simple clientfd (web_server dk (limit m) mm chunks room) room close_ret [prog, host, port, name] cache =
      Some (Done (cache', printed_header (response_lines (request_get_file_type (''./'' @ name)) (st_size f) (csum_of (file_bytes f))) @ file_bytes f)) \<and>
    disk_cache.holds m (kept dk) cache'"
proof -
  let ?t = "client_request_text host name"
  let ?cl = "\<lparr>conn_in = [], conn_out = room, conn_sent = [], conn_open = True\<rparr>"
  let ?h = "response_header (request_get_file_type (''./'' @ name)) (int (st_size f)) (csum_of (file_bytes f))"
  have len: "length (file_bytes f) = st_size f" using assms(5,10) length_file_bytes by (auto simp: clients_ok_def)
  have chunks: "healthy (chunks bs)" "bytes_of (chunks bs) = bs" for bs using assms(4) by (simp_all add: faithful_def)
  have "writable (length ?t + 0) (conn_out ?cl)" using assms(6) by simp
  from Rio_write_delivers [OF this] assms(3) obtain cl where
    cl: "client_send host name ?cl = Some (Done cl)" "conn_sent cl = ?t" by (auto simp: client_send_def sendable_request_def)
  from do_server_request_serves [OF assms(5), of 0 mm m cache] assms(7) obtain cache' c' where
    s: "do_server_request dk (limit m) mm cache \<lparr>conn_in = chunks ?t, conn_out = room, conn_sent = [], conn_open = True\<rparr> = Some (Done (cache', c'))"
    "disk_cache.holds m (kept dk) cache'" "conn_sent c' = ?h @ file_bytes f" by auto
  have "simple_print (chunks (?h @ file_bytes f)) =
      Some (Done (printed_header (response_lines (request_get_file_type (''./'' @ name)) (st_size f) (csum_of (file_bytes f))) @ file_bytes f))"
    using simple_print_response [OF chunks(1), of "?h @ file_bytes f" "''./'' @ name" "file_bytes f"] chunks(2) len assms(8,9) by simp
  then show ?thesis using assms(1,2) cl s by (simp add: client_simple_def web_server_def SYS_def Let_def)
qed

theorem client_simple_shows_file_witness:
  "\<exists>cache'. client_simple (open_clientfd (\<lambda>_. True) (\<lambda>_ _. (0, Some [127, 0, 0, 1])) 3 (\<lambda>_ _. 0))
      (web_server sample_disk (limit 100) sample_mem (\<lambda>bs. if bs = [] then [] else [Data bs]) (replicate 200 (Wrote 1))) (replicate 200 (Wrote 1)) 0
      [''client_simple'', ''h'', ''8080'', ''a.txt''] (cache_table_initialization (\<lambda>_. Null)) =
    Some (Done (cache', printed_header (response_lines (request_get_file_type ''./a.txt'') 3 (csum_of (file_bytes sample_file))) @ file_bytes sample_file))"
proof -
  let ?room = "replicate 200 (Wrote 1)" and ?chunks = "\<lambda>bs :: char list. if bs = [] then [] else [Data bs]"
  have f: "faithful ?chunks" by (simp add: faithful_def)
  have "client_request_text ''h'' ''a.txt'' \<noteq> []" by (simp add: client_request_text_def)
  then have "\<lparr>conn_in = ?chunks (client_request_text ''h'' ''a.txt''), conn_out = ?room, conn_sent = [], conn_open = True\<rparr> = sample_conn"
    by (simp add: sample_conn_def)
  with two_clients_ok have c: "clients_ok sample_disk {sample_mem}
      [\<lparr>conn_in = ?chunks (client_request_text ''h'' ''a.txt''), conn_out = ?room, conn_sent = [], conn_open = True\<rparr>]
      (\<lambda>_. ''h'') (\<lambda>_. ''a.txt'') (\<lambda>_. sample_file)" by (auto simp: clients_ok_def two_conns_def)
  have r: "sendable_request ''h'' ''a.txt''" using sample_gets by (simp add: gets_def)
  have "length (client_request_text ''h'' ''a.txt'') \<le> 200" by code_simp
  then have w: "writable (length (client_request_text ''h'' ''a.txt'')) ?room" by (simp add: writable_def)
  have sl: "short_lines (MAXBUF - 2) (MAXBUF - 2) (file_bytes sample_file)" by (simp add: sample_bytes MAXBUF_def newline_def)
  have sz: "st_size sample_file < 2 ^ 31" "sample_disk (''./'' @ ''a.txt'') = Some sample_file" by (simp_all add: sample_file_def sample_disk_def)
  have "lookup_host (\<lambda>_. True) (\<lambda>_. (0, Some [127, 0, 0, 1])) 1024 0 = Some (Done ([127, 0, 0, 1], 1))"
    by (subst lookup_host.simps) (simp add: ERANGE_def)
  then obtain fd where fd: "open_clientfd (\<lambda>_. True) (\<lambda>_ _. (0, Some [127, 0, 0, 1])) 3 (\<lambda>_ _. 0) ''h'' (atoi ''8080'') = Some (Done fd)"
    by (simp add: open_clientfd_def Let_def SYS_def)
  have "st_size sample_file = 3" by (simp add: sample_file_def)
  with client_simple_shows_file [where m = 100 and close_ret = 0 and prog = "''client_simple''" and
      clientfd = "open_clientfd (\<lambda>_. True) (\<lambda>_ _. (0, Some [127, 0, 0, 1])) 3 (\<lambda>_ _. 0)" and host = "''h''" and port = "''8080''" and
      chunks = ?chunks, OF fd _ r f c w initial_holds sz(1) sl sz(2)]
  show ?thesis by auto
qed

text \<open>When the server closes the connection without a byte, the client compares a buffer that was never written.\<close>

theorem silent_server_is_a_fault: "healthy es \<Longrightarrow> bytes_of es = [] \<Longrightarrow> simple_print es = Some Fault"
  using Rio_readlineb_end [of "rio_init es" MAXBUF None]
  by (auto simp: simple_print_def MAXBUF_def) (subst simple_headers.simps, simp)+

text \<open>The extra work of \<open>request_processfile\<close> never faults where \<open>request_sendfile\<close> can read the file, and its counter is exact for files
  of up to 1052688 bytes; for larger ones it may overflow its \<open>int\<close>.\<close>

theorem processfile_exact:
  assumes "block_read mm (file_buf d) (nat (file_size d)) = Some bs" "length bs \<le> 1052688"
  shows "request_processfile mm d = Some (Done (8 * sum_list (map of_char bs)))"
proof -
  have b: "(0 :: int) \<le> sum_list (map of_char bs) \<and> sum_list (map of_char bs :: int list) \<le> 255 * int (length bs)" for bs :: "char list"
  proof (induction bs)
    case (Cons c bs)
    have "of_char c mod (256 :: int) = of_char c" by (cases c) (simp add: of_char_def char_of_def horner_sum_foldr)
    then have "0 \<le> (of_char c :: int) \<and> (of_char c :: int) < 256"
      using pos_mod_bound [of "256 :: int" "of_char c"] pos_mod_sign [of "256 :: int" "of_char c"] by linarith
    then show ?case using Cons by simp
  qed simp
  have "fold (\<lambda>c dummy. s32 (dummy + of_char c)) cs k = k + sum_list (map of_char cs)"
    if "0 \<le> k" "k + 255 * int (length cs) < 2 ^ 31" for cs k
    using that
  proof (induction cs arbitrary: k)
    case (Cons c cs)
    have c: "0 \<le> (of_char c :: int)" "(of_char c :: int) \<le> 255" using b [of "[c]"] by simp_all
    then have "s32 (k + of_char c) = k + of_char c" using Cons.prems by (intro s32_id) simp_all
    then show ?case using Cons.IH [of "k + of_char c"] Cons.prems c by simp
  qed simp
  moreover have "length (concat (replicate n bs)) = n * length bs"
    "sum_list (map of_char (concat (replicate n bs))) = (int n * sum_list (map of_char bs) :: int)" for n
    by (induction n) (simp_all add: algebra_simps)
  ultimately show ?thesis using assms by (simp add: request_processfile_def)
qed

end
