(* ===== verification/Web_Memory.thy ===== *)
theory Web_Memory
  imports Prelude "HOL-Library.Multiset"
begin

text \<open>
  The memory of the web server (\<open>src/webserver/server_thread.c\<close> and \<open>request.c\<close>): the blocks that a request and the cache
  allocate and free, for any interleaving of the workers and every outcome of the tests on contents, which are
  choices here. A \<open>free\<close> of a block that is not allocated and the copy of a NULL buffer are faults.
\<close>

section \<open>malloc and free\<close>

text \<open>The blocks allocated, and an address from which on none was ever used. \<open>malloc\<close> succeeds.\<close>

record mheap =
  live :: "nat set"
  fresh :: nat

definition m_alloc :: "mheap \<Rightarrow> nat \<times> mheap" where
  "m_alloc h = (fresh h, h\<lparr>live := insert (fresh h) (live h), fresh := Suc (fresh h)\<rparr>)"

definition m_free :: "nat option \<Rightarrow> mheap \<Rightarrow> mheap option" where
  "m_free p h =
     (case p of None \<Rightarrow> Some h
      | Some a \<Rightarrow> if a \<in> live h then Some (h\<lparr>live := live h - {a}\<rparr>) else None)"

text \<open>\<open>strdup\<close> of a pointer.\<close>

definition m_strdup :: "nat option \<Rightarrow> mheap \<Rightarrow> (nat \<times> mheap) option" where
  "m_strdup p h = (case p of None \<Rightarrow> None | Some a \<Rightarrow> if a \<in> live h then Some (m_alloc h) else None)"

section \<open>File data\<close>

record fdata =
  fd_self :: nat
  fd_name :: "nat option"
  fd_buf :: "nat option"

definition m_file_data_init :: "mheap \<Rightarrow> fdata \<times> mheap" where
  "m_file_data_init h = (let (a, h) = m_alloc h in (\<lparr>fd_self = a, fd_name = None, fd_buf = None\<rparr>, h))"

definition file_data_free :: "fdata \<Rightarrow> mheap \<Rightarrow> mheap option" where
  "file_data_free d h = do { h \<leftarrow> m_free (fd_name d) h; h \<leftarrow> m_free (fd_buf d) h; m_free (Some (fd_self d)) h }"

section \<open>A request\<close>

text \<open>Where a worker is in \<open>do_server_request\<close>, with its \<open>data\<close> and \<open>rq\<close>: not in it; after \<open>request_init\<close>; after a \<open>request_readfile\<close>
  that succeeded; about to send; at the label \<open>out\<close>.\<close>

datatype serving = Idle | Parsed fdata nat | Loaded fdata nat | Sends fdata nat | Leaves fdata nat

text \<open>Up to the return of \<open>request_init\<close>; \<open>get\<close> says whether the method is GET. Otherwise the request is refused and done.\<close>

definition mem_begin :: "bool \<Rightarrow> mheap \<Rightarrow> (serving \<times> mheap) option" where
  "mem_begin get h =
     (let (d, h) = m_file_data_init h; (rq, h) = m_alloc h; (nm, h) = m_alloc h;
          d = d\<lparr>fd_name := Some nm, fd_buf := None\<rparr>; (rio, h) = m_alloc h
      in do {
        h \<leftarrow> m_free (Some rio) h;
        if get then Some (Parsed d rq, h)
        else do { h \<leftarrow> m_free (Some rq) h; h \<leftarrow> file_data_free d h; Some (Idle, h) } })"

text \<open>The file was found in the cache: the buffer of the entry is copied.\<close>

definition mem_hit :: "fdata \<Rightarrow> nat \<Rightarrow> fdata \<Rightarrow> mheap \<Rightarrow> (serving \<times> mheap) option" where
  "mem_hit d rq entry h = do { (b, h) \<leftarrow> m_strdup (fd_buf entry) h; Some (Sends (d\<lparr>fd_buf := Some b\<rparr>) rq, h) }"

text \<open>\<open>request_readfile\<close>: \<open>ok\<close> is its result, \<open>nonempty\<close> whether the file has bytes, \<open>caching\<close> whether an insertion follows.\<close>

definition mem_read :: "bool \<Rightarrow> bool \<Rightarrow> bool \<Rightarrow> fdata \<Rightarrow> nat \<Rightarrow> mheap \<Rightarrow> serving \<times> mheap" where
  "mem_read ok nonempty caching d rq h =
     (if \<not> ok then (Leaves d rq, h)
      else let (d, h) = (if nonempty then (let (b, h) = m_alloc h in (d\<lparr>fd_buf := Some b\<rparr>, h)) else (d, h))
        in (if caching then Loaded d rq else Sends d rq, h))"

text \<open>\<open>cache_insert\<close> when it makes an entry: the block of the entry and its data.\<close>

definition mem_insert :: "fdata \<Rightarrow> mheap \<Rightarrow> ((nat \<times> fdata) \<times> mheap) option" where
  "mem_insert d h =
     (let (e, h) = m_alloc h; (ed, h) = m_file_data_init h
      in do {
        (b, h) \<leftarrow> m_strdup (fd_buf d) h;
        (nm, h) \<leftarrow> m_strdup (fd_name d) h;
        Some ((e, ed\<lparr>fd_buf := Some b, fd_name := Some nm\<rparr>), h) })"

text \<open>After the label \<open>out\<close>.\<close>

definition mem_leave :: "fdata \<Rightarrow> nat \<Rightarrow> mheap \<Rightarrow> mheap option" where
  "mem_leave d rq h = do { h \<leftarrow> m_free (Some rq) h; file_data_free d h }"

section \<open>The server\<close>

text \<open>The blocks of \<open>server_init\<close>: the server, \<open>conn_buf\<close>, the cache, its table, its LRU queue and the array of threads.\<close>

record smem =
  mem_heap :: mheap
  b_server :: nat
  b_conn :: nat
  b_cache :: nat
  b_table :: nat
  b_lru :: nat
  b_threads :: nat
  cached :: "(nat \<times> fdata) list"
  serving :: "serving list"

definition mem_init :: "nat \<Rightarrow> mheap \<Rightarrow> smem" where
  "mem_init n h =
     (let (sv, h) = m_alloc h; (cb, h) = m_alloc h; (ct, h) = m_alloc h; (tab, h) = m_alloc h; (q, h) = m_alloc h; (th, h) = m_alloc h
      in \<lparr>mem_heap = h, b_server = sv, b_conn = cb, b_cache = ct, b_table = tab, b_lru = q, b_threads = th, cached = [],
          serving = replicate n Idle\<rparr>)"

text \<open>What the worker \<open>i\<close> may do next. The fields chosen freely are the outcomes of the tests: the method, the result of
  \<open>request_readfile\<close>, whether the file has bytes, whether the cache has room. A step whose operation is a fault does not exist.\<close>

inductive mem_step :: "smem \<Rightarrow> smem \<Rightarrow> bool" where
  begins: "i < length (serving s) \<Longrightarrow> serving s ! i = Idle \<Longrightarrow> mem_begin get (mem_heap s) = Some (w, h) \<Longrightarrow>
    mem_step s (s\<lparr>mem_heap := h, serving := (serving s)[i := w]\<rparr>)"
| hits: "i < length (serving s) \<Longrightarrow> serving s ! i = Parsed d rq \<Longrightarrow> e \<in> set (cached s) \<Longrightarrow>
    mem_hit d rq (snd e) (mem_heap s) = Some (w, h) \<Longrightarrow> mem_step s (s\<lparr>mem_heap := h, serving := (serving s)[i := w]\<rparr>)"
| loads: "i < length (serving s) \<Longrightarrow> serving s ! i = Parsed d rq \<Longrightarrow> mem_read ok nonempty caching d rq (mem_heap s) = (w, h) \<Longrightarrow>
    mem_step s (s\<lparr>mem_heap := h, serving := (serving s)[i := w]\<rparr>)"
| keeps: "i < length (serving s) \<Longrightarrow> serving s ! i = Loaded d rq \<Longrightarrow> mem_insert d (mem_heap s) = Some (e, h) \<Longrightarrow>
    mem_step s (s\<lparr>mem_heap := h, serving := (serving s)[i := Sends d rq], cached := e # cached s\<rparr>)"
| refuses: "i < length (serving s) \<Longrightarrow> serving s ! i = Loaded d rq \<Longrightarrow> mem_step s (s\<lparr>serving := (serving s)[i := Sends d rq]\<rparr>)"
| sends: "i < length (serving s) \<Longrightarrow> serving s ! i = Sends d rq \<Longrightarrow> mem_step s (s\<lparr>serving := (serving s)[i := Leaves d rq]\<rparr>)"
| leaves: "i < length (serving s) \<Longrightarrow> serving s ! i = Leaves d rq \<Longrightarrow> mem_leave d rq (mem_heap s) = Some h \<Longrightarrow>
    mem_step s (s\<lparr>mem_heap := h, serving := (serving s)[i := Idle]\<rparr>)"

text \<open>\<open>server_exit\<close> once the workers have been joined. The LRU queue is empty, so \<open>lru_clean_up\<close> frees only its head.\<close>

definition mem_exit :: "smem \<Rightarrow> mheap option" where
  "mem_exit s = do {
     h \<leftarrow> m_free (Some (b_lru s)) (mem_heap s);
     h \<leftarrow> m_free (Some (b_conn s)) h;
     h \<leftarrow> m_free (Some (b_threads s)) h;
     m_free (Some (b_server s)) h }"

section \<open>Who owns which block\<close>

definition has :: "mheap \<Rightarrow> nat multiset \<Rightarrow> bool" where
  "has h M \<longleftrightarrow> finite (live h) \<and> (\<forall>a \<in> live h. a < fresh h) \<and> mset_set (live h) = M"

definition pointer_block :: "nat option \<Rightarrow> nat multiset" where
  "pointer_block p = (case p of None \<Rightarrow> {#} | Some a \<Rightarrow> {#a#})"

definition data_blocks :: "fdata \<Rightarrow> nat multiset" where
  "data_blocks d = {#fd_self d#} + pointer_block (fd_name d) + pointer_block (fd_buf d)"

fun worker_blocks :: "serving \<Rightarrow> nat multiset" where
  "worker_blocks Idle = {#}"
| "worker_blocks (Parsed d rq) = add_mset rq (data_blocks d)"
| "worker_blocks (Loaded d rq) = add_mset rq (data_blocks d)"
| "worker_blocks (Sends d rq) = add_mset rq (data_blocks d)"
| "worker_blocks (Leaves d rq) = add_mset rq (data_blocks d)"

definition entry_blocks :: "nat \<times> fdata \<Rightarrow> nat multiset" where
  "entry_blocks e = add_mset (fst e) (data_blocks (snd e))"

lemma has_alloc: "has h M \<Longrightarrow> m_alloc h = (a, h') \<Longrightarrow> has h' (add_mset a M)"
  by (auto simp: has_def m_alloc_def less_Suc_eq)

lemma has_free:
  assumes "has h (add_mset a M)"
  shows "\<exists>h'. m_free (Some a) h = Some h' \<and> has h' M"
proof -
  have f: "finite (live h)" "mset_set (live h) = add_mset a M" "\<forall>b \<in> live h. b < fresh h" using assms by (auto simp: has_def)
  then have a: "a \<in> live h" by (metis finite_set_mset_mset_set union_single_eq_member)
  have "mset_set (live h - {a}) = M" using f(1,2) a by (simp add: mset_set_Diff)
  then show ?thesis using a f by (auto simp: m_free_def has_def)
qed

lemma has_member: "has h M \<Longrightarrow> a \<in># M \<Longrightarrow> a \<in> live h"
  by (auto simp: has_def)

lemma has_strdup: "has h M \<Longrightarrow> a \<in># M \<Longrightarrow> \<exists>b h'. m_strdup (Some a) h = Some (b, h') \<and> has h' (add_mset b M)"
  using has_member [of h M a] has_alloc [of h M] by (cases "m_alloc h") (auto simp: m_strdup_def)

lemma has_free_pointer:
  assumes "has h (pointer_block p + M)"
  shows "\<exists>h'. m_free p h = Some h' \<and> has h' M"
  using assms has_free [of h _ M] by (cases p) (auto simp: pointer_block_def m_free_def)

lemma has_free_data:
  assumes "has h (data_blocks d + M)"
  shows "\<exists>h'. file_data_free d h = Some h' \<and> has h' M"
proof -
  have "has h (pointer_block (fd_name d) + (pointer_block (fd_buf d) + (add_mset (fd_self d) M)))"
    using assms by (simp add: data_blocks_def ac_simps)
  from has_free_pointer [OF this] obtain h1 where h1: "m_free (fd_name d) h = Some h1"
    "has h1 (pointer_block (fd_buf d) + add_mset (fd_self d) M)" by blast
  from has_free_pointer [OF h1(2)] obtain h2 where h2: "m_free (fd_buf d) h1 = Some h2" "has h2 (add_mset (fd_self d) M)" by blast
  from has_free [OF h2(2)] obtain h3 where "m_free (Some (fd_self d)) h2 = Some h3" "has h3 M" by blast
  with h1(1) h2(1) show ?thesis by (simp add: file_data_free_def)
qed

lemma has_data_init: "has h M \<Longrightarrow> m_file_data_init h = (d, h') \<Longrightarrow> has h' (data_blocks d + M) \<and> fd_name d = None \<and> fd_buf d = None"
  using has_alloc [of h M] by (cases "m_alloc h") (auto simp: m_file_data_init_def data_blocks_def pointer_block_def)

section \<open>The steps of a worker\<close>

text \<open>The pointers that are set at each place.\<close>

fun pointers_ok :: "serving \<Rightarrow> bool" where
  "pointers_ok (Parsed d rq) \<longleftrightarrow> fd_name d \<noteq> None \<and> fd_buf d = None"
| "pointers_ok (Loaded d rq) \<longleftrightarrow> fd_name d \<noteq> None"
| "pointers_ok _ \<longleftrightarrow> True"

lemma pointer_block_simps [simp]: "pointer_block None = {#}" "pointer_block (Some a) = {#a#}"
  by (simp_all add: pointer_block_def)

lemma begin_ok:
  assumes "has h M"
  shows "\<exists>w h'. mem_begin get h = Some (w, h') \<and> has h' (worker_blocks w + M) \<and> pointers_ok w"
proof -
  obtain d h1 where 1: "m_file_data_init h = (d, h1)" by fastforce
  obtain rq h2 where 2: "m_alloc h1 = (rq, h2)" by fastforce
  obtain nm h3 where 3: "m_alloc h2 = (nm, h3)" by fastforce
  obtain rio h4 where 4: "m_alloc h3 = (rio, h4)" by fastforce
  let ?d = "d\<lparr>fd_name := Some nm, fd_buf := None\<rparr>"
  note D = has_data_init [OF assms 1]
  have "has h4 (add_mset rio (add_mset nm (add_mset rq (data_blocks d + M))))"
    using has_alloc [OF has_alloc [OF has_alloc [OF conjunct1 [OF D] 2] 3] 4] .
  then have "has h4 (add_mset rio (add_mset rq (data_blocks ?d + M)))" using D by (simp add: data_blocks_def add_mset_commute ac_simps)
  from has_free [OF this] obtain h5 where 5: "m_free (Some rio) h4 = Some h5" "has h5 (add_mset rq (data_blocks ?d + M))" by blast
  from has_free [OF 5(2)] obtain h6 where 6: "m_free (Some rq) h5 = Some h6" "has h6 (data_blocks ?d + M)" by blast
  from has_free_data [OF 6(2)] obtain h7 where 7: "file_data_free ?d h6 = Some h7" "has h7 M" by blast
  show ?thesis using 1 2 3 4 5 6(1) 7 by (cases get) (simp_all add: mem_begin_def)
qed

lemma set_buffer: "fd_buf d = None \<Longrightarrow> data_blocks (d\<lparr>fd_buf := Some b\<rparr>) = add_mset b (data_blocks d)"
  by (simp add: data_blocks_def)

lemma hit_ok:
  assumes "has h (worker_blocks (Parsed d rq) + M)" "pointers_ok (Parsed d rq)" "fd_buf entry = Some b" "b \<in># M"
  shows "\<exists>w h'. mem_hit d rq entry h = Some (w, h') \<and> has h' (worker_blocks w + M) \<and> pointers_ok w"
proof -
  from has_strdup [OF assms(1), of b] assms(4) obtain c h' where "m_strdup (Some b) h = Some (c, h')"
    "has h' (add_mset c (worker_blocks (Parsed d rq) + M))" by auto
  moreover have "fd_buf d = None" using assms(2) by simp
  ultimately show ?thesis using assms(3) by (simp add: mem_hit_def set_buffer add_mset_commute [of c])
qed

lemma read_ok:
  assumes "has h (worker_blocks (Parsed d rq) + M)" "pointers_ok (Parsed d rq)" "mem_read ok nonempty caching d rq h = (w, h')"
  shows "has h' (worker_blocks w + M) \<and> pointers_ok w"
proof (cases "ok \<and> nonempty")
  case False
  then show ?thesis using assms by (cases ok; cases caching; cases nonempty) (auto simp: mem_read_def)
next
  case True
  obtain b h1 where b: "m_alloc h = (b, h1)" by fastforce
  show ?thesis using has_alloc [OF assms(1) b] assms(2,3) True b
    by (cases caching) (auto simp: mem_read_def set_buffer add_mset_commute [of b])
qed

text \<open>After the file has been read, its buffer is NULL exactly if the file is empty.\<close>

lemma read_buffer:
  assumes "fd_buf d = None" "mem_read ok nonempty caching d rq h = (Loaded d' rq', h')"
  shows "fd_buf d' = None \<longleftrightarrow> \<not> nonempty"
  using assms by (auto simp: mem_read_def m_alloc_def split: if_splits)

lemma insert_null: "fd_buf d = None \<Longrightarrow> mem_insert d h = None"
  by (simp add: mem_insert_def m_strdup_def split: prod.split)

lemma insert_ok:
  assumes "has h (worker_blocks (Loaded d rq) + M)" "pointers_ok (Loaded d rq)" "fd_buf d \<noteq> None"
  shows "\<exists>e h'. mem_insert d h = Some (e, h') \<and> has h' (worker_blocks (Sends d rq) + (entry_blocks e + M)) \<and>
    fd_name (snd e) \<noteq> None \<and> fd_buf (snd e) \<noteq> None"
proof -
  obtain nm0 b0 where p: "fd_name d = Some nm0" "fd_buf d = Some b0" using assms(2,3) by auto
  obtain e h1 where 1: "m_alloc h = (e, h1)" by fastforce
  obtain ed h2 where 2: "m_file_data_init h1 = (ed, h2)" by fastforce
  let ?W = "worker_blocks (Loaded d rq)"
  note D = has_data_init [OF has_alloc [OF assms(1) 1] 2]
  have "b0 \<in># data_blocks ed + add_mset e (?W + M)" using p by (simp add: data_blocks_def)
  from has_strdup [OF conjunct1 [OF D] this] obtain b h3 where
    3: "m_strdup (Some b0) h2 = Some (b, h3)" "has h3 (add_mset b (data_blocks ed + add_mset e (?W + M)))" by blast
  have "nm0 \<in># add_mset b (data_blocks ed + add_mset e (?W + M))" using p by (simp add: data_blocks_def)
  from has_strdup [OF 3(2) this] obtain nm h4 where
    4: "m_strdup (Some nm0) h3 = Some (nm, h4)" "has h4 (add_mset nm (add_mset b (data_blocks ed + add_mset e (?W + M))))" by blast
  have "add_mset nm (add_mset b (data_blocks ed + add_mset e (?W + M))) =
      worker_blocks (Sends d rq) + (entry_blocks (e, ed\<lparr>fd_buf := Some b, fd_name := Some nm\<rparr>) + M)"
    using D by (simp add: data_blocks_def entry_blocks_def add_mset_commute ac_simps)
  with 4(2) have "has h4 (worker_blocks (Sends d rq) + (entry_blocks (e, ed\<lparr>fd_buf := Some b, fd_name := Some nm\<rparr>) + M))" by metis
  then show ?thesis using 1 2 3(1) 4(1) p by (simp add: mem_insert_def)
qed

lemma leave_ok:
  assumes "has h (worker_blocks (Leaves d rq) + M)"
  shows "\<exists>h'. mem_leave d rq h = Some h' \<and> has h' M"
proof -
  have "has h (add_mset rq (data_blocks d + M))" using assms by simp
  from has_free [OF this] obtain h1 where h1: "m_free (Some rq) h = Some h1" "has h1 (data_blocks d + M)" by blast
  from has_free_data [OF h1(2)] h1(1) show ?thesis by (auto simp: mem_leave_def)
qed

section \<open>The invariant of the server\<close>

definition base_blocks :: "smem \<Rightarrow> nat multiset" where
  "base_blocks s = {#b_server s, b_conn s, b_cache s, b_table s, b_lru s, b_threads s#}"

definition kept_blocks :: "smem \<Rightarrow> nat multiset" where
  "kept_blocks s = sum_list (map entry_blocks (cached s))"

definition mem_inv :: "nat multiset \<Rightarrow> smem \<Rightarrow> bool" where
  "mem_inv L s \<longleftrightarrow>
     has (mem_heap s) (sum_list (map worker_blocks (serving s)) + (kept_blocks s + base_blocks s + L)) \<and>
     (\<forall>w \<in> set (serving s). pointers_ok w) \<and>
     (\<forall>e \<in> set (cached s). fd_name (snd e) \<noteq> None \<and> fd_buf (snd e) \<noteq> None)"

lemma sum_worker_split:
  assumes "i < length ws"
  shows "sum_list (map worker_blocks ws) = worker_blocks (ws ! i) + sum_list (map worker_blocks (ws[i := Idle]))"
    "sum_list (map worker_blocks (ws[i := w])) = worker_blocks w + sum_list (map worker_blocks (ws[i := Idle]))"
proof -
  have "sum_list (map worker_blocks (ws[i := w])) = worker_blocks w + sum_list (map worker_blocks (ws[i := Idle]))" for w
    using assms by (induction ws arbitrary: i) (auto simp: ac_simps split: nat.splits)
  from this [of "ws ! i"] this [of w] show "sum_list (map worker_blocks ws) = worker_blocks (ws ! i) + sum_list (map worker_blocks (ws[i := Idle]))"
    "sum_list (map worker_blocks (ws[i := w])) = worker_blocks w + sum_list (map worker_blocks (ws[i := Idle]))"
    using assms by simp_all
qed

definition others :: "nat multiset \<Rightarrow> smem \<Rightarrow> nat \<Rightarrow> nat multiset" where
  "others L s i = sum_list (map worker_blocks ((serving s)[i := Idle])) + (kept_blocks s + base_blocks s + L)"

lemma mem_inv_worker:
  assumes "mem_inv L s" "i < length (serving s)"
  shows "has (mem_heap s) (worker_blocks (serving s ! i) + others L s i)" "pointers_ok (serving s ! i)"
  using assms sum_worker_split(1) [OF assms(2)] by (auto simp: mem_inv_def others_def ac_simps)

lemma mem_inv_update:
  assumes "mem_inv L s" "i < length (serving s)" "has h (worker_blocks w + others L s i)" "pointers_ok w"
  shows "mem_inv L (s\<lparr>mem_heap := h, serving := (serving s)[i := w]\<rparr>)"
proof -
  have "\<forall>v \<in> set ((serving s)[i := w]). pointers_ok v"
    using assms(1,4) set_update_subset_insert [of "serving s" i w] by (auto simp: mem_inv_def)
  then show ?thesis using assms(1,3) sum_worker_split(2) [OF assms(2), of w]
    by (auto simp: mem_inv_def others_def kept_blocks_def base_blocks_def ac_simps)
qed

lemma member_sum_list: "b \<in># sum_list (map f xs) \<longleftrightarrow> (\<exists>x \<in> set xs. b \<in># f x)"
  by (induction xs) auto

lemma entry_buffer:
  assumes "mem_inv L s" "e \<in> set (cached s)"
  shows "\<exists>b. fd_buf (snd e) = Some b \<and> b \<in># others L s i"
proof -
  obtain b where b: "fd_buf (snd e) = Some b" using assms by (auto simp: mem_inv_def)
  then have "b \<in># entry_blocks e" by (simp add: entry_blocks_def data_blocks_def)
  with assms(2) have "\<exists>e \<in> set (cached s). b \<in># entry_blocks e" by blast
  then have "b \<in># kept_blocks s" by (simp add: kept_blocks_def member_sum_list)
  then show ?thesis using b by (simp add: others_def)
qed

lemma mem_step_inv:
  assumes "mem_step s s'" "mem_inv L s"
  shows "mem_inv L s'"
  using assms(1)
proof cases
  case (begins i get w h)
  note W = mem_inv_worker [OF assms(2) begins(2)]
  from begin_ok [of "mem_heap s" "others L s i" get] W begins(3,4) have "has h (worker_blocks w + others L s i)" "pointers_ok w" by auto
  then show ?thesis unfolding begins(1) by (rule mem_inv_update [OF assms(2) begins(2)])
next
  case (hits i d rq e w h)
  note W = mem_inv_worker [OF assms(2) hits(2)]
  obtain b where b: "fd_buf (snd e) = Some b" "b \<in># others L s i" using entry_buffer [OF assms(2) hits(4)] by blast
  from hit_ok [OF _ _ b, of "mem_heap s" d rq] W hits(3,5) have "has h (worker_blocks w + others L s i)" "pointers_ok w" by auto
  then show ?thesis unfolding hits(1) by (rule mem_inv_update [OF assms(2) hits(2)])
next
  case (loads i d rq ok nonempty caching w h)
  note W = mem_inv_worker [OF assms(2) loads(2)]
  from read_ok [OF _ _ loads(4)] W loads(3) have "has h (worker_blocks w + others L s i)" "pointers_ok w" by auto
  then show ?thesis unfolding loads(1) by (rule mem_inv_update [OF assms(2) loads(2)])
next
  case (keeps i d rq e h)
  note W = mem_inv_worker [OF assms(2) keeps(2)]
  have "fd_buf d \<noteq> None" using insert_null [of d "mem_heap s"] keeps(4) by auto
  with insert_ok [of "mem_heap s" d rq "others L s i"] W keeps(3,4) have
    e: "has h (worker_blocks (Sends d rq) + (entry_blocks e + others L s i))" "fd_name (snd e) \<noteq> None \<and> fd_buf (snd e) \<noteq> None" by auto
  have "others L (s\<lparr>cached := e # cached s\<rparr>) i = entry_blocks e + others L s i"
    by (simp add: others_def kept_blocks_def base_blocks_def ac_simps)
  moreover have "\<forall>v \<in> set ((serving s)[i := Sends d rq]). pointers_ok v"
    using assms(2) set_update_subset_insert [of "serving s" i "Sends d rq"] by (auto simp: mem_inv_def)
  ultimately show ?thesis using assms(2) e sum_worker_split(2) [OF keeps(2), of "Sends d rq"] unfolding keeps(1)
    by (auto simp: mem_inv_def others_def kept_blocks_def base_blocks_def ac_simps)
next
  case (refuses i d rq)
  note W = mem_inv_worker [OF assms(2) refuses(2)]
  from mem_inv_update [OF assms(2) refuses(2), of "mem_heap s" "Sends d rq"] W refuses(3) show ?thesis unfolding refuses(1) by simp
next
  case (sends i d rq)
  note W = mem_inv_worker [OF assms(2) sends(2)]
  from mem_inv_update [OF assms(2) sends(2), of "mem_heap s" "Leaves d rq"] W sends(3) show ?thesis unfolding sends(1) by simp
next
  case (leaves i d rq h)
  note W = mem_inv_worker [OF assms(2) leaves(2)]
  from leave_ok [of "mem_heap s" d rq "others L s i"] W leaves(3,4) have "has h (worker_blocks Idle + others L s i)" by auto
  then show ?thesis unfolding leaves(1) by (rule mem_inv_update [OF assms(2) leaves(2)]) simp
qed

text \<open>The start and the end.\<close>

lemma mem_init_inv:
  assumes "has h L"
  shows "mem_inv L (mem_init n h)"
proof -
  obtain sv h1 where 1: "m_alloc h = (sv, h1)" by fastforce
  obtain cb h2 where 2: "m_alloc h1 = (cb, h2)" by fastforce
  obtain ct h3 where 3: "m_alloc h2 = (ct, h3)" by fastforce
  obtain tab h4 where 4: "m_alloc h3 = (tab, h4)" by fastforce
  obtain q h5 where 5: "m_alloc h4 = (q, h5)" by fastforce
  obtain th h6 where 6: "m_alloc h5 = (th, h6)" by fastforce
  note H = has_alloc [OF has_alloc [OF has_alloc [OF has_alloc [OF has_alloc [OF has_alloc [OF assms 1] 2] 3] 4] 5] 6]
  have e: "sum_list (map worker_blocks (replicate n Idle)) = {#}" by (induction n) simp_all
  have "add_mset th (add_mset q (add_mset tab (add_mset ct (add_mset cb (add_mset sv L))))) = {#sv, cb, ct, tab, q, th#} + L"
    by (simp add: add_mset_commute)
  from H [unfolded this] have "has h6 ({#sv, cb, ct, tab, q, th#} + L)" .
  then show ?thesis using e 1 2 3 4 5 6 by (simp add: mem_init_def mem_inv_def kept_blocks_def base_blocks_def)
qed

lemma mem_reach_inv: "mem_step\<^sup>*\<^sup>* (mem_init n h) s \<Longrightarrow> has h L \<Longrightarrow> mem_inv L s"
  by (induction rule: rtranclp_induct) (auto intro: mem_init_inv mem_step_inv)

text \<open>What the next step of a worker does: none is a fault, but an insertion of a file whose buffer is NULL, which it is exactly
  if the file was found to be empty.\<close>

definition next_ok :: "smem \<Rightarrow> serving \<Rightarrow> bool" where
  "next_ok s w \<longleftrightarrow> (case w of
       Idle \<Rightarrow> \<forall>get. mem_begin get (mem_heap s) \<noteq> None
     | Parsed d rq \<Rightarrow> (\<forall>e \<in> set (cached s). mem_hit d rq (snd e) (mem_heap s) \<noteq> None) \<and>
         (\<forall>ok nonempty caching d' h. mem_read ok nonempty caching d rq (mem_heap s) = (Loaded d' rq, h) \<longrightarrow>
            (fd_buf d' = None \<longleftrightarrow> \<not> nonempty))
     | Loaded d rq \<Rightarrow> mem_insert d (mem_heap s) = None \<longleftrightarrow> fd_buf d = None
     | Sends d rq \<Rightarrow> True
     | Leaves d rq \<Rightarrow> mem_leave d rq (mem_heap s) \<noteq> None)"

lemma mem_inv_next:
  assumes "mem_inv L s" "i < length (serving s)"
  shows "next_ok s (serving s ! i)"
proof -
  note W = mem_inv_worker [OF assms]
  show ?thesis
  proof (cases "serving s ! i")
    case Idle
    then show ?thesis using begin_ok [of "mem_heap s" "others L s i"] W(1) by (fastforce simp: next_ok_def)
  next
    case (Parsed d rq)
    have "mem_hit d rq (snd e) (mem_heap s) \<noteq> None" if e: "e \<in> set (cached s)" for e
    proof -
      obtain b where b: "fd_buf (snd e) = Some b" "b \<in># others L s i" using entry_buffer [OF assms(1) e] by blast
      from hit_ok [OF _ _ b, of "mem_heap s" d rq] W Parsed show ?thesis by auto
    qed
    with Parsed W(2) read_buffer [of d] show ?thesis by (fastforce simp: next_ok_def)
  next
    case (Loaded d rq)
    then show ?thesis using insert_ok [of "mem_heap s" d rq "others L s i"] W insert_null [of d "mem_heap s"]
      by (cases "fd_buf d = None") (auto simp: next_ok_def)
  next
    case (Leaves d rq)
    then show ?thesis using leave_ok [of "mem_heap s" d rq "others L s i"] W(1) by (auto simp: next_ok_def)
  qed (simp add: next_ok_def)
qed

lemma mem_exit_leaves:
  assumes "mem_inv L s" "set (serving s) \<subseteq> {Idle}"
  shows "\<exists>h. mem_exit s = Some h \<and> has h (kept_blocks s + {#b_cache s, b_table s#} + L)"
proof -
  have "sum_list (map worker_blocks ws) = {#}" if "set ws \<subseteq> {Idle}" for ws using that by (induction ws) auto
  then have "has (mem_heap s) (kept_blocks s + base_blocks s + L)" using assms by (simp add: mem_inv_def)
  then have "has (mem_heap s) (add_mset (b_lru s) (add_mset (b_conn s) (add_mset (b_threads s) (add_mset (b_server s)
      (kept_blocks s + {#b_cache s, b_table s#} + L)))))" by (simp add: base_blocks_def add_mset_commute)
  from has_free [OF this] obtain h1 where 1: "m_free (Some (b_lru s)) (mem_heap s) = Some h1"
    "has h1 (add_mset (b_conn s) (add_mset (b_threads s) (add_mset (b_server s) (kept_blocks s + {#b_cache s, b_table s#} + L))))" by blast
  from has_free [OF 1(2)] obtain h2 where 2: "m_free (Some (b_conn s)) h1 = Some h2"
    "has h2 (add_mset (b_threads s) (add_mset (b_server s) (kept_blocks s + {#b_cache s, b_table s#} + L)))" by blast
  from has_free [OF 2(2)] obtain h3 where 3: "m_free (Some (b_threads s)) h2 = Some h3"
    "has h3 (add_mset (b_server s) (kept_blocks s + {#b_cache s, b_table s#} + L))" by blast
  from has_free [OF 3(2)] 1(1) 2(1) 3(1) show ?thesis by (auto simp: mem_exit_def)
qed

lemma size_kept:
  assumes "\<forall>e \<in> set es. fd_name (snd e) \<noteq> None \<and> fd_buf (snd e) \<noteq> None"
  shows "size (sum_list (map entry_blocks es)) = 4 * length es"
  using assms by (induction es) (auto simp: entry_blocks_def data_blocks_def)

section \<open>Properties\<close>

text \<open>C4: The blocks of the server, for any interleaving of the workers and any outcome of their tests, empty files included: in every reachable
  state no next step of a worker frees a block that is not allocated or copies a NULL buffer, with one exception: \<open>cache_insert\<close> copies a NULL
  buffer, which is a fault, exactly when the file that \<open>request_readfile\<close> has read is empty. When all workers have returned, \<open>server_exit\<close> frees
  its blocks without a fault and leaves exactly the blocks there were before, the cache and its table, and four blocks for each file in the
  cache: requests leak nothing. \<open>malloc\<close> succeeds; reads beyond the end of a block are a matter of the theories on the contents.\<close>

theorem server_memory_safe:
  assumes "finite (live h0)" "\<forall>a \<in> live h0. a < fresh h0" "mem_step\<^sup>*\<^sup>* (mem_init n h0) s"
  shows "(\<forall>w \<in> set (serving s). next_ok s w) \<and>
    (set (serving s) \<subseteq> {Idle} \<longrightarrow> (\<exists>h. mem_exit s = Some h \<and> live h0 \<union> {b_cache s, b_table s} \<subseteq> live h \<and>
       card (live h) = card (live h0) + 2 + 4 * length (cached s)))"
proof -
  have L: "has h0 (mset_set (live h0))" using assms(1,2) by (simp add: has_def)
  note I = mem_reach_inv [OF assms(3) L]
  have "next_ok s w" if "w \<in> set (serving s)" for w
    using mem_inv_next [OF I] that by (metis in_set_conv_nth)
  moreover have "\<exists>h. mem_exit s = Some h \<and> live h0 \<union> {b_cache s, b_table s} \<subseteq> live h \<and>
       card (live h) = card (live h0) + 2 + 4 * length (cached s)" if "set (serving s) \<subseteq> {Idle}"
  proof -
    from mem_exit_leaves [OF I that] obtain h where
      h: "mem_exit s = Some h" "has h (kept_blocks s + {#b_cache s, b_table s#} + mset_set (live h0))" by blast
    have "size (kept_blocks s) = 4 * length (cached s)" using I size_kept by (simp add: mem_inv_def kept_blocks_def)
    moreover have "card (live h) = size (kept_blocks s + {#b_cache s, b_table s#} + mset_set (live h0))"
      using h(2) by (metis has_def size_mset_set)
    moreover have "live h0 \<union> {b_cache s, b_table s} \<subseteq> live h" using has_member [OF h(2)] assms(1) by auto
    ultimately show ?thesis using h(1) by (intro exI [of _ h]) simp
  qed
  ultimately show ?thesis by blast
qed

text \<open>A worker serves a file that goes into the cache.\<close>

theorem server_memory_safe_witness:
  "\<exists>s h. mem_step\<^sup>*\<^sup>* (mem_init 1 \<lparr>live = {}, fresh = 0\<rparr>) s \<and> length (cached s) = 1 \<and> mem_exit s = Some h \<and> card (live h) = 6"
proof -
  let ?s0 = "mem_init 1 \<lparr>live = {}, fresh = 0\<rparr>"
  note defs = mem_init_def m_alloc_def m_free_def m_file_data_init_def file_data_free_def mem_begin_def mem_read_def mem_insert_def m_strdup_def mem_leave_def
  have step: "mem_step\<^sup>*\<^sup>* ?s0 s'" if "mem_step\<^sup>*\<^sup>* ?s0 s" "mem_step s s'" for s s' using that by (rule rtranclp.rtrancl_into_rtrancl)
  obtain d rq s1 where 1: "mem_step ?s0 s1" "serving s1 = [Parsed d rq]" "cached s1 = []"
    using mem_step.begins [of 0 ?s0 True] by (simp add: defs)
  from mem_reach_inv [OF step [OF rtranclp.rtrancl_refl 1(1)], of "{#}"] have i1: "mem_inv {#} s1" by (simp add: has_def)
  have p1: "pointers_ok (Parsed d rq)" using i1 1(2) by (simp add: mem_inv_def)
  obtain d2 h2 where 2: "mem_read True True True d rq (mem_heap s1) = (Loaded d2 rq, h2)" "fd_buf d2 \<noteq> None"
    by (auto simp: mem_read_def m_alloc_def)
  let ?s2 = "s1\<lparr>mem_heap := h2, serving := [Loaded d2 rq]\<rparr>"
  have s2: "mem_step s1 ?s2" using mem_step.loads [of 0 s1 d rq True True True] 1(2) 2(1) by simp
  note i2 = mem_step_inv [OF s2 i1]
  have "mem_insert d2 h2 \<noteq> None" using mem_inv_next [OF i2, of 0] 2(2) by (simp add: next_ok_def)
  then obtain e h3 where 3: "mem_insert d2 h2 = Some (e, h3)" by auto
  let ?s3 = "?s2\<lparr>mem_heap := h3, serving := [Sends d2 rq], cached := [e]\<rparr>"
  have s3: "mem_step ?s2 ?s3" using mem_step.keeps [of 0 ?s2 d2 rq] 1(3) 3 by simp
  let ?s4 = "?s3\<lparr>serving := [Leaves d2 rq]\<rparr>"
  have s4: "mem_step ?s3 ?s4" using mem_step.sends [of 0 ?s3 d2 rq] by simp
  note i4 = mem_step_inv [OF s4 mem_step_inv [OF s3 i2]]
  have "mem_leave d2 rq h3 \<noteq> None" using mem_inv_next [OF i4, of 0] by (simp add: next_ok_def)
  then obtain h5 where 5: "mem_leave d2 rq h3 = Some h5" by auto
  let ?s5 = "?s4\<lparr>mem_heap := h5, serving := [Idle]\<rparr>"
  have s5: "mem_step ?s4 ?s5" using mem_step.leaves [of 0 ?s4 d2 rq] 5 by simp
  have r: "mem_step\<^sup>*\<^sup>* ?s0 ?s5" by (rule step [OF step [OF step [OF step [OF step [OF rtranclp.rtrancl_refl 1(1)] s2] s3] s4] s5])
  from server_memory_safe [OF _ _ r] obtain h where "mem_exit ?s5 = Some h" "card (live h) = 6" by auto
  with r show ?thesis by (intro exI [of _ ?s5] exI [of _ h]) simp
qed

end
