(* ===== verification/Web_Errors.thy ===== *)
theory Web_Errors
  imports Web_Whole
begin

text \<open>
  The refusals of the web server (\<open>request_error\<close> of \<open>src/webserver/request.c\<close>): what the client of a
  request that cannot be served receives, and the name that is too long for the page.
\<close>

section \<open>The error page\<close>

definition error_page :: "char list \<Rightarrow> char list \<Rightarrow> char list \<Rightarrow> char list \<Rightarrow> char list" where
  "error_page cause errnum shortmsg longmsg =
     ''HTTP/1.0 '' @ errnum @ '' '' @ shortmsg @ crlf @ ''Content-Type: text/html'' @ crlf @
     ''Content-Length: '' @ dec (length (error_body cause errnum shortmsg longmsg)) @ crlf @
     ''Content-Csum: '' @ print_u (csum_of (error_body cause errnum shortmsg longmsg)) @ crlf @ crlf @
     error_body cause errnum shortmsg longmsg"

lemma request_error_sent:
  assumes "request_error cause errnum shortmsg longmsg c = Some (Done c')"
  shows "conn_sent c' = conn_sent c @ error_page cause errnum shortmsg longmsg"
  using assms by (auto simp: request_error_def error_page_def Let_def dest!: conn_sent_Rio_write)

text \<open>Why a name is refused, in the order of the tests: the status, its phrase and the explanation.\<close>

definition refusal :: "disk \<Rightarrow> char list \<Rightarrow> char list \<times> char list \<times> char list" where
  "refusal dk nm =
     (if nm \<noteq> [] \<and> hd nm = CHR ''/'' then (''404'', ''Not found'', ''OS Web Server doesn't serve files with absolute paths'')
      else if strstr nm ''..'' \<noteq> None then (''404'', ''Not found'', ''OS Web Server doesn't serve files with .. in the path'')
      else if strrchr nm CHR ''.'' \<in> {Some ''.c'', Some ''.h''}
        then (''404'', ''Not found'', ''OS Web Server doesn't serve C or header files '')
      else if dk nm = None then (''404'', ''Not found'', ''OS Web Server could not find this file'')
      else (''403'', ''Forbidden'', ''OS Web Server could not read this file''))"

text \<open>The page, and all that the client gets.\<close>

definition refusal_body :: "disk \<Rightarrow> char list \<Rightarrow> char list" where
  "refusal_body dk nm = (let (errnum, shortmsg, longmsg) = refusal dk nm in error_body nm errnum shortmsg longmsg)"

definition refusal_page :: "disk \<Rightarrow> char list \<Rightarrow> char list" where
  "refusal_page dk nm = (let (errnum, shortmsg, longmsg) = refusal dk nm in error_page nm errnum shortmsg longmsg)"

lemma request_readfile_refuses:
  assumes "file_name d = Some nm" "\<not> servable dk nm"
  shows "request_readfile dk mm d c = (let (errnum, shortmsg, longmsg) = refusal dk nm
    in andthen (request_error nm errnum shortmsg longmsg c) (\<lambda>c. Some (Done (False, d, c))))"
proof (cases "nm \<noteq> [] \<and> hd nm = CHR ''/'' \<or> strstr nm ''..'' \<noteq> None \<or> strrchr nm CHR ''.'' \<in> {Some ''.c'', Some ''.h''}")
  case True
  then show ?thesis using assms(1) by (auto simp: request_readfile_def refusal_def Let_def)
next
  case False
  with assms(2) have "dk nm = None \<or> (\<exists>f. dk nm = Some f \<and> (\<not> is_regular f \<or> \<not> owner_reads f))"
    by (cases "dk nm") (auto simp: servable_def)
  with False assms(1) show ?thesis by (auto simp: request_readfile_def refusal_def Let_def)
qed

lemma request_readfile_refusal:
  assumes "request_readfile dk mm d c = Some (Done (ret, d', c'))" "file_name d = Some nm" "\<not> servable dk nm"
  shows "conn_sent c' = conn_sent c @ refusal_page dk nm"
  using assms(1) unfolding request_readfile_refuses [OF assms(2,3)]
  by (auto simp: refusal_page_def dest!: request_error_sent split: prod.splits)

section \<open>Requests for what cannot be served\<close>

definition asks :: "char list \<Rightarrow> char list \<Rightarrow> conn \<Rightarrow> bool" where
  "asks host filename c \<longleftrightarrow> sendable_request host filename \<and> healthy (conn_in c) \<and>
     bytes_of (conn_in c) = client_request_text host filename \<and> conn_sent c = []"

lemma asks_opened:
  assumes "asks host filename c"
  shows "\<exists>src. opened c (''./'' @ filename) \<lparr>file_name = Some (''./'' @ filename), file_buf = None, file_size = 0\<rparr>
    (c\<lparr>conn_in := src\<rparr>)"
  using assms request_init_get [of host filename c "[]"] by (auto simp: asks_def opened_def)

text \<open>The page does not fit its buffer when the name is long.\<close>

lemma length_error_body:
  "length (error_body cause errnum shortmsg longmsg) = length cause + length errnum + length shortmsg + length longmsg + 100"
  by (simp add: error_body_def crlf_def)

lemma refusal_length:
  assumes "refusal dk nm = (errnum, shortmsg, longmsg)"
  shows "length errnum = 3" "9 \<le> length shortmsg" "30 \<le> length longmsg"
  using assms by (auto simp: refusal_def split: if_splits)

lemma long_refusal:
  assumes "file_name d = Some nm" "\<not> servable dk nm" "MAXBUF \<le> length (refusal_body dk nm)"
  shows "request_readfile dk mm d c = Some Fault"
  using assms(3) unfolding request_readfile_refuses [OF assms(1,2)]
  by (auto simp: refusal_body_def request_error_def split: prod.splits)

text \<open>A page that fits is delivered.\<close>

lemma length_error_page:
  assumes "length (error_body cause errnum shortmsg longmsg) < MAXBUF"
  shows "length (error_page cause errnum shortmsg longmsg) \<le>
    length (error_body cause errnum shortmsg longmsg) + length errnum + length shortmsg + 100"
proof -
  let ?body = "error_body cause errnum shortmsg longmsg"
  have "length (dec (length ?body)) \<le> 4" using length_dec [of "length ?body" 3] assms by (simp add: MAXBUF_def)
  moreover have "length (print_u (csum_of ?body)) \<le> 10"
    using length_dec [of "unat (csum_of ?body)" 9] unat_32_less [of "csum_of ?body"] by (simp add: print_u_def)
  ultimately show ?thesis by (simp add: error_page_def crlf_def)
qed

lemma request_error_delivers:
  assumes "length (error_body cause errnum shortmsg longmsg) < MAXBUF"
    "writable (length (error_page cause errnum shortmsg longmsg)) (conn_out c)"
  shows "\<exists>c'. request_error cause errnum shortmsg longmsg c = Some (Done c')"
proof -
  let ?body = "error_body cause errnum shortmsg longmsg"
  let ?h1 = "''HTTP/1.0 '' @ errnum @ '' '' @ shortmsg @ crlf" and ?h2 = "''Content-Type: text/html'' @ crlf"
  let ?h3 = "''Content-Length: '' @ dec (length ?body) @ crlf" and ?h4 = "''Content-Csum: '' @ print_u (csum_of ?body) @ crlf @ crlf"
  have wr: "\<exists>c'. Rio_write buf c = Some (Done c') \<and> writable m (conn_out c')"
    if "writable (length buf + m) (conn_out c)" for buf m c
    using Rio_write_delivers [OF that] by auto
  have "writable (length ?h1 + (length ?h2 + (length ?h3 + (length ?h4 + (length ?body + 0))))) (conn_out c)"
    using assms(2) by (simp add: error_page_def add_ac)
  from wr [OF this] obtain c1 where 1: "Rio_write ?h1 c = Some (Done c1)"
    "writable (length ?h2 + (length ?h3 + (length ?h4 + (length ?body + 0)))) (conn_out c1)" by blast
  from wr [OF 1(2)] obtain c2 where 2: "Rio_write ?h2 c1 = Some (Done c2)"
    "writable (length ?h3 + (length ?h4 + (length ?body + 0))) (conn_out c2)" by blast
  from wr [OF 2(2)] obtain c3 where 3: "Rio_write ?h3 c2 = Some (Done c3)"
    "writable (length ?h4 + (length ?body + 0)) (conn_out c3)" by blast
  from wr [OF 3(2)] obtain c4 where 4: "Rio_write ?h4 c3 = Some (Done c4)" "writable (length ?body + 0) (conn_out c4)" by blast
  from wr [OF 4(2)] obtain c5 where 5: "Rio_write ?body c4 = Some (Done c5)" by blast
  show ?thesis using assms(1) 1(1) 2(1) 3(1) 4(1) 5 by (simp add: request_error_def)
qed

section \<open>An example\<close>

text \<open>Requests for files that are missing.\<close>

definition asking :: "char list \<Rightarrow> conn" where
  "asking filename = \<lparr>conn_in = [Data (client_request_text ''h'' filename)], conn_out = replicate 400 (Wrote 1),
     conn_sent = [], conn_open = True\<rparr>"

lemma asking_b: "asks ''h'' ''b.txt'' (asking ''b.txt'')"
proof -
  have "sendable_request ''h'' ''b.txt''"
    by (simp add: sendable_request_def word_def isspace_def NUL_def newline_def client_request_text_def crlf_def MAXLINE_def)
  then show ?thesis by (simp add: asks_def asking_def client_request_text_def)
qed

lemma refused_b:
  "\<exists>s c. serves sample_disk (limit 100) {sample_mem} (site_start [asking ''b.txt'']) s \<and> site_workers s ! 0 = (Finished, c)"
proof -
  let ?cache = "cache_table_initialization (\<lambda>_. Null)" and ?nm = "''./b.txt''" and ?conn = "asking ''b.txt''"
  let ?d = "\<lparr>file_name = Some ?nm, file_buf = None, file_size = 0\<rparr>"
  let ?stands = "stands sample_disk (limit 100) {sample_mem} (site_start [?conn]) [(Starting, ?conn)] 0"
  obtain src where o: "request_init ?conn = Some (Done (Some ?d, ?conn\<lparr>conn_in := src\<rparr>))"
    using asks_opened [OF asking_b] by (auto simp: opened_def)
  let ?c = "?conn\<lparr>conn_in := src\<rparr>"
  have h: "hashable ?nm" by code_simp
  have "cache_ok 100 ?cache" by (rule cache_initial_ok) simp
  then have l: "cache_lookup ?cache ?nm = Some None" using cache_lookup_contents h by (simp add: contents_initial)
  have "length (error_body ?nm ''404'' ''Not found'' ''OS Web Server could not find this file'') < MAXBUF"
    by (simp add: length_error_body MAXBUF_def)
  moreover from this have "length (error_page ?nm ''404'' ''Not found'' ''OS Web Server could not find this file'') \<le> 400"
    by (intro order_trans [OF length_error_page]) (simp_all add: length_error_body)
  then have "writable (length (error_page ?nm ''404'' ''Not found'' ''OS Web Server could not find this file'')) (conn_out ?c)"
    by (simp add: asking_def writable_def)
  ultimately obtain c' where e: "request_error ?nm ''404'' ''Not found'' ''OS Web Server could not find this file'' ?c = Some (Done c')"
    using request_error_delivers by blast
  have "?stands ?cache Starting ?conn"
    using serves_refl [of sample_disk "limit 100" "{sample_mem}" "site_start [?conn]"] by (simp add: stands_def site_init_def)
  from stands_step [OF this, of sample_mem ?cache "Looking ?d" ?c] o have "?stands ?cache (Looking ?d) ?c"
    by (simp add: worker_step_def)
  from stands_step [OF this, of sample_mem ?cache "Loading True ?d" ?c] l have "?stands ?cache (Loading True ?d) ?c"
    by (simp add: worker_step_def lookup_section_def)
  from stands_step [OF this, of sample_mem ?cache Closing c'] e have "?stands ?cache Closing c'"
    by (simp add: worker_step_def request_readfile_def sample_disk_def Let_def)
  from stands_step [OF this, of sample_mem ?cache Finished "request_destroy c'"] have "?stands ?cache Finished (request_destroy c')"
    by (simp add: worker_step_def)
  then show ?thesis unfolding stands_def
    by (intro exI [of _ "\<lparr>site_cache = ?cache, site_workers = [(Starting, ?conn)][0 := (Finished, request_destroy c')]\<rparr>"]
        exI [of _ "request_destroy c'"]) simp
qed

section \<open>Properties\<close>

text \<open>A refusal whose page fits is delivered.\<close>

lemma refusal_delivers:
  assumes "file_name d = Some nm" "\<not> servable dk nm" "length (refusal_body dk nm) < MAXBUF"
    "writable (length (refusal_page dk nm)) (conn_out c)"
  shows "\<exists>c'. request_readfile dk mm d c = Some (Done (False, d, c'))"
proof -
  obtain e sh l where r: "refusal dk nm = (e, sh, l)" by (metis prod_cases3)
  with assms(3,4) request_error_delivers [of nm e sh l c] obtain c' where "request_error nm e sh l c = Some (Done c')"
    by (auto simp: refusal_body_def refusal_page_def)
  then show ?thesis unfolding request_readfile_refuses [OF assms(1,2)] using r by simp
qed

text \<open>No data for such a name is ever ready to be sent.\<close>

definition unservable_data :: "disk \<Rightarrow> char list \<Rightarrow> file_data \<Rightarrow> bool" where
  "unservable_data dk nm d \<longleftrightarrow> file_name d = Some nm \<and> 0 \<le> file_size d \<and> servable dk nm"

lemma unservable_tracked:
  assumes "serves dk (limit m) mms (site_start cs) s" "\<forall>mm \<in> mms. junk mm = Null" "i < length cs"
  shows "disk_cache.holds m (unservable_data dk) (site_cache s)" "track dk mms (unservable_data dk) (cs ! i) (site_workers s ! i)"
proof -
  have "sendable dk mms (unservable_data dk)" using sendable_servable [of dk mms] unfolding unservable_data_def [abs_def] .
  from serves_inv [OF assms(1) this assms(2)] assms(3) show "disk_cache.holds m (unservable_data dk) (site_cache s)"
    "track dk mms (unservable_data dk) (cs ! i) (site_workers s ! i)" by (simp_all add: site_inv_def)
qed

lemma unservable_step:
  assumes "disk_cache.holds m (unservable_data dk) cache" "track dk mms (unservable_data dk) c0 (p, c)" "p \<noteq> Finished"
    "asks host filename c0" "nm = ''./'' @ filename" "\<not> servable dk nm" "hashable nm"
    "length (refusal_body dk nm) < MAXBUF" "writable (length (refusal_page dk nm)) (conn_out c0)"
  shows "\<exists>p' c'. worker_step dk (limit m) mm (cache, p, c) = Some (Done (cache, p', c')) \<and> steps_left p' < steps_left p"
proof -
  let ?d = "\<lparr>file_name = Some nm, file_buf = None, file_size = 0\<rparr>"
  obtain src where o: "opened c0 nm ?d (c0\<lparr>conn_in := src\<rparr>)" using asks_opened [OF assms(4)] assms(5) by auto
  have only: "n = nm \<and> d = ?d \<and> c = c0\<lparr>conn_in := src\<rparr>" if "opened c0 n d c" for n d using opened_unique [OF o that] by simp
  have no: "\<not> unservable_data dk nm d" for d using assms(6) by (simp add: unservable_data_def)
  show ?thesis
  proof (cases p)
    case Starting
    then show ?thesis using assms(2) o by (auto simp: worker_step_def opened_def)
  next
    case (Looking d)
    then have d: "d = ?d" using assms(2) only by auto
    have "cache_ok (limit m) cache" using assms(1) by (simp add: disk_cache.holds_def)
    moreover have "contents cache nm = None" using disk_cache.holds_look [OF assms(1,7)] no cache_lookup_contents [OF _ assms(7)] calculation
      by (cases "contents cache nm") auto
    ultimately have "lookup_section cache ?d = Some (Done None)" using cache_lookup_contents [OF _ assms(7)] by (simp add: lookup_section_def)
    then show ?thesis using Looking d by (simp add: worker_step_def)
  next
    case (Loading keep d)
    then have d: "d = ?d" "c = c0\<lparr>conn_in := src\<rparr>" using assms(2) only by auto
    with refusal_delivers [of ?d nm dk c mm] assms(6,8,9) obtain c' where "request_readfile dk mm ?d c = Some (Done (False, ?d, c'))" by auto
    then show ?thesis using Loading d(1) by (simp add: worker_step_def)
  next
    case (Inserting d)
    then show ?thesis using assms(2) o no by (auto simp: opened_def)
  next
    case (Sending d)
    then show ?thesis using assms(2) o no by (auto simp: opened_def)
  qed (use assms(3) in \<open>simp_all add: worker_step_def\<close>)
qed

lemma unservable_finished:
  assumes "track dk mms (unservable_data dk) c0 (Finished, c)" "asks host filename c0" "nm = ''./'' @ filename" "\<not> servable dk nm"
  shows "\<not> conn_open c \<and> conn_sent c = refusal_page dk nm"
proof -
  let ?d = "\<lparr>file_name = Some nm, file_buf = None, file_size = 0\<rparr>"
  obtain src where o: "opened c0 nm ?d (c0\<lparr>conn_in := src\<rparr>)" using asks_opened [OF assms(2)] assms(3) by auto
  have "\<not> sent_file mms (unservable_data dk) c0 c1" for c1
    using opened_unique [OF o] assms(4) unfolding sent_file_def unservable_data_def by blast
  with assms(1) o obtain c1 where c1: "refused dk mms c0 c1" "c = request_destroy c1" by (auto simp: opened_def)
  then obtain n d1 c2 mm d' where r: "opened c0 n d1 c2" "request_readfile dk mm d1 c2 = Some (Done (False, d', c1))"
    unfolding refused_def by blast
  have d: "file_name d1 = Some nm" "c2 = c0\<lparr>conn_in := src\<rparr>" using opened_unique [OF o r(1)] by auto
  from request_readfile_refusal [OF r(2) d(1) assms(4)] d(2) c1(2) assms(2) show ?thesis by (auto simp: asks_def request_destroy_def)
qed

text \<open>C25: A request for what the server does not serve gets the error page that \<open>request_readfile\<close> picks by its tests, in their order: in every
  interleaving of the workers the request is answered without a fault, in at most six steps of its own, and when it is finished
  the connection is closed and carries exactly the header, with the length and checksum of the page, and the page. It is a
  condition that the hash of the name is not negative, that the page fits its buffer of MAXBUF bytes (a longer name is a
  fault), that the socket takes all of it, and that the pointers in new memory, which the server never sets, are NULL.\<close>

theorem unservable_gets_error_page:
  assumes "serves dk (limit m) mms (site_start cs) s" "\<forall>mm \<in> mms. junk mm = Null" "i < length cs"
    "site_workers s ! i = (p, c)" "asks host filename (cs ! i)" "nm = ''./'' @ filename" "\<not> servable dk nm" "hashable nm"
    "length (refusal_body dk nm) < MAXBUF" "writable (length (refusal_page dk nm)) (conn_out (cs ! i))"
  shows "(if p = Finished then \<not> conn_open c \<and> conn_sent c = refusal_page dk nm
    else \<forall>mm \<in> mms. \<exists>p' c'. worker_step dk (limit m) mm (site_cache s, p, c) = Some (Done (site_cache s, p', c')) \<and>
      steps_left p' < steps_left p)"
proof -
  note T = unservable_tracked [OF assms(1-3)]
  from T(2) have t: "track dk mms (unservable_data dk) (cs ! i) (p, c)" unfolding assms(4) .
  show ?thesis
  proof (cases "p = Finished")
    case True
    with unservable_finished [OF _ assms(5-7)] t show ?thesis by simp
  next
    case False
    with unservable_step [OF T(1) t _ assms(5-10)] show ?thesis by simp
  qed
qed

theorem unservable_gets_error_page_witness:
  "\<exists>s c. serves sample_disk (limit 100) {sample_mem} (site_start [asking ''b.txt'']) s \<and> site_workers s ! 0 = (Finished, c) \<and>
     conn_sent c = error_page ''./b.txt'' ''404'' ''Not found'' ''OS Web Server could not find this file''"
proof -
  let ?nm = "''./b.txt''"
  from refused_b obtain s c where s: "serves sample_disk (limit 100) {sample_mem} (site_start [asking ''b.txt'']) s"
    "site_workers s ! 0 = (Finished, c)" by blast
  have n: "\<not> servable sample_disk ?nm" by (simp add: servable_def sample_disk_def)
  have r: "refusal sample_disk ?nm = (''404'', ''Not found'', ''OS Web Server could not find this file'')" by (simp add: refusal_def sample_disk_def)
  have h: "hashable ?nm" by code_simp
  have l: "length (refusal_body sample_disk ?nm) < MAXBUF" by (simp add: refusal_body_def r length_error_body MAXBUF_def)
  then have "length (refusal_page sample_disk ?nm) \<le> 400"
    unfolding refusal_page_def refusal_body_def r by (simp, intro order_trans [OF length_error_page]) (simp_all add: length_error_body)
  then have w: "writable (length (refusal_page sample_disk ?nm)) (conn_out (asking ''b.txt''))" by (simp add: asking_def writable_def)
  from unservable_gets_error_page [OF s(1) _ _ s(2), of "''h''" "''b.txt''" ?nm] asking_b sample_mem_ok n h l w s r
  show ?thesis by (auto simp: refusal_page_def)
qed

text \<open>A long name is fatal: when the page with the name of a file that cannot be served does not fit its buffer, the server has
  a fault, which any client can bring about.\<close>

theorem long_name_is_fatal:
  assumes "asks host filename c" "\<not> servable dk (''./'' @ filename)" "MAXBUF \<le> length (refusal_body dk (''./'' @ filename))"
    "cache_ok (limit m) cache" "contents cache (''./'' @ filename) = None"
  shows "do_server_request dk (limit m) mm cache c = Some Fault"
proof -
  let ?nm = "''./'' @ filename"
  let ?d = "\<lparr>file_name = Some ?nm, file_buf = None, file_size = 0\<rparr>"
  obtain src where o: "request_init c = Some (Done (Some ?d, c\<lparr>conn_in := src\<rparr>))"
    using asks_opened [OF assms(1)] by (auto simp: opened_def)
  have r: "request_readfile dk mm ?d (c\<lparr>conn_in := src\<rparr>) = Some Fault"
    using long_refusal [of ?d ?nm dk] assms(2,3) by simp
  show ?thesis
  proof (cases "hashable ?nm")
    case True
    then have "lookup_section cache ?d = Some (Done None)"
      using cache_lookup_contents [OF assms(4)] assms(5) by (simp add: lookup_section_def)
    then show ?thesis using o r limit_simps(1) [of m]
      by (simp add: do_server_request_def eval_nat_numeral worker_step_def not_less)
  next
    case False
    then have "lookup_section cache ?d = Some Fault"
      using cache_lookup_unhashable [of ?nm cache] by (simp add: lookup_section_def)
    then show ?thesis using o limit_simps(1) [of m]
      by (simp add: do_server_request_def eval_nat_numeral worker_step_def not_less)
  qed
qed

theorem long_name_is_fatal_witness:
  "do_server_request sample_disk (limit 100) sample_mem (cache_table_initialization (\<lambda>_. Null)) (asking (replicate 8100 CHR ''a'')) =
     Some Fault"
proof -
  let ?nm = "replicate 8100 CHR ''a''"
  have "sendable_request ''h'' ?nm"
    by (simp add: sendable_request_def word_def isspace_def NUL_def newline_def client_request_text_def crlf_def MAXLINE_def)
  then have "asks ''h'' ?nm (asking ?nm)" by (simp add: asks_def asking_def client_request_text_def)
  moreover have "length (''./'' @ ?nm) \<noteq> length ''./a.txt''" by simp
  then have "''./'' @ ?nm \<noteq> ''./a.txt''" by metis
  then have "\<not> servable sample_disk (''./'' @ ?nm)" unfolding servable_def sample_disk_def by simp
  moreover have "MAXBUF \<le> length (refusal_body sample_disk (''./'' @ ?nm))"
  proof -
    obtain e sh l where r: "refusal sample_disk (''./'' @ ?nm) = (e, sh, l)" by (metis prod_cases3)
    from refusal_length [OF r] r show ?thesis by (simp add: refusal_body_def length_error_body MAXBUF_def)
  qed
  moreover have "cache_ok (limit 100) (cache_table_initialization (\<lambda>_. Null))" by (rule cache_initial_ok) simp
  ultimately show ?thesis by (rule long_name_is_fatal) (simp add: contents_initial)
qed

end
