(* ===== verification/Web_Lru.thy ===== *)
theory Web_Lru
  imports Prelude
begin

text \<open>
  The list of least recently used files of the web server (\<open>struct lru_queue\<close> of
  \<open>src/webserver/server_thread.c\<close>), a doubly linked list in memory, refined to a list of names. The
  server only creates it empty: the calls of its operations are commented out.
\<close>

section \<open>The operations on memory\<close>

record lru_entry =
  lru_name :: "char list"
  previous :: ptr
  lru_next :: ptr

record lru_queue =
  lru_mem :: "addr \<Rightarrow> lru_entry option"
  head :: ptr
  tail :: ptr

text \<open>Stores through a pointer: a fault when nothing is allocated there.\<close>

definition set_next :: "addr \<Rightarrow> ptr \<Rightarrow> lru_queue \<Rightarrow> lru_queue option" where
  "set_next a p q = (case lru_mem q a of None \<Rightarrow> None
     | Some e \<Rightarrow> Some (q\<lparr>lru_mem := (lru_mem q)(a \<mapsto> e\<lparr>lru_next := p\<rparr>)\<rparr>))"

definition set_previous :: "addr \<Rightarrow> ptr \<Rightarrow> lru_queue \<Rightarrow> lru_queue option" where
  "set_previous a p q = (case lru_mem q a of None \<Rightarrow> None
     | Some e \<Rightarrow> Some (q\<lparr>lru_mem := (lru_mem q)(a \<mapsto> e\<lparr>previous := p\<rparr>)\<rparr>))"

definition unlink :: "addr \<Rightarrow> lru_queue \<Rightarrow> lru_queue option" where
  "unlink a q = do {
     e \<leftarrow> lru_mem q a;
     q \<leftarrow> (case previous e of None \<Rightarrow> Some (q\<lparr>head := lru_next e\<rparr>) | Some p \<Rightarrow> set_next p (lru_next e) q);
     e \<leftarrow> lru_mem q a;
     (case lru_next e of None \<Rightarrow> Some (q\<lparr>tail := previous e\<rparr>) | Some n \<Rightarrow> set_previous n (previous e) q) }"

partial_function (option) pop_loop :: "char list \<Rightarrow> ptr \<Rightarrow> lru_queue \<Rightarrow> (ptr \<times> lru_queue) option" where
  "pop_loop nm current_ptr q =
     (case current_ptr of
        None \<Rightarrow> Some (None, q)
      | Some a \<Rightarrow> do {
          e \<leftarrow> lru_mem q a;
          if lru_name e = nm then do { q \<leftarrow> unlink a q; Some (Some a, q) }
          else pop_loop nm (lru_next e) q })"

definition lru_entry_pop_specified :: "char list \<Rightarrow> lru_queue \<Rightarrow> (ptr \<times> lru_queue) option" where
  "lru_entry_pop_specified nm q = pop_loop nm (head q) q"

text \<open>The end of \<open>lru_enqueue_head\<close> and \<open>lru_bring_up\<close>: the entry at \<open>a\<close> becomes the head.\<close>

definition link_head :: "addr \<Rightarrow> lru_queue \<Rightarrow> lru_queue option" where
  "link_head a q =
     (if head q = None \<or> tail q = None then do {
        q \<leftarrow> set_previous a None (q\<lparr>head := Some a, tail := Some a\<rparr>);
        set_next a None q }
      else do {
        q \<leftarrow> set_previous a None q;
        h \<leftarrow> head q;
        q \<leftarrow> set_previous h (Some a) q;
        q \<leftarrow> set_next a (Some h) q;
        Some (q\<lparr>head := Some a\<rparr>) })"

text \<open>\<open>a\<close> is the block that \<open>malloc\<close> returns; its pointers are not initialised.\<close>

definition lru_enqueue_head :: "addr \<Rightarrow> ptr \<Rightarrow> ptr \<Rightarrow> char list \<Rightarrow> lru_queue \<Rightarrow> lru_queue option" where
  "lru_enqueue_head a junk1 junk2 nm q =
     link_head a (q\<lparr>lru_mem := (lru_mem q)(a \<mapsto> \<lparr>lru_name = nm, previous = junk1, lru_next = junk2\<rparr>)\<rparr>)"

definition lru_dequeue_tail :: "lru_queue \<Rightarrow> lru_queue option" where
  "lru_dequeue_tail q =
     (case tail q of
        None \<Rightarrow> Some q
      | Some a \<Rightarrow> do {
          e \<leftarrow> lru_mem q a;
          q \<leftarrow> (case previous e of
                  None \<Rightarrow> Some (q\<lparr>head := None, tail := None\<rparr>)
                | Some p \<Rightarrow> do { q \<leftarrow> set_next p None q; Some (q\<lparr>tail := Some p\<rparr>) });
          Some (q\<lparr>lru_mem := (lru_mem q)(a := None)\<rparr>) })"

text \<open>\<open>temp_ptr\<close> is used without a test for NULL.\<close>

definition lru_bring_up :: "char list \<Rightarrow> lru_queue \<Rightarrow> lru_queue option" where
  "lru_bring_up nm q = do {
     (temp_ptr, q) \<leftarrow> lru_entry_pop_specified nm q;
     a \<leftarrow> temp_ptr;
     q \<leftarrow> set_next a (head q) q;
     q \<leftarrow> set_previous a None q;
     link_head a q }"

partial_function (option) clean_loop :: "ptr \<Rightarrow> lru_queue \<Rightarrow> lru_queue option" where
  "clean_loop current_ptr q =
     (case current_ptr of
        None \<Rightarrow> Some q
      | Some a \<Rightarrow> do {
          e \<leftarrow> lru_mem q a;
          clean_loop (lru_next e) (q\<lparr>lru_mem := (lru_mem q)(a := None)\<rparr>) })"

definition lru_clean_up :: "lru_queue \<Rightarrow> lru_queue option" where
  "lru_clean_up q = clean_loop (head q) q"

section \<open>The list in memory\<close>

text \<open>\<open>dseg m pv p xs l nx\<close>: from \<open>p\<close>, whose predecessor is \<open>pv\<close>, the entries \<open>xs\<close>, the last of them at
  \<open>l\<close> and followed by \<open>nx\<close>.\<close>

fun dseg :: "(addr \<Rightarrow> lru_entry option) \<Rightarrow> ptr \<Rightarrow> ptr \<Rightarrow> (addr \<times> char list) list \<Rightarrow> ptr \<Rightarrow> ptr \<Rightarrow> bool" where
  "dseg m pv p [] l nx \<longleftrightarrow> pv = l \<and> p = nx"
| "dseg m pv p ((a, nm) # xs) l nx \<longleftrightarrow>
     p = Some a \<and> (\<exists>n. m a = Some \<lparr>lru_name = nm, previous = pv, lru_next = n\<rparr> \<and> dseg m (Some a) n xs l nx)"

definition lru_rep :: "lru_queue \<Rightarrow> (addr \<times> char list) list \<Rightarrow> bool" where
  "lru_rep q xs \<longleftrightarrow> dseg (lru_mem q) None (head q) xs (tail q) None \<and> distinct (map fst xs)"

lemma dseg_append: "dseg m pv p (xs @ ys) l nx \<longleftrightarrow> (\<exists>l' p'. dseg m pv p xs l' p' \<and> dseg m l' p' ys l nx)"
  by (induction m pv p xs l nx rule: dseg.induct) auto

lemma dseg_frame: "dseg m pv p xs l nx \<Longrightarrow> \<forall>a \<in> fst ` set xs. m' a = m a \<Longrightarrow> dseg m' pv p xs l nx"
  by (induction m pv p xs l nx rule: dseg.induct) auto

lemma dseg_snoc: "dseg m pv p (xs @ [(a, nm)]) l nx \<longleftrightarrow>
    (\<exists>l'. dseg m pv p xs l' (Some a) \<and> l = Some a \<and> m a = Some \<lparr>lru_name = nm, previous = l', lru_next = nx\<rparr>)"
  by (auto simp: dseg_append)

lemma dseg_head: "dseg m pv p ((a, nm) # xs) l nx \<Longrightarrow> p = Some a"
  by simp

lemma dseg_last: "dseg m pv p xs l nx \<Longrightarrow> xs \<noteq> [] \<Longrightarrow> l = Some (fst (last xs))"
  by (cases xs rule: rev_cases) (auto simp: dseg_snoc)

lemma dseg_first: "dseg m pv p xs l nx \<Longrightarrow> xs \<noteq> [] \<Longrightarrow> p = Some (fst (hd xs))"
  by (cases xs) auto

lemma lru_rep_ends: "lru_rep q xs \<Longrightarrow> (head q = None \<longleftrightarrow> xs = []) \<and> (tail q = None \<longleftrightarrow> xs = [])"
  using dseg_last dseg_first by (cases "xs = []") (fastforce simp: lru_rep_def)+

text \<open>Changing the end and the front of a segment.\<close>

lemma dseg_set_next:
  assumes "dseg m pv p xs l nx" "l = Some b" "pv \<noteq> l \<or> xs \<noteq> []" "distinct (map fst xs)" "m b = Some e"
  shows "dseg (m(b \<mapsto> e\<lparr>lru_next := nx'\<rparr>)) pv p xs l nx'"
proof (cases xs rule: rev_cases)
  case Nil
  with assms show ?thesis by simp
next
  case (snoc ys y)
  obtain c nm where y: "y = (c, nm)" by (cases y)
  from assms(1) snoc y obtain l' where s: "dseg m pv p ys l' (Some c)" "l = Some c"
    "m c = Some \<lparr>lru_name = nm, previous = l', lru_next = nx\<rparr>" by (auto simp: dseg_snoc)
  have c: "c = b" using s(2) assms(2) by simp
  have "dseg (m(b \<mapsto> e\<lparr>lru_next := nx'\<rparr>)) pv p ys l' (Some c)"
    by (rule dseg_frame [OF s(1)]) (use assms(4) snoc y c in auto)
  then show ?thesis using s c assms(5) snoc y by (auto simp: dseg_snoc)
qed

lemma dseg_set_previous:
  assumes "dseg m pv p ((b, nm) # xs) l nx" "distinct (b # map fst xs)" "m b = Some e"
  shows "dseg (m(b \<mapsto> e\<lparr>previous := pv'\<rparr>)) pv' p ((b, nm) # xs) l nx"
proof -
  from assms obtain n where n: "p = Some b" "e = \<lparr>lru_name = nm, previous = pv, lru_next = n\<rparr>" "dseg m (Some b) n xs l nx"
    by auto
  have "dseg (m(b \<mapsto> e\<lparr>previous := pv'\<rparr>)) (Some b) n xs l nx"
    by (rule dseg_frame [OF n(3)]) (use assms(2) in auto)
  then show ?thesis using n by simp
qed

section \<open>The operations on the list\<close>

lemma unlink_before:
  assumes "dseg (lru_mem q) None (head q) ys l1 (Some a)" "a \<notin> fst ` set ys" "distinct (map fst ys)"
    "fst ` set ys \<inter> fst ` set zs = {}" "dseg (lru_mem q) (Some a) n zs t None"
  shows "\<exists>q'. (case l1 of None \<Rightarrow> Some (q\<lparr>head := n\<rparr>) | Some p \<Rightarrow> set_next p n q) = Some q' \<and>
    dseg (lru_mem q') None (head q') ys l1 n \<and> dseg (lru_mem q') (Some a) n zs t None \<and>
    lru_mem q' a = lru_mem q a \<and> tail q' = tail q"
proof (cases "ys = []")
  case True
  with assms show ?thesis by auto
next
  case False
  then obtain b where b: "l1 = Some b" "b \<in> fst ` set ys" using dseg_last [OF assms(1)] by auto
  have "\<exists>e. lru_mem q b = Some e"
    using assms(1) b(1) False by (cases ys rule: rev_cases) (auto simp: dseg_snoc)
  then obtain e where e: "lru_mem q b = Some e" by blast
  let ?q = "q\<lparr>lru_mem := (lru_mem q)(b \<mapsto> e\<lparr>lru_next := n\<rparr>)\<rparr>"
  have "dseg (lru_mem ?q) None (head ?q) ys l1 n"
    using dseg_set_next [OF assms(1) b(1) _ assms(3) e] False by simp
  moreover have "dseg (lru_mem ?q) (Some a) n zs t None"
    by (rule dseg_frame [OF assms(5)]) (use b(2) assms(4) in auto)
  moreover have "lru_mem ?q a = lru_mem q a" using b(2) assms(2) by auto
  ultimately show ?thesis using b(1) e by (auto simp: set_next_def)
qed

lemma unlink_after:
  assumes "dseg (lru_mem q) None (head q) ys l1 n" "dseg (lru_mem q) (Some a) n zs (tail q) None" "a \<notin> fst ` set zs"
    "fst ` set ys \<inter> fst ` set zs = {}" "distinct (map fst zs)"
  shows "\<exists>q'. (case n of None \<Rightarrow> Some (q\<lparr>tail := l1\<rparr>) | Some c \<Rightarrow> set_previous c l1 q) = Some q' \<and>
    dseg (lru_mem q') None (head q') (ys @ zs) (tail q') None \<and> lru_mem q' a = lru_mem q a"
proof (cases zs)
  case Nil
  with assms show ?thesis by auto
next
  case (Cons z zs')
  obtain c nm where z: "z = (c, nm)" by (cases z)
  with Cons assms(2) have n: "n = Some c" by simp
  obtain e where e: "lru_mem q c = Some e" using assms(2) Cons z by auto
  let ?q = "q\<lparr>lru_mem := (lru_mem q)(c \<mapsto> e\<lparr>previous := l1\<rparr>)\<rparr>"
  have "dseg (lru_mem ?q) l1 n zs (tail q) None"
    using dseg_set_previous [of "lru_mem q" "Some a" n c nm zs' "tail q" None e l1] assms(2,5) Cons z e by simp
  moreover have "dseg (lru_mem ?q) None (head q) ys l1 n"
    by (rule dseg_frame [OF assms(1)]) (use assms(4) Cons z in auto)
  moreover have "lru_mem ?q a = lru_mem q a" using assms(3) Cons z by auto
  ultimately show ?thesis using n e by (auto simp: set_previous_def dseg_append)
qed

lemma unlink_rep:
  assumes "lru_rep q (ys @ (a, nm) # zs)"
  shows "\<exists>q'. unlink a q = Some q' \<and> lru_rep q' (ys @ zs) \<and> lru_mem q' a = lru_mem q a"
proof -
  from assms obtain l1 n where d: "dseg (lru_mem q) None (head q) ys l1 (Some a)"
    "lru_mem q a = Some \<lparr>lru_name = nm, previous = l1, lru_next = n\<rparr>" "dseg (lru_mem q) (Some a) n zs (tail q) None"
    by (auto simp: lru_rep_def dseg_append)
  from assms have ds: "distinct (map fst ys)" "distinct (map fst zs)" "a \<notin> fst ` set ys" "a \<notin> fst ` set zs"
    "fst ` set ys \<inter> fst ` set zs = {}" by (auto simp: lru_rep_def)
  from unlink_before [OF d(1) ds(3,1,5) d(3)] obtain q1 where
    q1: "(case l1 of None \<Rightarrow> Some (q\<lparr>head := n\<rparr>) | Some p \<Rightarrow> set_next p n q) = Some q1"
      "dseg (lru_mem q1) None (head q1) ys l1 n" "dseg (lru_mem q1) (Some a) n zs (tail q) None"
      "lru_mem q1 a = lru_mem q a" "tail q1 = tail q" by blast
  have "dseg (lru_mem q1) (Some a) n zs (tail q1) None" using q1(3,5) by simp
  from unlink_after [OF q1(2) this ds(4,5,2)] obtain q2 where
    q2: "(case n of None \<Rightarrow> Some (q1\<lparr>tail := l1\<rparr>) | Some c \<Rightarrow> set_previous c l1 q1) = Some q2"
      "dseg (lru_mem q2) None (head q2) (ys @ zs) (tail q2) None" "lru_mem q2 a = lru_mem q1 a" by blast
  have "unlink a q = Some q2" using d(2) q1(1,4) q2(1) by (simp add: unlink_def cong: option.case_cong)
  then show ?thesis using q2(2,3) q1(4) ds by (auto simp: lru_rep_def)
qed

lemma pop_loop_rep:
  assumes "lru_rep q (ys @ xs)" "dseg (lru_mem q) pv p xs (tail q) None" "nm \<notin> snd ` set ys"
  shows "(nm \<notin> snd ` set xs \<and> pop_loop nm p q = Some (None, q)) \<or>
    (\<exists>vs a zs q'. xs = vs @ (a, nm) # zs \<and> nm \<notin> snd ` set vs \<and> pop_loop nm p q = Some (Some a, q') \<and>
       lru_rep q' (ys @ vs @ zs) \<and> lru_mem q' a = lru_mem q a)"
  using assms
proof (induction xs arbitrary: ys pv p)
  case Nil
  then show ?case by (subst (1 2) pop_loop.simps) simp
next
  case (Cons x xs)
  obtain a k where x: "x = (a, k)" by (cases x)
  with Cons.prems(2) obtain n where p: "p = Some a" "lru_mem q a = Some \<lparr>lru_name = k, previous = pv, lru_next = n\<rparr>"
    "dseg (lru_mem q) (Some a) n xs (tail q) None" by auto
  show ?case
  proof (cases "k = nm")
    case True
    with unlink_rep [of q ys a nm xs] Cons.prems(1) x obtain q' where
      "unlink a q = Some q'" "lru_rep q' (ys @ xs)" "lru_mem q' a = lru_mem q a" by auto
    then have "pop_loop nm p q = Some (Some a, q')" using p True by (subst pop_loop.simps) simp
    with \<open>lru_rep q' (ys @ xs)\<close> \<open>lru_mem q' a = lru_mem q a\<close> show ?thesis using x True
      by (intro disjI2 exI [of _ "[]"] exI [of _ a] exI [of _ xs] exI [of _ q']) simp
  next
    case False
    then have st: "pop_loop nm p q = pop_loop nm n q" using p by (subst pop_loop.simps) simp
    from Cons.IH [of "ys @ [x]" "Some a" n] Cons.prems(1,3) p(3) x False
    consider "nm \<notin> snd ` set xs" "pop_loop nm n q = Some (None, q)"
      | vs b zs q' where "xs = vs @ (b, nm) # zs" "nm \<notin> snd ` set vs" "pop_loop nm n q = Some (Some b, q')"
        "lru_rep q' ((ys @ [x]) @ vs @ zs)" "lru_mem q' b = lru_mem q b" by auto
    then show ?thesis
    proof cases
      case 1
      then show ?thesis using st x False by auto
    next
      case 2
      then show ?thesis using st x False
        by (intro disjI2 exI [of _ "x # vs"] exI [of _ b] exI [of _ zs] exI [of _ q']) auto
    qed
  qed
qed

lemma link_head_rep:
  assumes "lru_rep q xs" "a \<notin> fst ` set xs" "lru_mem q a = Some e"
  shows "\<exists>q'. link_head a q = Some q' \<and> lru_rep q' ((a, lru_name e) # xs)"
proof (cases xs)
  case Nil
  with lru_rep_ends [OF assms(1)] assms(3) show ?thesis
    by (cases e) (simp add: link_head_def set_previous_def set_next_def lru_rep_def)
next
  case (Cons x xs')
  obtain h k where x: "x = (h, k)" by (cases x)
  obtain t where ne: "tail q = Some t" using lru_rep_ends [OF assms(1)] Cons by (cases "tail q") auto
  from assms(1) Cons x obtain n where h: "head q = Some h" "lru_mem q h = Some \<lparr>lru_name = k, previous = None, lru_next = n\<rparr>"
    "dseg (lru_mem q) (Some h) n xs' (tail q) None" "distinct (map fst xs)" by (auto simp: lru_rep_def)
  have ah: "a \<noteq> h" using assms(2) Cons x by auto
  let ?m = "(lru_mem q)(a \<mapsto> e\<lparr>previous := None\<rparr>, h \<mapsto> \<lparr>lru_name = k, previous = Some a, lru_next = n\<rparr>,
      a \<mapsto> \<lparr>lru_name = lru_name e, previous = None, lru_next = Some h\<rparr>)"
  have "link_head a q = Some (q\<lparr>lru_mem := ?m, head := Some a\<rparr>)"
    using ne h(1,2) ah assms(3) by (cases e) (simp add: link_head_def set_previous_def set_next_def fun_upd_twist)
  moreover have "dseg ?m (Some h) n xs' (tail q) None"
    by (rule dseg_frame [OF h(3)]) (use assms(2) h(4) Cons x in auto)
  ultimately show ?thesis using ah assms(2) h(4) Cons x by (auto simp: lru_rep_def)
qed

lemma lru_enqueue_head_rep:
  assumes "lru_rep q xs" "a \<notin> fst ` set xs"
  shows "\<exists>q'. lru_enqueue_head a junk1 junk2 nm q = Some q' \<and> lru_rep q' ((a, nm) # xs)"
proof -
  let ?q = "q\<lparr>lru_mem := (lru_mem q)(a \<mapsto> \<lparr>lru_name = nm, previous = junk1, lru_next = junk2\<rparr>)\<rparr>"
  have "dseg (lru_mem ?q) None (head q) xs (tail q) None"
    by (rule dseg_frame [of "lru_mem q"]) (use assms in \<open>auto simp: lru_rep_def\<close>)
  then have "lru_rep ?q xs" using assms(1) by (simp add: lru_rep_def)
  from link_head_rep [OF this assms(2), of "\<lparr>lru_name = nm, previous = junk1, lru_next = junk2\<rparr>"]
  show ?thesis by (simp add: lru_enqueue_head_def)
qed

lemma lru_dequeue_tail_rep:
  assumes "lru_rep q xs"
  shows "\<exists>q'. lru_dequeue_tail q = Some q' \<and> lru_rep q' (butlast xs)"
proof (cases xs rule: rev_cases)
  case Nil
  with lru_rep_ends [OF assms] assms show ?thesis by (simp add: lru_dequeue_tail_def)
next
  case (snoc ys y)
  obtain a nm where y: "y = (a, nm)" by (cases y)
  from assms snoc y obtain l where d: "dseg (lru_mem q) None (head q) ys l (Some a)" "tail q = Some a"
    "lru_mem q a = Some \<lparr>lru_name = nm, previous = l, lru_next = None\<rparr>" "distinct (map fst ys)" "a \<notin> fst ` set ys"
    by (auto simp: lru_rep_def dseg_snoc)
  have "dseg (lru_mem q) (Some a) None [] (Some a) None" by simp
  from unlink_before [OF d(1,5,4) _ this] obtain q1 where
    q1: "(case l of None \<Rightarrow> Some (q\<lparr>head := None\<rparr>) | Some p \<Rightarrow> set_next p None q) = Some q1"
      "dseg (lru_mem q1) None (head q1) ys l None" by auto
  have fr: "dseg ((lru_mem q1)(a := None)) None (head q1) ys l None"
    by (rule dseg_frame [OF q1(2)]) (use d(5) in auto)
  show ?thesis
  proof (cases l)
    case None
    with dseg_last [OF d(1)] have "ys = []" by auto
    with None d q1 snoc show ?thesis by (simp add: lru_dequeue_tail_def lru_rep_def)
  next
    case (Some p)
    with fr q1(1) d(2-4) snoc show ?thesis by (auto simp: lru_dequeue_tail_def lru_rep_def)
  qed
qed

text \<open>The first entry with the name.\<close>

lemma lru_entry_pop_specified_rep:
  assumes "lru_rep q xs"
  shows "(nm \<notin> snd ` set xs \<and> lru_entry_pop_specified nm q = Some (None, q)) \<or>
    (\<exists>vs a zs q'. xs = vs @ (a, nm) # zs \<and> nm \<notin> snd ` set vs \<and> lru_entry_pop_specified nm q = Some (Some a, q') \<and>
       lru_rep q' (vs @ zs) \<and> lru_mem q' a = lru_mem q a)"
  using pop_loop_rep [of q "[]" xs None "head q" nm] assms
  by (simp add: lru_entry_pop_specified_def lru_rep_def)

lemma lru_rep_entry: "lru_rep q (vs @ (a, nm) # zs) \<Longrightarrow> \<exists>e. lru_mem q a = Some e \<and> lru_name e = nm"
  by (auto simp: lru_rep_def dseg_append)

lemma lru_bring_up_rep:
  assumes "lru_rep q xs"
  shows "(nm \<notin> snd ` set xs \<and> lru_bring_up nm q = None) \<or>
    (\<exists>vs a zs q'. xs = vs @ (a, nm) # zs \<and> nm \<notin> snd ` set vs \<and> lru_bring_up nm q = Some q' \<and>
       lru_rep q' ((a, nm) # vs @ zs))"
proof (cases "nm \<in> snd ` set xs")
  case False
  with lru_entry_pop_specified_rep [OF assms, of nm] show ?thesis by (auto simp: lru_bring_up_def)
next
  case True
  with lru_entry_pop_specified_rep [OF assms, of nm] obtain vs a zs q1 where
    p: "xs = vs @ (a, nm) # zs" "nm \<notin> snd ` set vs" "lru_entry_pop_specified nm q = Some (Some a, q1)"
    "lru_rep q1 (vs @ zs)" "lru_mem q1 a = lru_mem q a" by blast
  obtain e where e: "lru_mem q1 a = Some e" "lru_name e = nm" using lru_rep_entry assms p(1,5) by metis
  have a: "a \<notin> fst ` set (vs @ zs)" using assms p(1) by (auto simp: lru_rep_def)
  let ?e = "e\<lparr>lru_next := head q1, previous := None\<rparr>"
  let ?q = "q1\<lparr>lru_mem := (lru_mem q1)(a \<mapsto> ?e)\<rparr>"
  have "dseg (lru_mem ?q) None (head q1) (vs @ zs) (tail q1) None"
    by (rule dseg_frame [of "lru_mem q1"]) (use p(4) a in \<open>auto simp: lru_rep_def\<close>)
  then have "lru_rep ?q (vs @ zs)" using p(4) by (simp add: lru_rep_def)
  from link_head_rep [OF this a, of ?e] obtain q' where "link_head a ?q = Some q'" "lru_rep q' ((a, nm) # vs @ zs)"
    using e(2) by auto
  moreover from this have "lru_bring_up nm q = Some q'"
    using p(3) e(1) by (simp add: lru_bring_up_def set_next_def set_previous_def)
  ultimately show ?thesis using p(1,2) by blast
qed

lemma clean_loop_rep:
  assumes "dseg (lru_mem q) pv p xs l None" "distinct (map fst xs)"
  shows "\<exists>q'. clean_loop p q = Some q' \<and> (\<forall>b. lru_mem q' b = (if b \<in> fst ` set xs then None else lru_mem q b))"
  using assms
proof (induction xs arbitrary: pv p q)
  case Nil
  then show ?case by (subst clean_loop.simps) simp
next
  case (Cons x xs)
  obtain a k where x: "x = (a, k)" by (cases x)
  with Cons.prems obtain n where p: "p = Some a" "lru_mem q a = Some \<lparr>lru_name = k, previous = pv, lru_next = n\<rparr>"
    "dseg (lru_mem q) (Some a) n xs l None" by auto
  let ?q = "q\<lparr>lru_mem := (lru_mem q)(a := None)\<rparr>"
  have "dseg (lru_mem ?q) (Some a) n xs l None"
    by (rule dseg_frame [OF p(3)]) (use Cons.prems(2) x in auto)
  from Cons.IH [OF this] Cons.prems(2) obtain q' where
    "clean_loop n ?q = Some q'" "\<forall>b. lru_mem q' b = (if b \<in> fst ` set xs then None else lru_mem ?q b)" by auto
  then show ?case using p x by (subst clean_loop.simps) auto
qed

section \<open>Properties\<close>

text \<open>C33: The pointer code of the LRU list refines a list of names, most recent first: enqueuing puts
  a name in front, dequeuing drops the last one, bringing up moves the first entry with the name to
  the front, and cleaning up frees exactly the entries. \<open>lru_bring_up\<close> of a name that is not in the
  list is a fault, the others never are.\<close>

theorem lru_refines_list:
  assumes "lru_rep q xs" "a \<notin> fst ` set xs"
  shows "(\<exists>q'. lru_enqueue_head a junk1 junk2 nm q = Some q' \<and> lru_rep q' ((a, nm) # xs)) \<and>
    (\<exists>q'. lru_dequeue_tail q = Some q' \<and> lru_rep q' (butlast xs)) \<and>
    (if nm \<in> snd ` set xs
     then \<exists>vs b zs q'. xs = vs @ (b, nm) # zs \<and> nm \<notin> snd ` set vs \<and> lru_bring_up nm q = Some q' \<and>
       lru_rep q' ((b, nm) # vs @ zs)
     else lru_bring_up nm q = None) \<and>
    (\<exists>q'. lru_clean_up q = Some q' \<and> (\<forall>b. lru_mem q' b = (if b \<in> fst ` set xs then None else lru_mem q b)))"
proof (intro conjI)
  show "\<exists>q'. lru_enqueue_head a junk1 junk2 nm q = Some q' \<and> lru_rep q' ((a, nm) # xs)"
    using lru_enqueue_head_rep [OF assms] .
  show "\<exists>q'. lru_dequeue_tail q = Some q' \<and> lru_rep q' (butlast xs)" using lru_dequeue_tail_rep [OF assms(1)] .
  show "if nm \<in> snd ` set xs
     then \<exists>vs b zs q'. xs = vs @ (b, nm) # zs \<and> nm \<notin> snd ` set vs \<and> lru_bring_up nm q = Some q' \<and>
       lru_rep q' ((b, nm) # vs @ zs)
     else lru_bring_up nm q = None" using lru_bring_up_rep [OF assms(1), of nm] by auto
  show "\<exists>q'. lru_clean_up q = Some q' \<and> (\<forall>b. lru_mem q' b = (if b \<in> fst ` set xs then None else lru_mem q b))"
    using clean_loop_rep [of q None "head q" xs "tail q"] assms(1) by (simp add: lru_clean_up_def lru_rep_def)
qed

theorem lru_refines_list_witness:
  "\<exists>q. lru_rep q [(2, ''b''), (1, ''a'')] \<and> (\<exists>q'. lru_bring_up ''a'' q = Some q' \<and> lru_rep q' [(1, ''a''), (2, ''b'')])"
proof -
  let ?e = "\<lambda>nm p n. \<lparr>lru_name = nm, previous = p, lru_next = n\<rparr>"
  let ?q = "\<lparr>lru_mem = [2 \<mapsto> ?e ''b'' None (Some 1), 1 \<mapsto> ?e ''a'' (Some 2) None], head = Some 2, tail = Some 1\<rparr>"
  have r: "lru_rep ?q [(2, ''b''), (1, ''a'')]" by (simp add: lru_rep_def)
  from lru_refines_list [OF r, of 3 None None "''a''"] obtain vs b zs q' where
    "[(2, ''b''), (1, ''a'')] = vs @ (b, ''a'') # zs" "lru_bring_up ''a'' ?q = Some q'"
    "lru_rep q' ((b, ''a'') # vs @ zs)" by auto
  moreover from this have "lru_rep q' [(1, ''a''), (2, ''b'')]" by (auto simp: Cons_eq_append_conv)
  ultimately show ?thesis using r by blast
qed

end
