(* ===== verification/Warmup_Wc.thy ===== *)
theory Warmup_Wc
  imports C_Strings
begin

text \<open>
  The word counter \<open>src/warmup/wc.c\<close>: the scanner over the array of characters, the hash table
  of chains and its output, equivalent to counting words in a list.
\<close>

section \<open>The table\<close>

text \<open>\<open>unsigned long\<close> has 64 bits, \<open>char\<close> is signed.\<close>

definition wc_hash_step :: "64 word \<Rightarrow> char \<Rightarrow> 64 word" where
  "wc_hash_step h c = (push_bit 5 h + h) + scast (of_char c :: 8 word)"

definition wc_hash_function :: "char list \<Rightarrow> nat \<Rightarrow> nat" where
  "wc_hash_function key sz = unat (foldl wc_hash_step 5381 key) mod sz"

text \<open>A chain is the list of its items' keys and counts.\<close>

record wc =
  items :: "(char list \<times> int) list list"
  element_count :: int
  wc_size :: nat

definition create_items :: "char list \<Rightarrow> int \<Rightarrow> char list \<times> int" where
  "create_items key n = (key, n)"

text \<open>The walk along a chain: the count of the first item with the key goes up, or a new item is
  put at the end.\<close>

fun chain_count :: "char list \<Rightarrow> (char list \<times> int) list \<Rightarrow> (char list \<times> int) list" where
  "chain_count key [] = [create_items key 1]"
| "chain_count key ((k, n) # chain) =
     (if key = k then (k, s32 (n + 1)) # chain else (k, n) # chain_count key chain)"

text \<open>The string that \<open>strncpy\<close> and \<open>strcat\<close> leave in \<open>buffer_str\<close>: \<open>strncpy\<close> does not write a NUL,
  and \<open>strcat\<close> appends nothing, so what ends the string is the byte that follows in memory. With no
  NUL there \<open>strcat\<close> reads on without end.\<close>

definition buffer_string :: "char list \<Rightarrow> char list \<Rightarrow> char list option" where
  "buffer_string slack w = (if NUL \<in> set (w @ slack) then Some (c_str (w @ slack)) else None)"

definition wc_insert :: "char list \<Rightarrow> wc \<Rightarrow> wc option" where
  "wc_insert key t =
     (let insertID = wc_hash_function key (wc_size t)
      in if insertID < length (items t)
         then Some (t\<lparr>items := (items t)[insertID := chain_count key (items t ! insertID)],
                      element_count := s32 (element_count t + 1)\<rparr>)
         else None)"

text \<open>The loop of \<open>wc_init\<close>: \<open>n\<close> characters are left, \<open>head_of_word\<close> is an index into the array, and
  \<open>slack i\<close> is the memory behind the buffer allocated at index \<open>i\<close>.\<close>

fun wc_loop :: "(nat \<Rightarrow> char list) \<Rightarrow> char list \<Rightarrow> nat \<Rightarrow> nat \<Rightarrow> nat \<Rightarrow> wc \<Rightarrow> wc option" where
  "wc_loop slack word_array 0 head_of_word counter t = Some t"
| "wc_loop slack word_array (Suc n) head_of_word counter t =
     (let index = length word_array - Suc n; c = word_array ! index
      in if isspace c \<and> 0 < counter then do {
           buffer_str \<leftarrow> buffer_string (slack index) (take counter (drop head_of_word word_array));
           t \<leftarrow> wc_insert buffer_str t;
           wc_loop slack word_array n head_of_word 0 t }
         else if counter = 0 \<and> isspace c then wc_loop slack word_array n head_of_word counter t
         else if \<not> isspace c \<and> counter = 0 then wc_loop slack word_array n index 1 t
         else wc_loop slack word_array n head_of_word (counter + 1) t)"

text \<open>\<open>size\<close> is the length of the array; twice the length may not fit an \<open>int\<close>, and \<open>calloc\<close> returns
  NULL for a negative number of pointers: then there is no item to insert into.\<close>

definition wc_init :: "(nat \<Rightarrow> char list) \<Rightarrow> char list \<Rightarrow> wc option" where
  "wc_init slack word_array =
     (let sz = nat (s32 (2 * int (length word_array)))
      in wc_loop slack word_array (length word_array) 0 0
           \<lparr>items = replicate sz [], element_count = 0, wc_size = sz\<rparr>)"

definition wc_output :: "wc \<Rightarrow> char list" where
  "wc_output t = concat (map (\<lambda>chain. concat (map (\<lambda>(key, n). key @ '':'' @ print_d n @ [CHR 0x0A]) chain)) (items t))"

section \<open>Words\<close>

text \<open>The words of a text that end in a space: \<open>acc\<close> is the word read so far. A last word without a
  space behind it is not among them.\<close>

fun finished_words :: "char list \<Rightarrow> char list \<Rightarrow> char list list" where
  "finished_words acc [] = []"
| "finished_words acc (c # cs) =
     (if isspace c then (if acc = [] then finished_words [] cs else acc # finished_words [] cs)
      else finished_words (acc @ [c]) cs)"

text \<open>The keys that the scanner makes of these words: \<open>i\<close> is the index, and the bytes of \<open>slack i\<close> that precede the first NUL behind
  the buffer become part of the key.\<close>

fun word_keys :: "(nat \<Rightarrow> char list) \<Rightarrow> nat \<Rightarrow> char list \<Rightarrow> char list \<Rightarrow> char list list" where
  "word_keys slack i acc [] = []"
| "word_keys slack i acc (c # cs) =
     (if isspace c then (if acc = [] then word_keys slack (Suc i) [] cs
        else c_str (acc @ slack i) # word_keys slack (Suc i) [] cs)
      else word_keys slack (Suc i) (acc @ [c]) cs)"

lemma length_word_keys: "length (word_keys slack i acc cs) = length (finished_words acc cs)"
  by (induction slack i acc cs rule: word_keys.induct) auto

text \<open>They are the words if a NUL follows each buffer.\<close>

lemma c_str_NUL: "c_str (acc @ NUL # sl) = c_str acc"
  unfolding c_str_def by (induction acc) auto

lemma word_keys_NUL:
  assumes "\<forall>i. \<exists>sl. slack i = NUL # sl"
  shows "word_keys slack i acc cs = map c_str (finished_words acc cs)"
proof -
  have "c_str (acc @ slack i) = c_str acc" for acc i using assms c_str_NUL by metis
  then show ?thesis by (induction slack i acc cs rule: word_keys.induct) simp_all
qed

text \<open>In a table with its \<open>size\<close> chains every insertion succeeds, and the scanner is a fold of the
  insertions over these words.\<close>

definition sized :: "wc \<Rightarrow> bool" where
  "sized t \<longleftrightarrow> length (items t) = wc_size t \<and> 0 < wc_size t"

definition put_word :: "char list \<Rightarrow> wc \<Rightarrow> wc" where
  "put_word key t = the (wc_insert key t)"

lemma hash_less: "sized t \<Longrightarrow> wc_hash_function key (wc_size t) < length (items t)"
  by (simp add: sized_def wc_hash_function_def)

lemma wc_insert_sized: "sized t \<Longrightarrow> wc_insert key t = Some (put_word key t)"
  using hash_less [of t key] by (simp add: put_word_def wc_insert_def Let_def)

lemma put_word_eq: "sized t \<Longrightarrow> put_word key t =
    t\<lparr>items := (items t)[wc_hash_function key (wc_size t) := chain_count key (items t ! wc_hash_function key (wc_size t))],
      element_count := s32 (element_count t + 1)\<rparr>"
  using hash_less [of t key] by (simp add: put_word_def wc_insert_def Let_def)

lemma put_word_sized: "sized t \<Longrightarrow> sized (put_word key t)"
  by (simp add: put_word_eq) (simp add: sized_def)

definition at_index :: "char list \<Rightarrow> nat \<Rightarrow> nat \<Rightarrow> nat \<Rightarrow> char list \<Rightarrow> bool" where
  "at_index arr n head counter acc \<longleftrightarrow> n \<le> length arr \<and> length acc = counter \<and>
     (0 < counter \<longrightarrow> head + counter = length arr - n) \<and> acc = take counter (drop head arr)"

lemma wc_loop_words:
  assumes "\<forall>i. NUL \<in> set (slack i)" "at_index arr n head counter acc" "sized t"
  shows "wc_loop slack arr n head counter t =
    Some (fold put_word (word_keys slack (length arr - n) acc (drop (length arr - n) arr)) t)"
  using assms(2,3)
proof (induction n arbitrary: head counter acc t)
  case 0
  then show ?case by simp
next
  case (Suc n)
  let ?i = "length arr - Suc n" let ?c = "arr ! ?i"
  have len: "?i < length arr" "length arr - n = Suc ?i" using Suc.prems(1) by (auto simp: at_index_def)
  then have d: "drop ?i arr = ?c # drop (length arr - n) arr" by (simp add: Cons_nth_drop_Suc)
  have acc: "length acc = counter" "0 < counter \<longrightarrow> head + counter = ?i" "acc = take counter (drop head arr)"
    using Suc.prems(1) by (auto simp: at_index_def)
  have at0: "at_index arr n h 0 []" for h using Suc.prems(1) by (simp add: at_index_def)
  have b: "buffer_string (slack ?i) acc = Some (c_str (acc @ slack ?i))" using assms(1) by (simp add: buffer_string_def)
  consider "isspace ?c" "0 < counter" | "isspace ?c" "counter = 0" | "\<not> isspace ?c" "counter = 0"
    | "\<not> isspace ?c" "0 < counter" by auto
  then show ?case
  proof cases
    case 1
    then have "acc \<noteq> []" using acc(1) by auto
    then show ?thesis using Suc.IH [OF at0 put_word_sized [OF Suc.prems(2)]] 1 b acc(3) d wc_insert_sized [OF Suc.prems(2)]
      len(2) by (simp add: Let_def)
  next
    case 2
    then show ?thesis using Suc.IH [OF at0 Suc.prems(2)] acc(1) d len(2) by (simp add: Let_def)
  next
    case 3
    have "at_index arr n ?i 1 [?c]" using len Suc.prems(1) by (simp add: at_index_def take_Suc hd_drop_conv_nth)
    then show ?thesis using Suc.IH [of ?i 1 "[?c]" t] 3 acc(1) d len(2) Suc.prems(2) by (simp add: Let_def)
  next
    case 4
    have "acc @ [?c] = take (Suc counter) (drop head arr)"
      using acc 4 len by (simp add: take_Suc_conv_app_nth)
    then have "at_index arr n head (counter + 1) (acc @ [?c])"
      using acc 4 len Suc.prems(1) by (simp add: at_index_def)
    from Suc.IH [OF this Suc.prems(2)] 4 acc(1) d len(2) show ?thesis by (simp add: Let_def)
  qed
qed

section \<open>Counting\<close>

text \<open>The table after inserting the words \<open>ws\<close>: each key is in the chain of its hash, once, with the
  number of its occurrences.\<close>

definition counts :: "char list list \<Rightarrow> (char list \<times> int) list \<Rightarrow> bool" where
  "counts ws chain \<longleftrightarrow> distinct (map fst chain) \<and> (\<forall>(k, n) \<in> set chain. n = int (count_list ws k))"

definition table_ok :: "char list list \<Rightarrow> wc \<Rightarrow> bool" where
  "table_ok ws t \<longleftrightarrow> sized t \<and> element_count t = int (length ws) \<and>
     (\<forall>i < wc_size t. counts ws (items t ! i) \<and>
        fst ` set (items t ! i) = {k \<in> set ws. wc_hash_function k (wc_size t) = i})"

lemma keys_chain_count: "fst ` set (chain_count key chain) = insert key (fst ` set chain)"
  by (induction key chain rule: chain_count.induct) (auto simp: create_items_def)

lemma distinct_chain_count: "distinct (map fst chain) \<Longrightarrow> distinct (map fst (chain_count key chain))"
proof (induction key chain rule: chain_count.induct)
  case (2 key k n chain)
  have "k \<notin> set (map fst (chain_count key chain))" if "key \<noteq> k"
    using 2(2) that keys_chain_count [of key chain] by auto
  with 2 show ?case by auto
qed (simp add: create_items_def)

lemma set_chain_count:
  "distinct (map fst chain) \<Longrightarrow> (k, n) \<in> set (chain_count key chain) \<longleftrightarrow>
     (if k = key then (case map_of chain key of None \<Rightarrow> n = 1 | Some m \<Rightarrow> n = s32 (m + 1)) else (k, n) \<in> set chain)"
proof (induction key chain rule: chain_count.induct)
  case (2 key k' n' chain)
  then show ?case by (auto simp: image_iff split: option.splits dest: map_of_SomeD)
qed (auto simp: create_items_def)

lemma counts_chain_count:
  assumes "counts ws chain" "fst ` set chain = {k \<in> set ws. h k = h key}" "length ws < 2 ^ 31 - 1"
  shows "counts (ws @ [key]) (chain_count key chain)"
proof -
  have d: "distinct (map fst chain)" using assms(1) by (simp add: counts_def)
  have "n = int (count_list (ws @ [key]) k)" if "(k, n) \<in> set (chain_count key chain)" for k n
  proof (cases "k = key")
    case False
    with that set_chain_count [OF d, of k n key] assms(1) show ?thesis by (auto simp: counts_def)
  next
    case True
    show ?thesis
    proof (cases "map_of chain key")
      case None
      then have "key \<notin> fst ` set chain" by (simp add: map_of_eq_None_iff)
      then have "key \<notin> set ws" using assms(2) by auto
      with that True None set_chain_count [OF d, of k n key] show ?thesis by (simp add: count_notin)
    next
      case (Some m)
      then have m: "m = int (count_list ws key)" using assms(1) by (auto simp: counts_def dest: map_of_SomeD)
      have "count_list ws key \<le> length ws" by (rule count_le_length)
      then have "s32 (m + 1) = m + 1" using m assms(3) by (intro s32_id) auto
      with that True Some m set_chain_count [OF d, of k n key] show ?thesis by simp
    qed
  qed
  then show ?thesis using distinct_chain_count [OF d] by (auto simp: counts_def)
qed

lemma counts_other: "counts ws chain \<Longrightarrow> key \<notin> fst ` set chain \<Longrightarrow> counts (ws @ [key]) chain"
  by (force simp: counts_def)

lemma table_ok_put:
  assumes "table_ok ws t" "length ws < 2 ^ 31 - 1"
  shows "table_ok (ws @ [key]) (put_word key t)"
proof -
  let ?h = "\<lambda>k. wc_hash_function k (wc_size t)"
  have s: "sized t" using assms(1) by (simp add: table_ok_def)
  have l: "length (items t) = wc_size t" "?h key < wc_size t" using s hash_less [OF s, of key] by (auto simp: sized_def)
  have t: "counts ws (items t ! i)" "fst ` set (items t ! i) = {k \<in> set ws. ?h k = i}" if "i < wc_size t" for i
    using assms(1) that by (auto simp: table_ok_def)
  have e: "s32 (element_count t + 1) = int (length (ws @ [key]))"
    using assms by (subst s32_id) (auto simp: table_ok_def)
  have "counts (ws @ [key]) (items (put_word key t) ! i) \<and>
      fst ` set (items (put_word key t) ! i) = {k \<in> set (ws @ [key]). ?h k = i}" if i: "i < wc_size t" for i
  proof (cases "i = ?h key")
    case True
    have "items (put_word key t) ! i = chain_count key (items t ! i)"
      using True l by (simp add: put_word_eq [OF s])
    with counts_chain_count [of ws "items t ! i" ?h key] keys_chain_count [of key "items t ! i"] t [OF i] assms(2) True
    show ?thesis by auto
  next
    case False
    have eq: "items (put_word key t) ! i = items t ! i" using False by (simp add: put_word_eq [OF s])
    have "key \<notin> fst ` set (items t ! i)" using t(2) [OF i] False by auto
    with counts_other [OF t(1) [OF i]] t(2) [OF i] False show ?thesis by (auto simp: eq)
  qed
  moreover have "wc_size (put_word key t) = wc_size t" "element_count (put_word key t) = s32 (element_count t + 1)"
    by (simp_all add: put_word_eq [OF s])
  ultimately show ?thesis using put_word_sized [OF s] e by (simp add: table_ok_def)
qed

lemma table_ok_fold:
  "table_ok ws t \<Longrightarrow> length ws + length vs < 2 ^ 31 \<Longrightarrow> table_ok (ws @ vs) (fold put_word vs t)"
proof (induction vs arbitrary: ws t)
  case (Cons v vs)
  from Cons.IH [OF table_ok_put [OF Cons.prems(1), of v]] Cons.prems(2) show ?case by simp
qed simp

lemma distinct_buckets:
  assumes "\<forall>i < length xss. distinct (map fst (xss ! i)) \<and> (\<forall>k \<in> fst ` set (xss ! i). h k = i + b)"
  shows "distinct (map fst (concat xss))"
  using assms
proof (induction xss arbitrary: b)
  case (Cons xs xss)
  have "\<forall>i < length xss. distinct (map fst (xss ! i)) \<and> (\<forall>k \<in> fst ` set (xss ! i). h k = i + Suc b)"
    using Cons.prems by fastforce
  from Cons.IH [OF this] have tl: "distinct (map fst (concat xss))" .
  have hd: "distinct (map fst xs)" "\<forall>k \<in> fst ` set xs. h k = b" using Cons.prems by force+
  have "h k \<noteq> b" if k: "k \<in> fst ` set (concat xss)" for k
  proof -
    from k obtain ys where "ys \<in> set xss" "k \<in> fst ` set ys" by auto
    then obtain i where "i < length xss" "k \<in> fst ` set (xss ! i)" by (metis in_set_conv_nth)
    then have "h k = Suc i + b" using Cons.prems by fastforce
    then show ?thesis by simp
  qed
  with hd tl show ?case by auto
qed simp

lemma length_finished_words: "length (finished_words acc cs) \<le> length cs"
proof (induction acc cs rule: finished_words.induct)
  case (2 acc c cs)
  then show ?case by (cases "isspace c"; cases "acc = []") auto
qed simp

lemma table_ok_contents:
  assumes "table_ok ws t"
  shows "distinct (map fst (concat (items t)))"
    "set (concat (items t)) = {(k, int (count_list ws k)) |k. k \<in> set ws}"
proof -
  have l: "length (items t) = wc_size t" and s: "sized t" using assms by (auto simp: table_ok_def sized_def)
  have t: "counts ws (items t ! i)" "fst ` set (items t ! i) = {k \<in> set ws. wc_hash_function k (wc_size t) = i}"
    if "i < wc_size t" for i using assms that by (auto simp: table_ok_def)
  show "distinct (map fst (concat (items t)))"
    by (rule distinct_buckets [of _ "\<lambda>k. wc_hash_function k (wc_size t)" 0]) (use t l in \<open>auto simp: counts_def\<close>)
  show "set (concat (items t)) = {(k, int (count_list ws k)) |k. k \<in> set ws}"
  proof (intro set_eqI iffI)
    fix p
    assume "p \<in> set (concat (items t))"
    then obtain ch where "ch \<in> set (items t)" "p \<in> set ch" by auto
    then obtain i where i: "i < wc_size t" "p \<in> set (items t ! i)" using l by (metis in_set_conv_nth)
    then have "fst p \<in> set ws" "snd p = int (count_list ws (fst p))"
      using t [OF i(1)] by (auto simp: counts_def)
    then show "p \<in> {(k, int (count_list ws k)) |k. k \<in> set ws}" by (cases p) auto
  next
    fix p
    assume "p \<in> {(k, int (count_list ws k)) |k. k \<in> set ws}"
    then obtain k where k: "k \<in> set ws" "p = (k, int (count_list ws k))" by auto
    let ?i = "wc_hash_function k (wc_size t)"
    have i: "?i < wc_size t" using hash_less [OF s] l by simp
    with k t(2) [OF i] obtain n where n: "(k, n) \<in> set (items t ! ?i)" by force
    then have "n = int (count_list ws k)" using t(1) [OF i] by (auto simp: counts_def)
    then show "p \<in> set (concat (items t))" using n k(2) i l by (auto intro: nth_mem)
  qed
qed

text \<open>\<open>wc_init\<close> succeeds, and its table holds exactly these words.\<close>

lemma wc_init_table:
  assumes "\<forall>i. NUL \<in> set (slack i)" "0 < length word_array" "length word_array < 2 ^ 30"
    "ws = word_keys slack 0 [] word_array"
  obtains t where "wc_init slack word_array = Some t" "table_ok ws t"
proof -
  let ?n = "2 * length word_array"
  have sz: "nat (s32 (2 * int (length word_array))) = ?n" using assms(3) by (subst s32_id) auto
  let ?t0 = "\<lparr>items = replicate ?n [], element_count = 0, wc_size = ?n\<rparr> :: wc"
  have t0: "table_ok [] ?t0" using assms(2) by (simp add: table_ok_def sized_def counts_def)
  have "at_index word_array (length word_array) 0 0 []" by (simp add: at_index_def)
  from wc_loop_words [OF assms(1) this] t0 sz
  have "wc_init slack word_array = Some (fold put_word ws ?t0)"
    by (simp add: wc_init_def table_ok_def assms(4) Let_def)
  moreover have "length ws < 2 ^ 31"
    using length_finished_words [of "[]" word_array] assms(3,4) by (simp add: length_word_keys)
  with table_ok_fold [OF t0, of ws] have "table_ok ws (fold put_word ws ?t0)" by simp
  ultimately show thesis by (rule that)
qed

section \<open>Properties\<close>

text \<open>C26: \<open>wc_init\<close> counts words, for an array of at least one and fewer than \<open>2 ^ 30\<close> characters: the table has each key once, with
  the number of its occurrences, whatever the collisions of the hash function, and \<open>element_count\<close> is their number; a last word
  without a space behind it is not counted. The key of a word is the word followed by the bytes that memory holds between its
  buffer and the next NUL, because \<open>wc_init\<close> writes no NUL (that there is one somewhere is the only condition on memory). So
  the keys are the words exactly where a NUL happens to follow each buffer.\<close>

theorem wc_counts_words:
  assumes "\<forall>i. NUL \<in> set (slack i)" "0 < length word_array" "length word_array < 2 ^ 30"
    "ws = word_keys slack 0 [] word_array"
  shows "(\<exists>t. wc_init slack word_array = Some t \<and> element_count t = int (length ws) \<and>
      distinct (map fst (concat (items t))) \<and>
      set (concat (items t)) = {(k, int (count_list ws k)) |k. k \<in> set ws}) \<and>
    length ws = length (finished_words [] word_array) \<and>
    ((\<forall>i. \<exists>sl. slack i = NUL # sl) \<longrightarrow> ws = map c_str (finished_words [] word_array))"
proof (intro conjI impI)
  from wc_init_table [OF assms] obtain t where "wc_init slack word_array = Some t" "table_ok ws t" .
  with table_ok_contents [of ws t] show "\<exists>t. wc_init slack word_array = Some t \<and> element_count t = int (length ws) \<and>
      distinct (map fst (concat (items t))) \<and> set (concat (items t)) = {(k, int (count_list ws k)) |k. k \<in> set ws}"
    by (auto simp: table_ok_def simp del: set_concat)
qed (use assms(4) in \<open>simp_all add: length_word_keys word_keys_NUL\<close>)

text \<open>One word, twice, and other bytes behind the second buffer: two keys.\<close>

theorem wc_counts_words_witness:
  "\<exists>t. wc_init (\<lambda>i. if i = 3 then ''x'' @ [NUL] else [NUL]) ''a a b'' = Some t \<and> element_count t = 2 \<and>
    set (concat (items t)) = {(''a'', 1), (''ax'', 1)}"
proof -
  let ?slack = "\<lambda>i :: nat. if i = 3 then ''x'' @ [NUL] else [NUL]"
  have ws: "word_keys ?slack 0 [] ''a a b'' = [''a'', ''ax'']" by (simp add: isspace_def c_str_def NUL_def)
  have "\<forall>i. NUL \<in> set (?slack i)" "0 < length ''a a b''" "length ''a a b'' < 2 ^ 30" by simp_all
  from conjunct1 [OF wc_counts_words [OF this ws [symmetric]]] obtain t where
    t: "wc_init ?slack ''a a b'' = Some t" "element_count t = int (length [''a'', ''ax''])"
    "set (concat (items t)) = {(k, int (count_list [''a'', ''ax''] k)) |k. k \<in> set [''a'', ''ax'']}"
    by blast
  have "{(k, int (count_list ws k)) |k. k \<in> set ws} = set (map (\<lambda>k. (k, int (count_list ws k))) ws)" for ws :: "char list list"
    by auto
  from t(3) [unfolded this]
  have "set (concat (items t)) = set (map (\<lambda>k. (k, int (count_list [''a'', ''ax''] k))) [''a'', ''ax''])" .
  also have "... = {(''a'', 1), (''ax'', 1)}" by auto
  finally have "set (concat (items t)) = {(''a'', 1), (''ax'', 1)}" .
  with t(1,2) show ?thesis by (intro exI [of _ t]) (simp del: set_concat)
qed

end
