(* ===== verification/Warmup_WcHeap.thy ===== *)
theory Warmup_WcHeap
  imports Warmup_Wc
begin

text \<open>
  The word counter \<open>src/warmup/wc.c\<close> on memory: the blocks that \<open>malloc\<close> and \<open>calloc\<close> return, the chains of
  items linked by pointers, and \<open>wc_destroy\<close>. The pointer code refines the table of lists of
  \<open>Warmup_Wc\<close>, and what it leaves allocated is counted.
\<close>

section \<open>Memory\<close>

text \<open>The blocks of the program: an item with the address of its key, its count and \<open>next\<close>; a string; the
  array of pointers; and \<open>struct wc\<close> with \<open>items\<close>, \<open>element_count\<close> and \<open>size\<close>.\<close>

datatype block =
    Item addr int ptr
  | Chars "char list"
  | Pointers "ptr list"
  | Table ptr int int

record heap =
  cells :: "addr \<Rightarrow> block option"
  next_free :: addr

definition c_malloc :: "block \<Rightarrow> heap \<Rightarrow> addr \<times> heap" where
  "c_malloc b h = (next_free h, h\<lparr>cells := (cells h)(next_free h \<mapsto> b), next_free := Suc (next_free h)\<rparr>)"

text \<open>\<open>free(NULL)\<close> does nothing; freeing what is not allocated is a fault.\<close>

definition c_free :: "ptr \<Rightarrow> heap \<Rightarrow> heap option" where
  "c_free p h = (case p of None \<Rightarrow> Some h
     | Some a \<Rightarrow> if cells h a = None then None else Some (h\<lparr>cells := (cells h)(a := None)\<rparr>))"

definition store :: "addr \<Rightarrow> block \<Rightarrow> heap \<Rightarrow> heap" where
  "store a b h = h\<lparr>cells := (cells h)(a \<mapsto> b)\<rparr>"

fun item_at :: "block option \<Rightarrow> (addr \<times> int \<times> ptr) option" where
  "item_at (Some (Item key n nx)) = Some (key, n, nx)"
| "item_at _ = None"

fun chars_at :: "block option \<Rightarrow> char list option" where
  "chars_at (Some (Chars s)) = Some s"
| "chars_at _ = None"

fun pointers_at :: "block option \<Rightarrow> ptr list option" where
  "pointers_at (Some (Pointers ps)) = Some ps"
| "pointers_at _ = None"

fun table_at :: "block option \<Rightarrow> (ptr \<times> int \<times> int) option" where
  "table_at (Some (Table its n sz)) = Some (its, n, sz)"
| "table_at _ = None"

section \<open>The functions\<close>

text \<open>The block allocated for \<open>next\<close> is lost when NULL is stored over its address.\<close>

definition create_items_heap :: "char list \<Rightarrow> int \<Rightarrow> heap \<Rightarrow> addr \<times> heap" where
  "create_items_heap key n h =
     (let (p, h) = c_malloc (Item 0 0 None) h;
          (s, h) = c_malloc (Chars key) h;
          (lost, h) = c_malloc (Item 0 0 None) h
      in (p, store p (Item s n None) h))"

text \<open>The first walk along a chain: \<open>temp\<close> moves on, \<open>prev\<close> (the code's \<open>ptr\<close>) follows it. The result
  is \<open>need_chaining\<close>, \<open>ptr\<close> and the memory.\<close>

partial_function (option) find_loop :: "char list \<Rightarrow> ptr \<Rightarrow> ptr \<Rightarrow> heap \<Rightarrow> (bool \<times> ptr \<times> heap) option" where
  "find_loop buffer temp prev h =
     (case temp of
        None \<Rightarrow> Some (True, prev, h)
      | Some a \<Rightarrow> do {
          (s, n, nx) \<leftarrow> item_at (cells h a);
          key \<leftarrow> chars_at (cells h s);
          if buffer = key then Some (False, prev, store a (Item s (s32 (n + 1)) nx) h)
          else find_loop buffer nx (Some a) h })"

text \<open>The second walk, to the end of the chain.\<close>

partial_function (option) last_loop :: "ptr \<Rightarrow> heap \<Rightarrow> addr option" where
  "last_loop p h = do {
     a \<leftarrow> p;
     (s, n, nx) \<leftarrow> item_at (cells h a);
     if nx \<noteq> None then last_loop nx h else Some a }"

definition wc_insert_heap :: "char list \<Rightarrow> addr \<Rightarrow> heap \<Rightarrow> heap option" where
  "wc_insert_heap buffer w h = do {
     (its, cnt, sz) \<leftarrow> table_at (cells h w);
     let h = store w (Table its (s32 (cnt + 1)) sz) h;
     let insertID = wc_hash_function buffer (nat sz);
     arr \<leftarrow> its;
     ps \<leftarrow> pointers_at (cells h arr);
     _ \<leftarrow> c_assert (insertID < length ps);
     (case ps ! insertID of
        None \<Rightarrow>
          let (p, h) = create_items_heap buffer 1 h
          in Some (store arr (Pointers (ps[insertID := Some p])) h)
      | Some temp \<Rightarrow> do {
          (need_chaining, p, h) \<leftarrow> find_loop buffer (Some temp) None h;
          if need_chaining then do {
            l \<leftarrow> last_loop p h;
            let (new, h) = create_items_heap buffer 1 h;
            (s, n, nx) \<leftarrow> item_at (cells h l);
            Some (store l (Item s n (Some new)) h) }
          else Some h }) }"

fun wc_loop_heap :: "(nat \<Rightarrow> char list) \<Rightarrow> char list \<Rightarrow> nat \<Rightarrow> nat \<Rightarrow> nat \<Rightarrow> addr \<Rightarrow> heap \<Rightarrow> heap option" where
  "wc_loop_heap slack word_array 0 head_of_word counter w h = Some h"
| "wc_loop_heap slack word_array (Suc n) head_of_word counter w h =
     (let index = length word_array - Suc n; c = word_array ! index
      in if isspace c \<and> 0 < counter then do {
           buffer_str \<leftarrow> buffer_string (slack index) (take counter (drop head_of_word word_array));
           let (b, h) = c_malloc (Chars buffer_str) h;
           h \<leftarrow> wc_insert_heap buffer_str w h;
           wc_loop_heap slack word_array n head_of_word 0 w h }
         else if counter = 0 \<and> isspace c then wc_loop_heap slack word_array n head_of_word counter w h
         else if \<not> isspace c \<and> counter = 0 then wc_loop_heap slack word_array n index 1 w h
         else wc_loop_heap slack word_array n head_of_word (counter + 1) w h)"

text \<open>\<open>calloc\<close> of a negative number of pointers returns NULL.\<close>

definition wc_init_heap :: "(nat \<Rightarrow> char list) \<Rightarrow> char list \<Rightarrow> heap \<Rightarrow> (addr \<times> heap) option" where
  "wc_init_heap slack word_array h = do {
     let (w, h) = c_malloc (Table None 0 0) h;
     let sz = s32 (2 * int (length word_array));
     let (its, h) = (if sz < 0 then (None, h)
       else let (arr, h) = c_malloc (Pointers (replicate (nat sz) None)) h in (Some arr, h));
     let h = store w (Table its 0 sz) h;
     h \<leftarrow> wc_loop_heap slack word_array (length word_array) 0 0 w h;
     Some (w, h) }"

text \<open>\<open>wc_output\<close>: the text printed for a chain, and for the buckets with the indices \<open>is\<close>.\<close>

partial_function (option) output_chain :: "ptr \<Rightarrow> heap \<Rightarrow> char list option" where
  "output_chain p h =
     (case p of
        None \<Rightarrow> Some []
      | Some a \<Rightarrow> do {
          (s, n, nx) \<leftarrow> item_at (cells h a);
          key \<leftarrow> chars_at (cells h s);
          rest \<leftarrow> output_chain nx h;
          Some ((key @ '':'' @ print_d n @ [CHR 0x0A]) @ rest) })"

definition chain_at :: "addr \<Rightarrow> nat \<Rightarrow> heap \<Rightarrow> ptr option" where
  "chain_at w i h = do {
     (its, cnt, sz) \<leftarrow> table_at (cells h w);
     arr \<leftarrow> its;
     ps \<leftarrow> pointers_at (cells h arr);
     _ \<leftarrow> c_assert (i < length ps);
     Some (ps ! i) }"

fun output_loop :: "addr \<Rightarrow> nat list \<Rightarrow> heap \<Rightarrow> char list option" where
  "output_loop w [] h = Some []"
| "output_loop w (i # is) h = do {
     p \<leftarrow> chain_at w i h;
     out \<leftarrow> output_chain p h;
     rest \<leftarrow> output_loop w is h;
     Some (out @ rest) }"

definition wc_output_heap :: "addr \<Rightarrow> heap \<Rightarrow> char list option" where
  "wc_output_heap w h = do {
     (its, cnt, sz) \<leftarrow> table_at (cells h w);
     output_loop w [0..<nat sz] h }"

text \<open>\<open>wc_destroy\<close>: the items of each chain, the array and the struct are freed.\<close>

partial_function (option) free_chain :: "ptr \<Rightarrow> heap \<Rightarrow> heap option" where
  "free_chain temp_iterate h =
     (case temp_iterate of
        None \<Rightarrow> Some h
      | Some temp_del \<Rightarrow> do {
          (s, n, nx) \<leftarrow> item_at (cells h temp_del);
          h \<leftarrow> c_free (Some temp_del) h;
          free_chain nx h })"

fun destroy_loop :: "addr \<Rightarrow> nat list \<Rightarrow> heap \<Rightarrow> heap option" where
  "destroy_loop w [] h = Some h"
| "destroy_loop w (i # is) h = do {
     p \<leftarrow> chain_at w i h;
     h \<leftarrow> free_chain p h;
     destroy_loop w is h }"

definition wc_destroy :: "addr \<Rightarrow> heap \<Rightarrow> heap option" where
  "wc_destroy w h = do {
     (its, cnt, sz) \<leftarrow> table_at (cells h w);
     h \<leftarrow> destroy_loop w [0..<nat sz] h;
     (its, cnt, sz) \<leftarrow> table_at (cells h w);
     h \<leftarrow> c_free its h;
     c_free (Some w) h }"

section \<open>Chains in memory\<close>

text \<open>A node: the address of the item, the address of its key, the key and the count.\<close>

type_synonym item_node = "addr \<times> addr \<times> char list \<times> int"

definition content :: "item_node \<Rightarrow> char list \<times> int" where
  "content x = (case x of (a, s, key, n) \<Rightarrow> (key, n))"

lemma content_simp [simp]: "content (a, s, key, n) = (key, n)"
  by (simp add: content_def)

fun item_seg :: "(addr \<Rightarrow> block option) \<Rightarrow> ptr \<Rightarrow> item_node list \<Rightarrow> ptr \<Rightarrow> bool" where
  "item_seg m p [] q \<longleftrightarrow> p = q"
| "item_seg m p ((a, s, key, n) # xs) q \<longleftrightarrow>
     p = Some a \<and> (\<exists>nx. m a = Some (Item s n nx) \<and> m s = Some (Chars key) \<and> item_seg m nx xs q)"

lemma item_seg_append: "item_seg m p (xs @ ys) q \<longleftrightarrow> (\<exists>r. item_seg m p xs r \<and> item_seg m r ys q)"
  by (induction m p xs q rule: item_seg.induct) auto

text \<open>Only the items of the segment and the strings matter.\<close>

lemma seg_frame:
  "item_seg m p xs q \<Longrightarrow> \<forall>a \<in> fst ` set xs. m' a = m a \<Longrightarrow> (\<And>a key. m a = Some (Chars key) \<Longrightarrow> m' a = m a) \<Longrightarrow> item_seg m' p xs q"
  by (induction m p xs q rule: item_seg.induct) auto

lemma seg_item: "item_seg m p xs q \<Longrightarrow> a \<in> fst ` set xs \<Longrightarrow> \<exists>s n nx. m a = Some (Item s n nx)"
proof (induction m p xs q rule: item_seg.induct)
  case (2 m p b s key n xs q)
  then show ?case by (cases "a = b") auto
qed simp

lemma chain_count_absent:
  "key \<notin> fst ` set cs \<Longrightarrow> chain_count key cs = cs @ [create_items key 1]"
  by (induction key cs rule: chain_count.induct) auto

lemma chain_count_present:
  "key \<notin> fst ` set cs \<Longrightarrow> chain_count key (cs @ (key, n) # ds) = cs @ (key, s32 (n + 1)) # ds"
  by (induction key cs rule: chain_count.induct) auto

lemma find_loop_absent:
  "item_seg (cells h) p xs None \<Longrightarrow> key \<notin> fst ` content ` set xs \<Longrightarrow>
   find_loop key p l h = Some (True, (if xs = [] then l else Some (fst (last xs))), h)"
proof (induction xs arbitrary: p l)
  case Nil
  then show ?case by (simp add: find_loop.simps)
next
  case (Cons x xs)
  obtain a s k n where x: "x = (a, s, k, n)" by (cases x)
  from Cons.prems x obtain nx where m: "p = Some a" "cells h a = Some (Item s n nx)" "cells h s = Some (Chars k)"
    "item_seg (cells h) nx xs None" by auto
  have "key \<noteq> k" "key \<notin> fst ` content ` set xs" using Cons.prems(2) x by auto
  with Cons.IH [OF m(4)] m x show ?case by (subst find_loop.simps) simp
qed

lemma find_loop_present:
  assumes "item_seg (cells h) p (ys @ (a, s, key, n) # zs) None" "key \<notin> fst ` content ` set ys"
  shows "\<exists>l' nx. cells h a = Some (Item s n nx) \<and>
    find_loop key p l h = Some (False, l', store a (Item s (s32 (n + 1)) nx) h)"
  using assms
proof (induction ys arbitrary: p l)
  case Nil
  then show ?case by (auto simp: find_loop.simps)
next
  case (Cons y ys)
  obtain b t k m where y: "y = (b, t, k, m)" by (cases y)
  from Cons.prems y obtain nx where m: "p = Some b" "cells h b = Some (Item t m nx)" "cells h t = Some (Chars k)"
    "item_seg (cells h) nx (ys @ (a, s, key, n) # zs) None" by auto
  have "key \<noteq> k" "key \<notin> fst ` content ` set ys" using Cons.prems(2) y by auto
  with Cons.IH [OF m(4), of "Some b"] m y show ?case by (subst find_loop.simps) simp
qed

lemma last_loop_end: "cells h a = Some (Item s n None) \<Longrightarrow> last_loop (Some a) h = Some a"
  by (simp add: last_loop.simps)

section \<open>The table in memory\<close>

text \<open>Since \<open>h0\<close> nothing below its first free address changed, and nothing above was freed.\<close>

definition grown :: "heap \<Rightarrow> heap \<Rightarrow> bool" where
  "grown h0 h \<longleftrightarrow> next_free h0 \<le> next_free h \<and> (\<forall>a < next_free h0. cells h a = cells h0 a) \<and>
     (\<forall>a \<ge> next_free h0. cells h a \<noteq> None \<longleftrightarrow> a < next_free h)"

text \<open>The struct at \<open>w\<close>, the array at \<open>arr\<close> with the pointers \<open>ps\<close>, and the chains \<open>nodes\<close> represent the
  table \<open>t\<close> after \<open>c\<close> insertions.\<close>

definition wrep :: "heap \<Rightarrow> addr \<Rightarrow> addr \<Rightarrow> ptr list \<Rightarrow> item_node list list \<Rightarrow> wc \<Rightarrow> nat \<Rightarrow> heap \<Rightarrow> bool" where
  "wrep h0 w arr ps nodes t c h \<longleftrightarrow> grown h0 h \<and> sized t \<and> next_free h0 \<le> w \<and> next_free h0 \<le> arr \<and>
     cells h w = Some (Table (Some arr) (int c) (int (wc_size t))) \<and> element_count t = int c \<and>
     cells h arr = Some (Pointers ps) \<and> length ps = wc_size t \<and> length nodes = wc_size t \<and>
     items t = map (map content) nodes \<and> (\<forall>i < wc_size t. item_seg (cells h) (ps ! i) (nodes ! i) None) \<and>
     distinct (map fst (concat nodes)) \<and> (\<forall>a \<in> fst ` set (concat nodes). next_free h0 \<le> a)"

lemma grown_malloc: "grown h0 h \<Longrightarrow> grown h0 (snd (c_malloc b h))"
  by (auto simp: grown_def c_malloc_def)

lemma grown_store: "grown h0 h \<Longrightarrow> next_free h0 \<le> a \<Longrightarrow> cells h a \<noteq> None \<Longrightarrow> grown h0 (store a b h)"
  by (auto simp: grown_def store_def)

lemma grown_fresh: "grown h0 h \<Longrightarrow> next_free h \<le> a \<Longrightarrow> cells h a = None"
  unfolding grown_def by (metis le_trans linorder_not_less)

lemma store_sel [simp]: "cells (store a b h) = (cells h)(a \<mapsto> b)" "next_free (store a b h) = next_free h"
  by (simp_all add: store_def)

lemma concat_update:
  "i < length nodes \<Longrightarrow> concat (nodes[i := xs]) = concat (take i nodes) @ xs @ concat (drop (Suc i) nodes)"
  by (simp add: upd_conv_take_nth_drop)

lemma concat_split:
  "i < length nodes \<Longrightarrow> concat nodes = concat (take i nodes) @ nodes ! i @ concat (drop (Suc i) nodes)"
  using concat_update [of i nodes "nodes ! i"] by simp

lemma same_heads:
  assumes "i < length nodes" "map fst xs = map fst (nodes ! i)"
  shows "map fst (concat (nodes[i := xs])) = map fst (concat nodes)"
  using assms concat_update [OF assms(1), of xs] concat_split [OF assms(1)] by (simp only: map_append)

lemma chain_subset: "j < length nodes \<Longrightarrow> fst ` set (nodes ! j) \<subseteq> fst ` set (concat nodes)"
  by (auto intro: nth_mem)

lemma chains_apart:
  "distinct (map fst (concat nodes)) \<Longrightarrow> i < length nodes \<Longrightarrow> j < length nodes \<Longrightarrow> i \<noteq> j \<Longrightarrow>
   fst ` set (nodes ! i) \<inter> fst ` set (nodes ! j) = {}"
proof (induction nodes arbitrary: i j)
  case (Cons xs nodes)
  have heads: "fst ` set xs \<inter> fst ` set (nodes ! k) = {}" if "k < length nodes" for k
  proof -
    show ?thesis using chain_subset [OF that] Cons.prems(1) by auto
  qed
  show ?case
  proof (cases i)
    case 0
    with heads Cons.prems show ?thesis by (cases j) auto
  next
    case (Suc i')
    with heads [of i'] Cons.IH [of i'] Cons.prems show ?thesis by (cases j) auto
  qed
qed simp

text \<open>Replacing one chain.\<close>

lemma wrep_bucket:
  assumes r: "wrep h0 w arr ps nodes t c h" and i: "i = wc_hash_function key (wc_size t)" and c: "c < 2 ^ 31 - 1"
    and w: "cells h' w = Some (Table (Some arr) (int (Suc c)) (int (wc_size t)))"
    and arr: "cells h' arr = Some (Pointers (ps[i := p]))"
    and xs: "item_seg (cells h') p xs None" "map content xs = chain_count key (items t ! i)"
    and frame: "\<And>a. a \<in> fst ` set (concat nodes) \<Longrightarrow> a \<notin> fst ` set (nodes ! i) \<Longrightarrow> cells h' a = cells h a"
    and chars: "\<And>a k. cells h a = Some (Chars k) \<Longrightarrow> cells h' a = cells h a"
    and d: "distinct (map fst (concat (nodes[i := xs])))" "\<forall>a \<in> fst ` set xs. next_free h0 \<le> a"
    and g: "grown h0 h'"
  shows "wrep h0 w arr (ps[i := p]) (nodes[i := xs]) (put_word key t) (Suc c) h'"
proof -
  have s: "sized t" and l: "length ps = wc_size t" "length nodes = wc_size t" "items t = map (map content) nodes"
    and e: "element_count t = int c" and dn: "distinct (map fst (concat nodes))"
    and sg: "\<And>j. j < wc_size t \<Longrightarrow> item_seg (cells h) (ps ! j) (nodes ! j) None"
    and low: "\<forall>a \<in> fst ` set (concat nodes). next_free h0 \<le> a"
    using r by (auto simp: wrep_def)
  have il: "i < wc_size t" using hash_less [OF s, of key] l i by simp
  have "item_seg (cells h') (ps[i := p] ! j) (nodes[i := xs] ! j) None" if j: "j < wc_size t" for j
  proof (cases "j = i")
    case True
    with xs(1) il l show ?thesis by simp
  next
    case False
    have "fst ` set (nodes ! j) \<inter> fst ` set (nodes ! i) = {}"
      by (rule chains_apart [OF dn]) (use False j il l in simp_all)
    moreover have "fst ` set (nodes ! j) \<subseteq> fst ` set (concat nodes)" using j l by (intro chain_subset) simp
    ultimately have "\<forall>a \<in> fst ` set (nodes ! j). cells h' a = cells h a" using frame by blast
    from seg_frame [OF sg [OF j] this chars] False show ?thesis by simp
  qed
  moreover have "\<forall>a \<in> fst ` set (concat (nodes[i := xs])). next_free h0 \<le> a"
    using low d(2) set_update_subset_insert [of nodes i xs] by fastforce
  moreover have "items (put_word key t) = map (map content) (nodes[i := xs])"
    using l xs(2) i by (simp add: put_word_eq [OF s] map_update)
  moreover have "s32 (int c + 1) = int (Suc c)" using c by (subst s32_id) auto
  ultimately show ?thesis
    using w arr g r l e put_word_sized [OF s, of key] d by (simp add: wrep_def put_word_eq [OF s])
qed

text \<open>\<open>create_items\<close>: three fresh blocks, the item, its key and the one that is lost.\<close>

lemma create_items_heap_eq:
  "create_items_heap key n h = (next_free h, h\<lparr>cells := (cells h)(next_free h \<mapsto> Item (Suc (next_free h)) n None,
     Suc (next_free h) \<mapsto> Chars key, Suc (Suc (next_free h)) \<mapsto> Item 0 0 None), next_free := next_free h + 3\<rparr>)"
  by (simp add: create_items_heap_def c_malloc_def store_def fun_upd_twist)

lemma grown_create: "grown h0 h \<Longrightarrow> grown h0 (snd (create_items_heap key n h))"
  by (auto simp: grown_def create_items_heap_eq)

lemma distinct_add:
  assumes "i < length nodes" "distinct (map fst (concat nodes))" "fst x \<notin> fst ` set (concat nodes)"
  shows "distinct (map fst (concat (nodes[i := nodes ! i @ [x]])))"
proof -
  have "distinct (map fst (concat (take i nodes) @ nodes ! i @ concat (drop (Suc i) nodes)))"
    "fst x \<notin> fst ` set (concat (take i nodes) @ nodes ! i @ concat (drop (Suc i) nodes))"
    using assms concat_split [OF assms(1)] by simp_all
  then show ?thesis unfolding concat_update [OF assms(1)] by auto
qed

lemma length_add: "i < length nodes \<Longrightarrow> length (concat (nodes[i := nodes ! i @ [x]])) = Suc (length (concat nodes))"
  using concat_update [of i nodes "nodes ! i @ [x]"] concat_split [of i nodes] by simp

lemma wrepD:
  assumes "wrep h0 w arr ps nodes t c h"
  shows "sized t" "grown h0 h" "length ps = wc_size t" "length nodes = wc_size t" "items t = map (map content) nodes"
    "distinct (map fst (concat nodes))" "cells h w = Some (Table (Some arr) (int c) (int (wc_size t)))"
    "cells h arr = Some (Pointers ps)" "next_free h0 \<le> w" "next_free h0 \<le> arr" "w \<noteq> arr"
    "\<And>j. j < wc_size t \<Longrightarrow> item_seg (cells h) (ps ! j) (nodes ! j) None"
    "\<And>a. a \<in> fst ` set (concat nodes) \<Longrightarrow> next_free h0 \<le> a"
  using assms by (auto simp: wrep_def)

lemma wrep_item:
  assumes "wrep h0 w arr ps nodes t c h" "a \<in> fst ` set (concat nodes)"
  shows "\<exists>s n nx. cells h a = Some (Item s n nx)"
proof -
  from assms(2) obtain xs where "xs \<in> set nodes" "a \<in> fst ` set xs" by auto
  then obtain j where "j < length nodes" "a \<in> fst ` set (nodes ! j)" by (metis in_set_conv_nth)
  with seg_item [OF wrepD(12)] wrepD(4) assms(1) show ?thesis by metis
qed

text \<open>After \<open>element_count++\<close>.\<close>

definition counted :: "addr \<Rightarrow> addr \<Rightarrow> wc \<Rightarrow> nat \<Rightarrow> heap \<Rightarrow> heap" where
  "counted w arr t c h = store w (Table (Some arr) (int (Suc c)) (int (wc_size t))) h"

lemma counted_sel [simp]:
  "cells (counted w arr t c h) = (cells h)(w \<mapsto> Table (Some arr) (int (Suc c)) (int (wc_size t)))"
  "next_free (counted w arr t c h) = next_free h"
  by (simp_all add: counted_def)

lemma counted_ok:
  assumes "wrep h0 w arr ps nodes t c h" "i < wc_size t"
  shows "grown h0 (counted w arr t c h)" "item_seg (cells (counted w arr t c h)) (ps ! i) (nodes ! i) None"
proof -
  note r = wrepD [OF assms(1)]
  show "grown h0 (counted w arr t c h)" unfolding counted_def by (rule grown_store [OF r(2,9)]) (simp add: r(7))
  have "w \<notin> fst ` set (nodes ! i)" using seg_item [OF r(12) [OF assms(2)], of w] r(7) by auto
  then show "item_seg (cells (counted w arr t c h)) (ps ! i) (nodes ! i) None"
    by (intro seg_frame [OF r(12) [OF assms(2)]]) (use r(7) in auto)
qed

lemma insert_eq:
  assumes "wrep h0 w arr ps nodes t c h" "i = wc_hash_function key (wc_size t)" "c < 2 ^ 31 - 1"
  shows "i < wc_size t" "wc_insert_heap key w h = (case ps ! i of
        None \<Rightarrow> let (p, h) = create_items_heap key 1 (counted w arr t c h) in Some (store arr (Pointers (ps[i := Some p])) h)
      | Some temp \<Rightarrow> do {
          (need_chaining, p, h) \<leftarrow> find_loop key (Some temp) None (counted w arr t c h);
          if need_chaining then do {
            l \<leftarrow> last_loop p h;
            let (new, h) = create_items_heap key 1 h;
            (s, n, nx) \<leftarrow> item_at (cells h l);
            Some (store l (Item s n (Some new)) h) }
          else Some h })"
proof -
  note r = wrepD [OF assms(1)]
  show i: "i < wc_size t" using hash_less [OF r(1), of key] r(5,4) assms(2) by simp
  have "s32 (int c + 1) = int (Suc c)" using assms(3) by (subst s32_id) auto
  then have "store w (Table (Some arr) (s32 (int c + 1)) (int (wc_size t))) h = counted w arr t c h"
    by (simp add: counted_def)
  with r(3,7,8,11) i assms(2) show "wc_insert_heap key w h = (case ps ! i of
        None \<Rightarrow> let (p, h) = create_items_heap key 1 (counted w arr t c h) in Some (store arr (Pointers (ps[i := Some p])) h)
      | Some temp \<Rightarrow> do {
          (need_chaining, p, h) \<leftarrow> find_loop key (Some temp) None (counted w arr t c h);
          if need_chaining then do {
            l \<leftarrow> last_loop p h;
            let (new, h) = create_items_heap key 1 h;
            (s, n, nx) \<leftarrow> item_at (cells h l);
            Some (store l (Item s n (Some new)) h) }
          else Some h })"
    by (simp add: wc_insert_heap_def Let_def cong: option.case_cong)
qed

text \<open>The memory after \<open>create_items\<close> in an insertion: nothing that was there moves.\<close>

definition made_items :: "char list \<Rightarrow> addr \<Rightarrow> addr \<Rightarrow> wc \<Rightarrow> nat \<Rightarrow> heap \<Rightarrow> heap" where
  "made_items key w arr t c h = snd (create_items_heap key 1 (counted w arr t c h))"

lemma made_ok:
  assumes "wrep h0 w arr ps nodes t c h"
  shows "create_items_heap key 1 (counted w arr t c h) = (next_free h, made_items key w arr t c h)"
    "next_free (made_items key w arr t c h) = next_free h + 3"
    "cells (made_items key w arr t c h) (next_free h) = Some (Item (Suc (next_free h)) 1 None)"
    "cells (made_items key w arr t c h) (Suc (next_free h)) = Some (Chars key)"
    "\<And>a. cells h a \<noteq> None \<Longrightarrow> cells (made_items key w arr t c h) a = cells (counted w arr t c h) a"
    "cells h (next_free h) = None" "cells h (Suc (next_free h)) = None" "cells h (Suc (Suc (next_free h))) = None"
    "grown h0 (made_items key w arr t c h)"
proof -
  note r = wrepD [OF assms]
  show n: "cells h (next_free h) = None" "cells h (Suc (next_free h)) = None" "cells h (Suc (Suc (next_free h))) = None"
    using grown_fresh [OF r(2)] by simp_all
  show "grown h0 (made_items key w arr t c h)"
    unfolding made_items_def counted_def by (intro grown_create grown_store r(2,9)) (simp add: r(7))
  show "cells (made_items key w arr t c h) a = cells (counted w arr t c h) a" if "cells h a \<noteq> None" for a
    using that n by (auto simp: made_items_def create_items_heap_eq)
qed (simp_all add: made_items_def create_items_heap_eq)

text \<open>A chain that gets the new item at its end.\<close>

lemma wrep_add:
  assumes r: "wrep h0 w arr ps nodes t c h" and i: "i = wc_hash_function key (wc_size t)" and c: "c < 2 ^ 31 - 1"
    and absent: "key \<notin> fst ` content ` set (nodes ! i)"
    and w: "cells h' w = Some (Table (Some arr) (int (Suc c)) (int (wc_size t)))"
    and arr: "cells h' arr = Some (Pointers (ps[i := p]))"
    and xs: "item_seg (cells h') p (nodes ! i @ [(next_free h, Suc (next_free h), key, 1)]) None"
    and frame: "\<And>a. a \<in> fst ` set (concat nodes) \<Longrightarrow> a \<notin> fst ` set (nodes ! i) \<Longrightarrow> cells h' a = cells h a"
    and chars: "\<And>a k. cells h a = Some (Chars k) \<Longrightarrow> cells h' a = cells h a"
    and g: "grown h0 h'" and f: "next_free h' = next_free h + 3"
  shows "\<exists>ps' nodes'. wrep h0 w arr ps' nodes' (put_word key t) (Suc c) h' \<and>
    next_free h' + 3 * length (concat nodes) = next_free h + 3 * length (concat nodes')"
proof -
  let ?node = "(next_free h, Suc (next_free h), key, 1) :: item_node"
  note R = wrepD [OF r]
  have il: "i < length nodes" using insert_eq(1) [OF r i c] R(4) by simp
  have new: "fst ?node \<notin> fst ` set (concat nodes)"
    using wrep_item [OF r, of "next_free h"] made_ok(6) [OF r] by (auto simp del: set_concat)
  have "fst ` content ` set (nodes ! i) = fst ` set (items t ! i)" using R(5) il by (simp add: image_image)
  then have "map content (nodes ! i @ [?node]) = chain_count key (items t ! i)"
    using chain_count_absent [of key "items t ! i"] absent R(5) il by (simp add: create_items_def)
  moreover have "\<forall>a \<in> fst ` set (nodes ! i @ [?node]). next_free h0 \<le> a"
  proof -
    have "\<forall>a \<in> fst ` set (nodes ! i). next_free h0 \<le> a" using R(13) chain_subset [OF il] by blast
    then show ?thesis using R(2) by (auto simp: grown_def)
  qed
  ultimately have "wrep h0 w arr (ps[i := p]) (nodes[i := nodes ! i @ [?node]]) (put_word key t) (Suc c) h'"
    by (intro wrep_bucket [OF r i c w arr xs] frame chars distinct_add [OF il R(6) new] g) simp_all
  then show ?thesis using length_add [OF il, of ?node] f by (intro exI) auto
qed

text \<open>The three cases of an insertion: an empty bucket, a chain without the key, a chain with it.\<close>

lemma insert_empty:
  assumes r: "wrep h0 w arr ps nodes t c h" and i: "i = wc_hash_function key (wc_size t)" and c: "c < 2 ^ 31 - 1"
    and none: "ps ! i = None"
  shows "\<exists>ps' nodes' h'. wc_insert_heap key w h = Some h' \<and> wrep h0 w arr ps' nodes' (put_word key t) (Suc c) h' \<and>
    next_free h' + 3 * length (concat nodes) = next_free h + 3 * length (concat nodes')"
proof -
  note R = wrepD [OF r] and M = made_ok [OF r]
  have il: "i < wc_size t" by (rule insert_eq(1) [OF r i c])
  have empty: "nodes ! i = []" using R(12) [OF il] none by (cases "nodes ! i") auto
  let ?h = "store arr (Pointers (ps[i := Some (next_free h)])) (made_items key w arr t c h)"
  have ins: "wc_insert_heap key w h = Some ?h" using insert_eq(2) [OF r i c] none M(1) by simp
  have ne: "next_free h \<noteq> arr" "Suc (next_free h) \<noteq> arr" using M(6,7) R(8) by auto
  have "\<exists>ps' nodes'. wrep h0 w arr ps' nodes' (put_word key t) (Suc c) ?h \<and>
    next_free ?h + 3 * length (concat nodes) = next_free h + 3 * length (concat nodes')"
  proof (rule wrep_add [OF r i c])
    show "grown h0 ?h" by (rule grown_store [OF M(9) R(10)]) (use M(5) [of arr] R(8,11) in simp)
    show "cells ?h a = cells h a" if "a \<in> fst ` set (concat nodes)" for a
      using wrep_item [OF r that] M(5) [of a] R(7,8) by auto
    show "cells ?h a = cells h a" if "cells h a = Some (Chars k)" for a k
      using that M(5) [of a] R(7,8) by auto
  qed (use M(2,3,4,5) R(7,8,11) ne empty in simp_all)
  with ins show ?thesis by blast
qed

lemma insert_absent:
  assumes r: "wrep h0 w arr ps nodes t c h" and i: "i = wc_hash_function key (wc_size t)" and c: "c < 2 ^ 31 - 1"
    and some: "ps ! i = Some temp" and absent: "key \<notin> fst ` content ` set (nodes ! i)"
  shows "\<exists>ps' nodes' h'. wc_insert_heap key w h = Some h' \<and> wrep h0 w arr ps' nodes' (put_word key t) (Suc c) h' \<and>
    next_free h' + 3 * length (concat nodes) = next_free h + 3 * length (concat nodes')"
proof -
  note R = wrepD [OF r] and M = made_ok [OF r]
  let ?h1 = "counted w arr t c h" and ?h2 = "made_items key w arr t c h"
  have il: "i < wc_size t" by (rule insert_eq(1) [OF r i c])
  note s1 = counted_ok(2) [OF r il]
  from s1 some have ne: "nodes ! i \<noteq> []" by auto
  obtain a s k n where lst: "last (nodes ! i) = (a, s, k, n)" by (cases "last (nodes ! i)")
  define xs where "xs = butlast (nodes ! i)"
  have xs: "nodes ! i = xs @ [(a, s, k, n)]" using append_butlast_last_id [OF ne] lst by (simp add: xs_def)
  from s1 xs some have sx: "item_seg (cells ?h1) (Some temp) xs (Some a)" and
    ca: "cells ?h1 a = Some (Item s n None)" "cells ?h1 s = Some (Chars k)" by (auto simp: item_seg_append)
  have aw: "a \<noteq> w" "a \<noteq> arr" "cells h a = Some (Item s n None)" "cells h s = Some (Chars k)" "s \<noteq> a"
    using ca R(8) by (auto split: if_splits)
  have sw: "s \<noteq> w" using ca(2) by auto
  have same: "cells ?h2 b = cells ?h1 b" if "cells ?h1 b \<noteq> None" "b \<noteq> w" for b using that M(5) [of b] by auto
  let ?h = "store a (Item s n (Some (next_free h))) ?h2"
  have ins: "wc_insert_heap key w h = Some ?h"
    using insert_eq(2) [OF r i c] some find_loop_absent [OF s1 absent, of None] ne lst M(1) M(5) [of a]
      last_loop_end [OF ca(1)] aw by simp
  have ax: "a \<notin> fst ` set xs" using R(6) concat_split [of i nodes] R(4) il xs by auto
  have an: "a \<noteq> next_free h" "a \<noteq> Suc (next_free h)" using M(6,7) aw(3) by auto
  have "\<exists>ps' nodes'. wrep h0 w arr ps' nodes' (put_word key t) (Suc c) ?h \<and>
    next_free ?h + 3 * length (concat nodes) = next_free h + 3 * length (concat nodes')"
  proof (rule wrep_add [OF r i c absent])
    have "a \<in> fst ` set (nodes ! i)" by (simp add: xs)
    then have ac: "a \<in> fst ` set (concat nodes)" using chain_subset [of i nodes] il R(4) by auto
    then show "grown h0 ?h" using grown_store [OF M(9) R(13)] M(5) [of a] aw by simp
    show "cells ?h w = Some (Table (Some arr) (int (Suc c)) (int (wc_size t)))"
      "cells ?h arr = Some (Pointers (ps[i := Some temp]))"
      using M(5) [of w] M(5) [of arr] R(7,8,11) aw some list_update_id [of ps i] by auto
    have "item_seg (cells ?h) (Some temp) xs (Some a)"
    proof (rule seg_frame [OF sx])
      have "cells ?h b = cells ?h1 b" if "b \<in> fst ` set xs" for b
      proof -
        have "b \<noteq> a" "b \<noteq> w" using that ax seg_item [OF sx that] by auto
        with same [of b] seg_item [OF sx that] show ?thesis by auto
      qed
      then show "\<forall>b \<in> fst ` set xs. cells ?h b = cells ?h1 b" by blast
      show "cells ?h b = cells ?h1 b" if "cells ?h1 b = Some (Chars k')" for b k'
      proof -
        have "b \<noteq> a" "b \<noteq> w" using that ca by auto
        with same [of b] that show ?thesis by auto
      qed
    qed
    then show "item_seg (cells ?h) (Some temp) (nodes ! i @ [(next_free h, Suc (next_free h), key, 1)]) None"
      using M(3,4) an aw same [of s] ca(2) sw by (auto simp: xs item_seg_append)
    show "cells ?h b = cells h b" if "b \<in> fst ` set (concat nodes)" "b \<notin> fst ` set (nodes ! i)" for b
      using wrep_item [OF r that(1)] that(2) M(5) [of b] R(7) by (auto simp: xs)
    show "cells ?h b = cells h b" if "cells h b = Some (Chars k')" for b k'
      using that M(5) [of b] R(7) aw by auto
  qed (simp add: M(2))
  with ins show ?thesis by blast
qed

lemma insert_present:
  assumes r: "wrep h0 w arr ps nodes t c h" and i: "i = wc_hash_function key (wc_size t)" and c: "c < 2 ^ 31 - 1"
    and some: "ps ! i = Some temp" and present: "key \<in> fst ` content ` set (nodes ! i)"
  shows "\<exists>ps' nodes' h'. wc_insert_heap key w h = Some h' \<and> wrep h0 w arr ps' nodes' (put_word key t) (Suc c) h' \<and>
    next_free h' + 3 * length (concat nodes) = next_free h + 3 * length (concat nodes')"
proof -
  note R = wrepD [OF r]
  let ?h1 = "counted w arr t c h"
  have il: "i < wc_size t" by (rule insert_eq(1) [OF r i c])
  then have il': "i < length nodes" using R(4) by simp
  note s1 = counted_ok(2) [OF r il]
  from present have "\<exists>x \<in> set (nodes ! i). fst (content x) = key" by (force simp del: content_simp)
  from split_list_first_prop [OF this] obtain ys x zs where
    sp: "nodes ! i = ys @ x # zs" "fst (content x) = key" "\<forall>y \<in> set ys. fst (content y) \<noteq> key" by blast
  obtain a s n where x: "x = (a, s, key, n)" using sp(2) by (cases x) auto
  have nk: "key \<notin> fst ` content ` set ys" using sp(3) by auto
  from s1 [unfolded sp(1) x some] have sx: "item_seg (cells ?h1) (Some temp) (ys @ (a, s, key, n) # zs) None" .
  from find_loop_present [OF sx nk, of None] obtain l' nx where
    f: "cells ?h1 a = Some (Item s n nx)" "find_loop key (Some temp) None ?h1 = Some (False, l', store a (Item s (s32 (n + 1)) nx) ?h1)"
    by auto
  let ?h = "store a (Item s (s32 (n + 1)) nx) ?h1" and ?xs = "ys @ (a, s, key, s32 (n + 1)) # zs"
  have ins: "wc_insert_heap key w h = Some ?h" using insert_eq(2) [OF r i c] some f by simp
  from sx f(1) have sg: "item_seg (cells ?h1) (Some temp) ys (Some a)" "cells ?h1 s = Some (Chars key)" "item_seg (cells ?h1) nx zs None"
    by (auto simp: item_seg_append)
  have heads: "map fst ?xs = map fst (nodes ! i)" using sp(1) x by simp
  then have hs: "fst ` set ?xs = fst ` set (nodes ! i)" by (metis set_map)
  have ax: "a \<notin> fst ` set ys" "a \<notin> fst ` set zs" using R(6) concat_split [OF il'] sp x by auto
  have aw: "a \<noteq> w" "a \<noteq> arr" "cells h a = Some (Item s n nx)" using f(1) R(8) by (auto split: if_splits)
  have ch: "cells ?h b = cells ?h1 b" if "cells ?h1 b = Some (Chars k')" for b k' using that f by auto
  have ac: "a \<in> fst ` set (nodes ! i)" by (simp add: sp(1) x)
  have "wrep h0 w arr (ps[i := Some temp]) (nodes[i := ?xs]) (put_word key t) (Suc c) ?h"
  proof (rule wrep_bucket [OF r i c])
    have "a \<in> fst ` set (concat nodes)" using ac chain_subset [OF il'] by blast
    from grown_store [OF counted_ok(1) [OF r il] R(13) [OF this]] f show "grown h0 ?h" by simp
    show "cells ?h w = Some (Table (Some arr) (int (Suc c)) (int (wc_size t)))"
      "cells ?h arr = Some (Pointers (ps[i := Some temp]))"
      using R(7,8,11) aw some list_update_id [of ps i] by auto
    have "item_seg (cells ?h) (Some temp) ys (Some a)" by (rule seg_frame [OF sg(1)]) (use ax ch in auto)
    moreover have "item_seg (cells ?h) nx zs None" by (rule seg_frame [OF sg(3)]) (use ax ch in auto)
    ultimately show "item_seg (cells ?h) (Some temp) ?xs None" using ch [OF sg(2)] sg(2) by (auto simp: item_seg_append)
    show "map content ?xs = chain_count key (items t ! i)"
      using chain_count_present [of key "map content ys" n "map content zs"] nk sp(1) x R(5) il' by (simp add: image_image)
    show "cells ?h b = cells h b" if "b \<in> fst ` set (concat nodes)" "b \<notin> fst ` set (nodes ! i)" for b
      using wrep_item [OF r that(1)] that(2) ac R(7) by auto
    show "cells ?h b = cells h b" if "cells h b = Some (Chars k')" for b k' using that R(7) aw by auto
    show "distinct (map fst (concat (nodes[i := ?xs])))" using same_heads [OF il' heads] R(6) by simp
    show "\<forall>b \<in> fst ` set ?xs. next_free h0 \<le> b" using R(13) chain_subset [OF il'] unfolding hs by blast
  qed
  moreover have "length (concat (nodes[i := ?xs])) = length (concat nodes)"
    using same_heads [OF il' heads] by (metis length_map)
  ultimately show ?thesis using ins by (intro exI [of _ "ps[i := Some temp]"] exI [of _ "nodes[i := ?xs]"] exI [of _ ?h]) simp
qed

text \<open>An insertion in memory is an insertion in the table, and allocates three blocks when the chain gets a new item.\<close>

lemma wc_insert_heap_ok:
  assumes "wrep h0 w arr ps nodes t c h" "c < 2 ^ 31 - 1"
  shows "\<exists>ps' nodes' h'. wc_insert_heap key w h = Some h' \<and> wrep h0 w arr ps' nodes' (put_word key t) (Suc c) h' \<and>
    next_free h' + 3 * length (concat nodes) = next_free h + 3 * length (concat nodes')"
proof (cases "ps ! wc_hash_function key (wc_size t)")
  case None
  from insert_empty [OF assms(1) refl assms(2) this] show ?thesis .
next
  case (Some temp)
  from insert_absent [OF assms(1) refl assms(2) this] insert_present [OF assms(1) refl assms(2) this]
  show ?thesis by blast
qed

section \<open>wc_init\<close>

lemma wrep_buffer:
  assumes "wrep h0 w arr ps nodes t c h"
  shows "wrep h0 w arr ps nodes t c (snd (c_malloc (Chars b) h))"
proof -
  have g: "grown h0 h" using assms by (simp add: wrep_def)
  let ?h = "snd (c_malloc (Chars b) h)"
  have same: "cells ?h a = cells h a" if "cells h a \<noteq> None" for a
    using that grown_fresh [OF g, of "next_free h"] by (auto simp: c_malloc_def)
  have "item_seg (cells ?h) p xs q" if "item_seg (cells h) p xs q" for p xs q
    by (rule seg_frame [OF that]) (use seg_item [OF that] same in fastforce)+
  then show ?thesis using assms same grown_malloc [OF g] by (simp add: wrep_def)
qed

text \<open>The scanner in memory follows the scanner of the table; a word costs a buffer and, when it is new, three more
  blocks.\<close>

lemma wc_loop_heap_ok:
  assumes "wc_loop slack arr n head counter t = Some t'" "wrep h0 w a ps nodes t c h" "c + n < 2 ^ 31"
    "next_free h = next_free h0 + 2 + c + 3 * length (concat nodes)"
  shows "\<exists>ps' nodes' h' c'. wc_loop_heap slack arr n head counter w h = Some h' \<and> wrep h0 w a ps' nodes' t' c' h' \<and>
    next_free h' = next_free h0 + 2 + c' + 3 * length (concat nodes')"
  using assms
proof (induction n arbitrary: head counter t ps nodes c h)
  case 0
  then show ?case by auto
next
  case (Suc n)
  let ?i = "length arr - Suc n" let ?c = "arr ! ?i"
  show ?case
  proof (cases "isspace ?c \<and> 0 < counter")
    case True
    with Suc.prems(1) obtain b t2 where b: "buffer_string (slack ?i) (take counter (drop head arr)) = Some b"
      "wc_insert b t = Some t2" "wc_loop slack arr n head 0 t2 = Some t'"
      by (auto simp: Let_def bind_eq_Some_conv)
    have s: "sized t" using Suc.prems(2) by (simp add: wrep_def)
    with b(2) have t2: "t2 = put_word b t" by (simp add: wc_insert_sized)
    from wc_insert_heap_ok [OF wrep_buffer [OF Suc.prems(2), of b], of b] Suc.prems(3) obtain ps2 nodes2 h2 where
      h2: "wc_insert_heap b w (snd (c_malloc (Chars b) h)) = Some h2" "wrep h0 w a ps2 nodes2 t2 (Suc c) h2"
      "next_free h2 + 3 * length (concat nodes) = Suc (next_free h) + 3 * length (concat nodes2)"
      unfolding t2 by (auto simp: c_malloc_def)
    from Suc.IH [OF b(3) h2(2)] Suc.prems(3,4) h2(3) obtain ps' nodes' h' c' where
      "wc_loop_heap slack arr n head 0 w h2 = Some h'" "wrep h0 w a ps' nodes' t' c' h'"
      "next_free h' = next_free h0 + 2 + c' + 3 * length (concat nodes')" by auto
    with True b(1) h2(1) show ?thesis by (auto simp: Let_def c_malloc_def)
  next
    case False
    then show ?thesis using Suc.IH [OF _ Suc.prems(2) _ Suc.prems(4)] Suc.prems(1,3)
      by (auto simp: Let_def split: if_splits)
  qed
qed

lemma wc_init_heap_ok:
  assumes "wc_init slack arr = Some t" "0 < length arr" "length arr < 2 ^ 30" "\<forall>a \<ge> next_free h0. cells h0 a = None"
  shows "\<exists>w a ps nodes h c. wc_init_heap slack arr h0 = Some (w, h) \<and> wrep h0 w a ps nodes t c h \<and>
    next_free h = next_free h0 + 2 + c + 3 * length (concat nodes)"
proof -
  let ?n = "2 * length arr" let ?w = "next_free h0" let ?a = "Suc (next_free h0)"
  have sz: "s32 (2 * int (length arr)) = int ?n" using assms(3) by (subst s32_id) auto
  let ?t0 = "\<lparr>items = replicate ?n [], element_count = 0, wc_size = ?n\<rparr>"
  let ?h = "store ?w (Table (Some ?a) 0 (int ?n)) (snd (c_malloc (Pointers (replicate ?n None)) (snd (c_malloc (Table None 0 0) h0))))"
  have "wc_loop slack arr (length arr) 0 0 ?t0 = Some t" using assms(1) sz by (simp add: wc_init_def Let_def nat_mult_distrib)
  moreover have "wrep h0 ?w ?a (replicate ?n None) (replicate ?n []) ?t0 0 ?h"
    using assms(2,4) by (auto simp: wrep_def sized_def grown_def c_malloc_def concat_replicate_trivial)
  ultimately obtain ps' nodes' h' c' where
    "wc_loop_heap slack arr (length arr) 0 0 ?w ?h = Some h'" "wrep h0 ?w ?a ps' nodes' t c' h'"
    "next_free h' = next_free h0 + 2 + c' + 3 * length (concat nodes')"
    using wc_loop_heap_ok [of slack arr "length arr" 0 0 ?t0 t h0 ?w ?a "replicate ?n None" "replicate ?n []" 0 ?h] assms(3)
    by (auto simp: c_malloc_def)
  moreover have "wc_init_heap slack arr h0 = do { h \<leftarrow> wc_loop_heap slack arr (length arr) 0 0 ?w ?h; Some (?w, h) }"
    using sz by (simp add: wc_init_heap_def c_malloc_def Let_def nat_mult_distrib)
  ultimately show ?thesis by auto
qed

section \<open>wc_output and wc_destroy\<close>

lemma output_chain_ok:
  "item_seg (cells h) p xs None \<Longrightarrow>
   output_chain p h = Some (concat (map (\<lambda>(key, n). key @ '':'' @ print_d n @ [CHR 0x0A]) (map content xs)))"
proof (induction xs arbitrary: p)
  case Nil
  then show ?case by (simp add: output_chain.simps)
next
  case (Cons x xs)
  obtain a s k n where x: "x = (a, s, k, n)" by (cases x)
  with Cons show ?case by (subst output_chain.simps) auto
qed

lemma wrep_bucket_at: "wrep h0 w arr ps nodes t c h \<Longrightarrow> i < wc_size t \<Longrightarrow> chain_at w i h = Some (ps ! i)"
  by (simp add: wrep_def chain_at_def)

lemma output_loop_ok:
  assumes "wrep h0 w arr ps nodes t c h" "\<forall>i \<in> set is. i < wc_size t"
  shows "output_loop w is h = Some (concat (map (\<lambda>i.
    concat (map (\<lambda>(key, n). key @ '':'' @ print_d n @ [CHR 0x0A]) (items t ! i))) is))"
  using assms(2)
proof (induction "is")
  case (Cons i "is")
  then have i: "i < wc_size t" by simp
  then have "item_seg (cells h) (ps ! i) (nodes ! i) None" "items t ! i = map content (nodes ! i)"
    using assms(1) by (auto simp: wrep_def)
  with output_chain_ok Cons wrep_bucket_at [OF assms(1) i] show ?case by fastforce
qed simp

lemma wc_output_heap_ok:
  assumes "wrep h0 w arr ps nodes t c h"
  shows "wc_output_heap w h = Some (wc_output t)"
proof -
  have "length (items t) = wc_size t" using assms by (simp add: wrep_def)
  then have "map f [0..<wc_size t] = map (\<lambda>chain. g chain) (items t)" if "\<And>i. f i = g (items t ! i)" for f and g :: "_ \<Rightarrow> char list"
    using that by (auto simp: list_eq_iff_nth_eq)
  with output_loop_ok [OF assms, of "[0..<wc_size t]"] assms show ?thesis
    by (auto simp: wc_output_heap_def wc_output_def wrep_def)
qed

lemma free_chain_ok:
  "item_seg (cells h) p xs None \<Longrightarrow> distinct (map fst xs) \<Longrightarrow>
   free_chain p h = Some (h\<lparr>cells := cells h |` (- fst ` set xs)\<rparr>)"
proof (induction xs arbitrary: p h)
  case Nil
  then show ?case by (simp add: free_chain.simps)
next
  case (Cons x xs)
  obtain a s k n where x: "x = (a, s, k, n)" by (cases x)
  from Cons.prems x obtain nx where m: "p = Some a" "cells h a = Some (Item s n nx)" "item_seg (cells h) nx xs None"
    "a \<notin> fst ` set xs" by auto
  let ?h = "h\<lparr>cells := (cells h)(a := None)\<rparr>"
  have "item_seg (cells ?h) nx xs None" by (rule seg_frame [OF m(3)]) (use m(2,4) in auto)
  from Cons.IH [OF this] Cons.prems(2)
  have "free_chain nx ?h = Some (h\<lparr>cells := cells h |` (- fst ` set (x # xs))\<rparr>)"
    using x by (simp add: restrict_map_def fun_eq_iff)
  then show ?case using m by (subst free_chain.simps) (simp add: c_free_def)
qed

lemma destroy_loop_ok:
  assumes "\<forall>i \<in> set is. chain_at w i h = Some (ps i) \<and> item_seg (cells h) (ps i) (nd i) None"
    "distinct (map fst (concat (map nd is)))"
  shows "destroy_loop w is h = Some (h\<lparr>cells := cells h |` (- fst ` set (concat (map nd is)))\<rparr>)"
  using assms
proof (induction "is" arbitrary: h)
  case (Cons i "is")
  let ?A = "fst ` set (nd i)"
  let ?h = "h\<lparr>cells := cells h |` (- ?A)\<rparr>"
  have sg: "item_seg (cells h) (ps i) (nd i) None" and b: "chain_at w i h = Some (ps i)" using Cons.prems(1) by simp_all
  have it: "\<exists>s n nx. cells h a = Some (Item s n nx)" if "a \<in> ?A" for a by (rule seg_item [OF sg that])
  have "chain_at w j ?h = Some (ps j) \<and> item_seg (cells ?h) (ps j) (nd j) None" if j: "j \<in> set is" for j
  proof
    have bj: "chain_at w j h = Some (ps j)" and sj: "item_seg (cells h) (ps j) (nd j) None" using Cons.prems(1) j by simp_all
    from bj obtain arr cnt sz qs where t: "table_at (cells h w) = Some (Some arr, cnt, sz)" "pointers_at (cells h arr) = Some qs"
      by (auto simp: chain_at_def bind_eq_Some_conv)
    then have "w \<notin> ?A" "arr \<notin> ?A" using it by fastforce+
    with t bj show "chain_at w j ?h = Some (ps j)" by (simp add: chain_at_def)
    have "fst ` set (nd j) \<subseteq> fst ` set (concat (map nd is))" using j by auto
    moreover have "?A \<inter> fst ` set (concat (map nd is)) = {}" using Cons.prems(2) by auto
    ultimately have "fst ` set (nd j) \<inter> ?A = {}" by blast
    then have "\<forall>a \<in> fst ` set (nd j). cells ?h a = cells h a" by (simp add: restrict_map_def disjoint_iff)
    moreover have "cells ?h a = cells h a" if "cells h a = Some (Chars k)" for a k
      using that it [of a] by (cases "a \<in> ?A") auto
    ultimately show "item_seg (cells ?h) (ps j) (nd j) None" by (rule seg_frame [OF sj])
  qed
  moreover have "distinct (map fst (concat (map nd is)))" using Cons.prems(2) by simp
  ultimately have "destroy_loop w is ?h = Some (?h\<lparr>cells := cells ?h |` (- fst ` set (concat (map nd is)))\<rparr>)"
    using Cons.IH [of ?h] by blast
  moreover have "?h\<lparr>cells := cells ?h |` (- fst ` set (concat (map nd is)))\<rparr> =
      h\<lparr>cells := cells h |` (- fst ` set (concat (map nd (i # is))))\<rparr>"
    by (simp add: restrict_map_def fun_eq_iff image_Un)
  ultimately show ?case using free_chain_ok [OF sg] Cons.prems(2) b by simp
qed (simp add: restrict_map_def)

text \<open>\<open>wc_destroy\<close> frees the struct, the array and every item, each once.\<close>

lemma wc_destroy_ok:
  assumes r: "wrep h0 w arr ps nodes t c h"
  shows "wc_destroy w h = Some (h\<lparr>cells := cells h |` (- (fst ` set (concat nodes) \<union> {w, arr}))\<rparr>)"
proof -
  have l: "length nodes = wc_size t" and d: "distinct (map fst (concat nodes))"
    and w: "cells h w = Some (Table (Some arr) (int c) (int (wc_size t)))" and a: "cells h arr = Some (Pointers ps)"
    using r by (auto simp: wrep_def)
  have n: "map ((!) nodes) [0..<wc_size t] = nodes" using l map_nth [of nodes] by simp
  let ?A = "fst ` set (concat nodes)"
  have sg: "item_seg (cells h) (ps ! i) (nodes ! i) None" if "i < wc_size t" for i using r that by (simp add: wrep_def)
  have "\<exists>s n nx. cells h a = Some (Item s n nx)" if "a \<in> ?A" for a by (rule wrep_item [OF r that])
  with w a have out: "w \<notin> ?A" "arr \<notin> ?A" by fastforce+
  have "destroy_loop w [0..<wc_size t] h = Some (h\<lparr>cells := cells h |` (- ?A)\<rparr>)"
    using destroy_loop_ok [of "[0..<wc_size t]" w h "(!) ps" "(!) nodes", unfolded n] wrep_bucket_at [OF r] sg d by simp
  moreover have "w \<noteq> arr" using w a by auto
  ultimately show ?thesis using w a out
    by (auto simp: wc_destroy_def c_free_def restrict_map_def fun_eq_iff simp del: set_concat)
qed

section \<open>The whole program\<close>

text \<open>What is left after \<open>wc_destroy\<close>: the buffer of each word read, and the key and the lost block of each item.\<close>

lemma left_over:
  assumes r: "wrep h0 w arr ps nodes t c h" and f: "next_free h = next_free h0 + 2 + c + 3 * length (concat nodes)"
  shows "card {a. next_free h0 \<le> a \<and> (cells h |` (- (fst ` set (concat nodes) \<union> {w, arr}))) a \<noteq> None} =
    c + 2 * length (concat nodes)"
proof -
  note R = wrepD [OF r]
  let ?A = "fst ` set (concat nodes)" and ?D = "fst ` set (concat nodes) \<union> {w, arr}"
  have g: "cells h a \<noteq> None \<longleftrightarrow> a < next_free h" if "next_free h0 \<le> a" for a using R(2) that by (simp add: grown_def)
  have "{a. next_free h0 \<le> a \<and> (cells h |` (- ?D)) a \<noteq> None} = {next_free h0..<next_free h} - ?D"
    by (intro set_eqI) (simp add: restrict_map_def g cong: conj_cong del: set_concat not_None_eq)
  moreover have "?D \<subseteq> {next_free h0..<next_free h}"
  proof
    fix a assume "a \<in> ?D"
    then have "cells h a \<noteq> None \<and> next_free h0 \<le> a" using wrep_item [OF r, of a] R(7-10,13) by auto
    with g [of a] show "a \<in> {next_free h0..<next_free h}" by simp
  qed
  moreover have "w \<notin> ?A" "arr \<notin> ?A" using wrep_item [OF r] R(7,8) by fastforce+
  then have "card ?D = Suc (Suc (card ?A))" using R(11) by simp
  moreover have "card ?A = length (concat nodes)" using R(6) by (metis distinct_card length_map set_map)
  ultimately show ?thesis using f by (simp add: card_Diff_subset)
qed

text \<open>The items: those that the array points to, and those that an item points to.\<close>

inductive linked :: "heap \<Rightarrow> addr \<Rightarrow> addr \<Rightarrow> bool" for h :: heap and arr :: addr where
  first: "cells h arr = Some (Pointers ps) \<Longrightarrow> Some a \<in> set ps \<Longrightarrow> linked h arr a"
| after: "linked h arr b \<Longrightarrow> cells h b = Some (Item s n (Some a)) \<Longrightarrow> linked h arr a"

lemma seg_linked: "item_seg (cells h) p xs None \<Longrightarrow> (\<And>a. p = Some a \<Longrightarrow> linked h arr a) \<Longrightarrow> a \<in> fst ` set xs \<Longrightarrow> linked h arr a"
proof (induction xs arbitrary: p)
  case (Cons x xs)
  obtain b s k n where x: "x = (b, s, k, n)" by (cases x)
  with Cons.prems obtain nx where m: "p = Some b" "cells h b = Some (Item s n nx)" "item_seg (cells h) nx xs None" by auto
  have b: "linked h arr b" using Cons.prems(2) m(1) by simp
  have "linked h arr a" if "nx = Some a" for a using linked.after [OF b] m(2) that by simp
  with Cons.IH [OF m(3)] Cons.prems(3) b x show ?case by auto
qed simp

lemma seg_next:
  "item_seg m p xs None \<Longrightarrow> b \<in> fst ` set xs \<Longrightarrow> m b = Some (Item s n (Some a)) \<Longrightarrow> a \<in> fst ` set xs"
proof (induction m p xs "None :: ptr" rule: item_seg.induct)
  case (2 m p c t key k xs)
  then obtain nx where m: "m c = Some (Item t k nx)" "item_seg m nx xs None" by auto
  show ?case
  proof (cases "b = c")
    case True
    with 2 m have "item_seg m (Some a) xs None" by simp
    then show ?thesis by (cases xs) auto
  next
    case False
    with 2 m show ?thesis by auto
  qed
qed simp

lemma linked_items:
  assumes r: "wrep h0 w arr ps nodes t c h"
  shows "linked h arr a \<longleftrightarrow> a \<in> fst ` set (concat nodes)"
proof
  have l: "length ps = wc_size t" "length nodes = wc_size t" "cells h arr = Some (Pointers ps)" using r by (auto simp: wrep_def)
  have sg: "item_seg (cells h) (ps ! i) (nodes ! i) None" if "i < wc_size t" for i using r that by (simp add: wrep_def)
  have inn: "x \<in> fst ` set (concat nodes)" if "i < wc_size t" "x \<in> fst ` set (nodes ! i)" for i x
    using that nth_mem [of i nodes] l(2) by (auto simp del: nth_mem)
  show "a \<in> fst ` set (concat nodes)" if "linked h arr a"
    using that
  proof induction
    case (first qs a)
    then obtain i where i: "i < wc_size t" "ps ! i = Some a" using l by (auto simp: in_set_conv_nth)
    then have "a \<in> fst ` set (nodes ! i)" using sg [OF i(1)] by (cases "nodes ! i") auto
    then show ?case using inn [OF i(1)] by simp
  next
    case (after b s n a)
    then obtain xs where "xs \<in> set nodes" "b \<in> fst ` set xs" by auto
    then obtain i where i: "i < wc_size t" "b \<in> fst ` set (nodes ! i)" using l(2) by (metis in_set_conv_nth)
    from seg_next [OF sg [OF i(1)] i(2) after(2)] show ?case by (rule inn [OF i(1)])
  qed
  show "linked h arr a" if "a \<in> fst ` set (concat nodes)"
  proof -
    from that obtain xs where "xs \<in> set nodes" "a \<in> fst ` set xs" by auto
    then obtain i where i: "i < wc_size t" "a \<in> fst ` set (nodes ! i)" using l(2) by (metis in_set_conv_nth)
    have "linked h arr b" if "ps ! i = Some b" for b using linked.first [OF l(3), of b] that i(1) l(1) by (metis nth_mem)
    from seg_linked [OF sg [OF i(1)] this i(2)] show ?thesis .
  qed
qed

text \<open>C27: The pointer code of \<open>wc.c\<close>, for the arrays and memories of the property on counting: its output is that of the table of lists.
  \<open>wc_destroy\<close> frees, each once, exactly the struct, the array and the items that the array and the items point to, as many as
  there are different keys, and changes nothing else. So of the memory that \<open>wc_init\<close> allocated one buffer for each word, and the key
  and one lost block for each different key, are never freed. \<open>malloc\<close> and \<open>calloc\<close> succeed.\<close>

theorem wc_memory_exact:
  assumes "\<forall>i. NUL \<in> set (slack i)" "0 < length word_array" "length word_array < 2 ^ 30"
    "ws = word_keys slack 0 [] word_array" "\<forall>a \<ge> next_free h0. cells h0 a = None"
  shows "\<exists>t w arr cnt sz h h'. wc_init slack word_array = Some t \<and> wc_init_heap slack word_array h0 = Some (w, h) \<and>
    table_at (cells h w) = Some (Some arr, cnt, sz) \<and>
    wc_output_heap w h = Some (wc_output t) \<and> wc_destroy w h = Some h' \<and>
    (\<forall>a. cells h' a = (if a = w \<or> a = arr \<or> linked h arr a then None else cells h a)) \<and>
    card {a. linked h arr a} = card (set ws) \<and>
    (\<forall>a < next_free h0. cells h' a = cells h0 a) \<and>
    card {a. next_free h0 \<le> a \<and> cells h' a \<noteq> None} = length ws + 2 * card (set ws)"
proof -
  from wc_init_table [OF assms(1-4)] obtain t where t: "wc_init slack word_array = Some t" "table_ok ws t" .
  from wc_init_heap_ok [OF t(1) assms(2,3,5)] obtain w a ps nodes h c where
    i: "wc_init_heap slack word_array h0 = Some (w, h)" and r: "wrep h0 w a ps nodes t c h" and
    f: "next_free h = next_free h0 + 2 + c + 3 * length (concat nodes)" by blast
  note R = wrepD [OF r] and T = table_ok_contents [OF t(2)]
  have c: "c = length ws" using r t(2) by (simp add: wrep_def table_ok_def)
  have "set ws = fst ` set (concat (items t))" unfolding T(2) by force
  then have "card (set ws) = length (concat (items t))" using T(1) by (metis distinct_card length_map set_map)
  then have n: "card (set ws) = length (concat nodes)" using R(5) by (simp add: length_concat comp_def)
  have "card {a'. linked h a a'} = length (concat nodes)"
    using R(6) unfolding linked_items [OF r] by (metis Collect_mem_eq distinct_card length_map set_map)
  moreover have "(cells h |` (- (fst ` set (concat nodes) \<union> {w, a}))) b = cells h0 b" if "b < next_free h0" for b
    using R(2,9,10) R(13) [of b] that by (auto simp: restrict_map_def grown_def simp del: set_concat)
  moreover have "(cells h |` (- (fst ` set (concat nodes) \<union> {w, a}))) b = (if b = w \<or> b = a \<or> linked h a b then None else cells h b)" for b
    unfolding linked_items [OF r] by (auto simp: restrict_map_def simp del: set_concat)
  moreover have "table_at (cells h w) = Some (Some a, int c, int (wc_size t))" using r by (simp add: wrep_def)
  ultimately show ?thesis using t(1) i wc_output_heap_ok [OF r] wc_destroy_ok [OF r] left_over [OF r f] n c by auto
qed

text \<open>The words \<open>a\<close>, \<open>b\<close> and \<open>a\<close> leave three buffers, two keys and two lost items.\<close>

theorem wc_memory_exact_witness:
  "\<exists>t w h h'. wc_init (\<lambda>_. [NUL]) ''a b a c'' = Some t \<and>
    wc_init_heap (\<lambda>_. [NUL]) ''a b a c'' \<lparr>cells = (\<lambda>_. None), next_free = 0\<rparr> = Some (w, h) \<and>
    wc_output_heap w h = Some (wc_output t) \<and> wc_destroy w h = Some h' \<and> card {a. cells h' a \<noteq> None} = 7"
proof -
  have ws: "word_keys (\<lambda>_. [NUL]) 0 [] ''a b a c'' = [''a'', ''b'', ''a'']"
    by (simp add: isspace_def c_str_def NUL_def)
  have two: "card {''a'', ''b'', ''a''} = 2" by (simp add: insert_commute card_insert_if)
  have "\<forall>i :: nat. NUL \<in> set [NUL]" "0 < length ''a b a c''" "length ''a b a c'' < 2 ^ 30" by simp_all
  from wc_memory_exact [OF this ws [symmetric], of "\<lparr>cells = (\<lambda>_. None), next_free = 0\<rparr>"]
  show ?thesis using two by auto
qed

end
