(* ===== verification/Warmup_Small.thy ===== *)
theory Warmup_Small
  imports C_Strings
begin

text \<open>
  The smallest programs, \<open>hello.c\<close>, \<open>hi.c\<close> and \<open>words.c\<close> of \<open>src/warmup\<close>: the exit status and what they print.
\<close>

section \<open>The programs\<close>

definition newline_char :: char where "newline_char = CHR 0x0A"

definition hello_main :: "int \<times> char list" where
  "hello_main = (0, ''Hello world'' @ [newline_char])"

definition hi_main :: "int \<times> char list" where
  "hi_main = (0, ''So far '' @ ''so good.'' @ [newline_char])"

text \<open>The loop over \<open>argv\<close> from \<open>i\<close> on; \<open>argv\<close> has the program's name first.\<close>

function words_loop :: "char list list \<Rightarrow> nat \<Rightarrow> char list" where
  "words_loop argv i = (if i < length argv then argv ! i @ [newline_char] @ words_loop argv (Suc i) else [])"
  by pat_completeness auto
termination
  by (relation "measure (\<lambda>(argv, i). length argv - i)") auto

declare words_loop.simps [simp del]

definition words_main :: "char list list \<Rightarrow> int \<times> char list" where
  "words_main argv = (0, words_loop argv 1)"

section \<open>Facts\<close>

lemma words_loop_lines: "words_loop argv i = concat (map (\<lambda>a. a @ [newline_char]) (drop i argv))"
proof (induction argv i rule: words_loop.induct)
  case (1 argv i)
  show ?case
  proof (cases "i < length argv")
    case True
    with 1 have "words_loop argv i = argv ! i @ [newline_char] @ concat (map (\<lambda>a. a @ [newline_char]) (drop (Suc i) argv))"
      by (subst words_loop.simps) simp
    then show ?thesis using True by (simp add: Cons_nth_drop_Suc [symmetric])
  next
    case False
    then show ?thesis by (subst words_loop.simps) simp
  qed
qed

lemma line_ends:
  assumes "newline_char \<notin> set a" "newline_char \<notin> set b" "a @ newline_char # x = b @ newline_char # y"
  shows "a = b \<and> x = y"
  using assms by (induction a arbitrary: b) (case_tac b; auto)+

lemma lines_inject:
  assumes "\<forall>a \<in> set xs. newline_char \<notin> set a" "\<forall>b \<in> set ys. newline_char \<notin> set b"
    "concat (map (\<lambda>a. a @ [newline_char]) xs) = concat (map (\<lambda>a. a @ [newline_char]) ys)"
  shows "xs = ys"
  using assms
proof (induction xs arbitrary: ys)
  case Nil
  then show ?case by (cases ys) auto
next
  case (Cons x xs)
  then obtain y ys' where y: "ys = y # ys'" by (cases ys) auto
  with Cons.prems line_ends [of x y "concat (map (\<lambda>a. a @ [newline_char]) xs)" "concat (map (\<lambda>a. a @ [newline_char]) ys')"]
  have "x = y \<and> concat (map (\<lambda>a. a @ [newline_char]) xs) = concat (map (\<lambda>a. a @ [newline_char]) ys')" by simp
  with Cons.IH [of ys'] Cons.prems y show ?case by simp
qed

section \<open>Properties\<close>

text \<open>\<open>words.c\<close> prints each argument on a line of its own, so the arguments can be read back when they have no newlines.\<close>

theorem words_readable:
  assumes "\<forall>a \<in> set as. newline_char \<notin> set a" "\<forall>b \<in> set bs. newline_char \<notin> set b"
    "words_main (p # as) = words_main (q # bs)"
  shows "as = bs"
  using lines_inject [OF assms(1,2)] assms(3) by (simp add: words_main_def words_loop_lines)

text \<open>Two words on two lines.\<close>

theorem words_example:
  "words_main [''words'', ''a'', ''bc''] = (0, ''a'' @ [newline_char] @ ''bc'' @ [newline_char])"
  by (simp add: words_main_def words_loop_lines)

end
