(* ===== verification/Warmup_Cpr.thy ===== *)
theory Warmup_Cpr
  imports C_IO
begin

text \<open>
  The program \<open>src/warmup/cpr.c\<close>, which copies a directory tree: the loop that copies a file, the
  recursion over directories with the permissions set behind it, and the calls that end the
  process. The source tree and what \<open>read\<close> and \<open>write\<close> answer are parameters.
\<close>

section \<open>Copying a file\<close>

text \<open>\<open>rd i\<close> is what call \<open>i\<close> of \<open>read\<close> answers (\<open>Data []\<close> at the end of the file) and \<open>wr i\<close> how many bytes
  the call of \<open>write\<close> after it accepts. When \<open>read\<close> fails the loop goes on with -1 as the count, and
  \<open>write\<close> refuses that.\<close>

partial_function (option) copy_loop :: "(nat \<Rightarrow> read_event) \<Rightarrow> (nat \<Rightarrow> nat) \<Rightarrow> nat \<Rightarrow> char list \<Rightarrow> char list option" where
  "copy_loop rd wr i out =
     (case rd i of
        Data bs \<Rightarrow> if bs = [] then Some out
                  else copy_loop rd wr (Suc i) (out @ take (wr i) bs)
      | Interrupted \<Rightarrow> copy_loop rd wr (Suc i) out
      | Failed \<Rightarrow> copy_loop rd wr (Suc i) out)"

text \<open>A file or directory of the source: its mode, whether it can be opened, and its data or its
  entries in the order of \<open>readdir\<close>. \<open>SOther\<close> is anything else, a FIFO for example.\<close>

datatype source = SFile nat bool "nat \<Rightarrow> read_event" | SDir nat bool "(char list \<times> source) list" | SOther nat

datatype copy = DFile nat "char list" | DDir nat "(char list \<times> copy) list"

definition file_copy_routine :: "(nat \<Rightarrow> nat) \<Rightarrow> (nat \<Rightarrow> read_event) \<Rightarrow> char list option" where
  "file_copy_routine wr rd = copy_loop rd wr 0 []"

section \<open>Copying a tree\<close>

text \<open>The mode of a directory while it is filled, \<open>0700\<close>.\<close>

definition private_mode :: nat where "private_mode = 448"

text \<open>The entries that are copied, and whether the process goes on: it exits at the first file or
  directory that cannot be opened, and then the directories around it keep the private mode.
  \<open>None\<close> is a call that never returns.\<close>

fun dir_recursive :: "(nat \<Rightarrow> nat) \<Rightarrow> (char list \<times> source) list \<Rightarrow> (bool \<times> (char list \<times> copy) list) option" where
  "dir_recursive wr [] = Some (True, [])"
| "dir_recursive wr ((name, SFile mode readable rd) # es) =
     (if name = ''.'' \<or> name = ''..'' then dir_recursive wr es
      else if \<not> readable then Some (False, [])
      else do {
        bs \<leftarrow> file_copy_routine wr rd;
        (on, ds) \<leftarrow> dir_recursive wr es;
        Some (on, (name, DFile mode bs) # ds) })"
| "dir_recursive wr ((name, SDir mode readable sub) # es) =
     (if name = ''.'' \<or> name = ''..'' then dir_recursive wr es
      else if \<not> readable then Some (False, [(name, DDir private_mode [])])
      else do {
        (on, ds) \<leftarrow> dir_recursive wr sub;
        if \<not> on then Some (False, [(name, DDir private_mode ds)])
        else do {
          (on, es) \<leftarrow> dir_recursive wr es;
          Some (on, (name, DDir mode ds) # es) } })"
| "dir_recursive wr ((name, SOther mode) # es) =
     (if name = ''.'' \<or> name = ''..'' then dir_recursive wr es
      else Some (False, [(name, DDir private_mode [])]))"

text \<open>\<open>main\<close>: the exit status and the destination, which must not exist before.\<close>

definition cpr_main :: "(nat \<Rightarrow> nat) \<Rightarrow> source \<Rightarrow> copy option \<Rightarrow> (nat \<times> copy option) option" where
  "cpr_main wr src dst =
     (if dst \<noteq> None then Some (1, dst)
      else (case src of
          SDir mode readable es \<Rightarrow>
            if \<not> readable then Some (1, Some (DDir private_mode []))
            else do {
              (on, ds) \<leftarrow> dir_recursive wr es;
              Some (if on then (0, Some (DDir mode ds)) else (1, Some (DDir private_mode ds))) }
        | _ \<Rightarrow> Some (1, Some (DDir private_mode []))))"

section \<open>The reference: the copy of a tree\<close>

text \<open>A file that \<open>read\<close> delivers in \<open>n\<close> calls, with interruptions, before the end.\<close>

definition file_contents :: "(nat \<Rightarrow> read_event) \<Rightarrow> nat \<Rightarrow> char list" where
  "file_contents rd n = bytes_of (map rd [0..<n])"

definition readable_file :: "(nat \<Rightarrow> read_event) \<Rightarrow> nat \<Rightarrow> bool" where
  "readable_file rd n \<longleftrightarrow> rd n = Data [] \<and> (\<forall>i < n. rd i \<noteq> Data [] \<and> rd i \<noteq> Failed)"

definition writes_all :: "(nat \<Rightarrow> nat) \<Rightarrow> (nat \<Rightarrow> read_event) \<Rightarrow> bool" where
  "writes_all wr rd \<longleftrightarrow> (\<forall>i bs. rd i = Data bs \<longrightarrow> length bs \<le> wr i)"

lemma bytes_of_append: "bytes_of (es @ fs) = bytes_of es @ bytes_of fs"
  by (induction es rule: bytes_of.induct) auto

lemma copy_loop_copies:
  assumes "readable_file rd n" "writes_all wr rd" "k \<le> n"
  shows "copy_loop rd wr (n - k) (file_contents rd (n - k)) = Some (file_contents rd n)"
  using assms(3)
proof (induction k)
  case 0
  then show ?case using assms(1) by (subst copy_loop.simps) (simp add: readable_file_def)
next
  case (Suc k)
  let ?i = "n - Suc k"
  have i: "Suc ?i = n - k" "?i < n" using Suc.prems by auto
  have c: "file_contents rd (n - k) = file_contents rd ?i @ bytes_of [rd ?i]"
    unfolding i(1) [symmetric] file_contents_def by (simp add: bytes_of_append)
  from assms(1) i(2) have ok: "rd ?i \<noteq> Data []" "rd ?i \<noteq> Failed" by (auto simp: readable_file_def)
  show ?case
  proof (cases "rd ?i")
    case (Data bs)
    with assms(2) ok have "bs \<noteq> []" "take (wr ?i) bs = bs" by (auto simp: writes_all_def)
    with Suc Data c i(1) show ?thesis by (subst copy_loop.simps) simp
  next
    case Interrupted
    with Suc c i(1) show ?thesis by (subst copy_loop.simps) simp
  next
    case Failed
    with ok show ?thesis by simp
  qed
qed

text \<open>Whether a tree can be copied completely, and its copy: names, modes and bytes, without the
  entries for the directory itself and its parent.\<close>

inductive copies :: "(nat \<Rightarrow> nat) \<Rightarrow> source \<Rightarrow> copy \<Rightarrow> bool" and
  copies_all :: "(nat \<Rightarrow> nat) \<Rightarrow> (char list \<times> source) list \<Rightarrow> (char list \<times> copy) list \<Rightarrow> bool" for wr
where
  regular: "readable_file rd n \<Longrightarrow> writes_all wr rd \<Longrightarrow> copies wr (SFile mode True rd) (DFile mode (file_contents rd n))"
| dir: "copies_all wr es ds \<Longrightarrow> copies wr (SDir mode True es) (DDir mode ds)"
| none: "copies_all wr [] []"
| skip: "name = ''.'' \<or> name = ''..'' \<Longrightarrow> copies_all wr es ds \<Longrightarrow> copies_all wr ((name, s) # es) ds"
| entry: "name \<noteq> ''.'' \<Longrightarrow> name \<noteq> ''..'' \<Longrightarrow> copies wr s d \<Longrightarrow> copies_all wr es ds \<Longrightarrow>
    copies_all wr ((name, s) # es) ((name, d) # ds)"

lemma dir_recursive_skip:
  "name = ''.'' \<or> name = ''..'' \<Longrightarrow> dir_recursive wr ((name, s) # es) = dir_recursive wr es"
  by (cases s) auto

lemma file_copy_routine_copies:
  "readable_file rd n \<Longrightarrow> writes_all wr rd \<Longrightarrow> file_copy_routine wr rd = Some (file_contents rd n)"
  using copy_loop_copies [of rd n wr n] by (simp add: file_copy_routine_def file_contents_def)

lemma dir_recursive_copies:
  "copies wr s d \<Longrightarrow> name \<noteq> ''.'' \<Longrightarrow> name \<noteq> ''..'' \<Longrightarrow> dir_recursive wr es = Some (True, ds) \<Longrightarrow>
     dir_recursive wr ((name, s) # es) = Some (True, (name, d) # ds)"
  "copies_all wr es' ds' \<Longrightarrow> dir_recursive wr es' = Some (True, ds')"
proof (induction arbitrary: name es ds and rule: copies_copies_all.inducts)
  case (regular rd n mode)
  then show ?case using file_copy_routine_copies [of rd n wr] by simp
next
  case (skip name' es' ds' s)
  then show ?case using dir_recursive_skip by simp
qed auto

section \<open>Properties\<close>

text \<open>C28: \<open>cpr\<close> copies a tree: when every file and directory below the source can be opened, each
  \<open>read\<close> is answered by data or an interruption and each \<open>write\<close> accepts what it is given, the
  destination is the source with its names, permissions and bytes, and the exit status is 0.\<close>

theorem cpr_copies_tree:
  assumes "copies wr (SDir mode readable es) d"
  shows "cpr_main wr (SDir mode readable es) None = Some (0, Some d)"
  using assms
proof cases
  case (dir ds)
  then show ?thesis using dir_recursive_copies(2) by (simp add: cpr_main_def)
qed

theorem cpr_copies_tree_witness:
  "cpr_main (\<lambda>_. 4096)
     (SDir 493 True [(''.'', SDir 493 True []),
        (''d'', SDir 448 True [(''f'', SFile 420 True (\<lambda>i. [Data ''ab'', Interrupted, Data ''c'', Data []] ! min i 3))])]) None =
   Some (0, Some (DDir 493 [(''d'', DDir 448 [(''f'', DFile 420 ''abc'')])]))"
proof -
  let ?rd = "\<lambda>i. [Data ''ab'', Interrupted, Data ''c'', Data []] ! min i 3"
  have m: "min i 3 \<in> {0, 1, 2, 3}" for i :: nat by (auto simp: min_def)
  have "readable_file ?rd 3" by (auto simp: readable_file_def less_Suc_eq eval_nat_numeral)
  moreover have "length bs \<le> 4096" if "?rd i = Data bs" for i bs
    using that m [of i] by (auto split: if_splits)
  ultimately have "copies (\<lambda>_. 4096) (SFile 420 True ?rd) (DFile 420 (file_contents ?rd 3))"
    by (intro regular) (auto simp: writes_all_def)
  moreover have "file_contents ?rd 3 = ''abc''" by (simp add: file_contents_def eval_nat_numeral)
  ultimately have "copies (\<lambda>_. 4096) (SFile 420 True ?rd) (DFile 420 ''abc'')" by simp
  then have "copies (\<lambda>_. 4096) (SDir 493 True [(''.'', SDir 493 True []), (''d'', SDir 448 True [(''f'', SFile 420 True ?rd)])])
      (DDir 493 [(''d'', DDir 448 [(''f'', DFile 420 ''abc'')])])"
    by (intro dir skip entry none) auto
  then show ?thesis by (rule cpr_copies_tree)
qed

lemma copy_loop_returns: "copy_loop rd wr i out = Some r \<Longrightarrow> \<exists>n \<ge> i. rd n = Data []"
proof (erule copy_loop.raw_induct [where P = "\<lambda>rd wr i out r. \<exists>n \<ge> i. rd n = Data []", rotated])
  fix loop :: "(nat \<Rightarrow> read_event) \<Rightarrow> (nat \<Rightarrow> nat) \<Rightarrow> nat \<Rightarrow> char list \<Rightarrow> char list option" and rd wr i out r
  assume IH: "\<And>rd wr i out r. loop rd wr i out = Some r \<Longrightarrow> \<exists>n \<ge> i. rd n = Data []"
    and r: "(case rd i of Data bs \<Rightarrow> if bs = [] then Some out else loop rd wr (Suc i) (out @ take (wr i) bs)
      | Interrupted \<Rightarrow> loop rd wr (Suc i) out | Failed \<Rightarrow> loop rd wr (Suc i) out) = Some r"
  show "\<exists>n \<ge> i. rd n = Data []"
  proof (cases "rd i = Data []")
    case False
    with r obtain out' where "loop rd wr (Suc i) out' = Some r" by (auto split: read_event.splits if_splits)
    with IH show ?thesis using Suc_leD by blast
  qed auto
qed

lemma copy_loop_ends: "rd (i + k) = Data [] \<Longrightarrow> \<exists>r. copy_loop rd wr i out = Some r"
proof (induction k arbitrary: i out)
  case 0
  then show ?case by (subst copy_loop.simps) simp
next
  case (Suc k)
  then have "\<exists>r. copy_loop rd wr (Suc i) o' = Some r" for o' by simp
  then show ?case by (subst copy_loop.simps) (auto split: read_event.split)
qed

text \<open>The loop that copies a file returns exactly when some call of \<open>read\<close> reports the end of
  the file: when \<open>read\<close> keeps failing it runs for ever, because the test of its result is only for 0.\<close>

theorem file_copy_returns_iff:
  "(\<exists>r. file_copy_routine wr rd = Some r) \<longleftrightarrow> (\<exists>n. rd n = Data [])"
proof
  show "\<exists>n. rd n = Data []" if "\<exists>r. file_copy_routine wr rd = Some r"
    using that copy_loop_returns unfolding file_copy_routine_def by blast
  show "\<exists>r. file_copy_routine wr rd = Some r" if "\<exists>n. rd n = Data []"
    using that copy_loop_ends [of rd 0] unfolding file_copy_routine_def by auto
qed

end
