(* ===== verification/Warmup_Fact.thy ===== *)
theory Warmup_Fact
  imports Complex_Main C_Strings
begin

text \<open>
  The program \<open>src/warmup/fact.c\<close>: factorials that fit an \<open>int\<close>. The limit in the code is exact.
\<close>

section \<open>The program\<close>

text \<open>A product that does not fit 32 bits is a fault; a negative argument recurs for ever.\<close>

definition fits_int :: "int \<Rightarrow> bool" where
  "fits_int i \<longleftrightarrow> - (2 ^ 31) \<le> i \<and> i < 2 ^ 31"

partial_function (option) recursive :: "int \<Rightarrow> int option" where
  "recursive number =
     (if number = 1 \<or> number = 0 then Some 1
      else Option.bind (recursive (number - 1)) (\<lambda>r.
        if fits_int (number * r) then Some (number * r) else None))"

text \<open>What \<open>strtod\<close> makes of \<open>argv[1]\<close>: a finite number and the characters it leaves; \<open>None\<close> when the
  argument is missing.\<close>

definition fact_main :: "(rat \<times> char list) option \<Rightarrow> char list option" where
  "fact_main arg = (case arg of None \<Rightarrow> None
     | Some (number, rest) \<Rightarrow>
         if rest \<noteq> [] then Some (''Huh?'' @ [CHR 0x0A])
         else if number - of_int \<lfloor>number\<rfloor> \<noteq> 0 \<or> number \<le> 0 then Some (''Huh?'' @ [CHR 0x0A])
         else if 12 < number then Some (''Overflow'' @ [CHR 0x0A])
         else Option.bind (recursive \<lfloor>number\<rfloor>) (\<lambda>r. Some (print_d r @ [CHR 0x0A])))"

section \<open>Properties\<close>

lemma fact_12: "fact 12 = (479001600 :: nat)" "fact 13 = (6227020800 :: nat)"
  by (simp_all add: fact_numeral)

lemma fact_fits: "(fact n :: nat) < 2 ^ 31 \<longleftrightarrow> n \<le> 12"
proof
  show "n \<le> 12" if "(fact n :: nat) < 2 ^ 31"
  proof (rule ccontr)
    assume "\<not> n \<le> 12"
    then have "(fact 13 :: nat) \<le> fact n" by (intro fact_mono) auto
    with that show False by (simp add: fact_12)
  qed
  show "(fact n :: nat) < 2 ^ 31" if "n \<le> 12"
    using fact_mono [OF that, where ?'a = nat] by (simp add: fact_12)
qed

lemma recursive_fact: "n \<le> 12 \<Longrightarrow> recursive (int n) = Some (int (fact n))"
proof (induction n)
  case 0
  show ?case by (subst recursive.simps) simp
next
  case (Suc n)
  show ?case
  proof (cases "n = 0")
    case True
    then show ?thesis by (subst recursive.simps) simp
  next
    case False
    have "int (fact (Suc n)) = int (Suc n) * int (fact n)" by (simp add: algebra_simps)
    moreover have "(fact (Suc n) :: nat) < 2 ^ 31" using fact_fits [of "Suc n"] Suc.prems by blast
    then have "int (fact (Suc n)) < 2 ^ 31"
      by (metis of_nat_less_iff of_nat_numeral of_nat_power)
    ultimately have "fits_int (int (Suc n) * int (fact n))"
      unfolding fits_int_def by (metis (no_types) le_less_trans neg_le_0_iff_le of_nat_0_le_iff order_trans zero_le_numeral zero_le_power)
    with Suc False \<open>int (fact (Suc n)) = int (Suc n) * int (fact n)\<close> show ?thesis
      by (subst recursive.simps) simp
  qed
qed

text \<open>\<open>fact.c\<close> prints the factorial of every positive integer whose factorial fits an \<open>int\<close>,
  \<open>Overflow\<close> for every other positive integer, and \<open>Huh?\<close> for every other argument; it has no fault
  and returns, and no product overflows.\<close>

theorem fact_main_exact:
  "fact_main (Some (number, rest)) = Some
     ((if rest = [] \<and> (\<exists>n. number = of_nat n \<and> 0 < n)
       then (if (fact (nat \<lfloor>number\<rfloor>) :: nat) < 2 ^ 31 then print_d (int (fact (nat \<lfloor>number\<rfloor>))) else ''Overflow'')
       else ''Huh?'') @ [CHR 0x0A])"
proof (cases "rest = [] \<and> (\<exists>n. number = of_nat n \<and> 0 < n)")
  case True
  then obtain n where n: "rest = []" "number = of_nat n" "0 < n" by blast
  show ?thesis
  proof (cases "n \<le> 12")
    case True
    then have "recursive (int n) = Some (int (fact n))" by (rule recursive_fact)
    moreover have "\<not> 12 < (of_nat n :: rat)" using True by (simp add: not_less) 
    ultimately show ?thesis using n fact_fits [of n] True by (auto simp: fact_main_def)
  next
    case False
    then have "12 < (of_nat n :: rat)" by simp
    then show ?thesis using n fact_fits [of n] False by (auto simp: fact_main_def)
  qed
next
  case False
  show ?thesis
  proof (cases "rest = [] \<and> number = of_int \<lfloor>number\<rfloor> \<and> 0 < number")
    case True
    then have "number = of_nat (nat \<lfloor>number\<rfloor>)" "0 < nat \<lfloor>number\<rfloor>"
      by (metis of_int_0_less_iff of_nat_nat order_less_imp_le of_int_of_nat_eq, metis True of_int_0_less_iff zero_less_nat_eq)
    with True \<open>\<not> (rest = [] \<and> (\<exists>n. number = of_nat n \<and> 0 < n))\<close> show ?thesis by blast
  next
    case huh: False
    then show ?thesis using False by (auto simp: fact_main_def)
  qed
qed

end
