(* ===== verification/Warmup_Point.thy ===== *)
theory Warmup_Point
  imports C_Double
begin

text \<open>
  The points of \<open>src/warmup/point.c\<close>, over rounded arithmetic: \<open>rnd\<close> is the rounding of an operation,
  \<open>sq\<close> is \<open>pow(x, 2)\<close> and \<open>rt\<close> is \<open>sqrt\<close>. Coordinates and results are finite.
\<close>

section \<open>The operations\<close>

record point =
  px :: rat
  py :: rat

definition point_translate :: "(rat \<Rightarrow> rat) \<Rightarrow> rat \<Rightarrow> rat \<Rightarrow> point \<Rightarrow> point" where
  "point_translate rnd x y p = p\<lparr>px := rnd (px p + x), py := rnd (py p + y)\<rparr>"

definition point_distance :: "(rat \<Rightarrow> rat) \<Rightarrow> (rat \<Rightarrow> rat) \<Rightarrow> (rat \<Rightarrow> rat) \<Rightarrow> point \<Rightarrow> point \<Rightarrow> rat" where
  "point_distance rnd sq rt p1 p2 =
     (let x1x2 = rnd (px p1 - px p2); y1y2 = rnd (py p1 - py p2) in rt (rnd (sq x1x2 + sq y1y2)))"

definition point_compare :: "(rat \<Rightarrow> rat) \<Rightarrow> (rat \<Rightarrow> rat) \<Rightarrow> (rat \<Rightarrow> rat) \<Rightarrow> point \<Rightarrow> point \<Rightarrow> int" where
  "point_compare rnd sq rt p1 p2 =
     (let distance1 = rt (rnd (sq (px p1) + sq (py p1))); distance2 = rt (rnd (sq (px p2) + sq (py p2)))
      in if distance1 < distance2 then -1 else if distance1 = distance2 then 0 else 1)"

section \<open>Points with integer coordinates\<close>

definition grid_point :: "int \<Rightarrow> int \<Rightarrow> point" where
  "grid_point x y = \<lparr>px = of_int x, py = of_int y\<rparr>"

definition near :: "int \<Rightarrow> bool" where "near x \<longleftrightarrow> \<bar>x\<bar> \<le> 2 ^ 20"

lemma near_square:
  assumes "near x"
  shows "0 \<le> x * x" "x * x \<le> 2 ^ 40"
proof -
  have "\<bar>x\<bar> * \<bar>x\<bar> \<le> 2 ^ 20 * 2 ^ 20" using assms unfolding near_def by (intro mult_mono) simp_all
  then show "x * x \<le> 2 ^ 40" by simp
qed simp

lemma length_at:
  assumes "rounds rnd" "squares sq" "near x" "near y"
  shows "rnd (sq (of_int x) + sq (of_int y)) = of_int (x * x + y * y)"
proof -
  note X = near_square [OF assms(3)] and Y = near_square [OF assms(4)]
  have "sq (of_int x) = of_int (x * x)" "sq (of_int y) = of_int (y * y)"
    using assms(2) X Y by (simp_all add: squares_def)
  moreover have "rnd (of_int (x * x + y * y)) = of_int (x * x + y * y)"
    using X Y by (intro rounds_int [OF assms(1)]) simp
  ultimately show ?thesis by (simp only: of_int_add)
qed

lemma root_compare:
  assumes "roots rt" "0 \<le> n" "0 \<le> m" "n \<le> 2 ^ 41" "m \<le> 2 ^ 41"
  shows "(rt (of_int n) < rt (of_int m) \<longleftrightarrow> n < m) \<and> (rt (of_int n) = rt (of_int m) \<longleftrightarrow> n = m)"
  using root_less [OF assms(1,2), of m] root_less [OF assms(1,3), of n] assms(4,5) by (metis less_asym linorder_neqE)

section \<open>Properties\<close>

text \<open>\<open>point_compare\<close> is exact on points with integer coordinates up to \<open>2 ^ 20\<close>: it returns the sign of the
  difference of the squared lengths, although it compares rounded roots; in particular it agrees with
  the order of the true lengths.\<close>

theorem point_compare_exact:
  assumes "rounds rnd" "squares sq" "roots rt" "near x1" "near y1" "near x2" "near y2"
  shows "point_compare rnd sq rt (grid_point x1 y1) (grid_point x2 y2) = sgn ((x1 * x1 + y1 * y1) - (x2 * x2 + y2 * y2))"
proof -
  let ?n = "x1 * x1 + y1 * y1" and ?m = "x2 * x2 + y2 * y2"
  have "0 \<le> ?n" "0 \<le> ?m" "?n \<le> 2 ^ 41" "?m \<le> 2 ^ 41"
    using near_square [OF assms(4)] near_square [OF assms(5)] near_square [OF assms(6)] near_square [OF assms(7)] by simp_all
  note R = root_compare [OF assms(3) this]
  have "point_compare rnd sq rt (grid_point x1 y1) (grid_point x2 y2) =
      (if rt (of_int ?n) < rt (of_int ?m) then -1 else if rt (of_int ?n) = rt (of_int ?m) then 0 else 1)"
    using length_at [OF assms(1,2,4,5)] length_at [OF assms(1,2,6,7)] by (simp add: point_compare_def grid_point_def)
  then show ?thesis using R by (auto simp: sgn_if)
qed

theorem point_compare_exact_witness:
  "point_compare (\<lambda>x. x) (\<lambda>x. x * x) root_down (grid_point 3 4) (grid_point 5 0) = 0 \<and>
   point_compare (\<lambda>x. x) (\<lambda>x. x * x) root_down (grid_point 1000 1) (grid_point 1000 0) = 1"
proof -
  have "squares (\<lambda>x. x * x)" by (simp add: squares_def)
  note P = point_compare_exact [OF rounds_exact this roots_down]
  show ?thesis using P [of 3 4 5 0] P [of 1000 1 1000 0] by (simp add: near_def)
qed

end
