(* ===== verification/Pipe.thy ===== *)
theory Pipe
  imports Prelude
begin

text \<open>
  The program \<open>src/pipe/pipe.c\<close>, which runs its arguments as a pipeline: the descriptors that its processes hold, the recursion
  over the commands, the exit status it puts together, and its equivalence with the composition of the commands. The
  commands are parameters, and so is how a command ends that still writes when its reader has ended. \<open>fork\<close> succeeds. The
  parent does nothing that depends on a child before it waits for it, and what a child writes depends only on what it reads,
  so the model lets each child run when it is forked and settles at \<open>waitpid\<close> how it ended.
\<close>

section \<open>Descriptors\<close>

text \<open>What a descriptor stands for: the standard input and output of the program, and the ends of the pipes.\<close>

datatype endpoint = Keyboard | Screen | ReadEnd nat | WriteEnd nat

type_synonym fds = "nat \<Rightarrow> endpoint option"

definition OPEN_MAX :: nat where "OPEN_MAX = 1024"

definition unused :: "fds \<Rightarrow> nat option" where
  "unused fds = List.find (\<lambda>n. fds n = None) [0..<OPEN_MAX]"

text \<open>\<open>pipe\<close> takes the lowest two unused descriptors, for the pipe with the number \<open>p\<close>. \<open>close\<close> and \<open>dup2\<close> of a descriptor that is
  not open do nothing.\<close>

definition sys_pipe :: "nat \<Rightarrow> fds \<Rightarrow> ((nat \<times> nat) \<times> fds) option" where
  "sys_pipe p fds = do {
     r \<leftarrow> unused fds;
     let fds = fds(r \<mapsto> ReadEnd p);
     w \<leftarrow> unused fds;
     Some ((r, w), fds(w \<mapsto> WriteEnd p)) }"

definition sys_close :: "nat \<Rightarrow> fds \<Rightarrow> fds" where
  "sys_close n fds = fds(n := None)"

definition sys_dup2 :: "nat \<Rightarrow> nat \<Rightarrow> fds \<Rightarrow> fds" where
  "sys_dup2 old new fds = (case fds old of None \<Rightarrow> fds | Some e \<Rightarrow> fds(new \<mapsto> e))"

section \<open>Processes\<close>

text \<open>How a process ends, as \<open>waitpid\<close> reports it, and what \<open>WEXITSTATUS\<close> reads from that: 0 for a
  process that a signal ended.\<close>

datatype status = Exited nat | Signaled nat

definition WEXITSTATUS :: "status \<Rightarrow> nat" where
  "WEXITSTATUS s = (case s of Exited n \<Rightarrow> n mod 256 | Signaled n \<Rightarrow> 0)"

text \<open>A command reads from descriptor 0 and writes to descriptor 1: how many bytes of its input it reads, what it writes, and how it
  ends if nobody stops it. A command that \<open>execlp\<close> cannot start leaves an \<open>errno\<close>.\<close>

type_synonym program = "char list \<Rightarrow> nat \<times> char list \<times> status"

datatype command = Runs program | Missing nat

text \<open>\<open>error_checking\<close>: whether the process exits, and with which code.\<close>

definition error_checking :: "int \<Rightarrow> nat \<Rightarrow> nat option" where
  "error_checking returned_value errno = (if returned_value = -1 then Some errno else None)"

text \<open>\<open>execlp\<close> only returns when it fails, with -1. The diagnostics go to the standard error output.\<close>

definition exec_command :: "command \<Rightarrow> char list \<Rightarrow> nat \<times> char list \<times> status" where
  "exec_command c inp = (case c of
     Runs p \<Rightarrow> p inp
   | Missing errno \<Rightarrow> (0, [], Exited (case error_checking (-1) errno of Some code \<Rightarrow> code | None \<Rightarrow> 0)))"

text \<open>What all processes share: the input of the program, its output, the bytes that went into each pipe, how many of them were
  read, and the number of the next pipe.\<close>

record system =
  keyboard :: "char list"
  screen :: "char list"
  piped :: "nat \<Rightarrow> char list"
  read_from :: "nat \<Rightarrow> nat"
  next_pipe :: nat

text \<open>A child that was forked: its descriptors, what it reads and writes, how it ends if nobody stops it.\<close>

record child_proc =
  child_fds :: fds
  child_reads :: nat
  child_out :: "char list"
  child_end :: status

text \<open>The input of a process up to its end. Nothing says that a pipe has ended while the reader itself or the parent has its
  write end open; then the reader waits for ever.\<close>

definition read_all :: "fds \<Rightarrow> fds \<Rightarrow> system \<Rightarrow> char list option" where
  "read_all fds parent s =
     (case fds 0 of
        Some Keyboard \<Rightarrow> Some (keyboard s)
      | Some (ReadEnd p) \<Rightarrow> if WriteEnd p \<in> ran fds \<union> ran parent then None else Some (piped s p)
      | _ \<Rightarrow> Some [])"

definition write_all :: "fds \<Rightarrow> char list \<Rightarrow> system \<Rightarrow> system" where
  "write_all fds out s =
     (case fds 1 of
        Some Screen \<Rightarrow> s\<lparr>screen := screen s @ out\<rparr>
      | Some (WriteEnd p) \<Rightarrow> s\<lparr>piped := (piped s)(p := piped s p @ out)\<rparr>
      | _ \<Rightarrow> s)"

text \<open>The child between \<open>fork\<close> and \<open>execlp\<close>: \<open>follows\<close> says whether another command follows, \<open>fds\<close> are the descriptors it inherits.\<close>

definition child_setup :: "bool \<Rightarrow> nat \<Rightarrow> nat \<times> nat \<Rightarrow> fds \<Rightarrow> fds" where
  "child_setup follows in_pipe_fd fd fds =
     (let fds = sys_close (fst fd) fds;
          fds = sys_dup2 in_pipe_fd 0 fds
      in if follows then sys_dup2 (snd fd) 1 fds else fds)"

text \<open>The child until its command ends; \<open>parent\<close> are the descriptors that the parent keeps.\<close>

definition child :: "command \<Rightarrow> bool \<Rightarrow> nat \<Rightarrow> nat \<times> nat \<Rightarrow> fds \<Rightarrow> fds \<Rightarrow> system \<Rightarrow> (child_proc \<times> system) option" where
  "child c follows in_pipe_fd fd fds parent s = do {
     let fds = child_setup follows in_pipe_fd fd fds;
     inp \<leftarrow> read_all fds parent s;
     let (n, out, st) = exec_command c inp;
     Some (\<lparr>child_fds = fds, child_reads = n, child_out = out, child_end = st\<rparr>, write_all fds out s) }"

text \<open>\<open>waitpid\<close>. A child whose reader has ended without reading everything may have written it all into the pipe's buffer, or it is
  stopped, as \<open>broken\<close> says: how many bytes it has read by then, and how it ends (by SIGPIPE, unless it handles it). If it or
  the parent still has the read end open, it is not stopped, but waits for ever.\<close>

definition wait_child :: "(nat \<Rightarrow> (nat \<times> status) option) \<Rightarrow> child_proc \<Rightarrow> fds \<Rightarrow> system \<Rightarrow> (status \<times> system) option" where
  "wait_child broken c parent s = do {
     (n, st) \<leftarrow> (case child_fds c 1 of
         Some (WriteEnd p) \<Rightarrow>
           (case (if read_from s p < length (child_out c) then broken p else None) of
              None \<Rightarrow> Some (child_reads c, child_end c)
            | Some stopped \<Rightarrow> if ReadEnd p \<in> ran (child_fds c) \<union> ran parent then None else Some stopped)
       | _ \<Rightarrow> Some (child_reads c, child_end c));
     Some (st, case child_fds c 0 of Some (ReadEnd q) \<Rightarrow> s\<lparr>read_from := (read_from s)(q := n)\<rparr> | _ \<Rightarrow> s) }"

section \<open>The recursion\<close>

text \<open>The commands from the current index on, at least one. None is a program that waits for ever, or a \<open>pipe\<close> without descriptors.\<close>

fun recur_pipe_call ::
  "(nat \<Rightarrow> (nat \<times> status) option) \<Rightarrow> command list \<Rightarrow> nat \<Rightarrow> fds \<Rightarrow> system \<Rightarrow>
    (nat \<times> fds \<times> system) option"
where
  "recur_pipe_call broken [] in_pipe_fd fds s = Some (0, fds, s)"
| "recur_pipe_call broken (c # cs) in_pipe_fd fds s = do {
     (fd, fds) \<leftarrow> sys_pipe (next_pipe s) fds;
     let s = s\<lparr>next_pipe := Suc (next_pipe s)\<rparr>;
     let parent = sys_close (snd fd) (sys_close in_pipe_fd fds);
     (pid, s) \<leftarrow> child c (cs \<noteq> []) in_pipe_fd fd fds parent s;
     if cs = [] then do {
       (wait_status, s) \<leftarrow> wait_child broken pid parent s;
       Some (WEXITSTATUS wait_status, parent, s) }
     else do {
       (exit_code, parent, s) \<leftarrow> recur_pipe_call broken cs (fst fd) parent s;
       (wait_status, s) \<leftarrow> wait_child broken pid parent s;
       let child_exit_code = WEXITSTATUS wait_status;
       Some (if exit_code = 0 \<and> child_exit_code \<noteq> 0 then child_exit_code
             else if exit_code \<noteq> 0 \<and> child_exit_code = 0 then exit_code
             else if exit_code = 0 \<and> child_exit_code = 0 then 0
             else child_exit_code, parent, s) } }"

definition EINVAL :: nat where "EINVAL = 22"

text \<open>\<open>main\<close>, with the commands after the program's name: the exit status and the output.\<close>

definition pipe_main :: "(nat \<Rightarrow> (nat \<times> status) option) \<Rightarrow> command list \<Rightarrow> char list \<Rightarrow> (nat \<times> char list) option" where
  "pipe_main broken cmds inp =
     (if cmds = [] then Some (EINVAL, ''Not enough argumentss'')
      else do {
        (exit_code, _, s) \<leftarrow> recur_pipe_call broken cmds 0 [0 \<mapsto> Keyboard, 1 \<mapsto> Screen, 2 \<mapsto> Screen]
          \<lparr>keyboard = inp, screen = [], piped = (\<lambda>_. []), read_from = (\<lambda>_. 0), next_pipe = 0\<rparr>;
        Some (exit_code mod 256, screen s) })"

section \<open>The reference: the composition of the commands\<close>

text \<open>The output of the pipeline.\<close>

definition composed :: "command list \<Rightarrow> char list \<Rightarrow> char list" where
  "composed cs inp = foldl (\<lambda>mid c. fst (snd (exec_command c mid))) inp cs"

text \<open>How many bytes of its input a pipeline reads, and how its commands end; \<open>k\<close> is the number of the first one's pipe.\<close>

fun ends :: "(nat \<Rightarrow> (nat \<times> status) option) \<Rightarrow> nat \<Rightarrow> command list \<Rightarrow> char list \<Rightarrow> nat \<times> status list" where
  "ends broken k [] inp = (length inp, [])"
| "ends broken k (c # cs) inp =
     (let (n, mid, st) = exec_command c inp;
          (m, sts) = ends broken (Suc k) cs mid;
          (n, st) = (case (if m < length mid then broken k else None) of None \<Rightarrow> (n, st) | Some stopped \<Rightarrow> stopped)
      in (n, st # sts))"

definition first_failure :: "status list \<Rightarrow> nat" where
  "first_failure ss = (case filter (\<lambda>n. n \<noteq> 0) (map WEXITSTATUS ss) of [] \<Rightarrow> 0 | n # _ \<Rightarrow> n)"

lemma first_failure_simps [simp]:
  "first_failure [] = 0"
  "first_failure (s # ss) = (if WEXITSTATUS s \<noteq> 0 then WEXITSTATUS s else first_failure ss)"
  by (simp_all add: first_failure_def)

lemma WEXITSTATUS_less: "WEXITSTATUS s < 256"
  by (simp add: WEXITSTATUS_def split: status.split)

lemma first_failure_less: "first_failure ss < 256"
  by (induction ss) (simp_all add: WEXITSTATUS_less)

lemma first_failure_0: "first_failure ss = 0 \<longleftrightarrow> (\<forall>s \<in> set ss. WEXITSTATUS s = 0)"
  by (induction ss) auto

section \<open>The descriptors of the parent\<close>

text \<open>Between two calls the parent has four descriptors: its own output and error output, and the input of the next command, which
  is descriptor 0 or 3.\<close>

definition parent_fds :: "nat \<Rightarrow> endpoint \<Rightarrow> fds" where
  "parent_fds i src = [1 \<mapsto> Screen, 2 \<mapsto> Screen, i \<mapsto> src]"

lemma unused_is:
  assumes "fds n = None" "\<forall>m < n. fds m \<noteq> None" "n < OPEN_MAX"
  shows "unused fds = Some n"
  using assms by (auto simp: unused_def find_Some_iff)


lemma pipe_in_parent:
  assumes "i = 0 \<or> i = 3"
  shows "sys_pipe p (parent_fds i src) = Some ((3 - i, 4), (parent_fds i src)(3 - i \<mapsto> ReadEnd p, 4 \<mapsto> WriteEnd p))"
    "sys_close 4 (sys_close i ((parent_fds i src)(3 - i \<mapsto> ReadEnd p, 4 \<mapsto> WriteEnd p))) = parent_fds (3 - i) (ReadEnd p)"
proof -
  have "unused (parent_fds i src) = Some (3 - i)" using assms
    by (intro unused_is) (auto simp: parent_fds_def OPEN_MAX_def less_Suc_eq numeral_3_eq_3)
  moreover have "unused ((parent_fds i src)(3 - i \<mapsto> ReadEnd p)) = Some 4" using assms
    by (intro unused_is) (auto simp: parent_fds_def OPEN_MAX_def less_Suc_eq numeral_3_eq_3 eval_nat_numeral)
  ultimately show "sys_pipe p (parent_fds i src) = Some ((3 - i, 4), (parent_fds i src)(3 - i \<mapsto> ReadEnd p, 4 \<mapsto> WriteEnd p))"
    by (simp add: sys_pipe_def)
  show "sys_close 4 (sys_close i ((parent_fds i src)(3 - i \<mapsto> ReadEnd p, 4 \<mapsto> WriteEnd p))) = parent_fds (3 - i) (ReadEnd p)"
    using assms by (auto simp: sys_close_def parent_fds_def fun_eq_iff)
qed

text \<open>Where a command's input comes from, when the next pipe is \<open>p\<close>.\<close>

definition source :: "nat \<Rightarrow> endpoint \<Rightarrow> bool" where
  "source p src \<longleftrightarrow> (case src of Keyboard \<Rightarrow> True | ReadEnd q \<Rightarrow> q < p | _ \<Rightarrow> False)"

definition content :: "endpoint \<Rightarrow> system \<Rightarrow> char list" where
  "content src s = (case src of ReadEnd q \<Rightarrow> piped s q | _ \<Rightarrow> keyboard s)"

text \<open>The descriptors of the child.\<close>

definition child_table :: "bool \<Rightarrow> nat \<Rightarrow> nat \<Rightarrow> endpoint \<Rightarrow> fds" where
  "child_table follows i p src =
     child_setup follows i (3 - i, 4) ((parent_fds i src)(3 - i \<mapsto> ReadEnd p, 4 \<mapsto> WriteEnd p))"

lemma child_table_ends:
  assumes "i = 0 \<or> i = 3" "source p src"
  shows "child_table follows i p src 0 = Some src"
    "child_table follows i p src 1 = Some (if follows then WriteEnd p else Screen)"
    "ReadEnd p \<notin> ran (child_table follows i p src)"
    "src = ReadEnd q \<Longrightarrow> WriteEnd q \<notin> ran (child_table follows i p src)"
  using assms
  by (auto simp: child_table_def child_setup_def sys_dup2_def sys_close_def parent_fds_def source_def Let_def ran_def split: if_splits option.splits)

lemma child_run:
  assumes "i = 0 \<or> i = 3" "source p src" "exec_command c (content src s) = (n, out, st)"
  shows "child c follows i (3 - i, 4) ((parent_fds i src)(3 - i \<mapsto> ReadEnd p, 4 \<mapsto> WriteEnd p)) (parent_fds (3 - i) (ReadEnd p)) s =
    Some (\<lparr>child_fds = child_table follows i p src, child_reads = n, child_out = out, child_end = st\<rparr>,
      if follows then s\<lparr>piped := (piped s)(p := piped s p @ out)\<rparr> else s\<lparr>screen := screen s @ out\<rparr>)"
proof -
  note T = child_table_ends [where follows = follows, OF assms(1,2)]
  have "WriteEnd q \<notin> ran (parent_fds j (ReadEnd p))" for q j by (auto simp: parent_fds_def ran_def split: if_splits)
  then have "read_all (child_table follows i p src) (parent_fds (3 - i) (ReadEnd p)) s = Some (content src s)"
    using T(1,4) assms(2) by (auto simp: read_all_def content_def source_def split: endpoint.splits)
  then show ?thesis using T(2) assms(3)
    by (simp add: child_def write_all_def child_table_def [symmetric])
qed


lemma child_waited:
  assumes "i = 0 \<or> i = 3" "source p src" "follows \<Longrightarrow> ReadEnd p \<notin> ran parent"
    "(n', st') = (case (if follows \<and> read_from s p < length out then broken p else None) of None \<Rightarrow> (n, st) | Some stopped \<Rightarrow> stopped)"
  shows "wait_child broken \<lparr>child_fds = child_table follows i p src, child_reads = n, child_out = out, child_end = st\<rparr> parent s =
    Some (st', case src of ReadEnd q \<Rightarrow> s\<lparr>read_from := (read_from s)(q := n')\<rparr> | _ \<Rightarrow> s)"
proof -
  note T = child_table_ends [where follows = follows, OF assms(1,2)]
  have "(case child_table follows i p src 0 of Some (ReadEnd q) \<Rightarrow> s\<lparr>read_from := (read_from s)(q := n')\<rparr> | _ \<Rightarrow> s) =
      (case src of ReadEnd q \<Rightarrow> s\<lparr>read_from := (read_from s)(q := n')\<rparr> | _ \<Rightarrow> s)" using T(1) by simp
  then show ?thesis using T(2,3) assms(3,4)
    by (cases "follows \<and> read_from s p < length out"; cases "broken p") (auto simp: wait_child_def split: if_splits)
qed

lemma recur_spec:
  assumes "cs \<noteq> []" "i = 0 \<or> i = 3" "source (next_pipe s) src" "\<forall>q \<ge> next_pipe s. piped s q = []"
    "ends broken (next_pipe s) cs (content src s) = (m, ss)"
  shows "\<exists>fds s'. recur_pipe_call broken cs i (parent_fds i src) s = Some (first_failure ss, fds, s') \<and>
    screen s' = screen s @ composed cs (content src s) \<and> (\<forall>q. src = ReadEnd q \<longrightarrow> read_from s' q = m) \<and>
    (\<forall>q < next_pipe s. ReadEnd q \<notin> ran fds)"
  using assms
proof (induction cs arbitrary: i src s m ss)
  case (Cons c cs)
  let ?p = "next_pipe s" and ?s1 = "s\<lparr>next_pipe := Suc (next_pipe s)\<rparr>"
  let ?parent = "parent_fds (3 - i) (ReadEnd ?p)"
  obtain n mid st where e: "exec_command c (content src s) = (n, mid, st)" by (metis prod_cases3)
  have e1: "exec_command c (content src ?s1) = (n, mid, st)" using e by (simp add: content_def split: endpoint.splits)
  obtain m' ss' where r: "ends broken (Suc ?p) cs mid = (m', ss')" by fastforce
  obtain n' st' where
    w: "(n', st') = (case (if m' < length mid then broken ?p else None) of None \<Rightarrow> (n, st) | Some stopped \<Rightarrow> stopped)" by (metis surj_pair)
  have ss: "ss = st' # ss'" "m = n'" using Cons.prems(5) e r w by (auto split: prod.splits)
  note P = pipe_in_parent [OF Cons.prems(2)]
  note C = child_run [where follows = "cs \<noteq> []", OF Cons.prems(2,3) e1]
  have no: "ReadEnd q \<notin> ran ?parent" if "q < ?p" for q using that by (auto simp: parent_fds_def ran_def split: if_splits)
  show ?case
  proof (cases "cs = []")
    case True
    with r have last: "m' = length mid" "ss' = []" by auto
    let ?s2 = "?s1\<lparr>screen := screen s @ mid\<rparr>"
    from last w have "(n', st') = (case (if (cs \<noteq> []) \<and> read_from ?s2 ?p < length mid then broken ?p else None) of
        None \<Rightarrow> (n, st) | Some stopped \<Rightarrow> stopped)" using True by simp
    note W = child_waited [where follows = "cs \<noteq> []" and s = ?s2 and out = mid and broken = broken and parent = ?parent,
        OF Cons.prems(2,3) _ this]
    show ?thesis using P C W True e ss last no by (auto simp: composed_def split: endpoint.splits)
  next
    case False
    let ?s2 = "?s1\<lparr>piped := (piped s)(?p := piped s ?p @ mid)\<rparr>"
    have mid: "content (ReadEnd ?p) ?s2 = mid" using Cons.prems(4) by (simp add: content_def)
    have i': "3 - i = 0 \<or> 3 - i = 3" using Cons.prems(2) by auto
    have "\<forall>q \<ge> next_pipe ?s2. piped ?s2 q = []" using Cons.prems(4) by simp
    moreover have "source (next_pipe ?s2) (ReadEnd ?p)" by (simp add: source_def)
    moreover have "ends broken (next_pipe ?s2) cs (content (ReadEnd ?p) ?s2) = (m', ss')" using r mid by simp
    ultimately obtain fds s3 where
      I: "recur_pipe_call broken cs (3 - i) ?parent ?s2 = Some (first_failure ss', fds, s3)"
        "screen s3 = screen s @ composed cs mid" "read_from s3 ?p = m'" "\<forall>q < Suc ?p. ReadEnd q \<notin> ran fds"
      using Cons.IH [OF False i', of ?s2 "ReadEnd ?p" m' ss'] mid by auto
    from w I(3) have "(n', st') = (case (if (cs \<noteq> []) \<and> read_from s3 ?p < length mid then broken ?p else None) of
        None \<Rightarrow> (n, st) | Some stopped \<Rightarrow> stopped)" using False by simp
    note W = child_waited [where follows = "cs \<noteq> []" and s = s3 and out = mid and broken = broken and parent = fds,
        OF Cons.prems(2,3) _ this]
    have "composed (c # cs) (content src s) = composed cs mid" using e by (simp add: composed_def)
    then show ?thesis using P C W I False ss by (auto split: endpoint.splits)
  qed
qed simp

section \<open>Properties\<close>

text \<open>C34: Whatever the commands do with their input, and however a command ends whose reader has stopped reading: the program never waits for ever
  and never runs out of descriptors, however many commands there are; its output is the composition of the commands; and its
  exit status is the \<open>WEXITSTATUS\<close> of the first command for which that is not 0, so 0 exactly if it is 0 for all of them. A
  command that a signal ended, a broken pipe included, has the \<open>WEXITSTATUS\<close> 0 and counts as a success. Every command gets the
  bytes of the one before and then the end of the input, which depends on every \<open>close\<close> and \<open>dup2\<close>. \<open>fork\<close> succeeds.\<close>

theorem pipeline_composes:
  assumes "cmds \<noteq> []" "ends broken 0 cmds inp = (m, ss)"
  shows "pipe_main broken cmds inp = Some (first_failure ss, composed cmds inp) \<and>
    (first_failure ss = 0 \<longleftrightarrow> (\<forall>s \<in> set ss. WEXITSTATUS s = 0))"
proof -
  let ?s = "\<lparr>keyboard = inp, screen = [], piped = (\<lambda>_. []), read_from = (\<lambda>_. 0), next_pipe = 0\<rparr>"
  have f: "[0 \<mapsto> Keyboard, 1 \<mapsto> Screen, 2 \<mapsto> Screen] = parent_fds 0 Keyboard" by (auto simp: parent_fds_def)
  have "ends broken (next_pipe ?s) cmds (content Keyboard ?s) = (m, ss)" using assms(2) by (simp add: content_def)
  from recur_spec [OF assms(1) _ _ _ this, of 0] obtain fds s' where
    "recur_pipe_call broken cmds 0 (parent_fds 0 Keyboard) ?s = Some (first_failure ss, fds, s')" "screen s' = composed cmds inp"
    by (auto simp: source_def content_def)
  then show ?thesis using f assms(1) first_failure_less [of ss] by (simp add: pipe_main_def first_failure_0)
qed

text \<open>The third command does not exist, so the second is stopped by a signal and only the exit status 2 of the third is left.\<close>

theorem pipeline_composes_witness:
  "pipe_main (\<lambda>p. Some (0, Signaled 13)) [Runs (\<lambda>s. (length s, rev s, Exited 0)), Runs (\<lambda>s. (length s, s @ ''x'', Exited 1)), Missing 2] ''ab'' =
    Some (2, [])"
proof -
  have "ends (\<lambda>p. Some (0, Signaled 13)) 0 [Runs (\<lambda>s. (length s, rev s, Exited 0)), Runs (\<lambda>s. (length s, s @ ''x'', Exited 1)), Missing 2] ''ab'' =
    (0, [Signaled 13, Signaled 13, Exited 2])" by (simp add: exec_command_def error_checking_def)
  from pipeline_composes [OF _ this] show ?thesis
    by (simp add: first_failure_def WEXITSTATUS_def composed_def exec_command_def error_checking_def)
qed

end
