(* ===== verification/Spec2Isabelle.thy ===== *)
theory Spec2Isabelle
  imports Kernel_Wait Kernel_Race Kernel_Codes Kernel_Locks Kernel_Fair Thread_Demos Web_Simple Web_Memory Web_Errors Web_Lru Warmup_WcHeap Warmup_Small Warmup_Cpr Warmup_Fact Warmup_Point Pipe
begin

text \<open>
  A development about the C programs of an operating systems course: a preemptive user-level
  thread library (\<open>src/threads\<close>), a multi-threaded web server with a file cache and its client
  (\<open>src/webserver\<close>), a pipeline of commands (\<open>src/pipe\<close>) and small programs (\<open>src/warmup\<close>).

  \<^bold>\<open>How C is read.\<close> A function of the code is a HOL function that passes the state
  explicitly. In the thread library, the ring, the cache's table and the lists in memory the result \<open>None\<close>
  is undefined behaviour, a failed assertion, or a loop that does not end; a theorem that a call
  yields \<open>Some\<close> excludes all of them. In the request code (\<open>Web_Request\<close> and what builds on it)
  the outcomes are told apart: \<open>Some Fault\<close> is an invalid access, an overflow of a buffer or a
  failed assertion, \<open>Some Exits\<close> is \<open>exit(1)\<close>, \<open>Some (Done x)\<close> is the return of \<open>x\<close>, and \<open>None\<close>
  is a call that never returns, given by \<open>partial_function (option)\<close>. Pointers are optional addresses,
  NULL is \<open>None\<close>. An \<open>int\<close> that may overflow is wrapped by \<open>s32\<close>, unsigned values are words of 32 or
  64 bits, \<open>char\<close> is signed. What the operating system or the C library decides is an argument:
  the answers of \<open>malloc\<close>, \<open>read\<close> and \<open>write\<close> (lists of events: data in chunks of any size, signals,
  failures), the contents of uninitialised memory and of the bytes behind a buffer (\<open>mem\<close>), the files
  on the disk, random numbers, what \<open>strtod\<close> converts, what the commands of a pipeline do.

  \<^bold>\<open>The thread library\<close> (\<open>src/threads/thread.c\<close>, \<open>thread.h\<close>, \<open>interrupt.c\<close>).
  \<^item> \<open>Thread_Defs\<close>: constants and states. \<open>Thread_Queue\<close>: \<open>enqueue\<close>, \<open>dequeue_element\<close>,
    \<open>dequeue_element_from_head\<close>, \<open>wait_queue_create\<close> and \<open>wait_queue_destroy\<close> on linked cells in
    memory. The locale \<open>wait_queue_store\<close> states what a client may rely on; it is interpreted on this
    pointer code and again on the queues of the kernel model, which are lists of identifiers. So the
    kernel proofs rest on the contract that the pointer code is shown to meet.
  \<^item> \<open>Kernel_State\<close>: the record \<open>kernel\<close> with the thread table, queues, locks, condition variables,
    the current thread, the interrupt flag and the allocated stacks. \<open>Kernel_Ops\<close>: the functions that do
    not switch. \<open>Kernel_Machine\<close>: the functions that may switch. A saved \<open>ucontext\<close> is the stack of
    suspended C functions (\<open>frame\<close>), so \<open>getcontext\<close> that returns twice is two resumptions of
    that stack. \<open>step\<close> lets the running thread continue, the program make any call of the
    interface, and the timer interrupt wherever interrupts are enabled.
  \<^item> \<open>Kernel_Invariant\<close>, \<open>Kernel_Switch\<close>, \<open>Kernel_Changes\<close> and \<open>Kernel_Control\<close>: the invariant and its
    preservation by every step. \<open>Kernel_Theorems\<close>: queue discipline, exact thread count, stacks never
    shared or used after \<open>free\<close>, the switch, exit and killing. \<open>Kernel_Calls\<close>, \<open>Kernel_Sync\<close>,
    \<open>Kernel_Wait\<close>: each call of the interface on every branch, locks and condition variables,
    \<open>thread_wait\<close>, and the interrupts on return. \<open>Kernel_Frames\<close>: what the queue operations and the switch leave
    alone, proved once in the locale \<open>kernel_part\<close> for a part of the kernel and used for the locks and for the exit codes.
    \<open>Kernel_Codes\<close>: where exit codes come from and who takes them away. \<open>Kernel_Race\<close>: which calls that switch can
    fault; only \<open>thread_sleep\<close> on a queue that has been freed does, and \<open>thread_wait\<close> can get there, because it reads
    the queue of its target before it disables interrupts. \<open>Kernel_Fair\<close>: what a step does to the ready queue, and
    that a ready thread waits for a bounded number of calls of \<open>thread_yield(THREAD_ANY)\<close>. \<open>Kernel_Locks\<close>:
    interrupts stay off between the test of a lock's flag and the sleep, so no wakeup of a lock is lost.
  \<^item> In the steps of \<open>Kernel_Machine\<close> a stretch of C without a call that may switch is one step. This is what the code does
    where interrupts are off. It is coarser than the code in \<open>cv_signal\<close> and \<open>cv_broadcast\<close>, whose test of the lock runs with interrupts
    on, and in the checks at the start of \<open>thread_wait\<close>. For \<open>thread_wait\<close> the moment between reading the
    queue and the sleep is a state of the model, and \<open>Kernel_Race\<close> shows what can happen there.
  \<^item> \<open>Thread_Interrupts\<close>: the signal mask behind the interrupt flag, which it refines, the one-shot timer,
    which never stops for good, and \<open>spin\<close>. \<open>Thread_Demos\<close>: \<open>show_handler.c\<close>, whose assertions hold whenever the
    timer expires, and \<open>show_ucontext.c\<close> with its reader of \<open>/proc\<close>, where the flag that stops it must be volatile.

  \<^bold>\<open>The web server\<close> (\<open>src/webserver\<close>).
  \<^item> \<open>Web_Buffer\<close>: the ring \<open>conn_buf\<close> of \<open>server_thread.c\<close> as an implementation of the locale of a bounded
    queue. \<open>Web_Server\<close>: the monitor around it. A step is what a thread does while it
    holds the mutex, so all interleavings of the main thread and the workers are covered: order,
    no lost wakeup, draining at exit. The indices of the ring are integers without a bound, as if \<open>max_requests\<close> is far below
    \<open>INT_MAX\<close>.
  \<^item> \<open>C_Strings\<close>, \<open>C_IO\<close>: the C library on strings and numbers, and the events of \<open>read\<close> and \<open>write\<close>.
    \<open>Web_Rio\<close>: the robust I/O of \<open>common.c\<close>, which hides the chunks.
  \<^item> \<open>Web_Cache\<close>: the hash table of the file cache, with the locale \<open>file_cache\<close> for what
    its clients rely on. The hash of a name is negative for about every second name, and then a lookup reads before
    the table; names of at most five characters are safe. \<open>Web_Lru\<close>: the doubly linked list for eviction, which the
    server never uses; the \<open>free\<close> of its strings and of the queue itself is not part of it.
  \<^item> \<open>Web_Request\<close>: \<open>request.c\<close> and \<open>do_server_request\<close>. A request is a run of \<open>worker_step\<close> through its
    \<open>place\<close>s, which are separated by the critical sections on the cache; \<open>serves\<close> interleaves any number of
    them. \<open>worker_run\<close> has the fuel 6 in \<open>do_server_request\<close>: the longest way through the places has
    six steps, and a finished request stays as it is, so no result depends on the bound.
  \<^item> \<open>Web_Wire\<close>: \<open>client_send\<close> and \<open>client_print\<close> of \<open>client.c\<close>, and that server and client understand each
    other. \<open>Web_Site\<close>: the workers together: only servable files are sent, the cache cannot be
    observed, every client is satisfied. \<open>Web_Errors\<close>: the refusals, each of which runs to the end of its page, and
    the name that is too long for the error page. \<open>Web_Fileset\<close>: \<open>fileset.c\<close> and the client's reading of its index; to open and
    write a file succeeds there.
  \<^item> \<open>Web_Whole\<close>: the loop of \<open>main\<close> of \<open>server.c\<close>, the monitor and the requests as one machine, the
    synchronised product of \<open>sstep\<close> and \<open>worker_step\<close>: when \<open>server_exit\<close> has returned everyone was served,
    and that can always be reached. \<open>Web_Client\<close>: the command lines, \<open>rand_int\<close> and the loop of
    \<open>client_request\<close>, and a whole session of \<open>fileset.c\<close>, client and server.
  \<^item> \<open>Web_Random\<close>: the Pareto and self-similar distributions and the whole \<open>main\<close> of \<open>fileset.c\<close>, with its options and the
    clearing of the directory: it ends, and makes the files that its index lists. \<open>Web_Sockets\<close>: the wrappers around system
    calls, the loop around \<open>gethostbyname_r\<close> that doubles its buffer, \<open>open_clientfd\<close> and \<open>open_listenfd\<close>, which meet at
    one address. \<open>Web_Main\<close>: \<open>main\<close> of \<open>server.c\<close> from its arguments, with the FIFO and the answers of \<open>poll\<close>, for a server
    without workers; \<open>main\<close> of \<open>client.c\<close> with its threads interleaved against the server. \<open>Web_Simple\<close>: \<open>client_simple.c\<close> and
    \<open>request_processfile\<close>. \<open>Web_Memory\<close>: the blocks that requests, the cache and \<open>server_exit\<close> allocate and free in any
    interleaving, as a model of its own in which the tests on contents are choices; an empty file leaves a NULL buffer,
    and its insertion into the cache is the one fault.
  \<^item> The theorems about the whole server (\<open>Web_Site\<close>, \<open>Web_Whole\<close>, \<open>Web_Main\<close>) are about good input. It is stated by
    \<open>clients_ok\<close>: files that can be read, are not empty and have no NUL byte, requests as the client sends them, for names that are servable
    and whose hash is not negative, and sockets that take the response. The array of the cache is what \<open>malloc\<close> returns; \<open>site_start\<close> is the
    case that its pointers are NULL. What the code does on other input is proved where it happens: \<open>Web_Errors\<close>, \<open>Web_Cache\<close>,
    and the theorems about empty files, files with NUL, truncated requests and \<open>max_requests\<close> 0.

  \<^bold>\<open>The other programs.\<close> \<open>Warmup_Wc\<close>: the hash table of \<open>wc.c\<close> counts words, where a
  word that ends in a space is followed by whatever memory holds behind its buffer, since no NUL is written.
  \<open>Warmup_WcHeap\<close>: its pointer code, which refines that table, exactly what \<open>wc_destroy\<close> frees and what it leaves allocated.
  \<open>Warmup_Cpr\<close>: \<open>cpr.c\<close> copies a tree; to open, \<open>mkdir\<close> and \<open>chmod\<close> succeed, and the joining of path names is left out. \<open>Warmup_Fact\<close>: \<open>fact.c\<close>. \<open>C_Double\<close> and
  \<open>Warmup_Point\<close>: rounded arithmetic and \<open>point.c\<close>. \<open>Pipe\<close>: \<open>pipe.c\<close> with the
  descriptor tables of its processes: no process waits for ever, the output is the composition of the commands, and the
  status is that of the first command that exits with one. A command is a function of its input that says how much of it is read, what is
  written and how the process ends; a command whose reader has stopped may end differently (\<open>broken\<close>). Since every command ends by itself
  on a finite input, the processes of the pipeline are run in the order of the data. \<open>Warmup_Small\<close>: \<open>hello.c\<close>, \<open>hi.c\<close> and \<open>words.c\<close>.

  \<^bold>\<open>Not modelled.\<close> The test programs \<open>test_*.c\<close>, which only call the library and compare what it returns; popt itself and
  system calls, whose answers are arguments; infinities and NaN of doubles; what programs print on the terminal, except
  where a theorem speaks of it; measured times; a \<open>malloc\<close> or \<open>pthread_create\<close> that fails, except where it is an argument; in \<open>fileset.c\<close> a symbolic link is
  taken as it was before the clearing began. The blocks of
  memory and the contents of requests are two models of the same functions, which are not composed.
\<close>

end
